(* ===== verification/Prelude.thy ===== *)
theory Prelude
  imports Complex_Main "HOL-Library.List_Lexorder" "HOL-Library.Char_ord"
begin

text \<open>
  Shared vocabulary of the development: Go's time arithmetic on \<open>int\<close> nanoseconds and
  milliseconds, \<open>strings.Cut\<close>, the in-place update of the first matching element of a
  slice, PostgreSQL's conditional upsert (the shape every monotone mark of the program is
  written with), and one ordered, limited page of a table (the shape every stream read has).
  The lemma collections \<open>slice_simps\<close>, \<open>upsert_simps\<close> and \<open>page_simps\<close> carry the
  component proofs.
\<close>

named_theorems slice_simps \<open>first match, in-place update and append on slices\<close>
named_theorems upsert_simps \<open>conditional upserts\<close>
named_theorems page_simps \<open>ordered, limited reads of a table\<close>

section \<open>Time\<close>

text \<open>
  A Go \<open>time.Time\<close> is an \<open>int\<close> of nanoseconds since the epoch and a \<open>time.Duration\<close>
  an \<open>int\<close> of nanoseconds; \<open>UnixMilli\<close> and \<open>Milliseconds\<close> divide them.
\<close>

type_synonym instant = int
type_synonym duration = int

abbreviation millisecond :: duration where "millisecond \<equiv> 1000000"
abbreviation second :: duration where "second \<equiv> 1000000000"
abbreviation minute :: duration where "minute \<equiv> 60000000000"
abbreviation hour :: duration where "hour \<equiv> 3600000000000"

definition unix_milli :: "instant \<Rightarrow> int" where
  "unix_milli t = t div millisecond"

text \<open>Go's integer division truncates towards zero.\<close>

definition go_div :: "int \<Rightarrow> int \<Rightarrow> int" where
  "go_div a b = sgn a * sgn b * (\<bar>a\<bar> div \<bar>b\<bar>)"

definition milliseconds :: "duration \<Rightarrow> int" where
  "milliseconds d = go_div d millisecond"

lemma milliseconds_nonneg: "0 \<le> d \<Longrightarrow> milliseconds d = d div millisecond"
  by (cases "d = 0") (auto simp: milliseconds_def go_div_def)

lemma milliseconds_mono: "0 \<le> a \<Longrightarrow> a \<le> b \<Longrightarrow> milliseconds a \<le> milliseconds b"
  by (simp add: milliseconds_nonneg zdiv_mono1)

lemma unix_milli_mono: "s \<le> t \<Longrightarrow> unix_milli s \<le> unix_milli t"
  by (simp add: unix_milli_def zdiv_mono1)

section \<open>Strings\<close>

text \<open>\<open>strings.Cut\<close> with a one-byte separator: before, after, found.\<close>

definition strings_cut :: "char \<Rightarrow> string \<Rightarrow> string \<times> string \<times> bool" where
  "strings_cut c s =
     (let before = takeWhile (\<lambda>x. x \<noteq> c) s
      in (before, drop (Suc (length before)) s, c \<in> set s))"

lemma strings_cut_found: "c \<notin> set a \<Longrightarrow> strings_cut c (a @ c # b) = (a, b, True)"
  by (auto simp: strings_cut_def Let_def takeWhile_append)

lemma strings_cut_missing: "c \<notin> set s \<Longrightarrow> strings_cut c s = (s, [], False)"
  by (induction s) (auto simp: strings_cut_def Let_def)

definition has_prefix :: "string \<Rightarrow> string \<Rightarrow> bool" where
  "has_prefix s p \<longleftrightarrow> take (length p) s = p"

text \<open>\<open>strings.Split\<close> with a one-byte separator.\<close>

fun split_on :: "char \<Rightarrow> string \<Rightarrow> string list" where
  "split_on c [] = [[]]"
| "split_on c (x # xs) = (if x = c then [] # split_on c xs
     else case split_on c xs of [] \<Rightarrow> [[x]] | w # ws \<Rightarrow> (x # w) # ws)"

lemma split_on_line: "c \<notin> set l \<Longrightarrow> split_on c (l @ c # rest) = l # split_on c rest"
  by (induction l) auto

lemma split_on_lines:
  "\<forall>l \<in> set ls. c \<notin> set l \<Longrightarrow> split_on c (concat (map (\<lambda>l. l @ [c]) ls)) = ls @ [[]]"
  by (induction ls) (simp_all add: split_on_line)

lemma split_on_none: "c \<notin> set s \<Longrightarrow> split_on c s = [s]"
  by (induction s) auto

section \<open>Slices\<close>

text \<open>
  The loops \<open>for i := range xs { if P(xs[i]) { xs[i] = f(xs[i]); return } }\<close>: the first match
  is rewritten where it stands; \<open>None\<close> when there is none.
\<close>

fun update_first :: "('a \<Rightarrow> bool) \<Rightarrow> ('a \<Rightarrow> 'a) \<Rightarrow> 'a list \<Rightarrow> 'a list option" where
  "update_first P f [] = None"
| "update_first P f (x # xs) =
     (if P x then Some (f x # xs) else map_option ((#) x) (update_first P f xs))"

definition update_first_or_append :: "('a \<Rightarrow> bool) \<Rightarrow> ('a \<Rightarrow> 'a) \<Rightarrow> 'a \<Rightarrow> 'a list \<Rightarrow> 'a list" where
  "update_first_or_append P f new xs =
     (case update_first P f xs of Some ys \<Rightarrow> ys | None \<Rightarrow> xs @ [new])"

text \<open>The first value a slice's elements offer.\<close>

fun first_some :: "('a \<Rightarrow> 'b option) \<Rightarrow> 'a list \<Rightarrow> 'b option" where
  "first_some g [] = None"
| "first_some g (x # xs) = (case g x of None \<Rightarrow> first_some g xs | Some y \<Rightarrow> Some y)"

lemma first_some_append [slice_simps]:
  "first_some g (xs @ ys) = (case first_some g xs of None \<Rightarrow> first_some g ys | Some y \<Rightarrow> Some y)"
  by (induction xs) (auto split: option.splits)

lemma update_first_None [slice_simps]: "update_first P f xs = None \<longleftrightarrow> (\<forall>x\<in>set xs. \<not> P x)"
  by (induction xs) auto

lemma update_first_SomeD:
  "update_first P f xs = Some ys \<Longrightarrow>
     \<exists>us x vs. xs = us @ x # vs \<and> ys = us @ f x # vs \<and> P x \<and> (\<forall>u\<in>set us. \<not> P u)"
proof (induction xs arbitrary: ys)
  case Nil
  then show ?case by simp
next
  case (Cons a xs)
  show ?case
  proof (cases "P a")
    case True
    with Cons.prems show ?thesis by (intro exI [of _ "[]"]) auto
  next
    case False
    with Cons.prems obtain zs where zs: "update_first P f xs = Some zs" and "ys = a # zs" by auto
    from Cons.IH [OF zs] obtain us x vs where
      "xs = us @ x # vs" "zs = us @ f x # vs" "P x" "\<forall>u\<in>set us. \<not> P u" by blast
    with False \<open>ys = a # zs\<close> show ?thesis by (intro exI [of _ "a # us"]) auto
  qed
qed

lemma update_first_or_append_cases:
  obtains (hit) us x vs where "xs = us @ x # vs" "P x" "\<forall>u\<in>set us. \<not> P u"
      "update_first_or_append P f new xs = us @ f x # vs"
    | (miss) "\<forall>x\<in>set xs. \<not> P x" "update_first_or_append P f new xs = xs @ [new]"
proof (cases "update_first P f xs")
  case None
  then have "\<forall>x\<in>set xs. \<not> P x" by (simp add: update_first_None)
  then show thesis by (rule miss) (simp add: update_first_or_append_def None)
next
  case (Some ys)
  from update_first_SomeD [OF this] obtain us x vs where
    "xs = us @ x # vs" "ys = us @ f x # vs" "P x" "\<forall>u\<in>set us. \<not> P u" by blast
  with Some show thesis by (intro hit [of us x vs]) (auto simp: update_first_or_append_def)
qed

lemma length_update_first_or_append:
  "length xs \<le> length (update_first_or_append P f new xs)"
  by (rule update_first_or_append_cases [of xs P f new]) auto

section \<open>Conditional upserts\<close>

text \<open>
  \<open>INSERT ... ON CONFLICT DO UPDATE SET v = EXCLUDED.v WHERE old.v < EXCLUDED.v\<close>: a mark
  that only moves forwards.
\<close>

definition upsert_max :: "'k \<Rightarrow> int \<Rightarrow> ('k \<rightharpoonup> int) \<Rightarrow> ('k \<rightharpoonup> int)" where
  "upsert_max k v m =
     (case m k of None \<Rightarrow> m(k \<mapsto> v) | Some old \<Rightarrow> if old < v then m(k \<mapsto> v) else m)"

lemma upsert_max_same [upsert_simps]:
  "upsert_max k v m k = Some (case m k of None \<Rightarrow> v | Some old \<Rightarrow> max old v)"
  by (auto simp: upsert_max_def max_def split: option.splits)

lemma upsert_max_other [upsert_simps]: "k' \<noteq> k \<Longrightarrow> upsert_max k v m k' = m k'"
  by (auto simp: upsert_max_def split: option.splits)

lemma upsert_max_apply:
  "upsert_max k v m k' =
     (if k' = k then Some (case m k of None \<Rightarrow> v | Some old \<Rightarrow> max old v) else m k')"
  by (simp add: upsert_simps)

lemma upsert_max_commute: "upsert_max k v (upsert_max k' v' m) = upsert_max k' v' (upsert_max k v m)"
proof
  fix x
  show "upsert_max k v (upsert_max k' v' m) x = upsert_max k' v' (upsert_max k v m) x"
    by (auto simp: upsert_max_apply max_def split: option.splits)
qed

lemma upsert_max_idem: "upsert_max k v (upsert_max k v m) = upsert_max k v m"
proof
  fix x
  show "upsert_max k v (upsert_max k v m) x = upsert_max k v m x"
    by (auto simp: upsert_max_apply split: option.splits)
qed

lemma upsert_max_monotone: "m k' = Some old \<Longrightarrow> \<exists>v'. upsert_max k v m k' = Some v' \<and> old \<le> v'"
  by (auto simp: upsert_max_apply)

section \<open>Pages\<close>

text \<open>
  \<open>SELECT ... WHERE lo < key AND key <= hi ORDER BY key LIMIT n\<close> over the rows of a table.
  The database leaves the order of rows with equal keys open; the model keeps their table
  order.
\<close>

definition page :: "('r \<Rightarrow> int) \<Rightarrow> int \<Rightarrow> int \<Rightarrow> nat \<Rightarrow> 'r list \<Rightarrow> 'r list" where
  "page key lo hi n rows = take n (sort_key key (filter (\<lambda>r. lo < key r \<and> key r \<le> hi) rows))"

lemma sorted_page [page_simps]: "sorted (map key (page key lo hi n rows))"
  unfolding page_def by (simp add: take_map [symmetric] sorted_wrt_take)

lemma length_page [page_simps]: "length (page key lo hi n rows) \<le> n"
  by (simp add: page_def)

lemma set_page_subset: "set (page key lo hi n rows) \<subseteq> {r \<in> set rows. lo < key r \<and> key r \<le> hi}"
  unfolding page_def using set_take_subset by fastforce

lemma distinct_page: "distinct rows \<Longrightarrow> distinct (page key lo hi n rows)"
  by (simp add: page_def)

lemma page_short:
  "length (page key lo hi n rows) < n \<Longrightarrow>
     set (page key lo hi n rows) = {r \<in> set rows. lo < key r \<and> key r \<le> hi}"
  by (auto simp: page_def min_def split: if_splits)

text \<open>A full page holds every row up to its last key, when no two rows share a key.\<close>

lemma page_full:
  assumes inj: "inj_on key (set rows)" and full: "length (page key lo hi n rows) = n" "0 < n"
  shows "set (page key lo hi n rows)
    = {r \<in> set rows. lo < key r \<and> key r \<le> key (last (page key lo hi n rows))}"
proof -
  let ?f = "filter (\<lambda>r. lo < key r \<and> key r \<le> hi) rows"
  let ?s = "sort_key key ?f"
  let ?p = "page key lo hi n rows"
  have p: "?p = take n ?s" by (simp add: page_def)
  have ne: "?p \<noteq> []" using full by auto
  have split: "?s = ?p @ drop n ?s" by (simp add: p)
  have "sorted (map key ?s)" by simp
  then have srt: "sorted (map key ?p @ map key (drop n ?s))"
    using split by (metis map_append)
  have lastle: "key x \<le> key (last ?p)" if "x \<in> set ?p" for x
  proof -
    have "sorted (map key ?p)" using srt by (simp add: sorted_append)
    then have "sorted (map key (butlast ?p) @ [key (last ?p)])"
      using ne by (metis append_butlast_last_id list.simps(8) list.simps(9) map_append)
    moreover from that ne have "x \<in> set (butlast ?p) \<or> x = last ?p"
      by (metis append_butlast_last_id in_set_conv_decomp_last set_ConsD UnE set_append empty_iff empty_set)
    ultimately show ?thesis by (auto simp: sorted_append)
  qed
  have rest: "key (last ?p) \<le> key x" if "x \<in> set (drop n ?s)" for x
    using srt that ne by (auto simp: sorted_append)
  have lastin: "last ?p \<in> {r \<in> set rows. lo < key r \<and> key r \<le> hi}"
    using set_page_subset ne by (metis last_in_set subsetD)
  show ?thesis
  proof (intro equalityI subsetI)
    fix x assume x: "x \<in> set ?p"
    then show "x \<in> {r \<in> set rows. lo < key r \<and> key r \<le> key (last ?p)}"
      using set_page_subset [of key lo hi n rows] lastle by auto
  next
    fix x assume x: "x \<in> {r \<in> set rows. lo < key r \<and> key r \<le> key (last ?p)}"
    then have "x \<in> set ?f" using lastin by auto
    then have "x \<in> set ?p \<or> x \<in> set (drop n ?s)"
    proof -
      from \<open>x \<in> set ?f\<close> have "x \<in> set ?s" by simp
      then have "x \<in> set (?p @ drop n ?s)" by (simp only: split [symmetric])
      then show ?thesis by (simp only: set_append Un_iff)
    qed
    moreover have "x \<in> set ?p" if "x \<in> set (drop n ?s)"
    proof -
      have "key x = key (last ?p)" using rest [OF that] x by simp
      then have "x = last ?p" using inj x lastin by (auto dest: inj_onD)
      then show ?thesis using ne by simp
    qed
    ultimately show "x \<in> set ?p" by blast
  qed
qed

end
