(* ===== verification/Retry.thy ===== *)
theory Retry
  imports Prelude
begin

text \<open>
  \<open>internal/retry/retry.go\<close>: the per-destination backoff (\<open>Limiter\<close>). A limiter is a
  record of its maps; every method is a function of the limiter, the clock readings it makes,
  the answers of the loader and the random draw, and returns the new limiter with the list of
  the calls it makes outwards (\<open>Persist\<close>, \<open>OnUp\<close>). Intervals are Go \<open>int64\<close> milliseconds;
  \<open>interval_le\<close> keeps them below the configured caps, so the additions of \<open>Due\<close> cannot wrap.
  \<open>float64\<close> is idealised as \<open>rat\<close>, with the conversion \<open>int64(grown)\<close> truncating.
\<close>

section \<open>Data\<close>

record timings =
  failure_ts :: int
  retry_last_ts :: int
  retry_interval :: int

definition zero_timings :: timings where
  "zero_timings = \<lparr>failure_ts = 0, retry_last_ts = 0, retry_interval = 0\<rparr>"

definition timings_due :: "timings \<Rightarrow> int \<Rightarrow> bool" where
  "timings_due t now_ms =
     (if retry_last_ts t = 0 then True else retry_last_ts t + retry_interval t \<le> now_ms)"

record retry_config =
  min_interval :: duration
  multiplier :: rat
  max_interval :: duration

text \<open>The loader answers \<open>None\<close> when the read failed.\<close>

type_synonym loader = "string list \<Rightarrow> (string \<rightharpoonup> timings) option"

record limiter =
  lim_cfg :: retry_config
  lim_load :: "loader option"
  lim_persists :: bool
  lim_state :: "string \<rightharpoonup> timings"
  lim_loaded :: "string set"
  lim_cooldown :: "string \<rightharpoonup> instant"
  lim_cooldown_for :: "string \<rightharpoonup> duration"
  lim_refused :: "string set"
  lim_on_up :: bool

datatype limiter_effect = Persist string timings | OnUp string

abbreviation state_of :: "limiter \<Rightarrow> string \<Rightarrow> timings" where
  "state_of l d \<equiv> (case lim_state l d of None \<Rightarrow> zero_timings | Some t \<Rightarrow> t)"

section \<open>Operations\<close>

definition new_limiter :: "retry_config \<Rightarrow> loader option \<Rightarrow> bool \<Rightarrow> limiter" where
  "new_limiter cfg load persists =
     \<lparr>lim_cfg =
        \<lparr>min_interval = (if min_interval cfg \<le> 0 then 10 * minute else min_interval cfg),
         multiplier = (if multiplier cfg \<le> 0 then 2 else multiplier cfg),
         max_interval = (if max_interval cfg \<le> 0 then 7 * 24 * hour else max_interval cfg)\<rparr>,
      lim_load = load, lim_persists = persists,
      lim_state = Map.empty, lim_loaded = {},
      lim_cooldown = Map.empty, lim_cooldown_for = Map.empty,
      lim_refused = {}, lim_on_up = False\<rparr>"

definition set_on_recovered :: "limiter \<Rightarrow> limiter" where
  "set_on_recovered l = l\<lparr>lim_on_up := True\<rparr>"

abbreviation rate_limit_base_cooldown :: duration where
  "rate_limit_base_cooldown \<equiv> 5 * second"

abbreviation rate_limit_max_cooldown :: duration where
  "rate_limit_max_cooldown \<equiv> 5 * minute"

definition rate_limit_wait :: "limiter \<Rightarrow> string \<Rightarrow> duration \<Rightarrow> duration" where
  "rate_limit_wait l d after =
     (let grown = (case lim_cooldown_for l d of None \<Rightarrow> 0 | Some c \<Rightarrow> c) * 2;
          wait = (if after \<le> 0
                  then if grown \<le> 0 then rate_limit_base_cooldown else grown
                  else after)
      in if wait > rate_limit_max_cooldown then rate_limit_max_cooldown else wait)"

definition rate_limited :: "instant \<Rightarrow> limiter \<Rightarrow> string \<Rightarrow> duration \<Rightarrow> limiter \<times> duration" where
  "rate_limited now l d after =
     (let wait = rate_limit_wait l d after
      in (l\<lparr>lim_cooldown_for := (lim_cooldown_for l)(d \<mapsto> wait),
            lim_cooldown := (lim_cooldown l)(d \<mapsto> now + wait)\<rparr>, wait))"

definition off_cooldown :: "instant \<Rightarrow> limiter \<Rightarrow> string \<Rightarrow> bool" where
  "off_cooldown now l d =
     (case lim_cooldown l d of None \<Rightarrow> True | Some until \<Rightarrow> \<not> now < until)"

definition seed :: "limiter \<Rightarrow> string \<Rightarrow> limiter \<times> timings" where
  "seed l d =
     (let t = (case lim_load l of
                 None \<Rightarrow> zero_timings
               | Some load \<Rightarrow>
                   (case load [d] of
                      None \<Rightarrow> zero_timings
                    | Some rows \<Rightarrow> (case rows d of None \<Rightarrow> zero_timings | Some r \<Rightarrow> r)));
          t' = (case lim_state l d of None \<Rightarrow> t | Some s \<Rightarrow> s)
      in (l\<lparr>lim_state := (lim_state l)(d \<mapsto> t'), lim_loaded := insert d (lim_loaded l)\<rparr>, t'))"

text \<open>
  \<open>DueWithin\<close> reads the clock twice: once for the backoff (\<open>now\<close>) and once in \<open>offCooldown\<close>
  (\<open>now'\<close>).
\<close>

definition due_within :: "instant \<Rightarrow> instant \<Rightarrow> limiter \<Rightarrow> string \<Rightarrow> duration \<Rightarrow> limiter \<times> bool" where
  "due_within now now' l d slack =
     (let known = lim_state l d; seeded = d \<in> lim_loaded l
      in if seeded \<and> known = None then (l, off_cooldown now' l d)
         else let (l', t) = (if seeded then (l, the known) else seed l d)
              in if \<not> timings_due t (unix_milli now + milliseconds slack) then (l', False)
                 else (l', off_cooldown now' l' d))"

definition due :: "instant \<Rightarrow> instant \<Rightarrow> limiter \<Rightarrow> string \<Rightarrow> limiter \<times> bool" where
  "due now now' l d = due_within now now' l d 0"

definition success :: "limiter \<Rightarrow> string \<Rightarrow> limiter \<times> limiter_effect list" where
  "success l d =
     (let previous = state_of l d;
          l' = l\<lparr>lim_state := (lim_state l)(d \<mapsto> zero_timings),
                 lim_loaded := insert d (lim_loaded l),
                 lim_cooldown := (lim_cooldown l)(d := None),
                 lim_cooldown_for := (lim_cooldown_for l)(d := None),
                 lim_refused := lim_refused l - {d}\<rparr>
      in if retry_interval previous = 0 \<and> retry_last_ts previous = 0 then (l', [])
         else (l', (if lim_persists l then [Persist d zero_timings] else [])
                   @ (if lim_on_up l then [OnUp d] else [])))"

definition go_trunc :: "rat \<Rightarrow> int" where
  "go_trunc x = (if x < 0 then \<lceil>x\<rceil> else \<lfloor>x\<rfloor>)"

text \<open>\<open>u\<close> is the value of \<open>rand.Float64()\<close>, in the half-open unit interval.\<close>

definition grow :: "retry_config \<Rightarrow> rat \<Rightarrow> int \<Rightarrow> int" where
  "grow cfg u interval =
     (let grown = of_int interval * multiplier cfg * (8/10 + u * (6/10));
          mx = of_int (milliseconds (max_interval cfg))
      in go_trunc (if grown > mx then mx else grown))"

definition failed_timings :: "retry_config \<Rightarrow> rat \<Rightarrow> int \<Rightarrow> timings \<Rightarrow> timings" where
  "failed_timings cfg u now_ms t =
     \<lparr>failure_ts = (if failure_ts t = 0 then now_ms else failure_ts t),
      retry_last_ts = now_ms,
      retry_interval = (if retry_interval t > 0 then grow cfg u (retry_interval t)
                        else milliseconds (min_interval cfg))\<rparr>"

definition fail_with ::
  "instant \<Rightarrow> rat \<Rightarrow> limiter \<Rightarrow> string \<Rightarrow> bool \<Rightarrow> limiter \<times> timings \<times> limiter_effect list" where
  "fail_with now u l d refused =
     (let t = failed_timings (lim_cfg l) u (unix_milli now) (state_of l d)
      in (l\<lparr>lim_refused := (if refused then insert d (lim_refused l) else lim_refused l - {d}),
            lim_state := (lim_state l)(d \<mapsto> t),
            lim_loaded := insert d (lim_loaded l)\<rparr>,
          t, if lim_persists l then [Persist d t] else []))"

definition failure where "failure now u l d = fail_with now u l d False"
definition refused where "refused now u l d = fail_with now u l d True"

abbreviation refused_max_interval :: duration where "refused_max_interval \<equiv> hour"

definition recovered :: "limiter \<Rightarrow> string \<Rightarrow> limiter \<times> limiter_effect list" where
  "recovered l d =
     (let t = state_of l d
      in if retry_interval t = 0 \<and> retry_last_ts t = 0 then (l, [])
         else if d \<in> lim_refused l then
           (if retry_interval t > milliseconds refused_max_interval
            then let t' = t\<lparr>retry_interval := milliseconds refused_max_interval\<rparr>
                 in (l\<lparr>lim_state := (lim_state l)(d \<mapsto> t')\<rparr>,
                     if lim_persists l then [Persist d t'] else [])
            else (l, []))
         else (l\<lparr>lim_state := (lim_state l)(d \<mapsto> zero_timings),
                 lim_loaded := insert d (lim_loaded l)\<rparr>,
               (if lim_persists l then [Persist d zero_timings] else [])
               @ (if lim_on_up l then [OnUp d] else [])))"

text \<open>\<open>Backoff\<close> counts the destinations of the map that are not due.\<close>

definition backoff_count :: "int \<Rightarrow> limiter \<Rightarrow> nat" where
  "backoff_count now_ms l =
     card {d \<in> dom (lim_state l). \<not> timings_due (the (lim_state l d)) now_ms}"

section \<open>Basic facts\<close>

lemmas limiter_defs = success_def fail_with_def failure_def refused_def recovered_def Let_def

lemma zero_timings_simps [simp]:
  "failure_ts zero_timings = 0" "retry_last_ts zero_timings = 0" "retry_interval zero_timings = 0"
  by (simp_all add: zero_timings_def)

lemma zero_timings_due [simp]: "timings_due zero_timings n"
  by (simp add: timings_due_def)

lemma go_trunc_of_int [simp]: "go_trunc (of_int k) = k"
  by (simp add: go_trunc_def)

lemma go_trunc_floor: "0 \<le> x \<Longrightarrow> go_trunc x = \<lfloor>x\<rfloor>"
  by (simp add: go_trunc_def)

text \<open>The growth of one failure: between 0.8 and 1.4 times the multiplier, cut at the cap.\<close>

lemma grow_bounds:
  assumes "0 < i" "0 \<le> multiplier cfg" "0 \<le> u" "u < 1" "0 \<le> max_interval cfg"
  shows "grow cfg u i \<le> milliseconds (max_interval cfg)"
    and "of_int (grow cfg u i) \<le> of_int i * multiplier cfg * (14/10)"
    and "min (milliseconds (max_interval cfg)) \<lfloor>of_int i * multiplier cfg * (8/10)\<rfloor> \<le> grow cfg u i"
    and "0 \<le> grow cfg u i"
proof -
  let ?b = "of_int i * multiplier cfg"
  let ?g = "?b * (8/10 + u * (6/10))"
  let ?m = "milliseconds (max_interval cfg)"
  have b: "0 \<le> ?b" using assms by simp
  have lo: "?b * (8/10) \<le> ?g" using b assms by (intro mult_left_mono) auto
  have hi: "?g \<le> ?b * (14/10)" using b assms by (intro mult_left_mono) auto
  have "0 \<le> ?b * (8/10)" using b by simp
  from this lo have g: "0 \<le> ?g" by (rule order_trans)
  have m: "0 \<le> ?m" using assms by (simp add: milliseconds_nonneg)
  have val: "grow cfg u i = (if ?g > of_int ?m then ?m else \<lfloor>?g\<rfloor>)"
    using g by (simp add: grow_def Let_def go_trunc_floor)
  show "grow cfg u i \<le> ?m" unfolding val using floor_mono [of ?g "of_int ?m"] by auto
  show "of_int (grow cfg u i) \<le> ?b * (14/10)"
    unfolding val using hi order_trans [OF of_int_floor_le hi] by auto
  show "min ?m \<lfloor>?b * (8/10)\<rfloor> \<le> grow cfg u i"
    unfolding val using floor_mono [OF lo] by (auto simp: min_le_iff_disj)
  show "0 \<le> grow cfg u i" unfolding val using g m by auto
qed

text \<open>With a multiplier of at least 5/4 no draw of the jitter shrinks the interval.\<close>

lemma grow_no_shrink:
  assumes "0 < i" "5/4 \<le> multiplier cfg" "0 \<le> u" "u < 1" "0 \<le> max_interval cfg"
    and "i \<le> milliseconds (max_interval cfg)"
  shows "i \<le> grow cfg u i"
proof -
  have "of_int i * (5/4) * (8/10) \<le> of_int i * multiplier cfg * (8/10)"
    using assms by (intro mult_right_mono mult_left_mono) auto
  then have "i \<le> \<lfloor>of_int i * multiplier cfg * (8/10)\<rfloor>" by (simp add: le_floor_iff)
  moreover have "min (milliseconds (max_interval cfg)) \<lfloor>of_int i * multiplier cfg * (8/10)\<rfloor>
      \<le> grow cfg u i"
    using assms by (intro grow_bounds) auto
  ultimately show ?thesis using assms by linarith
qed

lemma fail_with_state [simp]:
  "state_of (fst (fail_with now u l d r)) d = failed_timings (lim_cfg l) u (unix_milli now) (state_of l d)"
  "lim_cfg (fst (fail_with now u l d r)) = lim_cfg l"
  "fst (snd (fail_with now u l d r)) = failed_timings (lim_cfg l) u (unix_milli now) (state_of l d)"
  by (simp_all add: fail_with_def Let_def)

section \<open>A run of failures\<close>

fun fail_run :: "(instant \<times> rat \<times> bool) list \<Rightarrow> limiter \<Rightarrow> string \<Rightarrow> limiter" where
  "fail_run [] l d = l"
| "fail_run ((now, u, r) # fs) l d = fail_run fs (fst (fail_with now u l d r)) d"

definition sane_config :: "retry_config \<Rightarrow> bool" where
  "sane_config cfg \<longleftrightarrow> millisecond \<le> min_interval cfg \<and> min_interval cfg \<le> max_interval cfg
     \<and> 5/4 \<le> multiplier cfg"

definition draws_ok :: "(instant \<times> rat \<times> bool) list \<Rightarrow> bool" where
  "draws_ok fs \<longleftrightarrow> (\<forall>(now, u, r) \<in> set fs. millisecond \<le> now \<and> 0 \<le> u \<and> u < 1)"

lemma fail_run_append: "fail_run (fs @ gs) l d = fail_run gs (fail_run fs l d) d"
  by (induction fs l d rule: fail_run.induct) auto

lemma lim_cfg_fail_run [simp]: "lim_cfg (fail_run fs l d) = lim_cfg l"
  by (induction fs l d rule: fail_run.induct) auto

lemma sane_config_ms:
  assumes "sane_config cfg"
  shows "1 \<le> milliseconds (min_interval cfg)"
    "milliseconds (min_interval cfg) \<le> milliseconds (max_interval cfg)"
    "0 \<le> max_interval cfg"
proof -
  have le: "millisecond \<le> min_interval cfg" "min_interval cfg \<le> max_interval cfg"
    using assms by (auto simp: sane_config_def)
  have "milliseconds millisecond = 1" by (simp add: milliseconds_nonneg)
  then show "1 \<le> milliseconds (min_interval cfg)"
    using milliseconds_mono [of millisecond "min_interval cfg"] le by simp
  show "milliseconds (min_interval cfg) \<le> milliseconds (max_interval cfg)"
    using le by (intro milliseconds_mono) auto
  show "0 \<le> max_interval cfg" using le by simp
qed

lemma unix_milli_pos: "millisecond \<le> now \<Longrightarrow> 0 < unix_milli now"
  using zdiv_mono1 [of millisecond now millisecond] by (simp add: unix_milli_def)

lemma failed_timings_step:
  fixes n :: int
  assumes cfg: "sane_config cfg" and u: "0 \<le> u" "u < 1"
    and i: "retry_interval t = 0 \<or> milliseconds (min_interval cfg) \<le> retry_interval t
        \<and> retry_interval t \<le> milliseconds (max_interval cfg)"
  defines "t' \<equiv> failed_timings cfg u n t"
  shows "milliseconds (min_interval cfg) \<le> retry_interval t'"
    and "retry_interval t' \<le> milliseconds (max_interval cfg)"
    and "retry_interval t \<le> retry_interval t'"
proof -
  note ms = sane_config_ms [OF cfg]
  show "milliseconds (min_interval cfg) \<le> retry_interval t'"
    using i grow_no_shrink [of "retry_interval t" cfg u] ms u cfg
    by (auto simp: t'_def failed_timings_def sane_config_def)
  show "retry_interval t' \<le> milliseconds (max_interval cfg)"
    using i ms u cfg grow_bounds(1) [of "retry_interval t" cfg u]
    by (auto simp: t'_def failed_timings_def sane_config_def)
  show "retry_interval t \<le> retry_interval t'"
    using i grow_no_shrink [of "retry_interval t" cfg u] ms u cfg
    by (auto simp: t'_def failed_timings_def sane_config_def)
qed

lemma fail_run_interval:
  assumes cfg: "sane_config (lim_cfg l)" and ok: "draws_ok fs"
    and i: "retry_interval (state_of l d) = 0
        \<or> milliseconds (min_interval (lim_cfg l)) \<le> retry_interval (state_of l d)
          \<and> retry_interval (state_of l d) \<le> milliseconds (max_interval (lim_cfg l))"
    and ne: "fs \<noteq> []"
  shows "milliseconds (min_interval (lim_cfg l)) \<le> retry_interval (state_of (fail_run fs l d) d)
    \<and> retry_interval (state_of (fail_run fs l d) d) \<le> milliseconds (max_interval (lim_cfg l))
    \<and> retry_interval (state_of l d) \<le> retry_interval (state_of (fail_run fs l d) d)"
  using cfg ok i ne
proof (induction fs l d rule: fail_run.induct)
  case (1 l d)
  then show ?case by simp
next
  case (2 now u r fs l d)
  from 2 have u: "0 \<le> u" "u < 1" and ok: "draws_ok fs" by (auto simp: draws_ok_def)
  note step = failed_timings_step [OF 2(2) u 2(4), of "unix_milli now"]
  show ?case
  proof (cases "fs = []")
    case True
    with step show ?thesis by simp
  next
    case False
    from 2(1) [OF _ ok _ False] 2(2) step show ?thesis by (auto intro: order_trans)
  qed
qed

lemma fail_run_failure_ts:
  "failure_ts (state_of l d) \<noteq> 0 \<Longrightarrow> failure_ts (state_of (fail_run fs l d) d) = failure_ts (state_of l d)"
  by (induction fs l d rule: fail_run.induct) (auto simp: failed_timings_def)

lemma fail_run_snoc_last:
  "retry_last_ts (state_of (fail_run (fs @ [(now, u, r)]) l d) d) = unix_milli now"
  by (simp add: fail_run_append failed_timings_def)

text \<open>Whatever the configuration given, the one a limiter works with is positive.\<close>

lemma new_limiter_positive:
  assumes "cfg = lim_cfg (new_limiter given load persists)"
  shows "0 < min_interval cfg" "0 < multiplier cfg" "0 < max_interval cfg"
  using assms by (simp_all add: new_limiter_def)

definition longest_interval :: "retry_config \<Rightarrow> int" where
  "longest_interval cfg = max (milliseconds (min_interval cfg)) (milliseconds (max_interval cfg))"

lemma failed_interval_cap:
  assumes "0 < min_interval cfg" "0 < multiplier cfg" "0 < max_interval cfg" "0 \<le> u" "u < 1" "0 \<le> retry_interval t"
  shows "0 \<le> retry_interval (failed_timings cfg u n t) \<and> retry_interval (failed_timings cfg u n t) \<le> longest_interval cfg"
  using assms grow_bounds(1,4) [of "retry_interval t" cfg u]
  by (auto simp: failed_timings_def longest_interval_def milliseconds_nonneg le_max_iff_disj)

lemma fail_run_cap:
  assumes "0 < min_interval (lim_cfg l)" "0 < multiplier (lim_cfg l)" "0 < max_interval (lim_cfg l)" "draws_ok fs"
    and "0 \<le> retry_interval (state_of l d)" "retry_interval (state_of l d) \<le> longest_interval (lim_cfg l)"
  shows "0 \<le> retry_interval (state_of (fail_run fs l d) d) \<and> retry_interval (state_of (fail_run fs l d) d) \<le> longest_interval (lim_cfg l)"
  using assms
proof (induction fs l d rule: fail_run.induct)
  case (2 now u r fs l d)
  then have u: "0 \<le> u" "u < 1" and ok: "draws_ok fs" by (auto simp: draws_ok_def)
  note step = failed_interval_cap [OF 2(2-4) u 2(6), of "unix_milli now"]
  from 2(1) 2(2-4) ok step show ?case by simp
qed simp

text \<open>
  C6. A run of failures on a destination that was not backing off, with any configuration a limiter
  can be built from and at any times from the first millisecond after the epoch on. The start of
  the outage is kept from the first failure and the last attempt is the last failure. The interval
  is never negative nor above the larger of the configured minimum and maximum. From an interval of
  zero a failure starts at the minimum; otherwise it grows it by the multiplier within the jitter
  of 0.8 to 1.4, cut at the maximum. If the multiplier is at least 5/4 and the minimum, of at least
  a millisecond, is not above the maximum, as in the defaults, no draw of the jitter takes the
  interval below the minimum or shrinks it; with a smaller multiplier it can shrink. The
  destination is due again exactly when the interval has passed since the last attempt.
\<close>

theorem failure_run:
  assumes "lim_cfg l = lim_cfg (new_limiter given load persists)" "state_of l d = zero_timings"
    and "draws_ok ((now0, u0, r0) # fs @ [(now, u, r)])"
  defines "cfg \<equiv> lim_cfg l" and "t0 \<equiv> state_of (fail_run ((now0, u0, r0) # fs) l d) d"
    and "t \<equiv> state_of (fail_run ((now0, u0, r0) # fs @ [(now, u, r)]) l d) d"
  shows "failure_ts t = unix_milli now0 \<and> retry_last_ts t = unix_milli now
    \<and> 0 \<le> retry_interval t0 \<and> 0 \<le> retry_interval t \<and> retry_interval t \<le> longest_interval cfg
    \<and> (retry_interval t0 = 0 \<longrightarrow> retry_interval t = milliseconds (min_interval cfg))
    \<and> (0 < retry_interval t0 \<longrightarrow>
         min (milliseconds (max_interval cfg)) \<lfloor>of_int (retry_interval t0) * multiplier cfg * (8/10)\<rfloor> \<le> retry_interval t
         \<and> retry_interval t \<le> milliseconds (max_interval cfg)
         \<and> of_int (retry_interval t) \<le> of_int (retry_interval t0) * multiplier cfg * (14/10))
    \<and> (sane_config cfg \<longrightarrow> milliseconds (min_interval cfg) \<le> retry_interval t0 \<and> retry_interval t0 \<le> retry_interval t)
    \<and> (\<forall>n. timings_due t n \<longleftrightarrow> unix_milli now + retry_interval t \<le> n)"
proof -
  have "millisecond \<le> now0" "millisecond \<le> now" using assms(3) by (auto simp: draws_ok_def)
  note pos = this [THEN unix_milli_pos] and given = new_limiter_positive [OF assms(1)]
  have "failure_ts (state_of (fst (fail_with now0 u0 l d r0)) d) = unix_milli now0"
    using assms(2) by (simp add: failed_timings_def)
  then have f: "failure_ts t = unix_milli now0"
    using pos fail_run_failure_ts [of "fst (fail_with now0 u0 l d r0)" d "fs @ [(now, u, r)]"]
    by (simp add: t_def)
  have last: "retry_last_ts t = unix_milli now"
    using fail_run_snoc_last [of "(now0, u0, r0) # fs" now u r l d] by (simp add: t_def)
  have ok: "draws_ok ((now0, u0, r0) # fs)" "draws_ok [(now, u, r)]" "0 \<le> u" "u < 1"
    using assms(3) by (auto simp: draws_ok_def)
  have start: "0 \<le> retry_interval (state_of l d)" "retry_interval (state_of l d) \<le> longest_interval (lim_cfg l)"
    using assms(2) given by (simp_all add: longest_interval_def milliseconds_nonneg le_max_iff_disj pos_imp_zdiv_nonneg_iff)
  have cap: "0 \<le> retry_interval t0" "0 \<le> retry_interval t \<and> retry_interval t \<le> longest_interval cfg"
    using fail_run_cap [OF given ok(1) start] fail_run_cap [OF given assms(3) start] by (simp_all add: t0_def t_def cfg_def)
  have t: "t = failed_timings cfg u (unix_milli now) t0"
    using fail_run_append [of "(now0, u0, r0) # fs" "[(now, u, r)]" l d] by (simp add: t_def t0_def cfg_def)
  have grown: "0 < retry_interval t0 \<longrightarrow> min (milliseconds (max_interval cfg)) \<lfloor>of_int (retry_interval t0) * multiplier cfg * (8/10)\<rfloor> \<le> retry_interval t
         \<and> retry_interval t \<le> milliseconds (max_interval cfg) \<and> of_int (retry_interval t) \<le> of_int (retry_interval t0) * multiplier cfg * (14/10)"
    using grow_bounds(1-3) [of "retry_interval t0" cfg u] given ok(3,4) by (simp add: t failed_timings_def cfg_def)
  have sane: "milliseconds (min_interval cfg) \<le> retry_interval t0 \<and> retry_interval t0 \<le> retry_interval t" if s: "sane_config cfg"
  proof -
    have i0: "milliseconds (min_interval cfg) \<le> retry_interval t0 \<and> retry_interval t0 \<le> milliseconds (max_interval cfg)"
      using fail_run_interval [OF s [unfolded cfg_def] ok(1), of d] assms(2) by (simp add: t0_def cfg_def)
    then show ?thesis using failed_timings_step(3) [OF s ok(3,4)] by (simp add: t)
  qed
  have "timings_due t n \<longleftrightarrow> unix_milli now + retry_interval t \<le> n" for n using last pos by (simp add: timings_due_def)
  moreover have "retry_interval t0 = 0 \<longrightarrow> retry_interval t = milliseconds (min_interval cfg)" by (simp add: t failed_timings_def)
  ultimately show ?thesis using f last cap grown sane by blast
qed

definition sample_retry_config :: retry_config where
  "sample_retry_config = \<lparr>min_interval = 10 * minute, multiplier = 2, max_interval = 7 * 24 * hour\<rparr>"

theorem failure_run_witness:
  "let l = new_limiter sample_retry_config None True;
       t = state_of (fail_run [(5 * second, 0, False), (20 * minute, 1/2, True)] l ''a.example'') ''a.example''
   in failure_ts t = 5000 \<and> 600000 \<le> retry_interval t \<and> retry_interval t \<le> 1680000 \<and> timings_due t (1200000 + retry_interval t)"
proof -
  let ?l = "new_limiter sample_retry_config None True"
  note F = failure_run [of ?l sample_retry_config None True "''a.example''" "5 * second" 0 False "[]" "20 * minute" "1/2" True]
  have "draws_ok ((5 * second, 0, False) # [] @ [(20 * minute, 1/2, True)])" "state_of ?l ''a.example'' = zero_timings" "sane_config (lim_cfg ?l)"
    by (simp_all add: draws_ok_def new_limiter_def sample_retry_config_def sane_config_def)
  moreover have "retry_interval (state_of (fail_run [(5 * second, 0, False)] ?l ''a.example'') ''a.example'') = 600000"
    "multiplier (lim_cfg ?l) = 2" "milliseconds (min_interval (lim_cfg ?l)) = 600000"
    using calculation(2) by (simp_all add: failed_timings_def new_limiter_def sample_retry_config_def milliseconds_def go_div_def)
  ultimately show ?thesis using F by (simp add: unix_milli_def Let_def)
qed

section \<open>Rate limiting\<close>

lemma rate_limit_wait_bounds: "0 < rate_limit_wait l d after \<and> rate_limit_wait l d after \<le> rate_limit_max_cooldown"
  by (auto simp: rate_limit_wait_def Let_def)

fun hintless_limits :: "instant list \<Rightarrow> limiter \<Rightarrow> string \<Rightarrow> limiter" where
  "hintless_limits [] l d = l"
| "hintless_limits (now # ns) l d = hintless_limits ns (fst (rate_limited now l d 0)) d"

lemma hintless_limits_snoc:
  "hintless_limits (ns @ [now]) l d = fst (rate_limited now (hintless_limits ns l d) d 0)"
  by (induction ns l d rule: hintless_limits.induct) auto

lemma hintless_closed_form:
  "lim_cooldown_for l d = None \<Longrightarrow> ns \<noteq> [] \<Longrightarrow>
     lim_cooldown_for (hintless_limits ns l d) d
       = Some (min (rate_limit_base_cooldown * 2 ^ (length ns - 1)) rate_limit_max_cooldown)"
proof (induction ns rule: rev_induct)
  case Nil
  then show ?case by simp
next
  case (snoc n ns)
  show ?case
  proof (cases ns)
    case Nil
    then show ?thesis using snoc.prems by (simp add: rate_limited_def rate_limit_wait_def)
  next
    case (Cons m ms)
    then have "lim_cooldown_for (hintless_limits ns l d) d
        = Some (min (rate_limit_base_cooldown * 2 ^ length ms) rate_limit_max_cooldown)"
      using snoc by simp
    then show ?thesis
      by (auto simp: Cons hintless_limits_snoc rate_limited_def rate_limit_wait_def Let_def min_def)
  qed
qed

text \<open>
  A 429 is not a failure: whatever hint it carries, \<open>RateLimited\<close> leaves the backoff of
  every destination, what is known of it and whether it refused us as they were; the wait is
  positive and at most five minutes, and the destination stays off limits for exactly that
  long, however much slack the caller asks for.
\<close>

theorem rate_limited_is_not_failure:
  "let (l', wait) = rate_limited now l d after
   in lim_state l' = lim_state l \<and> lim_loaded l' = lim_loaded l \<and> lim_refused l' = lim_refused l
    \<and> 0 < wait \<and> wait \<le> rate_limit_max_cooldown
    \<and> (snd (due_within t t' l' d slack) \<longleftrightarrow>
         now + wait \<le> t' \<and> (timings_due (snd (seed l' d)) (unix_milli t + milliseconds slack)
           \<or> d \<in> lim_loaded l \<and> lim_state l d = None))"
proof -
  let ?l = "fst (rate_limited now l d after)" and ?w = "rate_limit_wait l d after"
  have off: "off_cooldown t' ?l d \<longleftrightarrow> now + ?w \<le> t'"
    by (auto simp: off_cooldown_def rate_limited_def Let_def)
  have off_seed: "off_cooldown t' (fst (seed ?l d)) d \<longleftrightarrow> now + ?w \<le> t'"
    by (auto simp: off_cooldown_def rate_limited_def seed_def Let_def)
  have same: "lim_state ?l = lim_state l" "lim_loaded ?l = lim_loaded l"
    by (simp_all add: rate_limited_def Let_def)
  have "snd (due_within t t' ?l d slack) \<longleftrightarrow> now + ?w \<le> t'
      \<and> (timings_due (snd (seed ?l d)) (unix_milli t + milliseconds slack)
           \<or> d \<in> lim_loaded l \<and> lim_state l d = None)"
  proof (cases "d \<in> lim_loaded l")
    case True
    then show ?thesis
      by (cases "lim_state l d") (auto simp: due_within_def same off seed_def Let_def)
  next
    case False
    then show ?thesis
      by (auto simp: due_within_def same off_seed split_beta Let_def)
  qed
  then show ?thesis
    using rate_limit_wait_bounds [of l d after] by (auto simp: rate_limited_def Let_def)
qed

text \<open>
  Repeated 429s without a hint double the wait from five seconds up to five minutes, and a
  delivered transaction forgets it: the doubling never compounds into anything longer.
\<close>

theorem repeated_rate_limits:
  assumes "lim_cooldown_for l d = None" "ns \<noteq> []"
  shows "lim_cooldown_for (hintless_limits ns l d) d
      = Some (min (rate_limit_base_cooldown * 2 ^ (length ns - 1)) rate_limit_max_cooldown)
    \<and> lim_cooldown_for (fst (success (hintless_limits ns l d) d)) d = None
    \<and> snd (due t t' (fst (success (hintless_limits ns l d) d)) d)"
  using hintless_closed_form [OF assms]
  by (simp add: success_def Let_def due_def due_within_def off_cooldown_def)

theorem repeated_rate_limits_witness:
  "lim_cooldown_for (hintless_limits [1, 2, 3] (new_limiter sample_retry_config None False) ''a'') ''a''
     = Some (20 * second)"
  using repeated_rate_limits [of "new_limiter sample_retry_config None False" "''a''" "[1, 2, 3]"]
  by (simp add: new_limiter_def)

section \<open>REMOTE_SERVER_UP\<close>

text \<open>
  \<open>Recovered\<close> on a destination in a backoff: one that answered us with an error keeps its
  backoff, shortened to an hour at most, and nobody is woken; one that was silent is cleared,
  persisted as clear and announced. Either way it never waits longer than before.
\<close>

theorem recovered_refused_or_silent:
  assumes "retry_interval (state_of l d) \<noteq> 0 \<or> retry_last_ts (state_of l d) \<noteq> 0"
    and "0 \<le> retry_interval (state_of l d)"
  shows "let (l', effects) = recovered l d; t = state_of l d; t' = state_of l' d
    in (if d \<in> lim_refused l
        then t' = t\<lparr>retry_interval := min (retry_interval t) 3600000\<rparr> \<and> OnUp d \<notin> set effects
             \<and> (Persist d t' \<in> set effects \<longleftrightarrow> lim_persists l \<and> 3600000 < retry_interval t)
        else t' = zero_timings \<and> (OnUp d \<in> set effects \<longleftrightarrow> lim_on_up l)
             \<and> (Persist d zero_timings \<in> set effects \<longleftrightarrow> lim_persists l))
      \<and> retry_interval t' \<le> retry_interval t \<and> (\<forall>n. timings_due t n \<longrightarrow> timings_due t' n)"
  using assms
  by (auto simp: recovered_def Let_def milliseconds_nonneg timings_due_def min_def
      split: option.splits)

theorem recovered_refused_or_silent_witness:
  "let l = fst (refused (5 * second) 0 (new_limiter sample_retry_config None True) ''a'')
   in retry_interval (state_of (fst (recovered l ''a'')) ''a'') = 600000"
  using recovered_refused_or_silent
    [of "fst (refused (5 * second) 0 (new_limiter sample_retry_config None True) ''a'')" "''a''"]
  by (simp add: new_limiter_def sample_retry_config_def refused_def fail_with_def failed_timings_def
      Let_def milliseconds_nonneg recovered_def)

section \<open>What survives a restart\<close>

text \<open>
  The table behind the loader and the persister, as a map. Every writing operation of the
  limiter touches one destination, and leaves that destination's row equal to its state
  whenever the two agreed before: this is the contract the durability property rests on.
\<close>

fun apply_effects :: "limiter_effect list \<Rightarrow> (string \<rightharpoonup> timings) \<Rightarrow> (string \<rightharpoonup> timings)" where
  "apply_effects [] db = db"
| "apply_effects (Persist d t # es) db = apply_effects es (db(d \<mapsto> t))"
| "apply_effects (OnUp d # es) db = apply_effects es db"

definition row :: "(string \<rightharpoonup> timings) \<Rightarrow> string \<Rightarrow> timings" where
  "row db d = (case db d of None \<Rightarrow> zero_timings | Some t \<Rightarrow> t)"

text \<open>A zero row and a missing row, and any two rows \<open>Due\<close> cannot tell from never failed.\<close>

definition same_backoff :: "timings \<Rightarrow> timings \<Rightarrow> bool" where
  "same_backoff t t' \<longleftrightarrow> t = t' \<or>
     retry_interval t = 0 \<and> retry_last_ts t = 0 \<and> retry_interval t' = 0 \<and> retry_last_ts t' = 0"

definition coherent :: "(string \<rightharpoonup> timings) \<Rightarrow> limiter \<Rightarrow> bool" where
  "coherent db l \<longleftrightarrow> lim_persists l \<and> dom (lim_state l) = lim_loaded l
     \<and> (\<forall>d \<in> lim_loaded l. same_backoff (row db d) (state_of l d))"

lemma same_backoff_refl [simp]: "same_backoff t t"
  by (simp add: same_backoff_def)

lemma row_update [simp]: "row (db(d \<mapsto> t)) d' = (if d' = d then t else row db d')"
  by (simp add: row_def)

locale persisted_op =
  fixes run :: "limiter \<Rightarrow> string \<Rightarrow> limiter \<times> limiter_effect list"
  assumes frame_state: "d' \<noteq> d \<Longrightarrow> lim_state (fst (run l d)) d' = lim_state l d'"
    and frame_row: "d' \<noteq> d \<Longrightarrow> row (apply_effects (snd (run l d)) db) d' = row db d'"
    and loaded: "d \<in> lim_loaded l \<Longrightarrow> lim_loaded (fst (run l d)) = lim_loaded l"
    and known: "d \<in> dom (lim_state l) \<Longrightarrow> d \<in> dom (lim_state (fst (run l d)))"
    and persists: "lim_persists (fst (run l d)) = lim_persists l"
    and follows: "lim_persists l \<Longrightarrow> same_backoff (row db d) (state_of l d) \<Longrightarrow>
        same_backoff (row (apply_effects (snd (run l d)) db) d) (state_of (fst (run l d)) d)"
begin

lemma coherent_run:
  assumes c: "coherent db l" and d: "d \<in> lim_loaded l"
  shows "coherent (apply_effects (snd (run l d)) db) (fst (run l d))"
proof -
  let ?l = "fst (run l d)" and ?db = "apply_effects (snd (run l d)) db"
  have dom: "dom (lim_state l) = lim_loaded l" and p: "lim_persists l" using c by (auto simp: coherent_def)
  have "dom (lim_state ?l) = dom (lim_state l)"
  proof (rule set_eqI)
    fix x
    show "x \<in> dom (lim_state ?l) \<longleftrightarrow> x \<in> dom (lim_state l)"
      using known [of d l] frame_state [of x d l] d dom by (cases "x = d") (auto simp: domIff)
  qed
  moreover have "same_backoff (row ?db x) (state_of ?l x)" if "x \<in> lim_loaded l" for x
  proof (cases "x = d")
    case True
    have "same_backoff (row db d) (state_of l d)" using c d by (auto simp: coherent_def)
    then show ?thesis using follows [OF p] True by simp
  next
    case False
    then show ?thesis using c that frame_state [OF False] frame_row [OF False]
      by (auto simp: coherent_def)
  qed
  ultimately show ?thesis using loaded [OF d] dom persists p by (auto simp: coherent_def)
qed

end

interpretation succ_op: persisted_op success
  by unfold_locales
    (auto simp: success_def Let_def same_backoff_def row_def split: option.splits if_splits)

interpretation recovered_op: persisted_op recovered
  by unfold_locales
    (auto simp: recovered_def Let_def same_backoff_def row_def split: option.splits if_splits)

interpretation fail_op: persisted_op "\<lambda>l d. case fail_with now u l d r of (l', t, es) \<Rightarrow> (l', es)"
  for now u r
  by unfold_locales
    (auto simp: fail_with_def Let_def same_backoff_def row_def split: option.splits if_splits)

text \<open>
  A process: its limiter and the table, with the loader reading the table as it is at the
  call. \<open>Ask\<close> is \<open>DueWithin\<close>; the others are the calls the queue makes afterwards.
\<close>

datatype limiter_call =
    Ask string instant instant duration
  | Succeeded string
  | Failed string instant rat bool
  | Limited string instant duration
  | ServerUp string

fun call_dest :: "limiter_call \<Rightarrow> string" where
  "call_dest (Ask d _ _ _) = d"
| "call_dest (Succeeded d) = d"
| "call_dest (Failed d _ _ _) = d"
| "call_dest (Limited d _ _) = d"
| "call_dest (ServerUp d) = d"

definition read_rows :: "(string \<rightharpoonup> timings) \<Rightarrow> loader" where
  "read_rows db ds = Some (db |` set ds)"

fun limiter_call_step :: "limiter_call \<Rightarrow> (string \<rightharpoonup> timings) \<times> limiter \<Rightarrow> (string \<rightharpoonup> timings) \<times> limiter" where
  "limiter_call_step (Ask d now now' slack) (db, l) =
     (db, fst (due_within now now' (l\<lparr>lim_load := Some (read_rows db)\<rparr>) d slack))"
| "limiter_call_step (Succeeded d) (db, l) =
     (case success l d of (l', es) \<Rightarrow> (apply_effects es db, l'))"
| "limiter_call_step (Failed d now u r) (db, l) =
     (case fail_with now u l d r of (l', t, es) \<Rightarrow> (apply_effects es db, l'))"
| "limiter_call_step (Limited d now after) (db, l) = (db, fst (rate_limited now l d after))"
| "limiter_call_step (ServerUp d) (db, l) =
     (case recovered l d of (l', es) \<Rightarrow> (apply_effects es db, l'))"

text \<open>Every destination is asked about before anything is recorded about it.\<close>

fun asked_first :: "limiter_call list \<Rightarrow> (string \<rightharpoonup> timings) \<times> limiter \<Rightarrow> bool" where
  "asked_first [] w = True"
| "asked_first (c # cs) w =
     ((case c of Ask _ _ _ _ \<Rightarrow> True | Limited _ _ _ \<Rightarrow> True | _ \<Rightarrow> call_dest c \<in> lim_loaded (snd w))
      \<and> asked_first cs (limiter_call_step c w))"

definition run_calls :: "limiter_call list \<Rightarrow> (string \<rightharpoonup> timings) \<times> limiter \<Rightarrow> (string \<rightharpoonup> timings) \<times> limiter" where
  "run_calls cs w = fold limiter_call_step cs w"

lemma seed_value: "lim_load l = Some (read_rows db) \<Longrightarrow>
    snd (seed l d) = (case lim_state l d of None \<Rightarrow> row db d | Some t \<Rightarrow> t)"
  by (auto simp: seed_def Let_def read_rows_def row_def split: option.splits)

lemma coherent_seed:
  assumes c: "coherent db l" and load: "lim_load l = Some (read_rows db)"
  shows "coherent db (fst (seed l d))"
proof -
  have st: "lim_state (fst (seed l d)) = (lim_state l)(d \<mapsto> snd (seed l d))"
    "lim_loaded (fst (seed l d)) = insert d (lim_loaded l)" "lim_persists (fst (seed l d)) = lim_persists l"
    by (simp_all add: seed_def Let_def)
  have "same_backoff (row db d) (snd (seed l d))"
  proof (cases "lim_state l d")
    case (Some t)
    then have "d \<in> lim_loaded l" using c by (auto simp: coherent_def)
    then have "same_backoff (row db d) (state_of l d)" using c by (auto simp: coherent_def)
    then show ?thesis using Some seed_value [OF load, of d] by simp
  qed (simp add: seed_value [OF load])
  then show ?thesis using c by (auto simp: coherent_def st)
qed

lemma coherent_load [simp]: "coherent db (l\<lparr>lim_load := x\<rparr>) = coherent db l"
  by (simp add: coherent_def)

lemma due_within_limiter:
  "fst (due_within now now' l d slack) = l \<or> fst (due_within now now' l d slack) = fst (seed l d)"
  by (auto simp: due_within_def Let_def split: prod.splits)

lemma coherent_step:
  assumes c: "coherent db l" and ok: "asked_first [call] (db, l)"
  shows "case limiter_call_step call (db, l) of (db', l') \<Rightarrow> coherent db' l'"
proof (cases call)
  case (Ask d now now' slack)
  let ?l = "l\<lparr>lim_load := Some (read_rows db)\<rparr>"
  from due_within_limiter [of now now' ?l d slack] coherent_seed [of db ?l d] c Ask
  show ?thesis by auto
next
  case (Succeeded d)
  with succ_op.coherent_run [OF c, of d] ok show ?thesis by (simp add: split_beta)
next
  case (Failed d now u r)
  with fail_op.coherent_run [OF c, of d now u r] ok show ?thesis by (simp add: split_beta)
next
  case (Limited d now after)
  with c show ?thesis by (auto simp: coherent_def rate_limited_def Let_def)
next
  case (ServerUp d)
  with recovered_op.coherent_run [OF c, of d] ok show ?thesis by (simp add: split_beta)
qed

lemma coherent_calls:
  "coherent db l \<Longrightarrow> asked_first cs (db, l) \<Longrightarrow> run_calls cs (db, l) = (db', l') \<Longrightarrow> coherent db' l'"
proof (induction cs arbitrary: db l)
  case Nil
  then show ?case by (simp add: run_calls_def)
next
  case (Cons c cs)
  obtain db1 l1 where step: "limiter_call_step c (db, l) = (db1, l1)" by force
  from Cons.prems(2) have "asked_first [c] (db, l)" and rest: "asked_first cs (db1, l1)"
    by (auto simp: step)
  with coherent_step [OF Cons.prems(1)] step have "coherent db1 l1" by fastforce
  from Cons.IH [OF this rest] Cons.prems(3) show ?case by (simp add: run_calls_def step)
qed

text \<open>
  A restart forgets nothing. After any sequence of calls in which every destination is
  asked about before an outcome is recorded for it (what the send loop does), a new process
  reading the table the old one wrote finds every destination in the backoff the old process
  would have answered with.
\<close>

theorem restart_keeps_backoff:
  assumes "asked_first cs (db0, new_limiter cfg (Some (read_rows db0)) True)"
    and "run_calls cs (db0, new_limiter cfg (Some (read_rows db0)) True) = (db, l)"
  shows "same_backoff (snd (seed (new_limiter cfg (Some (read_rows db)) True) d))
      (snd (seed (l\<lparr>lim_load := Some (read_rows db)\<rparr>) d))"
proof -
  have "coherent db0 (new_limiter cfg (Some (read_rows db0)) True)"
    by (simp add: coherent_def new_limiter_def)
  from coherent_calls [OF this assms] have c: "coherent db l" .
  have "snd (seed (new_limiter cfg (Some (read_rows db)) True) d) = row db d"
    using seed_value [of "new_limiter cfg (Some (read_rows db)) True" db d]
    by (simp add: new_limiter_def)
  moreover have "snd (seed (l\<lparr>lim_load := Some (read_rows db)\<rparr>) d)
      = (case lim_state l d of None \<Rightarrow> row db d | Some t \<Rightarrow> t)"
    using seed_value [of "l\<lparr>lim_load := Some (read_rows db)\<rparr>" db d] by simp
  ultimately show ?thesis using c by (auto simp: coherent_def split: option.splits)
qed

theorem restart_keeps_backoff_witness:
  "\<exists>db l. run_calls [Ask ''a'' 0 0 0, Failed ''a'' (5 * second) 0 False]
        (Map.empty, new_limiter sample_retry_config (Some (read_rows Map.empty)) True) = (db, l)
      \<and> same_backoff (snd (seed (new_limiter sample_retry_config (Some (read_rows db)) True) ''a''))
          (snd (seed (l\<lparr>lim_load := Some (read_rows db)\<rparr>) ''a''))"
proof -
  let ?w = "(Map.empty, new_limiter sample_retry_config (Some (read_rows Map.empty)) True)"
  let ?cs = "[Ask ''a'' 0 0 0, Failed ''a'' (5 * second) 0 False]"
  have "asked_first ?cs ?w"
    by (simp add: new_limiter_def due_within_def seed_def Let_def)
  moreover obtain db l where "run_calls ?cs ?w = (db, l)" by force
  ultimately show ?thesis using restart_keeps_backoff by blast
qed

text \<open>
  What asking first excludes: \<open>REMOTE_SERVER_UP\<close> for a destination this process has not
  asked about does nothing at all, so the backoff the table holds is read afterwards as if
  nobody had seen the server; and a read failure is remembered as "never failed".
\<close>

theorem server_up_before_asking:
  assumes "d \<notin> dom (lim_state l)"
  shows "recovered l d = (l, [])
    \<and> (lim_load l = Some (read_rows db) \<longrightarrow> snd (seed (fst (recovered l d)) d) = row db d)
    \<and> (\<forall>load load'. lim_load l = Some load \<longrightarrow> load [d] = None \<longrightarrow>
         snd (seed (fst (seed l d)\<lparr>lim_load := Some load'\<rparr>) d) = zero_timings
         \<and> d \<in> lim_loaded (fst (seed l d)))"
proof -
  have none: "lim_state l d = None" using assms by (simp add: domIff)
  then show ?thesis using seed_value [of l db d]
    by (auto simp: recovered_def seed_def Let_def)
qed

theorem server_up_before_asking_witness:
  "recovered (new_limiter sample_retry_config None True) ''a'' = (new_limiter sample_retry_config None True, [])"
  using server_up_before_asking [of "''a''" "new_limiter sample_retry_config None True" Map.empty]
  by (simp add: new_limiter_def)

end
