(* ===== verification/Queue.thy ===== *)
theory Queue
  imports Prelude "HOL-Library.AList"
begin

text \<open>
  \<open>internal/queue/queue.go\<close> and \<open>ephemeral.go\<close>: one remote server's queue, its data and the
  critical sections of its methods. Each definition is what runs under \<open>d.mu\<close> in the method
  of the same name; \<open>QueueLoop\<close> composes them into the goroutines.

  A Go map is an association list with distinct keys, written with \<open>AList.update\<close>. A raw JSON
  message is a \<open>string\<close>; \<open>json.Marshal\<close> fails exactly on a raw message that is not valid
  JSON, and otherwise its result is determined by the value, which \<open>content\<close> keeps unprinted.
\<close>

section \<open>Data\<close>

type_synonym raw_message = string

datatype content =
    Raw raw_message
  | ReceiptBody "(string \<times> (string \<times> (string \<times> raw_message) list) list) list"
  | PresencePush "raw_message list"

record txn_edu =
  edu_type :: string
  edu_content :: content

abbreviation "EDUTypeDirectToDevice \<equiv> ''m.direct_to_device''"
abbreviation "EDUTypeDeviceListUpdate \<equiv> ''m.device_list_update''"
abbreviation "EDUTypeSigningKeyUpdate \<equiv> ''m.signing_key_update''"
abbreviation "EDUTypeUnstableSigningKeyUpdate \<equiv> ''org.matrix.signing_key_update''"
abbreviation "EDUTypePresence \<equiv> ''m.presence''"
abbreviation "EDUTypeReceipt \<equiv> ''m.receipt''"
abbreviation "EDUTypeTyping \<equiv> ''m.typing''"

record receipt_entry =
  thread_id :: string
  receipt_content :: raw_message

type_synonym receipt_map = "(string \<times> (string \<times> (string \<times> receipt_entry) list) list) list"

record presence_entry =
  pe_user :: string
  pe_encode :: "int \<Rightarrow> raw_message"

type_synonym presence_map = "(string \<times> presence_entry) list"

text \<open>\<open>None\<close> for the two maps is Go's \<open>nil\<close>.\<close>

record edu =
  unit_of :: txn_edu
  to_device_upto :: int
  device_list_upto :: int
  edu_key :: string
  receipts :: "receipt_map option"
  presence :: "presence_map option"

record pdu =
  event_id :: string
  stream_ordering :: int
  pdu_json :: raw_message

record limits =
  max_pdus :: int
  max_edus :: int

record batch_config =
  max_states :: int
  max_wait :: duration

record destination =
  d_name :: string
  d_limits :: limits
  pending_pdus :: "pdu list"
  pending_edus :: "edu list"
  running :: bool
  new_data :: bool
  catching_up :: bool
  catchup_last_skipped :: int
  last_successful :: int
  last_known :: bool
  outage_logged :: bool
  d_batch :: batch_config
  held_since :: "instant option"
  hold_timer :: bool

abbreviation max_presence_states :: nat where "max_presence_states \<equiv> 50"

section \<open>Construction and enqueueing\<close>

definition plain_edu :: "txn_edu \<Rightarrow> edu" where
  "plain_edu u = \<lparr>unit_of = u, to_device_upto = 0, device_list_upto = 0, edu_key = [],
     receipts = None, presence = None\<rparr>"

definition new_destination :: "string \<Rightarrow> limits \<Rightarrow> batch_config \<Rightarrow> destination" where
  "new_destination name lims batch =
     \<lparr>d_name = name,
      d_limits = \<lparr>max_pdus = (if max_pdus lims \<le> 0 then 50 else max_pdus lims),
                  max_edus = (if max_edus lims \<le> 0 then 100 else max_edus lims)\<rparr>,
      pending_pdus = [], pending_edus = [], running = False, new_data = False,
      catching_up = True, catchup_last_skipped = 0, last_successful = 0, last_known = False,
      outage_logged = False, d_batch = batch, held_since = None, hold_timer = False\<rparr>"

definition enqueue_pdu :: "pdu \<Rightarrow> destination \<Rightarrow> destination" where
  "enqueue_pdu p d =
     (if catching_up d \<and> last_known d
      then if stream_ordering p > catchup_last_skipped d
           then d\<lparr>catchup_last_skipped := stream_ordering p\<rparr> else d
      else d\<lparr>pending_pdus := pending_pdus d @ [p], new_data := True\<rparr>)"

definition enqueue_marked_edu :: "edu \<Rightarrow> destination \<Rightarrow> destination" where
  "enqueue_marked_edu e d = d\<lparr>pending_edus := pending_edus d @ [e], new_data := True\<rparr>"

definition enqueue_edu :: "txn_edu \<Rightarrow> destination \<Rightarrow> destination" where
  "enqueue_edu u d = enqueue_marked_edu (plain_edu u) d"

text \<open>The loops over \<open>pendingEDUs\<close>, as functions of the slice.\<close>

definition put_keyed :: "string \<Rightarrow> txn_edu \<Rightarrow> edu list \<Rightarrow> edu list" where
  "put_keyed key u es =
     update_first_or_append (\<lambda>e. edu_key e = key \<and> edu_type (unit_of e) = edu_type u)
       (\<lambda>e. e\<lparr>unit_of := u\<rparr>) ((plain_edu u)\<lparr>edu_key := key\<rparr>) es"

definition enqueue_keyed_edu :: "string \<Rightarrow> txn_edu \<Rightarrow> destination \<Rightarrow> destination" where
  "enqueue_keyed_edu key u d =
     d\<lparr>pending_edus := put_keyed key u (pending_edus d), new_data := True\<rparr>"

definition alist_get :: "('k \<times> 'v list) list \<Rightarrow> 'k \<Rightarrow> 'v list" where
  "alist_get m k = (case map_of m k of None \<Rightarrow> [] | Some v \<Rightarrow> v)"

definition receipt_slot :: "receipt_map \<Rightarrow> string \<Rightarrow> string \<Rightarrow> string \<Rightarrow> receipt_entry option" where
  "receipt_slot m room rtype user = map_of (alist_get (alist_get m room) rtype) user"

definition put_slot :: "string \<Rightarrow> string \<Rightarrow> string \<Rightarrow> receipt_entry \<Rightarrow> receipt_map \<Rightarrow> receipt_map" where
  "put_slot room rtype user r m =
     (let by_type = alist_get m room; by_user = alist_get by_type rtype
      in AList.update room (AList.update rtype (AList.update user r by_user) by_type) m)"

definition new_receipt_edu :: "string \<Rightarrow> string \<Rightarrow> string \<Rightarrow> receipt_entry \<Rightarrow> edu" where
  "new_receipt_edu room rtype user r =
     (plain_edu \<lparr>edu_type = EDUTypeReceipt, edu_content = Raw []\<rparr>)
       \<lparr>receipts := Some [(room, [(rtype, [(user, r)])])]\<rparr>"

definition is_receipt_edu :: "edu \<Rightarrow> bool" where
  "is_receipt_edu e \<longleftrightarrow> edu_type (unit_of e) = EDUTypeReceipt \<and> receipts e \<noteq> None"

fun put_receipt :: "string \<Rightarrow> string \<Rightarrow> string \<Rightarrow> receipt_entry \<Rightarrow> edu list \<Rightarrow> edu list" where
  "put_receipt room rtype user r [] = [new_receipt_edu room rtype user r]"
| "put_receipt room rtype user r (e # es) =
     (if \<not> is_receipt_edu e then e # put_receipt room rtype user r es
      else case receipt_slot (the (receipts e)) room rtype user of
             None \<Rightarrow> e\<lparr>receipts := Some (put_slot room rtype user r (the (receipts e)))\<rparr> # es
           | Some existing \<Rightarrow>
               if thread_id existing = thread_id r
               then e\<lparr>receipts := Some (put_slot room rtype user r (the (receipts e)))\<rparr> # es
               else e # put_receipt room rtype user r es)"

definition enqueue_receipt ::
  "string \<Rightarrow> string \<Rightarrow> string \<Rightarrow> string \<Rightarrow> raw_message \<Rightarrow> destination \<Rightarrow> destination" where
  "enqueue_receipt room rtype user thread c d =
     d\<lparr>pending_edus := put_receipt room rtype user \<lparr>thread_id = thread, receipt_content = c\<rparr> (pending_edus d),
       new_data := True\<rparr>"

definition is_presence_edu :: "edu \<Rightarrow> bool" where
  "is_presence_edu e \<longleftrightarrow> edu_type (unit_of e) = EDUTypePresence \<and> presence e \<noteq> None"

fun put_presence :: "presence_entry \<Rightarrow> edu list \<Rightarrow> edu list" where
  "put_presence p [] =
     [(plain_edu \<lparr>edu_type = EDUTypePresence, edu_content = Raw []\<rparr>)\<lparr>presence := Some [(pe_user p, p)]\<rparr>]"
| "put_presence p (e # es) =
     (if \<not> is_presence_edu e then e # put_presence p es
      else let m = the (presence e)
           in if map_of m (pe_user p) = None \<and> length m \<ge> max_presence_states
              then e # put_presence p es
              else e\<lparr>presence := Some (AList.update (pe_user p) p m)\<rparr> # es)"

definition enqueue_presence :: "presence_entry \<Rightarrow> destination \<Rightarrow> destination" where
  "enqueue_presence p d = d\<lparr>pending_edus := put_presence p (pending_edus d), new_data := True\<rparr>"

section \<open>Materialising\<close>

text \<open>\<open>sort.Strings\<close> on a map's keys, and the order \<open>json.Marshal\<close> prints a map in.\<close>

definition by_key :: "(string \<times> 'v) list \<Rightarrow> (string \<times> 'v) list" where
  "by_key m = sort_key fst m"

definition receipt_body :: "receipt_map \<Rightarrow> (string \<times> (string \<times> (string \<times> raw_message) list) list) list" where
  "receipt_body m = by_key (map (\<lambda>(room, by_type).
     (room, by_key (map (\<lambda>(rtype, by_user).
       (rtype, by_key (map (\<lambda>(user, r). (user, receipt_content r)) by_user))) by_type))) m)"

definition materialise_presence :: "(raw_message \<Rightarrow> bool) \<Rightarrow> int \<Rightarrow> presence_map \<Rightarrow> txn_edu option" where
  "materialise_presence valid now_ms m =
     (let push = map (\<lambda>(u, p). pe_encode p now_ms) (by_key m)
      in if list_all valid push
         then Some \<lparr>edu_type = EDUTypePresence, edu_content = PresencePush push\<rparr> else None)"

definition materialise :: "(raw_message \<Rightarrow> bool) \<Rightarrow> int \<Rightarrow> edu \<Rightarrow> txn_edu option" where
  "materialise valid now_ms e =
     (case presence e of
        Some m \<Rightarrow> materialise_presence valid now_ms m
      | None \<Rightarrow>
          (case receipts e of
             None \<Rightarrow> Some (unit_of e)
           | Some m \<Rightarrow>
               (let body = receipt_body m
                in if list_all (\<lambda>(_, ts). list_all (\<lambda>(_, us). list_all (\<lambda>(_, c). valid c) us) ts) body
                   then Some \<lparr>edu_type = EDUTypeReceipt, edu_content = ReceiptBody body\<rparr>
                   else None)))"

section \<open>The transmission loop's critical sections\<close>

definition pending :: "destination \<Rightarrow> nat \<times> nat" where
  "pending d = (length (pending_pdus d), length (pending_edus d))"

definition peek_edus :: "(raw_message \<Rightarrow> bool) \<Rightarrow> int \<Rightarrow> destination \<Rightarrow> txn_edu list" where
  "peek_edus valid now_ms d = List.map_filter (materialise valid now_ms) (pending_edus d)"

definition try_start :: "destination \<Rightarrow> destination \<times> bool" where
  "try_start d = (if running d then (d\<lparr>new_data := True\<rparr>, False) else (d\<lparr>running := True\<rparr>, True))"

definition claim :: "destination \<Rightarrow> destination \<times> bool" where
  "claim d = (if running d then (d, False) else (d\<lparr>running := True\<rparr>, True))"

text \<open>The critical section of \<open>releaseClaim\<close>; the flag says whether \<open>wake\<close> is called after it.\<close>

definition release_claim :: "destination \<Rightarrow> destination \<times> bool" where
  "release_claim d = (d\<lparr>running := False\<rparr>, new_data d)"

definition release :: "destination \<Rightarrow> destination" where
  "release d = d\<lparr>running := False\<rparr>"

record taken =
  t_pdus :: "pdu list"
  t_edus :: "txn_edu list"
  t_to_device_upto :: int
  t_device_list_upto :: int

fun materialise_all :: "(raw_message \<Rightarrow> bool) \<Rightarrow> int \<Rightarrow> edu list \<Rightarrow> taken \<Rightarrow> taken option" where
  "materialise_all valid now_ms [] t = Some t"
| "materialise_all valid now_ms (e # es) t =
     (case materialise valid now_ms e of
        None \<Rightarrow> None
      | Some u \<Rightarrow> materialise_all valid now_ms es
          (t\<lparr>t_edus := t_edus t @ [u],
             t_to_device_upto := max (t_to_device_upto t) (to_device_upto e),
             t_device_list_upto := max (t_device_list_upto t) (device_list_upto e)\<rparr>))"

definition take_locked :: "(raw_message \<Rightarrow> bool) \<Rightarrow> int \<Rightarrow> destination \<Rightarrow> taken option" where
  "take_locked valid now_ms d =
     materialise_all valid now_ms (take (nat (max_edus (d_limits d))) (pending_edus d))
       \<lparr>t_pdus = take (nat (max_pdus (d_limits d))) (pending_pdus d), t_edus = [],
        t_to_device_upto = 0, t_device_list_upto = 0\<rparr>"

definition ephemeral_edu :: "edu \<Rightarrow> bool" where
  "ephemeral_edu e \<longleftrightarrow> to_device_upto e = 0 \<and> device_list_upto e = 0"

definition drop_ephemeral_edus :: "destination \<Rightarrow> destination \<times> nat" where
  "drop_ephemeral_edus d =
     (d\<lparr>pending_edus := filter (\<lambda>e. \<not> ephemeral_edu e) (pending_edus d)\<rparr>,
      length (filter ephemeral_edu (pending_edus d)))"

definition hold_for_locked :: "instant \<Rightarrow> destination \<Rightarrow> destination \<times> duration" where
  "hold_for_locked now d =
     (if max_wait (d_batch d) \<le> 0 \<or> max_states (d_batch d) \<le> 0 then (d, 0)
      else if pending_pdus d \<noteq> [] \<or> pending_edus d = [] then (d, 0)
      else if list_ex (\<lambda>e. presence e = None) (pending_edus d) then (d, 0)
      else if int (sum_list (map (\<lambda>e. length (the (presence e))) (pending_edus d)))
                \<ge> max_states (d_batch d) then (d, 0)
      else let since = (case held_since d of None \<Rightarrow> now | Some t \<Rightarrow> t);
               remaining = max_wait (d_batch d) - (now - since)
           in (d\<lparr>held_since := Some since\<rparr>, if remaining > 0 then remaining else 0))"

text \<open>Returns whether a timer for \<open>wait\<close> was started; \<open>Manager\<close> always sets \<open>wake\<close>.\<close>

definition schedule_flush_locked :: "destination \<Rightarrow> destination \<times> bool" where
  "schedule_flush_locked d = (if hold_timer d then (d, False) else (d\<lparr>hold_timer := True\<rparr>, True))"

text \<open>\<open>s[n:]\<close> panics when \<open>n\<close> exceeds the length.\<close>

definition dequeue :: "nat \<Rightarrow> nat \<Rightarrow> destination \<Rightarrow> destination option" where
  "dequeue pdus edus d =
     (if pdus \<le> length (pending_pdus d) \<and> edus \<le> length (pending_edus d)
      then Some (d\<lparr>pending_pdus := drop pdus (pending_pdus d),
                   pending_edus := drop edus (pending_edus d)\<rparr>)
      else None)"

text \<open>
  The section of \<open>Run\<close> between the gate and the send: clear \<open>newData\<close>, hold presence back, or
  take a batch.
\<close>

datatype loop_take = Hold duration | EncodeError | Take taken

definition loop_section :: "(raw_message \<Rightarrow> bool) \<Rightarrow> instant \<Rightarrow> destination \<Rightarrow> destination \<times> loop_take" where
  "loop_section valid now d =
     (let d1 = d\<lparr>outage_logged := False, new_data := False\<rparr>;
          (d2, wait) = hold_for_locked now d1
      in if wait > 0 then (fst (schedule_flush_locked d2), Hold wait)
         else let d3 = d2\<lparr>held_since := None\<rparr>
              in (d3, case take_locked valid (unix_milli now) d3 of None \<Rightarrow> EncodeError | Some t \<Rightarrow> Take t))"

definition mark_success :: "pdu list \<Rightarrow> destination \<Rightarrow> destination" where
  "mark_success pdus d =
     (if pdus \<noteq> [] \<and> stream_ordering (last pdus) > last_successful d
      then d\<lparr>last_successful := stream_ordering (last pdus)\<rparr> else d)"

section \<open>Catch-up\<close>

definition set_last_successful :: "int \<Rightarrow> destination \<Rightarrow> destination" where
  "set_last_successful v d =
     (if v > last_successful d then d\<lparr>last_successful := v, last_known := True\<rparr>
      else d\<lparr>last_known := True\<rparr>)"

definition finish_catch_up :: "destination \<Rightarrow> destination" where
  "finish_catch_up d = d\<lparr>catching_up := False\<rparr>"

definition restart_catch_up :: "destination \<Rightarrow> destination" where
  "restart_catch_up d = d\<lparr>catching_up := True, pending_pdus := []\<rparr>"

definition take_catch_up_skipped :: "destination \<Rightarrow> destination \<times> int" where
  "take_catch_up_skipped d = (d\<lparr>catchup_last_skipped := 0\<rparr>, catchup_last_skipped d)"

text \<open>The section of \<open>SendCatchUp\<close> after a delivered transaction.\<close>

definition mark_caught_up :: "pdu \<Rightarrow> destination \<Rightarrow> destination" where
  "mark_caught_up p d =
     (if stream_ordering p > last_successful d
      then d\<lparr>last_successful := stream_ordering p, last_known := True\<rparr> else d)"

section \<open>Rejected events\<close>

text \<open>\<open>strings.NewReplacer("-", "+", "_", "/")\<close> on every byte.\<close>

definition standard_base64 :: "string \<Rightarrow> string" where
  "standard_base64 s = map (\<lambda>c. if c = CHR ''-'' then CHR ''+''
                                else if c = CHR ''_'' then CHR ''/'' else c) s"

definition same_event_id :: "string \<Rightarrow> string \<Rightarrow> bool" where
  "same_event_id a b \<longleftrightarrow> standard_base64 a = standard_base64 b"

text \<open>\<open>room_id_of\<close> is \<open>gjson.GetBytes(json, "room_id").String()\<close>.\<close>

definition room_of :: "(raw_message \<Rightarrow> string) \<Rightarrow> pdu list \<Rightarrow> string \<Rightarrow> string" where
  "room_of room_id_of pdus eid =
     (case find (\<lambda>p. event_id p = eid \<or> same_event_id (event_id p) eid) pdus of
        Some p \<Rightarrow> room_id_of (pdu_json p)
      | None \<Rightarrow> (case pdus of [p] \<Rightarrow> room_id_of (pdu_json p) | _ \<Rightarrow> ''unknown''))"

end
