(* ===== verification/Merging.thy ===== *)
theory Merging
  imports Queue
begin

text \<open>
  What the merging queues of \<open>queue.go\<close> and \<open>ephemeral.go\<close> hold: typing is keyed and
  clobbered, receipts are merged by slot and thread, presence by user in EDUs of at most fifty
  states, and marked units are only appended. The locale \<open>last_writer\<close> is the contract the
  three merging kinds share, with its consequences for any mixed sequence of arrivals; the
  interpretations prove it for the code's own loops.
\<close>

named_theorems merge_simps \<open>what one arrival does to each kind's view\<close>

section \<open>Arrivals\<close>

datatype arrival =
    KeyedArrival string txn_edu
  | ReceiptArrival string string string string raw_message
  | PresenceArrival presence_entry
  | MarkedArrival edu

fun arrive :: "arrival \<Rightarrow> edu list \<Rightarrow> edu list" where
  "arrive (KeyedArrival key u) es = put_keyed key u es"
| "arrive (ReceiptArrival room rtype user thread c) es =
     put_receipt room rtype user \<lparr>thread_id = thread, receipt_content = c\<rparr> es"
| "arrive (PresenceArrival p) es = put_presence p es"
| "arrive (MarkedArrival e) es = es @ [e]"

fun arrival_op :: "arrival \<Rightarrow> destination \<Rightarrow> destination" where
  "arrival_op (KeyedArrival key u) d = enqueue_keyed_edu key u d"
| "arrival_op (ReceiptArrival room rtype user thread c) d = enqueue_receipt room rtype user thread c d"
| "arrival_op (PresenceArrival p) d = enqueue_presence p d"
| "arrival_op (MarkedArrival e) d = enqueue_marked_edu e d"

lemma pending_arrival [merge_simps]: "pending_edus (arrival_op a d) = arrive a (pending_edus d)"
  by (cases a) (simp_all add: enqueue_keyed_edu_def enqueue_receipt_def enqueue_presence_def
      enqueue_marked_edu_def)

text \<open>Typing keys are never empty; a unit queued as marked has no key and merges nothing.\<close>

fun arrival_ok :: "arrival \<Rightarrow> bool" where
  "arrival_ok (KeyedArrival key u) = (key \<noteq> [])"
| "arrival_ok (ReceiptArrival room rtype user thread c) = True"
| "arrival_ok (PresenceArrival p) = True"
| "arrival_ok (MarkedArrival e) = (edu_key e = [] \<and> receipts e = None \<and> presence e = None)"

section \<open>The contract\<close>

locale last_writer =
  fixes own :: "arrival \<Rightarrow> ('k \<times> 'v) option"
    and view :: "edu list \<Rightarrow> 'k \<rightharpoonup> 'v"
    and inv :: "edu list \<Rightarrow> bool"
  assumes view_nil: "view [] = Map.empty"
    and inv_nil: "inv []"
    and own_arrival: "arrival_ok a \<Longrightarrow> inv es \<Longrightarrow> own a = Some (k, v) \<Longrightarrow>
        view (arrive a es) = (view es)(k \<mapsto> v)"
    and other_arrival: "arrival_ok a \<Longrightarrow> own a = None \<Longrightarrow> view (arrive a es) = view es"
    and inv_arrival: "arrival_ok a \<Longrightarrow> inv es \<Longrightarrow> inv (arrive a es)"
    and inv_drop: "inv es \<Longrightarrow> inv (drop n es)"
begin

lemma inv_arrivals: "list_all arrival_ok as \<Longrightarrow> inv es \<Longrightarrow> inv (fold arrive as es)"
  by (induction as arbitrary: es) (auto intro: inv_arrival)

lemma view_arrivals:
  "list_all arrival_ok as \<Longrightarrow> inv es \<Longrightarrow>
     view (fold arrive as es) = view es ++ map_of (rev (List.map_filter own as))"
proof (induction as arbitrary: es)
  case Nil
  then show ?case by simp
next
  case (Cons a as)
  then have ok: "arrival_ok a" "list_all arrival_ok as" and inv: "inv (arrive a es)"
    by (auto intro: inv_arrival)
  show ?case
  proof (cases "own a")
    case None
    with Cons.IH [OF ok(2) inv] other_arrival [OF ok(1) None] show ?thesis
      by (simp add: List.map_filter_simps)
  next
    case (Some kv)
    obtain k v where kv: "kv = (k, v)" by force
    have "view (fold arrive (a # as) es) = view (arrive a es) ++ map_of (rev (List.map_filter own as))"
      using Cons.IH [OF ok(2) inv] by simp
    also have "view (arrive a es) = (view es)(k \<mapsto> v)"
      using own_arrival [OF ok(1) Cons.prems(2)] Some kv by blast
    finally show ?thesis
      by (intro ext) (auto simp: List.map_filter_simps Some kv map_add_def split: option.splits)
  qed
qed

lemma view_from_empty:
  "list_all arrival_ok as \<Longrightarrow> view (fold arrive as []) = map_of (rev (List.map_filter own as))"
  by (simp add: view_arrivals inv_nil view_nil)

end

section \<open>Keyed units\<close>

definition keyed_pairs :: "edu list \<Rightarrow> ((string \<times> string) \<times> content) list" where
  "keyed_pairs es = map (\<lambda>e. ((edu_key e, edu_type (unit_of e)), edu_content (unit_of e)))
     (filter (\<lambda>e. edu_key e \<noteq> []) es)"

definition keyed_view :: "edu list \<Rightarrow> (string \<times> string) \<rightharpoonup> content" where
  "keyed_view es = map_of (keyed_pairs es)"

definition keyed_inv :: "edu list \<Rightarrow> bool" where
  "keyed_inv es \<longleftrightarrow> distinct (map fst (keyed_pairs es))"

fun keyed_own :: "arrival \<Rightarrow> ((string \<times> string) \<times> content) option" where
  "keyed_own (KeyedArrival key u) = Some ((key, edu_type u), edu_content u)"
| "keyed_own a = None"

lemma put_keyed_simps:
  "put_keyed key u [] = [(plain_edu u)\<lparr>edu_key := key\<rparr>]"
  "put_keyed key u (e # es) =
     (if edu_key e = key \<and> edu_type (unit_of e) = edu_type u then e\<lparr>unit_of := u\<rparr> # es
      else e # put_keyed key u es)"
  by (auto simp: put_keyed_def update_first_or_append_def split: option.splits)

lemma keyed_pairs_simps [simp]:
  "keyed_pairs [] = []"
  "keyed_pairs (e # es) = (if edu_key e \<noteq> []
     then ((edu_key e, edu_type (unit_of e)), edu_content (unit_of e)) # keyed_pairs es
     else keyed_pairs es)"
  "keyed_pairs (es @ fs) = keyed_pairs es @ keyed_pairs fs"
  by (simp_all add: keyed_pairs_def)

lemma keyed_pairs_put_keyed [merge_simps]:
  "key \<noteq> [] \<Longrightarrow>
     keyed_pairs (put_keyed key u es) = AList.update (key, edu_type u) (edu_content u) (keyed_pairs es)"
  by (induction es) (auto simp: put_keyed_simps plain_edu_def)

lemma keyed_pairs_put_receipt [merge_simps]: "keyed_pairs (put_receipt room rtype user r es) = keyed_pairs es"
  by (induction es) (auto simp: new_receipt_edu_def plain_edu_def split: option.splits)

lemma keyed_pairs_put_presence [merge_simps]: "keyed_pairs (put_presence p es) = keyed_pairs es"
  by (induction es) (auto simp: plain_edu_def Let_def)

lemma distinct_keyed_drop: "distinct (map fst (keyed_pairs es)) \<Longrightarrow> distinct (map fst (keyed_pairs (drop n es)))"
proof -
  assume "distinct (map fst (keyed_pairs es))"
  moreover have "keyed_pairs es = keyed_pairs (take n es) @ keyed_pairs (drop n es)"
    by (metis append_take_drop_id keyed_pairs_simps(3))
  ultimately show ?thesis by simp
qed

interpretation keyed: last_writer keyed_own keyed_view keyed_inv
proof
  fix a :: arrival and es k v
  assume ok: "arrival_ok a"
  show "keyed_own a = Some (k, v) \<Longrightarrow> keyed_view (arrive a es) = (keyed_view es)(k \<mapsto> v)"
    using ok by (cases a) (auto simp: keyed_view_def merge_simps update_conv)
  show "keyed_own a = None \<Longrightarrow> keyed_view (arrive a es) = keyed_view es"
    using ok by (cases a) (auto simp: keyed_view_def merge_simps)
  show "keyed_inv es \<Longrightarrow> keyed_inv (arrive a es)"
    using ok by (cases a) (auto simp: keyed_inv_def merge_simps distinct_update)
qed (auto simp: keyed_view_def keyed_inv_def distinct_keyed_drop)

section \<open>Presence\<close>

definition presence_maps :: "edu list \<Rightarrow> presence_map list" where
  "presence_maps es = map (\<lambda>e. the (presence e)) (filter is_presence_edu es)"

definition presence_view :: "edu list \<Rightarrow> string \<rightharpoonup> presence_entry" where
  "presence_view es u = first_some (\<lambda>m. map_of m u) (presence_maps es)"

text \<open>Full EDUs before the last one, no user twice.\<close>

fun presence_maps_ok :: "presence_map list \<Rightarrow> bool" where
  "presence_maps_ok [] = True"
| "presence_maps_ok (m # ms) =
     (distinct (map fst m) \<and> length m \<le> max_presence_states
      \<and> (ms \<noteq> [] \<longrightarrow> length m = max_presence_states)
      \<and> list_all (\<lambda>m'. fst ` set m \<inter> fst ` set m' = {}) ms \<and> presence_maps_ok ms)"

definition presence_inv :: "edu list \<Rightarrow> bool" where
  "presence_inv es \<longleftrightarrow> presence_maps_ok (presence_maps es)"

fun presence_own :: "arrival \<Rightarrow> (string \<times> presence_entry) option" where
  "presence_own (PresenceArrival p) = Some (pe_user p, p)"
| "presence_own a = None"

fun put_map :: "presence_entry \<Rightarrow> presence_map list \<Rightarrow> presence_map list" where
  "put_map p [] = [[(pe_user p, p)]]"
| "put_map p (m # ms) =
     (if map_of m (pe_user p) = None \<and> length m \<ge> max_presence_states then m # put_map p ms
      else AList.update (pe_user p) p m # ms)"

lemma presence_maps_simps [simp]:
  "presence_maps [] = []"
  "presence_maps (e # es) = (if is_presence_edu e then the (presence e) # presence_maps es else presence_maps es)"
  "presence_maps (es @ fs) = presence_maps es @ presence_maps fs"
  by (simp_all add: presence_maps_def)

lemma presence_maps_put_presence [merge_simps]:
  "presence_maps (put_presence p es) = put_map p (presence_maps es)"
  by (induction es) (auto simp: is_presence_edu_def plain_edu_def Let_def)

lemma presence_maps_put_keyed [merge_simps]: "presence_maps (put_keyed key u es) = presence_maps es"
  by (induction es) (auto simp: put_keyed_simps is_presence_edu_def plain_edu_def)

lemma presence_maps_put_receipt [merge_simps]:
  "presence_maps (put_receipt room rtype user r es) = presence_maps es"
  by (induction es)
    (auto simp: is_presence_edu_def is_receipt_edu_def new_receipt_edu_def plain_edu_def split: option.splits)

lemma first_some_put_map:
  "first_some (\<lambda>m. map_of m u) (put_map p ms)
     = (if u = pe_user p then Some p else first_some (\<lambda>m. map_of m u) ms)"
  by (induction ms) (auto simp: update_conv split: option.splits)

lemma length_update:
  "length (AList.update k v m) = (if k \<in> fst ` set m then length m else Suc (length m))"
  by (induction m) (auto simp: image_iff)

lemma keys_update: "fst ` set (AList.update k v m) = insert k (fst ` set m)"
  by (induction m) auto

lemma keys_put_map:
  "m' \<in> set (put_map p ms) \<Longrightarrow> x \<in> fst ` set m' \<Longrightarrow> x = pe_user p \<or> (\<exists>m \<in> set ms. x \<in> fst ` set m)"
proof (induction ms)
  case Nil
  then show ?case by simp
next
  case (Cons m ms)
  then consider "m' = m" | "m' \<in> set (put_map p ms)" | "m' \<in> set ms" | "m' = AList.update (pe_user p) p m"
    by (auto split: if_splits)
  then show ?case using Cons by cases (auto simp: keys_update simp del: put_map.simps)
qed

lemma presence_maps_ok_put_map: "presence_maps_ok ms \<Longrightarrow> presence_maps_ok (put_map p ms)"
proof (induction ms)
  case Nil
  then show ?case by simp
next
  case (Cons m ms)
  show ?case
  proof (cases "map_of m (pe_user p) = None \<and> length m \<ge> max_presence_states")
    case True
    then have new: "pe_user p \<notin> fst ` set m" by (simp add: map_of_eq_None_iff)
    have "fst ` set m \<inter> fst ` set m' = {}" if "m' \<in> set (put_map p ms)" for m'
    proof -
      have "x \<notin> fst ` set m" if "x \<in> fst ` set m'" for x
        using keys_put_map [OF \<open>m' \<in> _\<close> that]
      proof (elim disjE bexE)
        assume "x = pe_user p"
        with new show ?thesis by (simp only: not_False_eq_True)
      next
        fix m0 assume "m0 \<in> set ms" "x \<in> fst ` set m0"
        moreover from this Cons.prems have "fst ` set m \<inter> fst ` set m0 = {}"
          by (simp add: list_all_iff)
        ultimately show ?thesis by blast
      qed
      then show ?thesis by blast
    qed
    then show ?thesis using True Cons by (auto simp: list_all_iff)
  next
    case False
    have bounds: "length (AList.update (pe_user p) p m) \<le> max_presence_states
        \<and> (ms \<noteq> [] \<longrightarrow> length (AList.update (pe_user p) p m) = max_presence_states \<and> pe_user p \<in> fst ` set m)"
    proof (cases "pe_user p \<in> fst ` set m")
      case True
      with Cons.prems show ?thesis unfolding length_update by simp
    next
      case new: False
      then have "length m < max_presence_states" using False by (simp add: map_of_eq_None_iff)
      moreover from this Cons.prems have "ms = []" by auto
      ultimately show ?thesis using new unfolding length_update by simp
    qed
    note prems = Cons.prems
    have "list_all (\<lambda>m'. fst ` set (AList.update (pe_user p) p m) \<inter> fst ` set m' = {}) ms"
    proof (cases ms)
      case (Cons m1 ms1)
      then have "ms \<noteq> []" by simp
      with bounds have "insert (pe_user p) (fst ` set m) = fst ` set m" by (simp add: insert_absorb)
      then show ?thesis using prems by (simp only: keys_update presence_maps_ok.simps)
    qed simp
    then show ?thesis using False Cons.prems bounds by (auto simp: distinct_update)
  qed
qed

lemma presence_maps_ok_append: "presence_maps_ok (ms @ ns) \<Longrightarrow> presence_maps_ok ns"
  by (induction ms) auto

interpretation presence: last_writer presence_own presence_view presence_inv
proof
  fix a :: arrival and es k v and n :: nat
  assume ok: "arrival_ok a"
  show "presence_own a = Some (k, v) \<Longrightarrow> presence_view (arrive a es) = (presence_view es)(k \<mapsto> v)"
    using ok by (cases a) (auto simp: presence_view_def merge_simps first_some_put_map)
  show "presence_own a = None \<Longrightarrow> presence_view (arrive a es) = presence_view es"
    using ok by (cases a) (auto simp: presence_view_def merge_simps is_presence_edu_def)
  show "presence_inv es \<Longrightarrow> presence_inv (arrive a es)"
    using ok by (cases a)
      (auto simp: presence_inv_def merge_simps presence_maps_ok_put_map is_presence_edu_def)
next
  fix es and n :: nat
  have "presence_maps es = presence_maps (take n es) @ presence_maps (drop n es)"
    by (metis append_take_drop_id presence_maps_simps(3))
  then show "presence_inv es \<Longrightarrow> presence_inv (drop n es)"
    by (auto simp: presence_inv_def dest: presence_maps_ok_append)
qed (auto simp: presence_view_def presence_inv_def)

section \<open>Receipts\<close>

type_synonym receipt_fact = "string \<times> string \<times> string \<times> string"

definition receipt_maps :: "edu list \<Rightarrow> receipt_map list" where
  "receipt_maps es = map (\<lambda>e. the (receipts e)) (filter is_receipt_edu es)"

fun thread_content :: "string \<Rightarrow> receipt_entry option \<Rightarrow> raw_message option" where
  "thread_content thread None = None"
| "thread_content thread (Some r) = (if thread_id r = thread then Some (receipt_content r) else None)"

definition receipt_view :: "edu list \<Rightarrow> receipt_fact \<rightharpoonup> raw_message" where
  "receipt_view es = (\<lambda>(room, rtype, user, thread).
     first_some (\<lambda>m. thread_content thread (receipt_slot m room rtype user)) (receipt_maps es))"

text \<open>
  A slot that is free in one EDU is free in every later one, and two EDUs never hold the same
  slot for the same thread.
\<close>

fun receipt_maps_ok :: "receipt_map list \<Rightarrow> bool" where
  "receipt_maps_ok [] = True"
| "receipt_maps_ok (m # ms) =
     ((\<forall>room rtype user. \<forall>m' \<in> set ms.
         case receipt_slot m' room rtype user of
           None \<Rightarrow> True
         | Some r' \<Rightarrow> (case receipt_slot m room rtype user of
                        None \<Rightarrow> False | Some r \<Rightarrow> thread_id r \<noteq> thread_id r'))
      \<and> receipt_maps_ok ms)"

definition receipt_inv :: "edu list \<Rightarrow> bool" where
  "receipt_inv es \<longleftrightarrow> receipt_maps_ok (receipt_maps es)"

fun receipt_own :: "arrival \<Rightarrow> (receipt_fact \<times> raw_message) option" where
  "receipt_own (ReceiptArrival room rtype user thread c) = Some ((room, rtype, user, thread), c)"
| "receipt_own a = None"

fun put_receipt_map :: "string \<Rightarrow> string \<Rightarrow> string \<Rightarrow> receipt_entry \<Rightarrow> receipt_map list \<Rightarrow> receipt_map list" where
  "put_receipt_map room rtype user r [] = [[(room, [(rtype, [(user, r)])])]]"
| "put_receipt_map room rtype user r (m # ms) =
     (case receipt_slot m room rtype user of
        None \<Rightarrow> put_slot room rtype user r m # ms
      | Some old \<Rightarrow> if thread_id old = thread_id r then put_slot room rtype user r m # ms
                    else m # put_receipt_map room rtype user r ms)"

lemma receipt_maps_simps [simp]:
  "receipt_maps [] = []"
  "receipt_maps (e # es) = (if is_receipt_edu e then the (receipts e) # receipt_maps es else receipt_maps es)"
  "receipt_maps (es @ fs) = receipt_maps es @ receipt_maps fs"
  by (simp_all add: receipt_maps_def)

lemma receipt_maps_put_receipt [merge_simps]:
  "receipt_maps (put_receipt room rtype user r es) = put_receipt_map room rtype user r (receipt_maps es)"
  by (induction es) (auto simp: is_receipt_edu_def new_receipt_edu_def plain_edu_def split: option.splits)

lemma receipt_maps_put_keyed [merge_simps]: "receipt_maps (put_keyed key u es) = receipt_maps es"
  by (induction es) (auto simp: put_keyed_simps is_receipt_edu_def plain_edu_def)

lemma receipt_maps_put_presence [merge_simps]: "receipt_maps (put_presence p es) = receipt_maps es"
  by (induction es) (auto simp: is_presence_edu_def is_receipt_edu_def plain_edu_def Let_def)

lemma alist_get_update: "alist_get (AList.update k v m) k' = (if k' = k then v else alist_get m k')"
  by (simp add: alist_get_def update_conv)

lemma receipt_slot_put_slot:
  "receipt_slot (put_slot room rtype user r m) room' rtype' user'
     = (if room' = room \<and> rtype' = rtype \<and> user' = user then Some r
        else receipt_slot m room' rtype' user')"
  by (simp add: receipt_slot_def put_slot_def Let_def alist_get_update update_conv)

lemma receipt_slot_single:
  "receipt_slot [(room, [(rtype, [(user, r)])])] room' rtype' user'
     = (if room' = room \<and> rtype' = rtype \<and> user' = user then Some r else None)"
  by (simp add: receipt_slot_def alist_get_def)

lemma receipt_slot_put_map:
  "m' \<in> set (put_receipt_map room rtype user r ms) \<Longrightarrow>
     receipt_slot m' room' rtype' user' = Some x \<Longrightarrow>
     room' = room \<and> rtype' = rtype \<and> user' = user \<and> x = r
     \<or> (\<exists>m \<in> set ms. receipt_slot m room' rtype' user' = Some x)"
  by (induction ms)
    (auto simp: receipt_slot_put_slot receipt_slot_single split: option.splits if_splits)

lemma receipt_maps_ok_head:
  assumes "receipt_maps_ok (m # ms)" "m' \<in> set ms" "receipt_slot m' room rtype user = Some r'"
  shows "\<exists>r. receipt_slot m room rtype user = Some r \<and> thread_id r \<noteq> thread_id r'"
proof -
  have "case receipt_slot m' room rtype user of
          None \<Rightarrow> True
        | Some r' \<Rightarrow> (case receipt_slot m room rtype user of
                       None \<Rightarrow> False | Some r \<Rightarrow> thread_id r \<noteq> thread_id r')"
    using assms(1,2) unfolding receipt_maps_ok.simps by blast
  with assms(3) show ?thesis by (simp split: option.splits)
qed

lemma receipt_maps_ok_put_map:
  "receipt_maps_ok ms \<Longrightarrow> receipt_maps_ok (put_receipt_map room rtype user r ms)"
proof (induction ms)
  case Nil
  then show ?case by simp
next
  case (Cons m ms)
  note head = receipt_maps_ok_head [OF Cons.prems]
  show ?case
  proof (cases "\<exists>old. receipt_slot m room rtype user = Some old \<and> thread_id old \<noteq> thread_id r")
    case True
    then obtain old where old: "receipt_slot m room rtype user = Some old" "thread_id old \<noteq> thread_id r"
      by blast
    have "case receipt_slot m' room' rtype' user' of
           None \<Rightarrow> True
         | Some r' \<Rightarrow> (case receipt_slot m room' rtype' user' of
                        None \<Rightarrow> False | Some r \<Rightarrow> thread_id r \<noteq> thread_id r')"
      if "m' \<in> set (put_receipt_map room rtype user r ms)" for m' room' rtype' user'
    proof (cases "receipt_slot m' room' rtype' user'")
      case (Some x)
      from receipt_slot_put_map [OF that Some] show ?thesis
      proof (elim disjE bexE)
        fix m0 assume "m0 \<in> set ms" "receipt_slot m0 room' rtype' user' = Some x"
        from head [OF this] Some show ?thesis by auto
      qed (use Some old in auto)
    qed simp
    then show ?thesis using old Cons by simp
  next
    case False
    have eq: "put_receipt_map room rtype user r (m # ms) = put_slot room rtype user r m # ms"
    proof (cases "receipt_slot m room rtype user")
      case (Some old)
      with False have "thread_id old = thread_id r" by blast
      with Some show ?thesis by simp
    qed simp
    have free: "thread_id x \<noteq> thread_id r"
      if "m' \<in> set ms" "receipt_slot m' room rtype user = Some x" for m' x
    proof -
      from head [OF that] obtain r1 where
        r1: "receipt_slot m room rtype user = Some r1" "thread_id r1 \<noteq> thread_id x" by blast
      with False have "thread_id r1 = thread_id r" by blast
      with r1 show ?thesis by simp
    qed
    have "case receipt_slot m' room' rtype' user' of
           None \<Rightarrow> True
         | Some r' \<Rightarrow> (case receipt_slot (put_slot room rtype user r m) room' rtype' user' of
                        None \<Rightarrow> False | Some r \<Rightarrow> thread_id r \<noteq> thread_id r')"
      if m': "m' \<in> set ms" for m' room' rtype' user'
    proof (cases "receipt_slot m' room' rtype' user'")
      case (Some x)
      from head [OF m' Some] obtain r1 where
        "receipt_slot m room' rtype' user' = Some r1" "thread_id r1 \<noteq> thread_id x" by blast
      moreover have "room' = room \<and> rtype' = rtype \<and> user' = user \<Longrightarrow> thread_id x \<noteq> thread_id r"
        using free [OF m', of x] Some by blast
      ultimately show ?thesis using Some by (simp add: receipt_slot_put_slot) metis
    qed simp
    then show ?thesis unfolding eq using Cons.prems by simp
  qed
qed

lemma first_some_put_receipt_map:
  "receipt_maps_ok ms \<Longrightarrow>
   first_some (\<lambda>m. thread_content thread' (receipt_slot m room' rtype' user')) (put_receipt_map room rtype user r ms)
     = (if room' = room \<and> rtype' = rtype \<and> user' = user \<and> thread' = thread_id r then Some (receipt_content r)
        else first_some (\<lambda>m. thread_content thread' (receipt_slot m room' rtype' user')) ms)"
proof (induction ms)
  case Nil
  then show ?case by (simp add: receipt_slot_single)
next
  case (Cons m ms)
  have later: "first_some (\<lambda>m. thread_content t (receipt_slot m room rtype user)) ms = None"
    if "receipt_slot m room rtype user = None" for t
  proof -
    have "receipt_slot m' room rtype user = None" if "m' \<in> set ms" for m'
      using receipt_maps_ok_head [OF Cons.prems that, of room rtype user] \<open>receipt_slot m _ _ _ = None\<close>
      by (cases "receipt_slot m' room rtype user") auto
    then show ?thesis by (induction ms) auto
  qed
  have same: "first_some (\<lambda>m. thread_content (thread_id old) (receipt_slot m room rtype user)) ms = None"
    if "receipt_slot m room rtype user = Some old" for old
  proof -
    have "thread_content (thread_id old) (receipt_slot m' room rtype user) = None" if "m' \<in> set ms" for m'
      using receipt_maps_ok_head [OF Cons.prems that, of room rtype user] \<open>receipt_slot m _ _ _ = Some old\<close>
      by (cases "receipt_slot m' room rtype user") auto
    then show ?thesis by (induction ms) auto
  qed
  from Cons show ?case
    by (auto simp: receipt_slot_put_slot later split: option.splits)
qed

lemma receipt_maps_ok_append: "receipt_maps_ok (ms @ ns) \<Longrightarrow> receipt_maps_ok ns"
  by (induction ms) auto

interpretation receipt: last_writer receipt_own receipt_view receipt_inv
proof
  fix a :: arrival and es k v
  assume ok: "arrival_ok a"
  show "receipt_inv es \<Longrightarrow> receipt_own a = Some (k, v) \<Longrightarrow> receipt_view (arrive a es) = (receipt_view es)(k \<mapsto> v)"
    using ok by (cases a)
      (auto simp: receipt_view_def receipt_inv_def merge_simps first_some_put_receipt_map fun_eq_iff)
  show "receipt_own a = None \<Longrightarrow> receipt_view (arrive a es) = receipt_view es"
    using ok by (cases a) (auto simp: receipt_view_def merge_simps is_receipt_edu_def)
  show "receipt_inv es \<Longrightarrow> receipt_inv (arrive a es)"
    using ok by (cases a)
      (auto simp: receipt_inv_def merge_simps receipt_maps_ok_put_map is_receipt_edu_def)
next
  fix es and n :: nat
  have "receipt_maps es = receipt_maps (take n es) @ receipt_maps (drop n es)"
    by (metis append_take_drop_id receipt_maps_simps(3))
  then show "receipt_inv es \<Longrightarrow> receipt_inv (drop n es)"
    by (auto simp: receipt_inv_def dest: receipt_maps_ok_append)
qed (auto simp: receipt_view_def receipt_inv_def)

section \<open>Marked units\<close>

text \<open>
  A unit carries a durable mark if it carries one of either kind. This is the promise, stated without
  the predicate that the overflow drop uses; that the drop respects it is a lemma of \<open>QueueLoop\<close>.
\<close>

definition has_mark :: "edu \<Rightarrow> bool" where
  "has_mark e \<longleftrightarrow> to_device_upto e \<noteq> 0 \<or> device_list_upto e \<noteq> 0"

definition marked_units :: "edu list \<Rightarrow> edu list" where
  "marked_units es = filter has_mark es"

definition merged_are_unmarked :: "edu list \<Rightarrow> bool" where
  "merged_are_unmarked es \<longleftrightarrow>
     list_all (\<lambda>e. edu_key e = [] \<and> receipts e = None \<and> presence e = None \<or> \<not> has_mark e) es"

lemma mark_updates [simp]:
  "has_mark (e\<lparr>unit_of := u\<rparr>) = has_mark e"
  "has_mark (e\<lparr>receipts := r\<rparr>) = has_mark e"
  "has_mark (e\<lparr>presence := m\<rparr>) = has_mark e"
  "has_mark (e\<lparr>edu_key := key\<rparr>) = has_mark e"
  "\<not> has_mark (plain_edu u)"
  by (simp_all add: has_mark_def plain_edu_def)

lemma marked_put_keyed:
  "key \<noteq> [] \<Longrightarrow> merged_are_unmarked es \<Longrightarrow>
     marked_units (put_keyed key u es) = marked_units es \<and> merged_are_unmarked (put_keyed key u es)"
  by (induction es) (auto simp: put_keyed_simps marked_units_def merged_are_unmarked_def)

lemma marked_put_receipt:
  "merged_are_unmarked es \<Longrightarrow>
     marked_units (put_receipt room rtype user r es) = marked_units es
     \<and> merged_are_unmarked (put_receipt room rtype user r es)"
  by (induction es)
    (auto simp: marked_units_def merged_are_unmarked_def new_receipt_edu_def is_receipt_edu_def
      split: option.splits)

lemma marked_put_presence:
  "merged_are_unmarked es \<Longrightarrow>
     marked_units (put_presence p es) = marked_units es \<and> merged_are_unmarked (put_presence p es)"
  by (induction es)
    (auto simp: marked_units_def merged_are_unmarked_def is_presence_edu_def Let_def)

fun marked_of :: "arrival \<Rightarrow> edu list" where
  "marked_of (MarkedArrival e) = (if has_mark e then [e] else [])"
| "marked_of a = []"

lemma marked_arrive:
  "arrival_ok a \<Longrightarrow> merged_are_unmarked es \<Longrightarrow>
     marked_units (arrive a es) = marked_units es @ marked_of a \<and> merged_are_unmarked (arrive a es)"
  by (cases a)
    (auto simp: marked_put_keyed marked_put_receipt marked_put_presence,
     auto simp: marked_units_def merged_are_unmarked_def)

lemma marked_arrivals:
  "list_all arrival_ok as \<Longrightarrow> merged_are_unmarked es \<Longrightarrow>
     marked_units (fold arrive as es) = marked_units es @ concat (map marked_of as)"
  by (induction as arbitrary: es) (auto simp: marked_arrive)

section \<open>Units that are not merged\<close>

definition unmerged :: "edu \<Rightarrow> bool" where
  "unmerged e \<longleftrightarrow> edu_key e = [] \<and> receipts e = None \<and> presence e = None"

lemma unmerged_put:
  "key \<noteq> [] \<Longrightarrow> filter unmerged (put_keyed key u es) = filter unmerged es"
  "filter unmerged (put_receipt room rtype user r es) = filter unmerged es"
  "filter unmerged (put_presence p es) = filter unmerged es"
proof -
  show "key \<noteq> [] \<Longrightarrow> filter unmerged (put_keyed key u es) = filter unmerged es"
    by (induction es) (auto simp: put_keyed_simps unmerged_def plain_edu_def)
  show "filter unmerged (put_receipt room rtype user r es) = filter unmerged es"
    by (induction es) (auto simp: unmerged_def new_receipt_edu_def is_receipt_edu_def plain_edu_def split: option.splits)
  show "filter unmerged (put_presence p es) = filter unmerged es"
    by (induction es) (auto simp: unmerged_def is_presence_edu_def plain_edu_def Let_def)
qed

fun unmerged_of :: "arrival \<Rightarrow> edu option" where
  "unmerged_of (MarkedArrival e) = Some e"
| "unmerged_of a = None"

lemma unmerged_arrive: "arrival_ok a \<Longrightarrow> filter unmerged (arrive a es) = filter unmerged es @ (case unmerged_of a of None \<Rightarrow> [] | Some e \<Rightarrow> [e])"
  by (cases a) (simp_all add: unmerged_put, simp add: unmerged_def)

lemma unmerged_arrivals:
  "list_all arrival_ok as \<Longrightarrow> filter unmerged (fold arrive as es) = filter unmerged es @ List.map_filter unmerged_of as"
proof (induction as arbitrary: es)
  case (Cons a as)
  then show ?case by (simp add: unmerged_arrive List.map_filter_simps split: option.split)
qed (simp add: List.map_filter_simps)

section \<open>In how many EDUs a receipt is\<close>

definition receipt_copies :: "edu list \<Rightarrow> receipt_fact \<Rightarrow> nat" where
  "receipt_copies es = (\<lambda>(room, rtype, user, thread).
     length (filter (\<lambda>m. thread_content thread (receipt_slot m room rtype user) \<noteq> None) (receipt_maps es)))"

lemma receipt_maps_once:
  assumes "receipt_maps_ok ms"
  shows "length (filter (\<lambda>m. thread_content t (receipt_slot m room rtype user) \<noteq> None) ms)
    = (if first_some (\<lambda>m. thread_content t (receipt_slot m room rtype user)) ms = None then 0 else 1)"
  using assms
proof (induction ms)
  case (Cons m ms)
  let ?f = "\<lambda>m. thread_content t (receipt_slot m room rtype user)"
  show ?case
  proof (cases "?f m")
    case None
    then show ?thesis using Cons by simp
  next
    case (Some c)
    then obtain r where r: "receipt_slot m room rtype user = Some r" "thread_id r = t"
      by (cases "receipt_slot m room rtype user") (auto split: if_splits)
    have "?f m' = None" if "m' \<in> set ms" for m'
    proof (cases "receipt_slot m' room rtype user")
      case (Some x)
      from receipt_maps_ok_head [OF Cons.prems that Some] r show ?thesis by (auto simp: Some)
    qed simp
    then have "filter (\<lambda>m. ?f m \<noteq> None) ms = []" by (auto simp: filter_empty_conv)
    then show ?thesis by (simp add: Some)
  qed
qed simp

section \<open>What is pending\<close>

lemma pending_arrivals: "pending_edus (fold arrival_op as d) = fold arrive as (pending_edus d)"
  by (induction as arbitrary: d) (auto simp: merge_simps)

text \<open>
  C4. Whatever order typing, receipts, presence and marked units arrive in, what is pending for
  a destination is the last word on each fact and nothing else: one unit per typing key with the
  newest content, every (room, type, user, thread) with its newest receipt, every user with the
  newest presence. Each of these facts is in exactly one EDU, no presence EDU has more than fifty
  states, and the units that merge with nothing, among them all that carry a durable mark, are
  those that came, in the order they came.
\<close>

theorem pending_is_last_word:
  assumes "list_all arrival_ok as" "pending_edus d = []"
  defines "es \<equiv> pending_edus (fold arrival_op as d)"
  shows "keyed_view es = map_of (rev (List.map_filter keyed_own as))
    \<and> distinct (map fst (keyed_pairs es))
    \<and> receipt_view es = map_of (rev (List.map_filter receipt_own as))
    \<and> (\<forall>f. receipt_copies es f = (if receipt_view es f = None then 0 else 1))
    \<and> presence_view es = map_of (rev (List.map_filter presence_own as))
    \<and> presence_maps_ok (presence_maps es)
    \<and> filter unmerged es = List.map_filter unmerged_of as
    \<and> marked_units es = concat (map marked_of as)"
proof -
  have es: "es = fold arrive as []" by (simp add: es_def pending_arrivals assms(2))
  have "keyed_inv es" using keyed.inv_arrivals [OF assms(1) keyed.inv_nil] by (simp add: es)
  moreover have "presence_inv es" using presence.inv_arrivals [OF assms(1) presence.inv_nil] by (simp add: es)
  moreover have "receipt_inv es" using receipt.inv_arrivals [OF assms(1) receipt.inv_nil] by (simp add: es)
  then have "receipt_copies es f = (if receipt_view es f = None then 0 else 1)" for f
    using receipt_maps_once by (cases f) (auto simp: receipt_copies_def receipt_view_def receipt_inv_def)
  moreover have "filter unmerged es = List.map_filter unmerged_of as" using unmerged_arrivals [OF assms(1), of "[]"] by (simp add: es)
  ultimately show ?thesis
    using keyed.view_from_empty [OF assms(1)] receipt.view_from_empty [OF assms(1)]
      presence.view_from_empty [OF assms(1)] marked_arrivals [OF assms(1), of "[]"]
    by (simp add: es keyed_inv_def presence_inv_def merged_are_unmarked_def marked_units_def)
qed

definition sample_typing :: "string \<Rightarrow> txn_edu" where
  "sample_typing c = \<lparr>edu_type = EDUTypeTyping, edu_content = Raw c\<rparr>"

definition sample_destination :: destination where
  "sample_destination = new_destination ''b.example'' \<lparr>max_pdus = 0, max_edus = 0\<rparr>
     \<lparr>max_states = 50, max_wait = 5 * second\<rparr>"

theorem pending_is_last_word_witness:
  "keyed_view (pending_edus (fold arrival_op
      [KeyedArrival ''r|@a'' (sample_typing ''start''), ReceiptArrival ''r'' ''m.read'' ''@a'' [] ''e1'',
       KeyedArrival ''r|@a'' (sample_typing ''stop'')] sample_destination)) (''r|@a'', EDUTypeTyping)
   = Some (Raw ''stop'')"
  using pending_is_last_word [of "[KeyedArrival ''r|@a'' (sample_typing ''start''),
      ReceiptArrival ''r'' ''m.read'' ''@a'' [] ''e1'', KeyedArrival ''r|@a'' (sample_typing ''stop'')]"
      sample_destination]
  by (simp add: sample_destination_def new_destination_def sample_typing_def List.map_filter_simps)

section \<open>Updates that arrive while a transaction is in flight\<close>

lemma put_keyed_in_prefix:
  "\<exists>e \<in> set (take n es). edu_key e = key \<and> edu_type (unit_of e) = edu_type u \<Longrightarrow>
     drop n (put_keyed key u es) = drop n es \<and> length (put_keyed key u es) = length es"
proof (induction n arbitrary: es)
  case 0
  then show ?case by simp
next
  case (Suc n)
  then show ?case by (cases es) (auto simp: put_keyed_simps)
qed

lemma loop_section_take:
  "loop_section valid now d = (d', Take t) \<Longrightarrow>
     pending_edus d' = pending_edus d \<and> pending_pdus d' = pending_pdus d
     \<and> take_locked valid (unix_milli now) d = Some t"
  by (auto simp: loop_section_def hold_for_locked_def schedule_flush_locked_def take_locked_def Let_def
      split: if_splits option.splits)

lemma materialise_all_length:
  "materialise_all valid now_ms es t = Some t' \<Longrightarrow>
     length (t_edus t') = length (t_edus t) + length es \<and> t_pdus t' = t_pdus t"
  by (induction es arbitrary: t) (auto split: option.splits)

lemma take_locked_lengths:
  "take_locked valid now_ms d = Some t \<Longrightarrow>
     t_pdus t = take (nat (max_pdus (d_limits d))) (pending_pdus d)
     \<and> length (t_edus t) = length (take (nat (max_edus (d_limits d))) (pending_edus d))"
  by (auto simp: take_locked_def dest!: materialise_all_length)

text \<open>
  A typing update that replaces a unit of the transaction in flight is lost: after the
  transaction succeeds and is dequeued, nothing pending carries the update's key any more,
  although the transaction that was sent was encoded before it arrived.
\<close>

theorem keyed_update_in_flight_is_lost:
  assumes "loop_section valid now d = (d1, Take t)" "keyed_inv (pending_edus d)" "key \<noteq> []"
    and "\<exists>e \<in> set (take (length (t_edus t)) (pending_edus d)).
           edu_key e = key \<and> edu_type (unit_of e) = edu_type u"
  shows "case dequeue (length (t_pdus t)) (length (t_edus t)) (enqueue_keyed_edu key u d1) of
           None \<Rightarrow> False
         | Some d2 \<Rightarrow> keyed_view (pending_edus d2) (key, edu_type u) = None"
proof -
  let ?n = "length (t_edus t)"
  from loop_section_take [OF assms(1)] have d1: "pending_edus d1 = pending_edus d"
    "pending_pdus d1 = pending_pdus d" and t: "take_locked valid (unix_milli now) d = Some t" by auto
  have le: "length (t_pdus t) \<le> length (pending_pdus d)" "?n \<le> length (pending_edus d)"
    using take_locked_lengths [OF t] by simp_all
  have drop: "drop ?n (put_keyed key u (pending_edus d)) = drop ?n (pending_edus d)"
    "length (put_keyed key u (pending_edus d)) = length (pending_edus d)"
    using put_keyed_in_prefix [OF assms(4)] by auto
  have deq: "dequeue (length (t_pdus t)) ?n (enqueue_keyed_edu key u d1)
      = Some (enqueue_keyed_edu key u d1\<lparr>pending_pdus := drop (length (t_pdus t)) (pending_pdus d),
          pending_edus := drop ?n (pending_edus d)\<rparr>)"
    using le drop by (simp add: dequeue_def enqueue_keyed_edu_def d1)
  from assms(4) obtain e where e: "e \<in> set (take ?n (pending_edus d))" "edu_key e = key"
    "edu_type (unit_of e) = edu_type u" by blast
  have "(key, edu_type u) \<in> fst ` set (keyed_pairs (take ?n (pending_edus d)))"
    using e assms(3) by (force simp: keyed_pairs_def)
  moreover have "distinct (map fst (keyed_pairs (take ?n (pending_edus d) @ drop ?n (pending_edus d))))"
    using assms(2) by (simp only: append_take_drop_id keyed_inv_def)
  ultimately have "(key, edu_type u) \<notin> fst ` set (keyed_pairs (drop ?n (pending_edus d)))"
    by (auto simp del: append_take_drop_id)
  then show ?thesis by (simp add: deq keyed_view_def map_of_eq_None_iff)
qed

theorem keyed_update_in_flight_is_lost_witness:
  "let d = enqueue_keyed_edu ''r|@a'' (sample_typing ''start'') sample_destination;
       (d1, out) = loop_section (\<lambda>_. True) 0 d
   in out = Take \<lparr>t_pdus = [], t_edus = [sample_typing ''start''],
                  t_to_device_upto = 0, t_device_list_upto = 0\<rparr>
      \<and> (case dequeue 0 1 (enqueue_keyed_edu ''r|@a'' (sample_typing ''stop'') d1) of
           None \<Rightarrow> False
         | Some d2 \<Rightarrow> keyed_view (pending_edus d2) (''r|@a'', EDUTypeTyping) = None)"
proof -
  let ?d = "enqueue_keyed_edu ''r|@a'' (sample_typing ''start'') sample_destination"
  let ?t = "\<lparr>t_pdus = [], t_edus = [sample_typing ''start''], t_to_device_upto = 0, t_device_list_upto = 0\<rparr>"
  note defs = enqueue_keyed_edu_def sample_destination_def new_destination_def sample_typing_def
    put_keyed_simps plain_edu_def loop_section_def hold_for_locked_def take_locked_def materialise_def
    keyed_inv_def Let_def
  have sec: "loop_section (\<lambda>_. True) 0 ?d
      = (?d\<lparr>outage_logged := False, new_data := False, held_since := None\<rparr>, Take ?t)"
    by (simp add: defs)
  have stop_type: "edu_type (sample_typing ''stop'') = EDUTypeTyping" by (simp add: sample_typing_def)
  have "keyed_inv (pending_edus ?d)" by (simp add: defs)
  moreover have "\<exists>e \<in> set (take (length (t_edus ?t)) (pending_edus ?d)).
      edu_key e = ''r|@a'' \<and> edu_type (unit_of e) = edu_type (sample_typing ''stop'')"
    by (simp add: defs)
  ultimately show ?thesis
    using keyed_update_in_flight_is_lost [OF sec, of "''r|@a''" "sample_typing ''stop''"]
    by (simp add: sec stop_type split: option.splits)
qed

end
