(* ===== verification/QueueLoop.thy ===== *)
theory QueueLoop
  imports Merging
begin

text \<open>
  The goroutines around one destination of \<open>internal/queue\<close>: \<open>Destination.Run\<close> as
  \<open>Manager.Wake\<close> spawns it, \<open>SendCatchUp\<close>, the hold timer and the producers. Each thread is a
  program counter between two critical sections, each action runs one section of one thread,
  and any interleaving of actions is possible. What a thread meets outside the lock - a free
  slot, a cancelled context, the gate, the clock, the answer of the sink - is the input of its
  action. The ghost fields record what was accepted, what became of it, what was delivered and
  which callbacks were made.
\<close>

section \<open>Threads\<close>

datatype pc =
    Waking
  | Starting
  | AtTop
  | AfterDrop
  | AtTake
  | Sending taken
  | Delivered taken
  | Marking taken
  | Flushing
  | Rechecking
  | Exiting
  | CatchSending pdu
  | CatchDelivered pdu
  | CatchReleasing
  | Panicked
  | Done

datatype answer =
    Proceed
  | Cancelled
  | GateOpen
  | GateClosed bool
  | Clock instant
  | SendOk
  | SendRateLimited
  | SendFailed

record shared =
  dest :: destination
  accepted :: "pdu list"
  fate :: "(pdu \<times> bool) list"
  live_wire :: "taken list"
  catchup_wire :: "pdu list"
  marked_in :: "edu list"
  gone_units :: "edu list"
  edus_sent_calls :: "(int \<times> int) list"
  success_calls :: "int list"

abbreviation on_dest :: "(destination \<Rightarrow> destination) \<Rightarrow> shared \<Rightarrow> shared" where
  "on_dest f s \<equiv> s\<lparr>dest := f (dest s)\<rparr>"

definition only :: "answer \<Rightarrow> answer \<Rightarrow> 'a \<Rightarrow> 'a option" where
  "only expected a x = (if a = expected then Some x else None)"

text \<open>\<open>Manager.Wake\<close>: claim the loop, then wait for a slot in the spawned goroutine.\<close>

fun wake_step :: "answer \<Rightarrow> pc \<Rightarrow> shared \<Rightarrow> (pc \<times> shared) option" where
  "wake_step a Waking s =
     (case try_start (dest s) of (d, won) \<Rightarrow>
        only Proceed a (if won then Starting else Done, s\<lparr>dest := d\<rparr>))"
| "wake_step a Starting s =
     (case a of Proceed \<Rightarrow> Some (AtTop, s)
      | Cancelled \<Rightarrow> Some (Done, on_dest release s)
      | _ \<Rightarrow> None)"
| "wake_step a p s = None"

text \<open>\<open>SendCatchUp\<close> after a won claim, and its deferred \<open>releaseClaim\<close>.\<close>

fun catch_up_step :: "answer \<Rightarrow> pc \<Rightarrow> shared \<Rightarrow> (pc \<times> shared) option" where
  "catch_up_step a (CatchSending p) s =
     (case a of SendOk \<Rightarrow> Some (CatchDelivered p, s\<lparr>catchup_wire := catchup_wire s @ [p]\<rparr>)
      | SendRateLimited \<Rightarrow> Some (CatchReleasing, s)
      | SendFailed \<Rightarrow> Some (CatchReleasing, s)
      | _ \<Rightarrow> None)"
| "catch_up_step a (CatchDelivered p) s =
     only Proceed a (CatchReleasing, (on_dest (mark_caught_up p) s)
       \<lparr>success_calls := success_calls s @ [stream_ordering p]\<rparr>)"
| "catch_up_step a CatchReleasing s =
     (case release_claim (dest s) of (d, again) \<Rightarrow>
        only Proceed a (if again then Waking else Done, s\<lparr>dest := d\<rparr>))"
| "catch_up_step a p s = None"

text \<open>\<open>Run\<close>, with the other two.\<close>

fun thread_step :: "(raw_message \<Rightarrow> bool) \<Rightarrow> answer \<Rightarrow> pc \<Rightarrow> shared \<Rightarrow> (pc \<times> shared) option" where
  "thread_step valid a Waking s = wake_step a Waking s"
| "thread_step valid a Starting s = wake_step a Starting s"
| "thread_step valid a AtTop s =
     (case a of Cancelled \<Rightarrow> Some (Exiting, s)
      | GateOpen \<Rightarrow> Some (AtTake, s)
      | GateClosed long \<Rightarrow>
          Some (if long then (AfterDrop, on_dest (fst \<circ> drop_ephemeral_edus) s) else (Exiting, s))
      | _ \<Rightarrow> None)"
| "thread_step valid a AfterDrop s =
     only Proceed a (Exiting, (on_dest restart_catch_up s)
       \<lparr>fate := fate s @ map (\<lambda>p. (p, False)) (pending_pdus (dest s))\<rparr>)"
| "thread_step valid a AtTake s =
     (case a of Clock now \<Rightarrow>
        (case loop_section valid now (dest s) of (d, out) \<Rightarrow>
           Some (case out of
               Hold w \<Rightarrow> Exiting
             | EncodeError \<Rightarrow> Exiting
             | Take t \<Rightarrow> if t_pdus t = [] \<and> t_edus t = [] then Rechecking else Sending t,
             s\<lparr>dest := d\<rparr>))
      | _ \<Rightarrow> None)"
| "thread_step valid a Rechecking s = only Proceed a (if new_data (dest s) then AtTop else Exiting, s)"
| "thread_step valid a (Sending t) s =
     (case a of SendOk \<Rightarrow> Some (Delivered t, s\<lparr>live_wire := live_wire s @ [t]\<rparr>)
      | SendRateLimited \<Rightarrow> Some (Flushing, s)
      | SendFailed \<Rightarrow> Some (Exiting, s)
      | _ \<Rightarrow> None)"
| "thread_step valid a Flushing s = only Proceed a (Exiting, on_dest (fst \<circ> schedule_flush_locked) s)"
| "thread_step valid a (Delivered t) s =
     only Proceed a
       (case dequeue (length (t_pdus t)) (length (t_edus t)) (dest s) of
          None \<Rightarrow> (Panicked, s)
        | Some d \<Rightarrow> (Marking t,
            s\<lparr>dest := d,
              fate := fate s @ map (\<lambda>p. (p, True)) (take (length (t_pdus t)) (pending_pdus (dest s))),
              gone_units := gone_units s @ take (length (t_edus t)) (pending_edus (dest s))\<rparr>))"
| "thread_step valid a (Marking t) s =
     only Proceed a (AtTop, (on_dest (mark_success (t_pdus t)) s)
       \<lparr>edus_sent_calls := edus_sent_calls s @
           (if t_to_device_upto t > 0 \<or> t_device_list_upto t > 0
            then [(t_to_device_upto t, t_device_list_upto t)] else []),
         success_calls := success_calls s @
           (if t_pdus t \<noteq> [] then [stream_ordering (last (t_pdus t))] else [])\<rparr>)"
| "thread_step valid a Exiting s = only Proceed a (Done, on_dest release s)"
| "thread_step valid a (CatchSending p) s = catch_up_step a (CatchSending p) s"
| "thread_step valid a (CatchDelivered p) s = catch_up_step a (CatchDelivered p) s"
| "thread_step valid a CatchReleasing s = catch_up_step a CatchReleasing s"
| "thread_step valid a Panicked s = None"
| "thread_step valid a Done s = None"

section \<open>The system\<close>

datatype action =
    EnqueuePDU pdu
  | EnqueueUnit arrival
  | Wake
  | TimerFires
  | SendCatchUp pdu
  | SetLastSuccessful int
  | FinishCatchUp
  | TakeSkipped
  | Thread nat answer

type_synonym system = "shared \<times> pc list"

fun system_step :: "(raw_message \<Rightarrow> bool) \<Rightarrow> action \<Rightarrow> system \<Rightarrow> system option" where
  "system_step valid (EnqueuePDU p) (s, ts) =
     Some ((on_dest (enqueue_pdu p) s)
       \<lparr>accepted := accepted s @ (if catching_up (dest s) \<and> last_known (dest s) then [] else [p])\<rparr>, ts)"
| "system_step valid (EnqueueUnit a) (s, ts) =
     (if arrival_ok a
      then Some ((on_dest (arrival_op a) s)\<lparr>marked_in := marked_in s @ marked_of a\<rparr>, ts) else None)"
| "system_step valid Wake (s, ts) = Some (s, ts @ [Waking])"
| "system_step valid TimerFires (s, ts) =
     (if hold_timer (dest s) then Some (on_dest (\<lambda>d. d\<lparr>hold_timer := False\<rparr>) s, ts @ [Waking]) else None)"
| "system_step valid (SendCatchUp p) (s, ts) =
     (case claim (dest s) of (d, won) \<Rightarrow>
        Some (s\<lparr>dest := d\<rparr>, if won then ts @ [CatchSending p] else ts))"
| "system_step valid (SetLastSuccessful v) (s, ts) = Some (on_dest (set_last_successful v) s, ts)"
| "system_step valid FinishCatchUp (s, ts) = Some (on_dest finish_catch_up s, ts)"
| "system_step valid TakeSkipped (s, ts) = Some (on_dest (fst \<circ> take_catch_up_skipped) s, ts)"
| "system_step valid (Thread i a) (s, ts) =
     (if i < length ts
      then case thread_step valid a (ts ! i) s of
             None \<Rightarrow> None
           | Some (p, s') \<Rightarrow> Some (s', ts[i := p])
      else None)"

definition initial_system :: "destination \<Rightarrow> system" where
  "initial_system d =
     (\<lparr>dest = d, accepted = [], fate = [], live_wire = [], catchup_wire = [], marked_in = [], gone_units = [],
       edus_sent_calls = [], success_calls = []\<rparr>, [])"

inductive reachable :: "(raw_message \<Rightarrow> bool) \<Rightarrow> destination \<Rightarrow> system \<Rightarrow> bool" for valid d0 where
  start: "reachable valid d0 (initial_system d0)"
| step: "reachable valid d0 w \<Longrightarrow> system_step valid a w = Some w' \<Longrightarrow> reachable valid d0 w'"

fun run_actions :: "(raw_message \<Rightarrow> bool) \<Rightarrow> action list \<Rightarrow> system \<Rightarrow> system option" where
  "run_actions valid [] w = Some w"
| "run_actions valid (a # as) w =
     (case system_step valid a w of None \<Rightarrow> None | Some w' \<Rightarrow> run_actions valid as w')"

lemma reachable_run: "reachable valid d0 w \<Longrightarrow> run_actions valid as w = Some w' \<Longrightarrow> reachable valid d0 w'"
  by (induction as arbitrary: w) (auto split: option.splits intro: reachable.step)

section \<open>The invariant\<close>

fun holds :: "pc \<Rightarrow> bool" where
  "holds Waking = False"
| "holds Done = False"
| "holds p = True"

fun undequeued :: "pc \<Rightarrow> pdu list" where
  "undequeued (Delivered t) = t_pdus t"
| "undequeued p = []"

abbreviation marks :: "edu \<Rightarrow> int \<times> int" where
  "marks e \<equiv> (to_device_upto e, device_list_upto e)"

definition max_mark :: "int list \<Rightarrow> int" where
  "max_mark xs = fold max xs 0"

definition within_limits :: "limits \<Rightarrow> taken \<Rightarrow> bool" where
  "within_limits lims t \<longleftrightarrow> length (t_pdus t) \<le> nat (max_pdus lims)
     \<and> length (t_edus t) \<le> nat (max_edus lims)"

definition in_flight :: "destination \<Rightarrow> taken \<Rightarrow> bool" where
  "in_flight d t \<longleftrightarrow>
     length (t_pdus t) \<le> length (pending_pdus d) \<and> length (t_edus t) \<le> length (pending_edus d)
     \<and> t_pdus t = take (length (t_pdus t)) (pending_pdus d)
     \<and> (let es = take (length (t_edus t)) (pending_edus d)
        in t_to_device_upto t = max_mark (map to_device_upto es)
           \<and> t_device_list_upto t = max_mark (map device_list_upto es))
     \<and> within_limits (d_limits d) t"

definition mark_of_gone :: "edu list \<Rightarrow> int \<times> int \<Rightarrow> bool" where
  "mark_of_gone gone c \<longleftrightarrow>
     (0 < fst c \<longrightarrow> (\<exists>e \<in> set gone. to_device_upto e = fst c))
     \<and> (0 < snd c \<longrightarrow> (\<exists>e \<in> set gone. device_list_upto e = snd c))"

fun pc_ok :: "shared \<Rightarrow> pc \<Rightarrow> bool" where
  "pc_ok s (Sending t) = in_flight (dest s) t"
| "pc_ok s (Delivered t) = in_flight (dest s) t"
| "pc_ok s (Marking t) = mark_of_gone (gone_units s) (t_to_device_upto t, t_device_list_upto t)"
| "pc_ok s Panicked = False"
| "pc_ok s p = True"

definition core :: "shared \<Rightarrow> pc list \<Rightarrow> bool" where
  "core s hs \<longleftrightarrow>
     (running (dest s) \<longleftrightarrow> hs \<noteq> []) \<and> length hs \<le> 1 \<and> list_all (pc_ok s) hs
     \<and> accepted s = map fst (fate s) @ pending_pdus (dest s)
     \<and> concat (map t_pdus (live_wire s)) = map fst (filter snd (fate s)) @ concat (map undequeued hs)
     \<and> list_all (within_limits (d_limits (dest s))) (live_wire s)
     \<and> merged_are_unmarked (pending_edus (dest s))
     \<and> marked_in s = marked_units (gone_units s) @ marked_units (pending_edus (dest s))
     \<and> list_all (mark_of_gone (gone_units s)) (edus_sent_calls s)"

lemma marked_units_append [simp]: "marked_units (es @ fs) = marked_units es @ marked_units fs"
  by (simp add: marked_units_def)

lemma mark_of_gone_append: "mark_of_gone gone c \<Longrightarrow> mark_of_gone (gone @ es) c"
  by (auto simp: mark_of_gone_def)

lemma max_mark_in: "0 < max_mark xs \<Longrightarrow> max_mark xs \<in> set xs"
proof -
  have "fold max xs a \<in> insert a (set xs)" for a :: int
    by (induction xs arbitrary: a) (force simp: max_def)+
  then show "0 < max_mark xs \<Longrightarrow> max_mark xs \<in> set xs"
    unfolding max_mark_def by (metis insertE less_irrefl)
qed

text \<open>Arrivals leave the marks of what is already queued alone.\<close>

lemma marks_put:
  "\<exists>tl. map marks (put_keyed key u es) = map marks es @ tl"
  "\<exists>tl. map marks (put_receipt room rtype user r es) = map marks es @ tl"
  "\<exists>tl. map marks (put_presence p es) = map marks es @ tl"
  by (induction es) (auto simp: put_keyed_simps Let_def split: option.splits)

lemma marks_arrive: "\<exists>tl. map marks (arrive a es) = map marks es @ tl"
  by (cases a) (auto simp: marks_put)

lemma take_marks_arrive:
  assumes "n \<le> length es"
  shows "n \<le> length (arrive a es)"
    "map to_device_upto (take n (arrive a es)) = map to_device_upto (take n es)"
    "map device_list_upto (take n (arrive a es)) = map device_list_upto (take n es)"
proof -
  from marks_arrive obtain tl where tl: "map marks (arrive a es) = map marks es @ tl" by blast
  then have "length (arrive a es) = length es + length tl"
    by (metis length_append length_map)
  then show "n \<le> length (arrive a es)" using assms by simp
  have "take n (map marks (arrive a es)) = take n (map marks es)" using assms tl by simp
  then have eq: "map marks (take n (arrive a es)) = map marks (take n es)" by (simp add: take_map)
  show "map to_device_upto (take n (arrive a es)) = map to_device_upto (take n es)"
    using arg_cong [OF eq, of "map fst"] by (simp add: comp_def)
  show "map device_list_upto (take n (arrive a es)) = map device_list_upto (take n es)"
    using arg_cong [OF eq, of "map snd"] by (simp add: comp_def)
qed

lemma materialise_all_marks:
  "materialise_all valid now_ms es t = Some t' \<Longrightarrow>
     t_to_device_upto t' = fold max (map to_device_upto es) (t_to_device_upto t)
     \<and> t_device_list_upto t' = fold max (map device_list_upto es) (t_device_list_upto t)"
  by (induction es arbitrary: t) (auto split: option.splits simp: max.commute)

lemma take_locked_in_flight:
  assumes "take_locked valid now_ms d = Some t"
  shows "in_flight d t"
proof -
  note len = take_locked_lengths [OF assms]
  then have n: "take (length (t_edus t)) (pending_edus d) = take (nat (max_edus (d_limits d))) (pending_edus d)"
    by (simp add: min_def)
  from materialise_all_marks [OF assms [unfolded take_locked_def]]
  have "t_to_device_upto t = max_mark (map to_device_upto (take (nat (max_edus (d_limits d))) (pending_edus d)))
    \<and> t_device_list_upto t = max_mark (map device_list_upto (take (nat (max_edus (d_limits d))) (pending_edus d)))"
    by (simp add: max_mark_def)
  moreover have "t_pdus t = take (length (t_pdus t)) (pending_pdus d)"
    using len by (simp add: min_def)
  ultimately show ?thesis
    using len unfolding in_flight_def n Let_def by (simp add: within_limits_def)
qed

section \<open>Every action keeps it\<close>

lemma pc_ok_dest:
  assumes "pc_ok s p" "gone_units s' = gone_units s"
    and "\<And>t. in_flight (dest s) t \<Longrightarrow> in_flight (dest s') t"
  shows "pc_ok s' p"
  using assms by (cases p) auto

lemma in_flight_pdu: "in_flight d t \<Longrightarrow> in_flight (enqueue_pdu p d) t"
  by (auto simp: in_flight_def enqueue_pdu_def within_limits_def Let_def)

lemma arrival_op_frame [simp]:
  "pending_pdus (arrival_op a d) = pending_pdus d" "d_limits (arrival_op a d) = d_limits d"
  "running (arrival_op a d) = running d"
  by (cases a; simp add: enqueue_keyed_edu_def enqueue_receipt_def enqueue_presence_def enqueue_marked_edu_def)+

lemma in_flight_arrival: "in_flight d t \<Longrightarrow> in_flight (arrival_op a d) t"
  by (auto simp: in_flight_def within_limits_def Let_def pending_arrival take_marks_arrive)

text \<open>The methods that touch neither the queues nor the claim.\<close>

definition same_queues :: "destination \<Rightarrow> destination \<Rightarrow> bool" where
  "same_queues d d' \<longleftrightarrow> pending_pdus d' = pending_pdus d \<and> pending_edus d' = pending_edus d
     \<and> d_limits d' = d_limits d"

lemma same_queues_simps [simp]:
  "same_queues d (set_last_successful v d)" "same_queues d (finish_catch_up d)"
  "same_queues d (fst (take_catch_up_skipped d))" "same_queues d (d\<lparr>hold_timer := b\<rparr>)"
  "same_queues d (release d)" "same_queues d (fst (try_start d))" "same_queues d (fst (claim d))"
  "same_queues d (fst (release_claim d))" "same_queues d (fst (schedule_flush_locked d))"
  "same_queues d (mark_success ps d)" "same_queues d (mark_caught_up p d)"
  "same_queues d (fst (loop_section valid now d))"
  by (auto simp: same_queues_def set_last_successful_def finish_catch_up_def take_catch_up_skipped_def
      release_def try_start_def claim_def release_claim_def schedule_flush_locked_def mark_success_def
      mark_caught_up_def loop_section_def hold_for_locked_def Let_def)

lemma running_simps [simp]:
  "running (set_last_successful v d) = running d" "running (finish_catch_up d) = running d"
  "running (fst (take_catch_up_skipped d)) = running d" "running (enqueue_pdu p d) = running d"
  "running (fst (schedule_flush_locked d)) = running d" "running (mark_success ps d) = running d"
  "running (mark_caught_up p d) = running d" "running (fst (loop_section valid now d)) = running d"
  "running (fst (drop_ephemeral_edus d)) = running d" "running (restart_catch_up d) = running d"
  "\<not> running (release d)" "\<not> running (fst (release_claim d))"
  by (auto simp: set_last_successful_def finish_catch_up_def take_catch_up_skipped_def enqueue_pdu_def
      release_def release_claim_def schedule_flush_locked_def mark_success_def mark_caught_up_def
      loop_section_def hold_for_locked_def drop_ephemeral_edus_def restart_catch_up_def Let_def)

text \<open>What \<open>core\<close> says of everything but the claim.\<close>

definition frame_core :: "shared \<Rightarrow> pdu list \<Rightarrow> bool" where
  "frame_core s inflight \<longleftrightarrow>
     accepted s = map fst (fate s) @ pending_pdus (dest s)
     \<and> concat (map t_pdus (live_wire s)) = map fst (filter snd (fate s)) @ inflight
     \<and> list_all (within_limits (d_limits (dest s))) (live_wire s)
     \<and> merged_are_unmarked (pending_edus (dest s))
     \<and> marked_in s = marked_units (gone_units s) @ marked_units (pending_edus (dest s))
     \<and> list_all (mark_of_gone (gone_units s)) (edus_sent_calls s)"

lemma core_single:
  "core s [p] \<longleftrightarrow> running (dest s) \<and> pc_ok s p \<and> frame_core s (undequeued p)"
  by (auto simp: core_def frame_core_def)

lemma core_none: "core s [] \<longleftrightarrow> \<not> running (dest s) \<and> frame_core s []"
  by (auto simp: core_def frame_core_def)

lemma core_holders: "core s hs \<Longrightarrow> hs = [] \<or> (\<exists>p. hs = [p])"
  by (cases hs) (auto simp: core_def)

lemma frame_core_same_queues:
  "same_queues (dest s) d \<Longrightarrow> frame_core s i \<Longrightarrow> frame_core (s\<lparr>dest := d\<rparr>) i"
  by (auto simp: frame_core_def same_queues_def within_limits_def)

lemma in_flight_same_queues: "same_queues d d' \<Longrightarrow> in_flight d t \<Longrightarrow> in_flight d' t"
  by (auto simp: in_flight_def same_queues_def within_limits_def)

lemma frame_core_ghosts [simp]:
  "frame_core (s\<lparr>success_calls := x\<rparr>) i = frame_core s i"
  "frame_core (s\<lparr>catchup_wire := y\<rparr>) i = frame_core s i"
  by (simp_all add: frame_core_def)

lemma core_producer:
  assumes c: "core s hs" and q: "same_queues (dest s) d" and r: "running d = running (dest s)"
  shows "core (s\<lparr>dest := d\<rparr>) hs"
proof -
  have "pc_ok (s\<lparr>dest := d\<rparr>) p" if "pc_ok s p" for p
    by (rule pc_ok_dest [OF that]) (auto intro: in_flight_same_queues [OF q])
  with c r core_holders [OF c] show ?thesis
    by (auto simp: core_single core_none frame_core_same_queues [OF q])
qed

lemma core_enqueue_pdu:
  assumes "core s hs"
  shows "core ((on_dest (enqueue_pdu p) s)
    \<lparr>accepted := accepted s @ (if catching_up (dest s) \<and> last_known (dest s) then [] else [p])\<rparr>) hs"
proof -
  let ?s = "(on_dest (enqueue_pdu p) s)
    \<lparr>accepted := accepted s @ (if catching_up (dest s) \<and> last_known (dest s) then [] else [p])\<rparr>"
  have "pc_ok ?s q" if "pc_ok s q" for q
    by (rule pc_ok_dest [OF that]) (auto intro: in_flight_pdu)
  moreover have "frame_core ?s i" if "frame_core s i" for i
    using that by (auto simp: frame_core_def enqueue_pdu_def within_limits_def)
  ultimately show ?thesis using assms core_holders [OF assms]
    by (auto simp: core_single core_none)
qed

lemma core_arrival:
  assumes "core s hs" "arrival_ok a"
  shows "core ((on_dest (arrival_op a) s)\<lparr>marked_in := marked_in s @ marked_of a\<rparr>) hs"
proof -
  let ?s = "(on_dest (arrival_op a) s)\<lparr>marked_in := marked_in s @ marked_of a\<rparr>"
  have "pc_ok ?s q" if "pc_ok s q" for q
    by (rule pc_ok_dest [OF that]) (auto intro: in_flight_arrival)
  moreover have "frame_core ?s i" if "frame_core s i" for i
    using that assms(2) by (auto simp: frame_core_def within_limits_def pending_arrival marked_arrive)
  ultimately show ?thesis using assms(1) core_holders [OF assms(1)]
    by (auto simp: core_single core_none)
qed

lemma only_Some [simp]: "only e a x = Some y \<longleftrightarrow> a = e \<and> x = y"
  by (auto simp: only_def)

lemma core_release:
  "frame_core s [] \<Longrightarrow> core (on_dest release s) []"
  by (simp add: core_none frame_core_same_queues)

lemma mark_is_kept: "has_mark = (\<lambda>e. \<not> ephemeral_edu e)"
  by (auto simp: has_mark_def ephemeral_edu_def)

lemma frame_drop:
  assumes "frame_core s i"
  shows "frame_core (on_dest (fst \<circ> drop_ephemeral_edus) s) i"
proof -
  have "marked_units (filter (\<lambda>e. \<not> ephemeral_edu e) es) = marked_units es" for es
    by (simp add: marked_units_def mark_is_kept)
  with assms show ?thesis
    by (auto simp: frame_core_def drop_ephemeral_edus_def merged_are_unmarked_def list_all_iff)
qed

lemma core_take:
  assumes "core s [AtTake]" "loop_section valid now (dest s) = (d, out)"
  shows "core (s\<lparr>dest := d\<rparr>) [case out of Hold w \<Rightarrow> Exiting | EncodeError \<Rightarrow> Exiting
    | Take t \<Rightarrow> if t_pdus t = [] \<and> t_edus t = [] then Rechecking else Sending t]"
proof -
  have d: "d = fst (loop_section valid now (dest s))" by (simp add: assms(2))
  have f: "frame_core (s\<lparr>dest := d\<rparr>) []" "running d"
    using assms(1) unfolding d by (auto simp: core_single intro: frame_core_same_queues)
  have "in_flight d t" if "out = Take t" for t
  proof -
    have "in_flight (dest s) t"
      using loop_section_take [OF assms(2) [unfolded that]] by (auto intro: take_locked_in_flight)
    then show ?thesis unfolding d by (rule in_flight_same_queues [rotated]) simp
  qed
  with f show ?thesis by (cases out) (auto simp: core_single)
qed

lemma core_dequeue:
  assumes c: "core s [Delivered t]"
  obtains d where "dequeue (length (t_pdus t)) (length (t_edus t)) (dest s) = Some d"
    "core (s\<lparr>dest := d,
        fate := fate s @ map (\<lambda>p. (p, True)) (take (length (t_pdus t)) (pending_pdus (dest s))),
        gone_units := gone_units s @ take (length (t_edus t)) (pending_edus (dest s))\<rparr>) [Marking t]"
proof -
  let ?p = "length (t_pdus t)" and ?e = "length (t_edus t)"
  let ?d = "(dest s)\<lparr>pending_pdus := drop ?p (pending_pdus (dest s)), pending_edus := drop ?e (pending_edus (dest s))\<rparr>"
  have fl: "in_flight (dest s) t" and fr: "frame_core s (t_pdus t)" and run: "running (dest s)"
    using c by (auto simp: core_single)
  then have deq: "dequeue ?p ?e (dest s) = Some ?d" by (simp add: dequeue_def in_flight_def)
  have pdus: "take ?p (pending_pdus (dest s)) = t_pdus t" using fl by (simp add: in_flight_def)
  have psplit: "t_pdus t @ drop ?p (pending_pdus (dest s)) = pending_pdus (dest s)"
    using append_take_drop_id [of ?p "pending_pdus (dest s)"] by (simp only: pdus)
  have split: "pending_edus (dest s) = take ?e (pending_edus (dest s)) @ drop ?e (pending_edus (dest s))" by simp
  have marked: "marked_units (pending_edus (dest s))
      = marked_units (take ?e (pending_edus (dest s))) @ marked_units (drop ?e (pending_edus (dest s)))"
    by (subst split) (simp only: marked_units_append)
  have eph: "merged_are_unmarked (drop ?e (pending_edus (dest s)))"
    using fr by (auto simp: frame_core_def merged_are_unmarked_def list_all_iff dest: in_set_dropD)
  have "mark_of_gone (take ?e (pending_edus (dest s))) (t_to_device_upto t, t_device_list_upto t)"
    using fl max_mark_in [of "map to_device_upto (take ?e (pending_edus (dest s)))"]
      max_mark_in [of "map device_list_upto (take ?e (pending_edus (dest s)))"]
    by (force simp: in_flight_def mark_of_gone_def Let_def)
  then have mark: "mark_of_gone (gone_units s @ take ?e (pending_edus (dest s)))
      (t_to_device_upto t, t_device_list_upto t)"
    by (auto simp: mark_of_gone_def)
  have calls: "list_all (mark_of_gone (gone_units s @ take ?e (pending_edus (dest s)))) (edus_sent_calls s)"
    using fr by (auto simp: frame_core_def list_all_iff intro: mark_of_gone_append)
  show thesis
    by (rule that [OF deq])
      (use fr run pdus psplit marked eph mark calls in
        \<open>simp add: core_single frame_core_def filter_map comp_def\<close>)
qed

lemma core_thread:
  assumes c: "core s [p]" and h: "holds p" and st: "thread_step valid a p s = Some (p', s')"
  shows "core s' (filter holds [p'])"
proof (cases p)
  case Starting
  with c st show ?thesis
    by (auto simp: core_single intro: core_release split: answer.splits)
next
  case AtTop
  with c st frame_drop [of s "[]"] show ?thesis
    by (auto simp: core_single split: answer.splits if_splits)
next
  case AfterDrop
  with c st show ?thesis
    by (auto simp: core_single frame_core_def restart_catch_up_def comp_def)
next
  case AtTake
  obtain now d out where "a = Clock now" "loop_section valid now (dest s) = (d, out)"
    using st AtTake by (cases a; cases "loop_section valid (case a of Clock n \<Rightarrow> n) (dest s)") auto
  with st AtTake core_take [of s valid now d out] c show ?thesis
    by (cases out) (auto split: if_splits)
next
  case (Sending t)
  with c st show ?thesis
    by (auto simp: core_single frame_core_def in_flight_def split: answer.splits)
next
  case (Delivered t)
  from core_dequeue [OF c [unfolded Delivered]] obtain d where
    "dequeue (length (t_pdus t)) (length (t_edus t)) (dest s) = Some d"
    "core (s\<lparr>dest := d,
        fate := fate s @ map (\<lambda>p. (p, True)) (take (length (t_pdus t)) (pending_pdus (dest s))),
        gone_units := gone_units s @ take (length (t_edus t)) (pending_edus (dest s))\<rparr>) [Marking t]" .
  with st Delivered show ?thesis by auto
next
  case (Marking t)
  have "frame_core (on_dest (mark_success (t_pdus t)) s) []"
    using c Marking by (auto simp: core_single intro: frame_core_same_queues)
  with c st Marking show ?thesis by (auto simp: core_single frame_core_def)
next
  case Flushing
  have "frame_core (on_dest (fst \<circ> schedule_flush_locked) s) []"
    using c Flushing by (auto simp: core_single intro: frame_core_same_queues)
  with c st Flushing show ?thesis by (auto simp: core_single)
next
  case Rechecking
  with c st show ?thesis by (auto simp: core_single split: if_splits)
next
  case Exiting
  with c st show ?thesis by (auto simp: core_single intro: core_release)
next
  case (CatchSending q)
  with c st show ?thesis by (auto simp: core_single split: answer.splits)
next
  case (CatchDelivered q)
  have "frame_core (on_dest (mark_caught_up q) s) []"
    using c CatchDelivered by (auto simp: core_single intro: frame_core_same_queues)
  with c st CatchDelivered show ?thesis by (auto simp: core_single)
next
  case CatchReleasing
  have "frame_core (s\<lparr>dest := fst (release_claim (dest s))\<rparr>) []"
    using c CatchReleasing by (auto simp: core_single intro: frame_core_same_queues)
  moreover have "\<not> running (fst (release_claim (dest s)))" by simp
  ultimately show ?thesis using c st CatchReleasing by (auto simp: core_none release_claim_def)
qed (use h st in auto)

lemma core_waking:
  assumes c: "core s hs" and st: "thread_step valid a Waking s = Some (p', s')"
  shows "if holds p' then hs = [] \<and> core s' [p'] else core s' hs"
proof -
  have s': "s' = s\<lparr>dest := fst (try_start (dest s))\<rparr>" "p' = (if snd (try_start (dest s)) then Starting else Done)"
    using st by (auto split: prod.splits)
  have f: "frame_core s' i" if "frame_core s i" for i
    using that by (auto simp: s'(1) intro: frame_core_same_queues)
  show ?thesis
  proof (cases "running (dest s)")
    case True
    then have "p' = Done" "running (dest s') = running (dest s)" by (auto simp: s' try_start_def)
    then show ?thesis using core_producer [OF c, of "fst (try_start (dest s))"] by (simp add: s')
  next
    case False
    then have "hs = []" using c by (simp add: core_def)
    then show ?thesis using False c f by (auto simp: s'(2) try_start_def core_none core_single s'(1))
  qed
qed

text \<open>The holders after one thread moved.\<close>

lemma filter_update_holder:
  assumes "i < length ts" "holds (ts ! i)" "length (filter holds ts) \<le> 1"
  shows "filter holds ts = [ts ! i]" "filter holds (ts[i := p']) = filter holds [p']"
proof -
  have ts: "ts = take i ts @ ts ! i # drop (Suc i) ts" using assms(1) by (rule id_take_nth_drop)
  then have f: "filter holds ts = filter holds (take i ts) @ ts ! i # filter holds (drop (Suc i) ts)"
    using assms(2) by (metis filter.simps(2) filter_append)
  then have nil: "filter holds (take i ts) = []" "filter holds (drop (Suc i) ts) = []"
    using assms(3) by auto
  then show "filter holds ts = [ts ! i]" using f by simp
  show "filter holds (ts[i := p']) = filter holds [p']"
    using assms(1) nil by (simp add: upd_conv_take_nth_drop)
qed

lemma filter_update_other:
  assumes "i < length ts" "\<not> holds (ts ! i)"
  shows "\<not> holds p' \<Longrightarrow> filter holds (ts[i := p']) = filter holds ts"
    "holds p' \<Longrightarrow> filter holds ts = [] \<Longrightarrow> filter holds (ts[i := p']) = [p']"
proof -
  have ts: "ts = take i ts @ ts ! i # drop (Suc i) ts" using assms(1) by (rule id_take_nth_drop)
  then have f: "filter holds ts = filter holds (take i ts) @ filter holds (drop (Suc i) ts)"
    using assms(2) by (metis filter.simps(2) filter_append)
  then show "\<not> holds p' \<Longrightarrow> filter holds (ts[i := p']) = filter holds ts"
    "holds p' \<Longrightarrow> filter holds ts = [] \<Longrightarrow> filter holds (ts[i := p']) = [p']"
    using assms(1) by (auto simp: upd_conv_take_nth_drop)
qed

definition system_ok :: "system \<Rightarrow> bool" where
  "system_ok w \<longleftrightarrow> core (fst w) (filter holds (snd w))"

lemma system_ok_thread:
  assumes ok: "core s (filter holds ts)" and i: "i < length ts"
    and st: "thread_step valid a (ts ! i) s = Some (p', s')"
  shows "core s' (filter holds (ts[i := p']))"
proof (cases "holds (ts ! i)")
  case True
  have "length (filter holds ts) \<le> 1" using ok by (simp add: core_def)
  note f = filter_update_holder [OF i True this]
  from core_thread [OF ok [unfolded f(1)] True st] show ?thesis by (simp only: f(2))
next
  case False
  then consider "ts ! i = Waking" | "ts ! i = Done" by (cases "ts ! i") auto
  then show ?thesis
  proof cases
    case 1
    from core_waking [OF ok st [unfolded 1]] filter_update_other [OF i False, of p'] show ?thesis
      by (cases "holds p'") auto
  qed (use st in simp)
qed

lemma system_ok_step:
  assumes ok: "system_ok w" and st: "system_step valid a w = Some w'"
  shows "system_ok w'"
proof -
  obtain s ts where w: "w = (s, ts)" by force
  have c: "core s (filter holds ts)" using ok by (simp add: system_ok_def w)
  show ?thesis
  proof (cases a)
    case (EnqueuePDU p)
    with core_enqueue_pdu [OF c] st show ?thesis by (auto simp: w system_ok_def)
  next
    case (EnqueueUnit u)
    with core_arrival [OF c] st show ?thesis by (auto simp: w system_ok_def split: if_splits)
  next
    case Wake
    with c st show ?thesis by (auto simp: w system_ok_def)
  next
    case TimerFires
    with core_producer [OF c, of "(dest s)\<lparr>hold_timer := False\<rparr>"] st show ?thesis
      by (auto simp: w system_ok_def split: if_splits)
  next
    case (SendCatchUp p)
    show ?thesis
    proof (cases "running (dest s)")
      case True
      with SendCatchUp c st show ?thesis by (auto simp: w system_ok_def claim_def)
    next
      case False
      then have "filter holds ts = []" using c by (simp add: core_def)
      moreover have "frame_core (s\<lparr>dest := fst (claim (dest s))\<rparr>) []"
        using c \<open>filter holds ts = []\<close> by (auto simp: core_none intro: frame_core_same_queues)
      ultimately show ?thesis using SendCatchUp False st
        by (auto simp: w system_ok_def claim_def core_single)
    qed
  next
    case (SetLastSuccessful v)
    with core_producer [OF c, of "set_last_successful v (dest s)"] st show ?thesis
      by (auto simp: w system_ok_def)
  next
    case FinishCatchUp
    with core_producer [OF c, of "finish_catch_up (dest s)"] st show ?thesis
      by (auto simp: w system_ok_def)
  next
    case TakeSkipped
    with core_producer [OF c, of "fst (take_catch_up_skipped (dest s))"] st show ?thesis
      by (auto simp: w system_ok_def)
  next
    case (Thread i ans)
    with st obtain p' s' where "i < length ts" "thread_step valid ans (ts ! i) s = Some (p', s')"
      "w' = (s', ts[i := p'])" by (auto simp: w split: if_splits option.splits)
    with system_ok_thread [OF c] show ?thesis by (auto simp: system_ok_def)
  qed
qed

definition fresh :: "destination \<Rightarrow> bool" where
  "fresh d \<longleftrightarrow> \<not> running d \<and> pending_pdus d = [] \<and> pending_edus d = []"

lemma reachable_ok: "reachable valid d0 w \<Longrightarrow> fresh d0 \<Longrightarrow> system_ok w"
proof (induction rule: reachable.induct)
  case start
  then show ?case
    by (simp add: system_ok_def initial_system_def core_none frame_core_def fresh_def
        merged_are_unmarked_def marked_units_def)
next
  case (step w a w')
  then show ?case by (blast intro: system_ok_step)
qed

lemma thread_step_limits:
  assumes "thread_step valid a p s = Some (p', s')"
  shows "d_limits (dest s') = d_limits (dest s)"
proof -
  have take: "d_limits d' = d_limits d" if "loop_section valid now d = (d', out)" for now d d' out
    using same_queues_simps(12) [of d valid now] that by (simp add: same_queues_def)
  show ?thesis using assms
    by (cases p)
      (auto simp: try_start_def drop_ephemeral_edus_def restart_catch_up_def release_def
        schedule_flush_locked_def dequeue_def mark_success_def mark_caught_up_def release_claim_def
        split: answer.splits if_splits option.splits prod.splits dest: take)
qed

lemma system_step_limits:
  "system_step valid a w = Some w' \<Longrightarrow> d_limits (dest (fst w')) = d_limits (dest (fst w))"
  by (cases w; cases a)
    (auto simp: enqueue_pdu_def claim_def set_last_successful_def finish_catch_up_def
      take_catch_up_skipped_def dest: thread_step_limits split: if_splits option.splits)

lemma reachable_limits: "reachable valid d0 (s, ts) \<Longrightarrow> d_limits (dest s) = d_limits d0"
proof -
  have "d_limits (dest (fst w)) = d_limits d0" if "reachable valid d0 w" for w
    using that by induction (auto simp: initial_system_def dest: system_step_limits)
  then show "reachable valid d0 (s, ts) \<Longrightarrow> d_limits (dest s) = d_limits d0" by fastforce
qed

section \<open>Properties\<close>

lemma fresh_new_destination [simp]: "fresh (new_destination n l b)"
  by (simp add: fresh_def new_destination_def)

lemma reachable_core:
  "reachable valid (new_destination n l b) (s, ts) \<Longrightarrow> core s (filter holds ts)"
  using reachable_ok [of valid "new_destination n l b" "(s, ts)"] by (simp add: system_ok_def)

definition sample_pdu :: "string \<Rightarrow> int \<Rightarrow> pdu" where
  "sample_pdu e n = \<lparr>event_id = e, stream_ordering = n, pdu_json = ''{}''\<rparr>"

definition sample_actions :: "action list" where
  "sample_actions = [EnqueuePDU (sample_pdu ''$1'' 7), Wake, Thread 0 Proceed, Thread 0 Proceed,
     Thread 0 GateOpen, Thread 0 (Clock 0), Thread 0 SendOk, EnqueuePDU (sample_pdu ''$2'' 8)]"

definition sample_system :: system where
  "sample_system = the (run_actions (\<lambda>_. True) sample_actions (initial_system sample_destination))"

lemma hold_now:
  "pending_pdus d \<noteq> [] \<or> pending_edus d = [] \<or> list_ex (\<lambda>e. presence e = None) (pending_edus d)
     \<Longrightarrow> hold_for_locked now d = (d, 0)"
  by (auto simp: hold_for_locked_def)

lemmas queue_eval = initial_system_def sample_destination_def new_destination_def sample_pdu_def
  enqueue_pdu_def try_start_def loop_section_def hold_now take_locked_def only_def
  dequeue_def mark_success_def release_def schedule_flush_locked_def drop_ephemeral_edus_def
  restart_catch_up_def enqueue_marked_edu_def ephemeral_edu_def materialise_def Let_def

lemma sample_system_run:
  "run_actions (\<lambda>_. True) sample_actions (initial_system sample_destination) = Some sample_system"
  unfolding sample_system_def sample_actions_def by (simp add: queue_eval)

lemma sample_system_reachable: "reachable (\<lambda>_. True) sample_destination sample_system"
  using reachable_run [OF reachable.start sample_system_run] .

text \<open>
  C1. At most one transaction to a destination is ever in flight. Whatever the interleaving of
  producers, wake-ups, timers, loops and catch-up sends, at most one thread holds the claim,
  the flag \<open>running\<close> is set exactly while one does, and no thread ever slices its queue out of
  range when it removes what it sent.
\<close>

theorem one_transaction_at_a_time:
  assumes "reachable valid (new_destination n l b) (s, ts)"
  shows "length (filter holds ts) \<le> 1 \<and> (running (dest s) \<longleftrightarrow> filter holds ts \<noteq> [])
    \<and> Panicked \<notin> set ts"
proof -
  note c = reachable_core [OF assms]
  have "Panicked \<notin> set ts"
  proof
    assume "Panicked \<in> set ts"
    then have "Panicked \<in> set (filter holds ts)" by simp
    with c show False by (auto simp: core_def list_all_iff)
  qed
  with c show ?thesis by (auto simp: core_def)
qed

theorem one_transaction_at_a_time_witness:
  "length (filter holds (snd sample_system)) \<le> 1"
proof -
  have "reachable (\<lambda>_. True) (new_destination ''b.example'' \<lparr>max_pdus = 0, max_edus = 0\<rparr>
      \<lparr>max_states = 50, max_wait = 5 * second\<rparr>) (fst sample_system, snd sample_system)"
    using sample_system_reachable by (simp add: sample_destination_def)
  from one_transaction_at_a_time [OF this] show ?thesis by blast
qed

text \<open>
  C2. Nothing queued is lost or reordered by sending. Under any interleaving the events a queue
  accepted are, in the order they were accepted: first those already settled, each delivered or
  given up to catch-up when a long outage emptied the queue, then those still pending. The
  events on the wire are exactly the delivered ones in that order, once each, followed by the
  batch whose delivery is not yet recorded, which is still at the head of the queue.
\<close>

theorem pdus_fifo:
  assumes "reachable valid (new_destination n l b) (s, ts)"
  shows "accepted s = map fst (fate s) @ pending_pdus (dest s)
    \<and> (\<exists>k. concat (map t_pdus (live_wire s)) = map fst (filter snd (fate s)) @ take k (pending_pdus (dest s))
         \<and> (k = 0 \<or> (\<exists>t. Delivered t \<in> set ts)))"
proof -
  note c = reachable_core [OF assms]
  from core_holders [OF c] show ?thesis
  proof (elim disjE exE)
    assume "filter holds ts = []"
    with c show ?thesis by (auto simp: core_none frame_core_def intro!: exI [of _ 0])
  next
    fix p assume p: "filter holds ts = [p]"
    have "p \<in> set (filter holds ts)" by (simp add: p)
    then have "p \<in> set ts" by simp
    show ?thesis
    proof (cases "\<exists>t. p = Delivered t")
      case True
      then obtain t where t: "p = Delivered t" by blast
      with c p \<open>p \<in> set ts\<close> show ?thesis
        by (auto simp: core_single frame_core_def in_flight_def intro!: exI [of _ "length (t_pdus t)"])
    next
      case False
      then have "undequeued p = []" by (cases p) auto
      with c p show ?thesis by (auto simp: core_single frame_core_def intro!: exI [of _ 0])
    qed
  qed
qed

theorem pdus_fifo_witness:
  "accepted (fst sample_system) = map fst (fate (fst sample_system)) @ pending_pdus (dest (fst sample_system))"
proof -
  have "reachable (\<lambda>_. True) (new_destination ''b.example'' \<lparr>max_pdus = 0, max_edus = 0\<rparr>
      \<lparr>max_states = 50, max_wait = 5 * second\<rparr>) (fst sample_system, snd sample_system)"
    using sample_system_reachable by (simp add: sample_destination_def)
  from pdus_fifo [OF this] show ?thesis by blast
qed

text \<open>Where units with a mark of one kind arrived in order, a mark of a unit that is gone is not beyond one pending.\<close>

lemma gone_mark_le:
  assumes "came = marked_units gone @ marked_units left" "\<And>e. 0 < f e \<Longrightarrow> has_mark e"
    and "sorted (map f (filter (\<lambda>e. 0 < f e) came))" "g \<in> set gone" "0 < f g" "e \<in> set left" "0 < f e"
  shows "f g \<le> f e"
proof -
  have "f g \<in> set (map f (filter (\<lambda>e. 0 < f e) (marked_units gone)))" "f e \<in> set (map f (filter (\<lambda>e. 0 < f e) (marked_units left)))"
    using assms(2,4-7) by (auto simp: marked_units_def)
  then show ?thesis using assms(3) unfolding assms(1) filter_append map_append sorted_append by blast
qed

text \<open>
  C3. The durable marks. Units carrying a mark of either kind leave the queue by delivery only, in
  the order they arrived, even through outages; every mark reported to \<open>onEDUsSent\<close> was carried by
  a delivered unit; and when the marks of a kind arrive in stream order, a reported mark of that
  kind never lies beyond a marked unit that is still owed.
\<close>

theorem marks_are_delivered:
  assumes "reachable valid (new_destination n l b) (s, ts)"
  shows "marked_in s = marked_units (gone_units s) @ marked_units (pending_edus (dest s))
    \<and> (\<forall>c \<in> set (edus_sent_calls s). mark_of_gone (gone_units s) c)
    \<and> (sorted (map to_device_upto (filter (\<lambda>e. 0 < to_device_upto e) (marked_in s))) \<longrightarrow>
        (\<forall>c \<in> set (edus_sent_calls s). \<forall>e \<in> set (pending_edus (dest s)).
           0 < to_device_upto e \<longrightarrow> fst c \<le> to_device_upto e))
    \<and> (sorted (map device_list_upto (filter (\<lambda>e. 0 < device_list_upto e) (marked_in s))) \<longrightarrow>
        (\<forall>c \<in> set (edus_sent_calls s). \<forall>e \<in> set (pending_edus (dest s)).
           0 < device_list_upto e \<longrightarrow> snd c \<le> device_list_upto e))"
proof -
  note c = reachable_core [OF assms]
  then have m: "marked_in s = marked_units (gone_units s) @ marked_units (pending_edus (dest s))"
    and calls: "list_all (mark_of_gone (gone_units s)) (edus_sent_calls s)"
    by (auto simp: core_def)
  have gone: "(0 < fst c \<longrightarrow> (\<exists>g \<in> set (gone_units s). to_device_upto g = fst c))
      \<and> (0 < snd c \<longrightarrow> (\<exists>g \<in> set (gone_units s). device_list_upto g = snd c))" if "c \<in> set (edus_sent_calls s)" for c
    using calls that by (auto simp: list_all_iff mark_of_gone_def)
  have "fst c \<le> to_device_upto e"
    if srt: "sorted (map to_device_upto (filter (\<lambda>e. 0 < to_device_upto e) (marked_in s)))"
      and "c \<in> set (edus_sent_calls s)" "e \<in> set (pending_edus (dest s))" "0 < to_device_upto e" for c e
  proof (cases "0 < fst c")
    case True
    with gone that(2) obtain g where g: "g \<in> set (gone_units s)" "to_device_upto g = fst c" by blast
    from gone_mark_le [OF m _ srt this(1) _ that(3,4)] g True show ?thesis by (simp add: has_mark_def)
  qed (use that in simp)
  moreover have "snd c \<le> device_list_upto e"
    if srt: "sorted (map device_list_upto (filter (\<lambda>e. 0 < device_list_upto e) (marked_in s)))"
      and "c \<in> set (edus_sent_calls s)" "e \<in> set (pending_edus (dest s))" "0 < device_list_upto e" for c e
  proof (cases "0 < snd c")
    case True
    with gone that(2) obtain g where g: "g \<in> set (gone_units s)" "device_list_upto g = snd c" by blast
    from gone_mark_le [OF m _ srt this(1) _ that(3,4)] g True show ?thesis by (simp add: has_mark_def)
  qed (use that in simp)
  ultimately show ?thesis using m calls by (simp add: list_all_iff)
qed

theorem marks_are_delivered_witness:
  "marked_in (fst sample_system) = marked_units (gone_units (fst sample_system))
     @ marked_units (pending_edus (dest (fst sample_system)))"
proof -
  have "reachable (\<lambda>_. True) (new_destination ''b.example'' \<lparr>max_pdus = 0, max_edus = 0\<rparr>
      \<lparr>max_states = 50, max_wait = 5 * second\<rparr>) (fst sample_system, snd sample_system)"
    using sample_system_reachable by (simp add: sample_destination_def)
  from marks_are_delivered [OF this] show ?thesis by blast
qed

text \<open>
  C5. Batch limits. Every transaction a live loop delivers carries at most the configured number
  of events and units, which default to 50 and 100 when the configuration gives none.
\<close>

theorem transaction_limits:
  assumes "reachable valid (new_destination n l b) (s, ts)" "t \<in> set (live_wire s)"
  shows "int (length (t_pdus t)) \<le> (if max_pdus l \<le> 0 then 50 else max_pdus l)
    \<and> int (length (t_edus t)) \<le> (if max_edus l \<le> 0 then 100 else max_edus l)"
  using reachable_core [OF assms(1)] assms(2) reachable_limits [OF assms(1)]
  by (auto simp: core_def list_all_iff within_limits_def new_destination_def split: if_splits)

theorem transaction_limits_witness:
  "int (length (t_pdus \<lparr>t_pdus = [sample_pdu ''$1'' 7], t_edus = [], t_to_device_upto = 0,
     t_device_list_upto = 0\<rparr>)) \<le> 50"
proof -
  have eq: "sample_system = (fst sample_system, snd sample_system)" by simp
  have r: "reachable (\<lambda>_. True) (new_destination ''b.example'' \<lparr>max_pdus = 0, max_edus = 0\<rparr>
      \<lparr>max_states = 50, max_wait = 5 * second\<rparr>) (fst sample_system, snd sample_system)"
    using sample_system_reachable by (simp add: sample_destination_def)
  show ?thesis
    using transaction_limits [OF r, of "\<lparr>t_pdus = [sample_pdu ''$1'' 7], t_edus = [],
        t_to_device_upto = 0, t_device_list_upto = 0\<rparr>"]
    by (simp add: sample_system_def sample_actions_def queue_eval)
qed

text \<open>
  A wake-up can be lost. There is an interleaving - an event queued and woken for after the
  loop read \<open>newData\<close> for the last time and before its deferred release of the claim - that ends
  with the event pending, \<open>newData\<close> set, every thread finished and no timer armed.
\<close>

theorem lost_wakeup:
  "\<exists>s ts. reachable valid (new_destination n \<lparr>max_pdus = 0, max_edus = 0\<rparr> b) (s, ts)
     \<and> pending_pdus (dest s) = [p'] \<and> new_data (dest s)
     \<and> set ts = {Done} \<and> \<not> hold_timer (dest s) \<and> \<not> running (dest s)"
proof -
  let ?as = "[EnqueuePDU p, Wake, Thread 0 Proceed, Thread 0 Proceed, Thread 0 GateOpen,
    Thread 0 (Clock 0), Thread 0 SendOk, Thread 0 Proceed, Thread 0 Proceed, Thread 0 GateOpen,
    Thread 0 (Clock 0), Thread 0 Proceed, EnqueuePDU p', Wake, Thread 1 Proceed, Thread 0 Proceed]"
  obtain s ts where run: "run_actions valid ?as
      (initial_system (new_destination n \<lparr>max_pdus = 0, max_edus = 0\<rparr> b)) = Some (s, ts)"
    and end_state: "pending_pdus (dest s) = [p']" "new_data (dest s)" "ts = [Done, Done]"
      "\<not> hold_timer (dest s)" "\<not> running (dest s)"
    by (cases "0 < stream_ordering p") (simp_all add: queue_eval)
  have "set ts = {Done}" by (simp add: end_state)
  with reachable_run [OF reachable.start run] end_state show ?thesis by blast
qed

text \<open>
  A long outage loses to-device messages. Of two to-device units of one batch the sender
  marks only the last with the stream id they cover; there is a run in which the outage drops
  the first as if it were ephemeral, keeps the second, and on recovery delivers it and reports
  its mark - the permission to delete the rows of both.
\<close>

definition to_device_unit :: "string \<Rightarrow> int \<Rightarrow> edu" where
  "to_device_unit c mark =
     (plain_edu \<lparr>edu_type = EDUTypeDirectToDevice, edu_content = Raw c\<rparr>)\<lparr>to_device_upto := mark\<rparr>"

theorem outage_drops_to_device:
  "\<exists>s ts. reachable valid (new_destination n \<lparr>max_pdus = 0, max_edus = 0\<rparr> b) (s, ts)
     \<and> edus_sent_calls s = [(9, 0)] \<and> pending_edus (dest s) = []
     \<and> concat (map t_edus (live_wire s)) = [unit_of (to_device_unit ''second'' 9)]
     \<and> gone_units s = [to_device_unit ''second'' 9]"
proof -
  let ?as = "[EnqueueUnit (MarkedArrival (to_device_unit ''first'' 0)),
    EnqueueUnit (MarkedArrival (to_device_unit ''second'' 9)), Wake, Thread 0 Proceed,
    Thread 0 Proceed, Thread 0 (GateClosed True), Thread 0 Proceed, Thread 0 Proceed,
    Wake, Thread 1 Proceed, Thread 1 Proceed, Thread 1 GateOpen, Thread 1 (Clock 0), Thread 1 SendOk,
    Thread 1 Proceed, Thread 1 Proceed]"
  obtain s ts where run: "run_actions valid ?as
      (initial_system (new_destination n \<lparr>max_pdus = 0, max_edus = 0\<rparr> b)) = Some (s, ts)"
    and end_state: "edus_sent_calls s = [(9, 0)]" "pending_edus (dest s) = []"
      "concat (map t_edus (live_wire s)) = [unit_of (to_device_unit ''second'' 9)]"
      "gone_units s = [to_device_unit ''second'' 9]"
    by (simp add: queue_eval to_device_unit_def plain_edu_def)
  with reachable_run [OF reachable.start run] show ?thesis by blast
qed

end
