(* ===== verification/Manager.thy ===== *)
theory Manager
  imports QueueLoop
begin

text \<open>
  \<open>internal/queue/manager.go\<close>: the map of destination queues. \<open>Get\<close> creates a queue on first
  use and never removes one. The two lookups of \<open>Get\<close>, under the read lock and again under the
  write lock, are two sections, so that racing callers can be interleaved.
\<close>

record manager =
  m_limits :: limits
  m_batch :: batch_config
  m_max_concurrent :: int
  m_dests :: "(string \<times> destination) list"

definition new_manager :: "limits \<Rightarrow> batch_config \<Rightarrow> int \<Rightarrow> manager" where
  "new_manager lims batch max_concurrent =
     \<lparr>m_limits = lims, m_batch = batch,
      m_max_concurrent = (if max_concurrent \<le> 0 then 2000 else max_concurrent), m_dests = []\<rparr>"

text \<open>The section under the read lock: the queue, if it is there.\<close>

definition get_fast :: "string \<Rightarrow> manager \<Rightarrow> destination option" where
  "get_fast name m = map_of (m_dests m) name"

text \<open>The section under the write lock, with its re-check.\<close>

definition get_slow :: "string \<Rightarrow> manager \<Rightarrow> manager \<times> destination" where
  "get_slow name m =
     (case map_of (m_dests m) name of
        Some d \<Rightarrow> (m, d)
      | None \<Rightarrow> (let d = new_destination name (m_limits m) (m_batch m)
                 in (m\<lparr>m_dests := AList.update name d (m_dests m)\<rparr>, d)))"

definition get_queue :: "string \<Rightarrow> manager \<Rightarrow> manager \<times> destination" where
  "get_queue name m = (case get_fast name m of Some d \<Rightarrow> (m, d) | None \<Rightarrow> get_slow name m)"

definition queue_count :: "manager \<Rightarrow> nat" where
  "queue_count m = length (m_dests m)"

definition queue_names :: "manager \<Rightarrow> string list" where
  "queue_names m = map fst (m_dests m)"

fun add_pending :: "destination list \<Rightarrow> nat \<times> nat \<times> nat \<Rightarrow> nat \<times> nat \<times> nat" where
  "add_pending [] acc = acc"
| "add_pending (d # ds) (dests, pdus, edus) =
     (case pending d of (p, e) \<Rightarrow>
        add_pending ds (if p > 0 \<or> e > 0 then Suc dests else dests, pdus + p, edus + e))"

definition pending_totals :: "manager \<Rightarrow> nat \<times> nat \<times> nat" where
  "pending_totals m = add_pending (map snd (m_dests m)) (0, 0, 0)"

lemma add_pending_sums:
  "add_pending ds (n, p, e) =
     (n + length (filter (\<lambda>d. pending d \<noteq> (0, 0)) ds),
      p + sum_list (map (fst \<circ> pending) ds), e + sum_list (map (snd \<circ> pending) ds))"
  by (induction ds arbitrary: n p e) (auto simp: pending_def)

text \<open>
  A caller that missed under the read lock and one that creates under the write lock, in any
  order of any number of callers: a queue handed out for a name is the one every later caller
  gets, as long as its own operations are written back.
\<close>

definition well_named :: "manager \<Rightarrow> bool" where
  "well_named m \<longleftrightarrow> distinct (map fst (m_dests m)) \<and> (\<forall>(n, d) \<in> set (m_dests m). d_name d = n)"

lemma new_destination_name [simp]: "d_name (new_destination n l b) = n"
  by (simp add: new_destination_def)

lemma set_update_new: "set (AList.update k v m) \<subseteq> insert (k, v) (set m)"
  by (induction m) auto

lemma get_slow_well_named:
  assumes "well_named m"
  shows "well_named (fst (get_slow name m))"
  using assms set_update_new [of name _ "m_dests m"]
  by (fastforce simp: get_slow_def well_named_def Let_def distinct_update split: option.splits)

lemma get_slow_stable:
  "map_of (m_dests (fst (get_slow name m))) name = Some (snd (get_slow name m))"
  "map_of (m_dests m) other = Some d \<Longrightarrow> map_of (m_dests (fst (get_slow name m))) other = Some d"
  by (auto simp: get_slow_def Let_def update_conv split: option.splits)

lemma fold_get_slow_stable:
  "map_of (m_dests m) name = Some d \<Longrightarrow>
     map_of (m_dests (fold (\<lambda>n m. fst (get_slow n m)) names m)) name = Some d"
  by (induction names arbitrary: m) (auto simp: get_slow_stable(2))

lemma fold_get_slow_well_named:
  "well_named m \<Longrightarrow> well_named (fold (\<lambda>n m. fst (get_slow n m)) names m)"
  by (induction names arbitrary: m) (auto intro: get_slow_well_named)

text \<open>
  One queue per destination. Whatever other callers create between a caller's miss under
  the read lock and its turn under the write lock, and after it, every caller of \<open>Get\<close> for a
  name receives the same queue, the manager holds exactly one per name, and a queue is never
  replaced by a fresh one.
\<close>

theorem one_queue_per_destination:
  fixes before after :: "string list" and name :: string
  assumes "well_named m"
  defines "m1 \<equiv> fold (\<lambda>n m. fst (get_slow n m)) before m"
  defines "m2 \<equiv> fold (\<lambda>n m. fst (get_slow n m)) after (fst (get_slow name m1))"
  shows "get_queue name m2 = (m2, snd (get_slow name m1)) \<and> get_slow name m2 = (m2, snd (get_slow name m1))
    \<and> d_name (snd (get_slow name m1)) = name
    \<and> distinct (queue_names m2) \<and> queue_count m2 = card (set (queue_names m2))
    \<and> (\<forall>d. map_of (m_dests m) name = Some d \<longrightarrow> snd (get_slow name m1) = d)"
proof -
  have m2: "map_of (m_dests m2) name = Some (snd (get_slow name m1))"
    unfolding m2_def by (rule fold_get_slow_stable) (rule get_slow_stable(1))
  have wn: "well_named m1" "well_named m2"
    unfolding m1_def m2_def using assms(1)
    by (auto intro!: fold_get_slow_well_named get_slow_well_named)
  then have "d_name (snd (get_slow name m1)) = name"
    using map_of_SomeD [OF m2] by (auto simp: well_named_def)
  moreover have "snd (get_slow name m1) = d" if "map_of (m_dests m) name = Some d" for d
    using fold_get_slow_stable [OF that, of before] by (simp add: m1_def get_slow_def)
  moreover have "length (m_dests m2) = card (fst ` set (m_dests m2))"
    using distinct_card [of "map fst (m_dests m2)"] wn(2) by (simp add: well_named_def)
  ultimately show ?thesis
    using wn(2) m2
    by (auto simp: get_queue_def get_fast_def get_slow_def [of name m2] well_named_def queue_names_def
        queue_count_def distinct_card)
qed

theorem one_queue_per_destination_witness:
  "queue_count (fst (get_slow ''a'' (new_manager \<lparr>max_pdus = 0, max_edus = 0\<rparr>
      \<lparr>max_states = 0, max_wait = 0\<rparr> 0))) = 1"
  using one_queue_per_destination [of "new_manager \<lparr>max_pdus = 0, max_edus = 0\<rparr>
      \<lparr>max_states = 0, max_wait = 0\<rparr> 0" "''a''" "[]" "[]"]
  by (simp add: new_manager_def well_named_def queue_names_def queue_count_def get_slow_def Let_def)

end
