(* ===== verification/GoJson.thy ===== *)
theory GoJson
  imports Prelude
begin

text \<open>
  The JSON libraries the program reads documents with (\<open>tidwall/gjson\<close>, \<open>tidwall/sjson\<close>) are
  not part of the repository: they are a record of operations, an argument of every definition
  that reads JSON. A document is its bytes. \<open>gj_get\<close> is \<open>Get(path)\<close>, giving the raw value found
  there; \<open>gj_str\<close>, \<open>gj_int\<close>, \<open>gj_bool\<close>, \<open>gj_is_array\<close>, \<open>gj_items\<close> and \<open>gj_null\<close> read a raw value;
  \<open>sj_delete\<close> is \<open>DeleteBytes\<close>. The zero \<open>Result\<close> of a missing value reads as Go's zero values.
  Below it, \<open>internal/txn/pdu.go\<close>.
\<close>

type_synonym json = string

record gjson =
  gj_valid :: "json \<Rightarrow> bool"
  gj_get :: "json \<Rightarrow> string \<Rightarrow> json option"
  gj_str :: "json \<Rightarrow> string"
  gj_int :: "json \<Rightarrow> int"
  gj_bool :: "json \<Rightarrow> bool"
  gj_is_array :: "json \<Rightarrow> bool"
  gj_items :: "json \<Rightarrow> json list"
  gj_null :: "json \<Rightarrow> bool"
  sj_delete :: "json \<Rightarrow> string \<Rightarrow> json option"

definition get_str :: "gjson \<Rightarrow> json \<Rightarrow> string \<Rightarrow> string" where
  "get_str g doc path = (case gj_get g doc path of None \<Rightarrow> [] | Some r \<Rightarrow> gj_str g r)"

definition get_int :: "gjson \<Rightarrow> json \<Rightarrow> string \<Rightarrow> int" where
  "get_int g doc path = (case gj_get g doc path of None \<Rightarrow> 0 | Some r \<Rightarrow> gj_int g r)"

definition get_bool :: "gjson \<Rightarrow> json \<Rightarrow> string \<Rightarrow> bool" where
  "get_bool g doc path = (case gj_get g doc path of None \<Rightarrow> False | Some r \<Rightarrow> gj_bool g r)"

definition get_items :: "gjson \<Rightarrow> json \<Rightarrow> string \<Rightarrow> json list" where
  "get_items g doc path = (case gj_get g doc path of None \<Rightarrow> [] | Some r \<Rightarrow> gj_items g r)"

definition get_exists :: "gjson \<Rightarrow> json \<Rightarrow> string \<Rightarrow> bool" where
  "get_exists g doc path \<longleftrightarrow> gj_get g doc path \<noteq> None"

text \<open>
  References of an event: room versions 1 and 2 write \<open>[event_id, hashes]\<close> pairs, later ones
  bare ids. \<open>keep_empty\<close> is whether an empty id is kept (\<open>loadAuthEvents\<close> keeps it,
  \<open>prevEventIDs\<close> drops it).
\<close>

definition event_ref :: "gjson \<Rightarrow> bool \<Rightarrow> json \<Rightarrow> string list" where
  "event_ref g keep_empty r =
     (if gj_is_array g r then (case gj_items g r of [] \<Rightarrow> [] | a # _ \<Rightarrow> [gj_str g a])
      else if keep_empty \<or> gj_str g r \<noteq> [] then [gj_str g r] else [])"

definition event_refs :: "gjson \<Rightarrow> bool \<Rightarrow> json list \<Rightarrow> string list" where
  "event_refs g keep_empty rs = concat (map (event_ref g keep_empty) rs)"

section \<open>What is put on the wire\<close>

abbreviation canonical_json_max_int :: int where "canonical_json_max_int \<equiv> 9007199254740991"
abbreviation canonical_json_min_int :: int where "canonical_json_min_int \<equiv> -9007199254740991"

text \<open>\<open>None\<close> is the \<open>false\<close> answer: the event is not sent at all.\<close>

definition serialise_pdu :: "gjson \<Rightarrow> json \<Rightarrow> json option" where
  "serialise_pdu g stored =
     (if \<not> gj_valid g stored then None
      else if get_exists g stored ''depth''
          \<and> (get_int g stored ''depth'' > canonical_json_max_int
             \<or> get_int g stored ''depth'' < canonical_json_min_int) then None
      else if get_exists g stored ''unsigned.redacted_because''
      then sj_delete g stored ''unsigned.redacted_because''
      else Some stored)"

text \<open>
  A gjson for the witnesses: every document is its key, and a table says what is at each path.
  Strings are read as they stand.
\<close>

definition table_gjson :: "((json \<times> string) \<times> json) list \<Rightarrow> (json \<times> json list) list \<Rightarrow> (json \<times> int) list \<Rightarrow> gjson" where
  "table_gjson values arrays ints =
     \<lparr>gj_valid = (\<lambda>doc. doc \<noteq> []),
      gj_get = (\<lambda>doc path. map_of values (doc, path)),
      gj_str = (\<lambda>r. r),
      gj_int = (\<lambda>r. case map_of ints r of None \<Rightarrow> 0 | Some i \<Rightarrow> i),
      gj_bool = (\<lambda>r. r = ''true''),
      gj_is_array = (\<lambda>r. map_of arrays r \<noteq> None),
      gj_items = (\<lambda>r. case map_of arrays r of None \<Rightarrow> [] | Some xs \<Rightarrow> xs),
      gj_null = (\<lambda>r. r = ''null''),
      sj_delete = (\<lambda>doc path. Some (doc @ ''-''))\<rparr>"

lemmas gjson_eval = table_gjson_def get_str_def get_int_def get_bool_def get_items_def get_exists_def
  event_ref_def event_refs_def

end
