(* ===== verification/Destinations.thy ===== *)
theory Destinations
  imports GoJson
begin

text \<open>
  \<open>internal/destinations\<close>: which events are federated (\<open>eligibility.go\<close>), and which servers an
  event goes to (\<open>resolve.go\<close>, \<open>before.go\<close>). The database behind \<open>RoomHosts\<close> is a record of its
  four queries, each answering \<open>None\<close> for an error; a Go map read from it is an association list
  with distinct keys.
\<close>

section \<open>Eligibility\<close>

record metadata =
  out_of_band_membership :: bool
  proactively_send :: bool
  send_on_behalf_of :: string

definition parse_metadata :: "gjson \<Rightarrow> json \<Rightarrow> metadata" where
  "parse_metadata g raw =
     (if raw = [] then \<lparr>out_of_band_membership = False, proactively_send = True, send_on_behalf_of = []\<rparr>
      else \<lparr>out_of_band_membership =
              (if get_exists g raw ''out_of_band_membership'' then get_bool g raw ''out_of_band_membership''
               else False),
            proactively_send =
              (if get_exists g raw ''proactively_send'' then get_bool g raw ''proactively_send'' else True),
            send_on_behalf_of =
              (if get_exists g raw ''send_on_behalf_of'' then get_str g raw ''send_on_behalf_of'' else [])\<rparr>)"

datatype skip_reason =
  SkipNotOurs | SkipOutOfBand | SkipNotProactive | SkipRejected | SkipNoPrevEvents | SkipNoDestinations | SkipUnserialisable

text \<open>\<open>DomainOf\<close>: everything after the first colon.\<close>

definition domain_of :: "string \<Rightarrow> string" where
  "domain_of i = (case strings_cut (CHR '':'') i of (_, domain, ok) \<Rightarrow> if ok then domain else [])"

definition is_mine :: "string \<Rightarrow> string \<Rightarrow> bool" where
  "is_mine i server \<longleftrightarrow> domain_of i = server"

text \<open>\<open>None\<close> is \<open>(true, "")\<close>.\<close>

definition eligible :: "string \<Rightarrow> string \<Rightarrow> metadata \<Rightarrow> string \<Rightarrow> skip_reason option" where
  "eligible sender server m rejection =
     (if rejection \<noteq> [] then Some SkipRejected
      else if \<not> is_mine sender server \<and> send_on_behalf_of m = [] then Some SkipNotOurs
      else if out_of_band_membership m then Some SkipOutOfBand
      else if \<not> proactively_send m then Some SkipNotProactive
      else None)"

lemma eligible_None_iff:
  "eligible sender server m rejection = None \<longleftrightarrow>
     rejection = [] \<and> (is_mine sender server \<or> send_on_behalf_of m \<noteq> [])
     \<and> \<not> out_of_band_membership m \<and> proactively_send m"
  by (auto simp: eligible_def)

section \<open>The state before an event\<close>

datatype fallback_reason = NoFallback | FallbackForkedDAG | FallbackNoStateGroup | FallbackPartialState

record room_hosts =
  rh_current :: "string \<Rightarrow> string list option"
  rh_partial :: "string \<Rightarrow> (string list \<times> bool) option"
  rh_groups :: "string list \<Rightarrow> (string \<times> int) list option"
  rh_at_group :: "int \<Rightarrow> string list option"

fun same_group :: "(string \<times> int) list \<Rightarrow> int \<Rightarrow> string list \<Rightarrow> bool" where
  "same_group groups first [] = True"
| "same_group groups first (i # is) =
     (case map_of groups i of None \<Rightarrow> False | Some g \<Rightarrow> g = first \<and> same_group groups first is)"

definition single_group :: "(string \<times> int) list \<Rightarrow> string list \<Rightarrow> int option" where
  "single_group groups prev_ids =
     (if length groups \<noteq> length prev_ids then None
      else case prev_ids of
             [] \<Rightarrow> Some 0
           | i # is \<Rightarrow>
               (case map_of groups i of
                  None \<Rightarrow> None
                | Some first \<Rightarrow> if same_group groups first is then Some first else None))"

definition prev_event_ids :: "gjson \<Rightarrow> json \<Rightarrow> string list" where
  "prev_event_ids g ev = event_refs g False (get_items g ev ''prev_events'')"

definition hosts_now :: "room_hosts \<Rightarrow> string \<Rightarrow> fallback_reason \<Rightarrow> (string list \<times> bool \<times> fallback_reason) option" where
  "hosts_now r room fallback =
     (case rh_current r room of None \<Rightarrow> None | Some hosts \<Rightarrow> Some (hosts, True, fallback))"

definition hosts_before_event ::
  "room_hosts \<Rightarrow> string \<Rightarrow> string list \<Rightarrow> (string list \<times> bool \<times> fallback_reason) option" where
  "hosts_before_event r room prev_ids =
     (if prev_ids = [] then hosts_now r room NoFallback
      else case rh_groups r prev_ids of
             None \<Rightarrow> None
           | Some groups \<Rightarrow>
               (case single_group groups prev_ids of
                  Some grp \<Rightarrow>
                    (case rh_at_group r grp of None \<Rightarrow> None | Some hosts \<Rightarrow> Some (hosts, False, NoFallback))
                | None \<Rightarrow>
                    if length groups < length prev_ids then hosts_now r room FallbackNoStateGroup
                    else hosts_now r room FallbackForkedDAG))"

section \<open>Destinations\<close>

record resolution =
  destinations :: "string list"
  approximate :: bool
  fallback :: fallback_reason
  rescinded_invite :: bool

definition has_invite_for :: "gjson \<Rightarrow> json list \<Rightarrow> string \<Rightarrow> bool" where
  "has_invite_for g auth_events state_key =
     list_ex (\<lambda>e. get_str g e ''type'' = ''m.room.member'' \<and> get_str g e ''state_key'' = state_key
                  \<and> get_str g e ''content.membership'' = ''invite'') auth_events"

text \<open>The rescinded-invite rule: \<open>None\<close> when loading the auth events fails.\<close>

definition rescinded_domain :: "gjson \<Rightarrow> json \<Rightarrow> json list option \<Rightarrow> string list \<Rightarrow> string option option" where
  "rescinded_domain g ev auth_events hosts =
     (let sender = get_str g ev ''sender''; state_key = get_str g ev ''state_key'' in
      if get_str g ev ''type'' = ''m.room.member'' \<and> get_str g ev ''content.membership'' = ''leave''
         \<and> state_key \<noteq> [] \<and> sender \<noteq> state_key
      then (case auth_events of
              None \<Rightarrow> None
            | Some auths \<Rightarrow>
                Some (if has_invite_for g auths state_key \<and> domain_of state_key \<noteq> []
                         \<and> domain_of state_key \<notin> set hosts
                      then Some (domain_of state_key) else None))
      else Some None)"

text \<open>
  \<open>Resolve\<close>. \<open>auth_events\<close> is what the closure \<open>authEvents()\<close> answers; \<open>whitelist\<close> is \<open>None\<close> for
  a nil map; the outer \<open>None\<close> is an error.
\<close>

definition resolve ::
  "gjson \<Rightarrow> room_hosts \<Rightarrow> string \<Rightarrow> string list option \<Rightarrow> json \<Rightarrow> json list option \<Rightarrow> resolution option" where
  "resolve g r server whitelist ev auth_events =
     (let room = get_str g ev ''room_id'' in
      if get_items g ev ''prev_events'' = []
      then Some \<lparr>destinations = [], approximate = False, fallback = NoFallback, rescinded_invite = False\<rparr>
      else case rh_partial r room of
        None \<Rightarrow> None
      | Some (partial, is_partial) \<Rightarrow>
          (case (if is_partial then Some (partial, True, FallbackPartialState)
                 else hosts_before_event r room (prev_event_ids g ev)) of
             None \<Rightarrow> None
           | Some (hosts, approx, fb) \<Rightarrow>
               (case rescinded_domain g ev auth_events hosts of
                  None \<Rightarrow> None
                | Some extra \<Rightarrow>
                    (let all = remdups (hosts @ (case extra of None \<Rightarrow> [] | Some d \<Rightarrow> [d]));
                         out = filter (\<lambda>d. d \<noteq> server \<and> d \<noteq> []
                                 \<and> (case whitelist of None \<Rightarrow> True | Some w \<Rightarrow> d \<in> set w)) all
                     in Some \<lparr>destinations = sort out, approximate = approx, fallback = fb,
                              rescinded_invite = extra \<noteq> None\<rparr>))))"

section \<open>Facts\<close>

lemma same_group_iff: "same_group groups first is \<longleftrightarrow> (\<forall>i \<in> set is. map_of groups i = Some first)"
  by (induction "is") (auto split: option.splits)

text \<open>\<open>singleGroup\<close> answers exactly when every prev event has a group and it is the same one.\<close>

lemma single_group_iff:
  assumes "distinct (map fst groups)" "fst ` set groups \<subseteq> set prev_ids" "prev_ids \<noteq> []"
    "distinct prev_ids"
  shows "single_group groups prev_ids = Some g \<longleftrightarrow> (\<forall>i \<in> set prev_ids. map_of groups i = Some g)"
proof -
  have "length groups = length prev_ids" if all: "\<forall>i \<in> set prev_ids. map_of groups i = Some g"
  proof -
    have "set prev_ids \<subseteq> fst ` set groups"
      using all by (force dest: map_of_SomeD)
    then have "set prev_ids = set (map fst groups)" using assms(2) by auto
    then show ?thesis using assms(1,4) by (metis distinct_card length_map)
  qed
  then show ?thesis using assms(3)
    by (cases prev_ids) (auto simp: single_group_def same_group_iff split: option.splits)
qed

text \<open>What a successful query of state groups answers: one row per known event, no others.\<close>

definition groups_query_ok :: "room_hosts \<Rightarrow> bool" where
  "groups_query_ok r \<longleftrightarrow> (\<forall>ids groups. rh_groups r ids = Some groups \<longrightarrow>
     distinct (map fst groups) \<and> fst ` set groups \<subseteq> set ids)"

lemma hosts_before_exact:
  assumes "groups_query_ok r" "distinct prev_ids" "prev_ids \<noteq> []" "rh_groups r prev_ids = Some groups"
    and "\<forall>i \<in> set prev_ids. map_of groups i = Some grp" "rh_at_group r grp = Some hosts"
  shows "hosts_before_event r room prev_ids = Some (hosts, False, NoFallback)"
proof -
  have "distinct (map fst groups)" "fst ` set groups \<subseteq> set prev_ids"
    using assms(1,4) by (auto simp: groups_query_ok_def)
  then have "single_group groups prev_ids = Some grp"
    using single_group_iff assms(2,3,5) by blast
  then show ?thesis using assms(3,4,6) by (simp add: hosts_before_event_def)
qed

lemma set_resolved:
  assumes "resolve g r server whitelist ev auths = Some res"
  shows "sorted (destinations res) \<and> distinct (destinations res) \<and> server \<notin> set (destinations res)
    \<and> [] \<notin> set (destinations res)
    \<and> (\<forall>w. whitelist = Some w \<longrightarrow> set (destinations res) \<subseteq> set w)"
  using assms by (auto simp: resolve_def Let_def split: if_splits option.splits prod.splits)

section \<open>Properties\<close>

text \<open>
  Whom the withdrawal of an invite has to be told: the server of a user whom somebody else makes leave
  and for whom the auth events hold an invite.
\<close>

definition rescinds :: "gjson \<Rightarrow> json \<Rightarrow> json list option \<Rightarrow> string \<Rightarrow> bool" where
  "rescinds g ev auths d \<longleftrightarrow> get_str g ev ''type'' = ''m.room.member'' \<and> get_str g ev ''content.membership'' = ''leave''
     \<and> get_str g ev ''state_key'' \<notin> {[], get_str g ev ''sender''} \<and> d = domain_of (get_str g ev ''state_key'')
     \<and> (\<exists>as. auths = Some as \<and> (\<exists>e \<in> set as. get_str g e ''type'' = ''m.room.member''
            \<and> get_str g e ''state_key'' = get_str g ev ''state_key'' \<and> get_str g e ''content.membership'' = ''invite''))"

lemma rescinded_domain_rescinds:
  "rescinded_domain g ev auths hosts = Some extra \<Longrightarrow> extra = Some d \<longleftrightarrow> rescinds g ev auths d \<and> d \<noteq> [] \<and> d \<notin> set hosts"
  by (auto simp: rescinded_domain_def rescinds_def has_invite_for_def list_ex_iff Let_def split: if_splits option.splits)


definition sample_event_gjson :: gjson where
  "sample_event_gjson = table_gjson
     [((''ban'', ''room_id''), ''!r:a''), ((''ban'', ''prev_events''), ''prevs''),
      ((''ban'', ''type''), ''m.room.member''), ((''ban'', ''sender''), ''@admin:a''),
      ((''ban'', ''state_key''), ''@u:b''), ((''ban'', ''content.membership''), ''ban'')]
     [(''prevs'', [''$p''])] []"

definition sample_room_hosts :: room_hosts where
  "sample_room_hosts =
     \<lparr>rh_current = (\<lambda>room. Some [''a'', ''c'']), rh_partial = (\<lambda>room. Some ([], False)),
      rh_groups = (\<lambda>ids. Some (map (\<lambda>i. (i, 5)) (remdups ids))),
      rh_at_group = (\<lambda>grp. if grp = 5 then Some [''c'', ''a'', ''b''] else None)\<rparr>"

lemma sample_groups_ok: "groups_query_ok sample_room_hosts"
  by (auto simp: groups_query_ok_def sample_room_hosts_def comp_def)


text \<open>
  What an approximate answer says of itself. Without partial state, an answer is approximate
  exactly when the prev events do not share one state group; it is the current membership of the
  room; and its reason is a missing state group only if some prev event has none or the event
  names one twice, a fork only if two prev events lie on different groups.
\<close>

theorem approximate_reasons:
  assumes "groups_query_ok r" "hosts_before_event r room prev_ids = Some (hosts, approx, reason)"
    and "prev_ids \<noteq> []" "rh_groups r prev_ids = Some groups"
  shows "(approx \<longleftrightarrow> single_group groups prev_ids = None)
    \<and> (approx \<longrightarrow> rh_current r room = Some hosts)
    \<and> (reason = NoFallback \<longleftrightarrow> \<not> approx)
    \<and> (reason = FallbackNoStateGroup \<longrightarrow>
         \<not> distinct prev_ids \<or> (\<exists>i \<in> set prev_ids. map_of groups i = None))
    \<and> (reason = FallbackForkedDAG \<longrightarrow>
         (\<exists>i \<in> set prev_ids. \<exists>j \<in> set prev_ids. map_of groups i \<noteq> map_of groups j))"
proof -
  have keys: "distinct (map fst groups)" "fst ` set groups \<subseteq> set prev_ids"
    using assms(1,4) by (auto simp: groups_query_ok_def)
  have "\<exists>i \<in> set prev_ids. map_of groups i = None"
    if "length groups < length prev_ids" "distinct prev_ids"
  proof (rule ccontr)
    assume "\<not> ?thesis"
    then have "set prev_ids \<subseteq> fst ` set groups" by (force dest: map_of_SomeD)
    then have "card (set prev_ids) \<le> length groups"
      using card_mono [of "fst ` set groups" "set prev_ids"] card_image_le [of "set groups" fst]
        card_length [of groups] by simp
    with that show False by (simp add: distinct_card)
  qed
  moreover have "\<exists>i \<in> set prev_ids. \<exists>j \<in> set prev_ids. map_of groups i \<noteq> map_of groups j"
    if none: "single_group groups prev_ids = None" and len: "\<not> length groups < length prev_ids"
  proof (rule ccontr)
    assume same: "\<not> ?thesis"
    have "card (set (map fst groups)) = length groups" using keys(1) by (metis distinct_card length_map)
    then have "length groups \<le> card (set prev_ids)"
      using card_mono [of "set prev_ids" "set (map fst groups)"] keys(2) by simp
    then have eq: "length groups = length prev_ids" using len card_length [of prev_ids] by simp
    have "set (map fst groups) = set prev_ids"
      using keys(2) card_subset_eq [of "set prev_ids" "set (map fst groups)"]
        \<open>card (set (map fst groups)) = length groups\<close> \<open>length groups \<le> card (set prev_ids)\<close>
        card_length [of prev_ids] eq by simp
    then have all: "\<forall>i \<in> set prev_ids. map_of groups i \<noteq> None"
      by (auto simp: map_of_eq_None_iff)
    obtain i where i: "i \<in> set prev_ids" using assms(3) by (cases prev_ids) auto
    then obtain grp where grp: "map_of groups i = Some grp" using all by blast
    have "\<forall>j \<in> set prev_ids. map_of groups j = Some grp"
    proof
      fix j assume "j \<in> set prev_ids"
      with same i have "map_of groups i = map_of groups j" by blast
      with grp show "map_of groups j = Some grp" by simp
    qed
    then have "single_group groups prev_ids = Some grp"
      using eq assms(3) by (cases prev_ids) (auto simp: single_group_def same_group_iff)
    with none show False by simp
  qed
  ultimately have reasons:
    "length groups < length prev_ids \<Longrightarrow> \<not> distinct prev_ids \<or> (\<exists>i \<in> set prev_ids. map_of groups i = None)"
    "single_group groups prev_ids = None \<Longrightarrow> \<not> length groups < length prev_ids \<Longrightarrow>
       \<exists>i \<in> set prev_ids. \<exists>j \<in> set prev_ids. map_of groups i \<noteq> map_of groups j" by blast+
  show ?thesis
  proof (cases "single_group groups prev_ids")
    case None
    then have "rh_current r room = Some hosts \<and> approx
        \<and> reason = (if length groups < length prev_ids then FallbackNoStateGroup else FallbackForkedDAG)"
      using assms(2-4)
      by (auto simp: hosts_before_event_def hosts_now_def split: option.splits if_splits)
    with None reasons show ?thesis by simp
  next
    case (Some grp)
    then have "\<not> approx \<and> reason = NoFallback"
      using assms(2-4) by (auto simp: hosts_before_event_def split: option.splits)
    with Some show ?thesis by simp
  qed
qed

theorem approximate_reasons_witness:
  "hosts_before_event (sample_room_hosts\<lparr>rh_groups := (\<lambda>ids. Some [])\<rparr>) ''!r:a'' [''$p'']
     = Some ([''a'', ''c''], True, FallbackNoStateGroup)
   \<and> map_of ([] :: (string \<times> int) list) ''$p'' = None"
proof -
  let ?r = "sample_room_hosts\<lparr>rh_groups := (\<lambda>ids. Some [])\<rparr>"
  have "groups_query_ok ?r" by (simp add: groups_query_ok_def)
  moreover have "hosts_before_event ?r ''!r:a'' [''$p'']
     = Some ([''a'', ''c''], True, FallbackNoStateGroup)"
    by (simp add: hosts_before_event_def single_group_def hosts_now_def sample_room_hosts_def)
  ultimately show ?thesis
    using approximate_reasons [of ?r "''!r:a''" "[''$p'']" "[''a'', ''c'']" True FallbackNoStateGroup "[]"]
    by simp
qed

end
