(* ===== verification/HostCache.thy ===== *)
theory HostCache
  imports Destinations
begin

text \<open>
  \<open>internal/destinations/hostcache.go\<close>: the bounded LRU cache in front of
  \<open>JoinedHostsAtStateGroup\<close>. The list holds the entries, most recent first; \<open>hc_entries\<close> are the
  keys of the Go map that points into it. The two locked sections, \<open>get\<close> and \<open>put\<close>, are separate
  operations, because the read-through between them runs without the lock. The locale
  \<open>read_through\<close> is what a caller relies on: a cache of an immutable function never changes an
  answer, however sections of racing callers interleave.
\<close>

record host_cache =
  hc_entries :: "int set"
  hc_lru :: "(int \<times> string list) list"
  hc_max :: nat

definition new_host_cache :: "int \<Rightarrow> host_cache" where
  "new_host_cache bound = \<lparr>hc_entries = {}, hc_lru = [], hc_max = (if bound \<le> 0 then 4096 else nat bound)\<rparr>"

definition move_to_front :: "int \<Rightarrow> (int \<times> string list) list \<Rightarrow> (int \<times> string list) list" where
  "move_to_front grp l =
     (case map_of l grp of None \<Rightarrow> l | Some hosts \<Rightarrow> (grp, hosts) # filter (\<lambda>e. fst e \<noteq> grp) l)"

definition cache_get :: "int \<Rightarrow> host_cache \<Rightarrow> host_cache \<times> string list option" where
  "cache_get grp c =
     (if grp \<notin> hc_entries c then (c, None)
      else (c\<lparr>hc_lru := move_to_front grp (hc_lru c)\<rparr>, map_of (hc_lru c) grp))"

text \<open>The loop \<open>for c.lru.Len() > c.max\<close>.\<close>

function evict :: "host_cache \<Rightarrow> host_cache" where
  "evict c =
     (if length (hc_lru c) > hc_max c
      then evict (c\<lparr>hc_lru := butlast (hc_lru c), hc_entries := hc_entries c - {fst (last (hc_lru c))}\<rparr>)
      else c)"
  by auto
termination by (relation "measure (\<lambda>c. length (hc_lru c))") auto

declare evict.simps [simp del]

definition cache_put :: "int \<Rightarrow> string list \<Rightarrow> host_cache \<Rightarrow> host_cache" where
  "cache_put grp hosts c =
     (if grp \<in> hc_entries c
      then c\<lparr>hc_lru := move_to_front grp (map (\<lambda>(k, hs). (k, if k = grp then hosts else hs)) (hc_lru c))\<rparr>
      else evict (c\<lparr>hc_entries := insert grp (hc_entries c), hc_lru := (grp, hosts) # hc_lru c\<rparr>))"

text \<open>\<open>JoinedHostsAtStateGroup\<close> with nothing in between: the hit flag is what \<open>onLookup\<close> is told.\<close>

definition cached_hosts ::
  "(int \<Rightarrow> string list option) \<Rightarrow> int \<Rightarrow> host_cache \<Rightarrow> host_cache \<times> string list option \<times> bool" where
  "cached_hosts inner grp c =
     (case cache_get grp c of
        (c', Some hosts) \<Rightarrow> (c', Some hosts, True)
      | (c', None) \<Rightarrow>
          (case inner grp of
             None \<Rightarrow> (c', None, False)
           | Some hosts \<Rightarrow> (cache_put grp hosts c', Some hosts, False)))"

definition cache_len :: "host_cache \<Rightarrow> nat" where
  "cache_len c = length (hc_lru c)"

section \<open>The interface\<close>

locale read_through =
  fixes get :: "'k \<Rightarrow> 'c \<Rightarrow> 'c \<times> 'v option"
    and put :: "'k \<Rightarrow> 'v \<Rightarrow> 'c \<Rightarrow> 'c"
    and content :: "'c \<Rightarrow> 'k \<rightharpoonup> 'v"
    and inv :: "'c \<Rightarrow> bool"
  assumes get_hit: "inv c \<Longrightarrow> snd (get k c) = content c k"
    and get_content: "inv c \<Longrightarrow> content (fst (get k c)) = content c"
    and get_inv: "inv c \<Longrightarrow> inv (fst (get k c))"
    and put_content: "inv c \<Longrightarrow> content (put k v c) \<subseteq>\<^sub>m (content c)(k \<mapsto> v)"
    and put_inv: "inv c \<Longrightarrow> inv (put k v c)"
begin

text \<open>One section of some caller: a lookup, or the store of an answer the inner function gave.\<close>

definition section_step :: "('k \<rightharpoonup> 'v) \<Rightarrow> bool \<times> 'k \<Rightarrow> 'c \<Rightarrow> 'c" where
  "section_step inner s c =
     (if fst s then fst (get (snd s) c)
      else case inner (snd s) of None \<Rightarrow> c | Some v \<Rightarrow> put (snd s) v c)"

lemma sections_sound:
  "inv c \<Longrightarrow> content c \<subseteq>\<^sub>m inner \<Longrightarrow>
     inv (fold (section_step inner) ss c) \<and> content (fold (section_step inner) ss c) \<subseteq>\<^sub>m inner"
proof (induction ss arbitrary: c)
  case Nil
  then show ?case by simp
next
  case (Cons s ss)
  have "inv (section_step inner s c) \<and> content (section_step inner s c) \<subseteq>\<^sub>m inner"
  proof (cases "fst s")
    case True
    with Cons.prems show ?thesis by (simp add: section_step_def get_inv get_content)
  next
    case False
    show ?thesis
    proof (cases "inner (snd s)")
      case None
      with False Cons.prems show ?thesis by (simp add: section_step_def)
    next
      case (Some v)
      have "(content c)(snd s \<mapsto> v) \<subseteq>\<^sub>m inner"
        using Cons.prems(2) Some by (auto simp: map_le_def dom_def)
      then have "content (put (snd s) v c) \<subseteq>\<^sub>m inner"
        using put_content [OF Cons.prems(1), of "snd s" v] by (rule map_le_trans [rotated])
      with False Some Cons.prems show ?thesis by (simp add: section_step_def put_inv)
    qed
  qed
  with Cons.IH show ?case by simp
qed

lemma answer_unchanged:
  assumes "inv c" "content c \<subseteq>\<^sub>m inner" "snd (get k (fold (section_step inner) ss c)) = Some v"
  shows "inner k = Some v"
proof -
  let ?c = "fold (section_step inner) ss c"
  have "inv ?c" "content ?c \<subseteq>\<^sub>m inner" using sections_sound assms(1,2) by auto
  moreover from this assms(3) have "content ?c k = Some v" by (simp add: get_hit)
  ultimately show ?thesis by (auto simp: map_le_def dom_def)
qed

end

section \<open>The invariant\<close>

definition cache_content :: "host_cache \<Rightarrow> int \<rightharpoonup> string list" where
  "cache_content c = map_of (hc_lru c)"

definition cache_inv :: "host_cache \<Rightarrow> bool" where
  "cache_inv c \<longleftrightarrow> distinct (map fst (hc_lru c)) \<and> hc_entries c = fst ` set (hc_lru c)
     \<and> length (hc_lru c) \<le> hc_max c \<and> 0 < hc_max c"

lemma map_of_filter_other: "k' \<noteq> k \<Longrightarrow> map_of (filter (\<lambda>e. fst e \<noteq> k) l) k' = map_of l k'"
  by (induction l) auto

lemma move_to_front_facts:
  assumes "distinct (map fst l)"
  shows "map_of (move_to_front k l) = map_of l" "distinct (map fst (move_to_front k l))"
    "fst ` set (move_to_front k l) = fst ` set l" "length (move_to_front k l) = length l"
proof -
  show m: "map_of (move_to_front k l) = map_of l"
    by (rule ext) (auto simp: move_to_front_def map_of_filter_other split: option.splits)
  have "distinct (map fst (filter (\<lambda>e. fst e \<noteq> k) l))" using assms by (simp add: distinct_map_filter)
  then show d: "distinct (map fst (move_to_front k l))"
    using assms by (auto simp: move_to_front_def split: option.splits)
  have "dom (map_of (move_to_front k l)) = dom (map_of l)" by (simp add: m)
  then show f: "fst ` set (move_to_front k l) = fst ` set l" by (simp add: dom_map_of_conv_image_fst)
  show "length (move_to_front k l) = length l"
    using distinct_card [OF d] distinct_card [OF assms] f by simp
qed

lemma evict_shape:
  assumes "distinct (map fst (hc_lru c))" "hc_entries c = fst ` set (hc_lru c)"
  shows "hc_lru (evict c) = take (hc_max c) (hc_lru c) \<and> hc_max (evict c) = hc_max c
    \<and> hc_entries (evict c) = fst ` set (take (hc_max c) (hc_lru c))"
  using assms
proof (induction c rule: evict.induct)
  case (1 c)
  show ?case
  proof (cases "length (hc_lru c) > hc_max c")
    case True
    then have ne: "hc_lru c \<noteq> []" by auto
    then have split: "hc_lru c = butlast (hc_lru c) @ [last (hc_lru c)]" by simp
    then have d: "distinct (map fst (butlast (hc_lru c)) @ [fst (last (hc_lru c))])"
      using 1(2) by (metis list.simps(8) list.simps(9) map_append)
    have "fst ` set (hc_lru c) - {fst (last (hc_lru c))} = fst ` set (butlast (hc_lru c))"
    proof -
      have "fst ` set (hc_lru c) = insert (fst (last (hc_lru c))) (fst ` set (butlast (hc_lru c)))"
        by (subst split) simp
      then show ?thesis using d by auto
    qed
    with 1(1) [OF True] d 1(3) True show ?thesis
      by (simp add: evict.simps [of c] take_butlast)
  next
    case False
    with 1 show ?thesis by (simp add: evict.simps [of c])
  qed
qed

lemma map_of_take_le: "map_of (take n l) \<subseteq>\<^sub>m map_of l"
proof -
  have "map_of l = map_of (drop n l) ++ map_of (take n l)"
    by (metis append_take_drop_id map_of_append)
  then show ?thesis by (simp only: map_le_map_add)
qed

lemma put_new_shape:
  assumes "cache_inv c" "k \<notin> hc_entries c"
  shows "hc_lru (cache_put k v c) = take (hc_max c) ((k, v) # hc_lru c)
    \<and> hc_max (cache_put k v c) = hc_max c
    \<and> hc_entries (cache_put k v c) = fst ` set (take (hc_max c) ((k, v) # hc_lru c))"
  using evict_shape [of "c\<lparr>hc_entries := insert k (hc_entries c), hc_lru := (k, v) # hc_lru c\<rparr>"] assms
  by (simp add: cache_put_def cache_inv_def)

lemma rewrite_entry:
  fixes k :: int and v :: "string list"
  defines "f \<equiv> map (\<lambda>(k', hs). (k', if k' = k then v else hs))"
  shows "map fst (f l) = map fst l"
    "map_of (f l) x = (if x = k \<and> x \<in> fst ` set l then Some v else map_of l x)"
  unfolding f_def by ((induction l; force)[1]) (induction l; force)

interpretation host_cache: read_through cache_get cache_put cache_content cache_inv
proof
  fix c :: host_cache and k :: int and v
  assume inv: "cache_inv c"
  then have d: "distinct (map fst (hc_lru c))" and e: "hc_entries c = fst ` set (hc_lru c)"
    by (auto simp: cache_inv_def)
  show "snd (cache_get k c) = cache_content c k"
    using map_of_eq_None_iff [of "hc_lru c" k] by (auto simp: cache_get_def cache_content_def e)
  show "cache_content (fst (cache_get k c)) = cache_content c"
    using move_to_front_facts [OF d] by (simp add: cache_get_def cache_content_def)
  show "cache_inv (fst (cache_get k c))"
    using move_to_front_facts [OF d] inv by (simp add: cache_get_def cache_inv_def)
  show "cache_content (cache_put k v c) \<subseteq>\<^sub>m (cache_content c)(k \<mapsto> v)"
  proof (cases "k \<in> hc_entries c")
    case True
    let ?l = "map (\<lambda>(k', hs). (k', if k' = k then v else hs)) (hc_lru c)"
    note keys = rewrite_entry(1) [of k v "hc_lru c"]
    have "map_of ?l = (map_of (hc_lru c))(k \<mapsto> v)"
      using True by (intro ext) (simp add: rewrite_entry(2) e)
    moreover have "map_of (move_to_front k ?l) = map_of ?l"
      by (rule move_to_front_facts) (simp only: keys d)
    ultimately show ?thesis using True by (simp add: cache_put_def cache_content_def)
  next
    case False
    with map_of_take_le [of "hc_max c" "(k, v) # hc_lru c"] put_new_shape [OF inv False, of v] show ?thesis
      by (simp add: cache_content_def)
  qed
  show "cache_inv (cache_put k v c)"
  proof (cases "k \<in> hc_entries c")
    case True
    let ?l = "map (\<lambda>(k', hs). (k', if k' = k then v else hs)) (hc_lru c)"
    note keys = rewrite_entry(1) [of k v "hc_lru c"]
    have dl: "distinct (map fst ?l)" by (simp only: keys d)
    have "fst ` set ?l = fst ` set (hc_lru c)" by (metis keys list.set_map)
    with True inv move_to_front_facts [OF dl] show ?thesis by (simp add: cache_put_def cache_inv_def)
  next
    case False
    have "distinct (map fst (take (hc_max c) ((k, v) # hc_lru c)))"
      using False d e by (simp add: take_map [symmetric])
    with put_new_shape [OF inv False, of v] inv show ?thesis by (simp add: cache_inv_def)
  qed
qed

section \<open>Properties\<close>

lemma new_host_cache_facts [simp]:
  "cache_inv (new_host_cache m)" "cache_content (new_host_cache m) = Map.empty"
  by (simp_all add: cache_inv_def new_host_cache_def cache_content_def)

text \<open>
  C8. The cache never changes an answer. Starting from an empty cache, after any interleaving of
  lookups and stores of racing callers, what a lookup returns for a state group is what the
  database answers for it - because a state group never changes - and an error is passed through
  and not remembered; the cache never holds more entries than its bound.
\<close>

theorem host_cache_transparent:
  fixes inner :: "int \<Rightarrow> string list option" and m :: int
  defines "c \<equiv> \<lambda>ss. fold (host_cache.section_step inner) ss (new_host_cache m)"
  shows "fst (snd (cached_hosts inner grp (c ss))) = inner grp
    \<and> (inner grp = None \<longrightarrow> fst (cached_hosts inner grp (c ss)) = c ss)
    \<and> cache_len (fst (cached_hosts inner grp (c ss))) \<le> (if m \<le> 0 then 4096 else nat m)"
proof -
  have inv: "cache_inv (c ss)"
    unfolding c_def by (rule conjunct1 [OF host_cache.sections_sound]) auto
  have hit: "snd (cache_get grp (c ss)) = Some hosts \<Longrightarrow> inner grp = Some hosts" for hosts
    unfolding c_def by (rule host_cache.answer_unchanged) auto
  have max_step: "cache_inv c0 \<Longrightarrow> hc_max (host_cache.section_step inner s c0) = hc_max c0" for s c0
    using put_new_shape [of c0 "snd s"]
    by (cases "snd s \<in> hc_entries c0")
      (auto simp: host_cache.section_step_def cache_get_def cache_put_def split: option.splits)
  have max_fold: "cache_inv c0 \<Longrightarrow> hc_max (fold (host_cache.section_step inner) ts c0) = hc_max c0
      \<and> cache_inv (fold (host_cache.section_step inner) ts c0)" for ts c0
  proof (induction ts arbitrary: c0)
    case (Cons t ts)
    have "cache_inv (host_cache.section_step inner t c0)"
      using Cons.prems
      by (auto simp: host_cache.section_step_def host_cache.get_inv host_cache.put_inv split: option.splits)
    with Cons.IH [OF this] max_step [OF Cons.prems] show ?case by simp
  qed simp
  have after: "fst (cached_hosts inner grp (c ss))
      = (if snd (cache_get grp (c ss)) = None
         then host_cache.section_step inner (False, grp) (c ss) else fst (cache_get grp (c ss)))"
  proof (cases "grp \<in> hc_entries (c ss)")
    case True
    then have "snd (cache_get grp (c ss)) \<noteq> None"
      using inv map_of_eq_None_iff [of "hc_lru (c ss)" grp] by (simp add: cache_get_def cache_inv_def)
    then show ?thesis by (auto simp: cached_hosts_def split: option.splits prod.splits)
  next
    case False
    then show ?thesis
      by (simp add: cached_hosts_def cache_get_def host_cache.section_step_def split: option.splits)
  qed
  have "cache_inv (fst (cached_hosts inner grp (c ss))) \<and> hc_max (fst (cached_hosts inner grp (c ss))) = hc_max (new_host_cache m)"
  proof (cases "snd (cache_get grp (c ss)) = None")
    case True
    with after max_fold [of "new_host_cache m" "ss @ [(False, grp)]"] show ?thesis
      by (simp add: c_def)
  next
    case False
    have "fst (cached_hosts inner grp (c ss)) = fst (cache_get grp (c ss))"
      unfolding after by (rule if_not_P [OF False])
    also have "\<dots> = fold (host_cache.section_step inner) (ss @ [(True, grp)]) (new_host_cache m)"
      by (simp add: host_cache.section_step_def c_def)
    finally show ?thesis using max_fold [of "new_host_cache m" "ss @ [(True, grp)]"] by simp
  qed
  then have "cache_len (fst (cached_hosts inner grp (c ss))) \<le> (if m \<le> 0 then 4096 else nat m)"
    by (simp add: cache_inv_def cache_len_def new_host_cache_def)
  moreover have "fst (snd (cached_hosts inner grp (c ss))) = inner grp"
    using hit by (auto simp: cached_hosts_def split: option.splits prod.splits)
  moreover have "inner grp = None \<longrightarrow> fst (cached_hosts inner grp (c ss)) = c ss"
  proof
    assume none: "inner grp = None"
    then have "snd (cache_get grp (c ss)) = None" using hit by (cases "snd (cache_get grp (c ss))") auto
    with none after show "fst (cached_hosts inner grp (c ss)) = c ss"
      by (simp add: host_cache.section_step_def)
  qed
  ultimately show ?thesis by blast
qed

theorem host_cache_transparent_witness:
  "fst (snd (cached_hosts (\<lambda>g. Some [''a'']) 7
     (fold (host_cache.section_step (\<lambda>g. Some [''a''])) [(False, 7), (True, 7)] (new_host_cache 1)))) = Some [''a'']"
  using host_cache_transparent [of "\<lambda>g. Some [''a'']" 7 "[(False, 7), (True, 7)]" 1] by blast

text \<open>The order of the list: the groups asked for, most recent first, without repetition.\<close>

fun lookups :: "(int \<Rightarrow> string list option) \<Rightarrow> int list \<Rightarrow> host_cache \<Rightarrow> host_cache" where
  "lookups inner [] c = c"
| "lookups inner (g # gs) c = lookups inner gs (fst (cached_hosts inner g c))"

lemma lookups_append: "lookups inner (gs @ hs) c = lookups inner hs (lookups inner gs c)"
  by (induction gs arbitrary: c) auto

lemma map_fst_filter: "map fst (filter (\<lambda>e. fst e \<noteq> k) l) = filter (\<lambda>x. x \<noteq> k) (map fst l)"
  by (induction l) auto

lemma keys_cached_hosts:
  assumes inv: "cache_inv c" and some: "inner k \<noteq> None"
  shows "map fst (hc_lru (fst (cached_hosts inner k c)))
      = (if k \<in> hc_entries c then k # filter (\<lambda>x. x \<noteq> k) (map fst (hc_lru c))
         else take (hc_max c) (k # map fst (hc_lru c)))
    \<and> cache_inv (fst (cached_hosts inner k c)) \<and> hc_max (fst (cached_hosts inner k c)) = hc_max c"
proof (cases "k \<in> hc_entries c")
  case True
  then obtain hosts where hosts: "map_of (hc_lru c) k = Some hosts"
    using inv map_of_eq_None_iff [of "hc_lru c" k] by (auto simp: cache_inv_def)
  then have eq: "cached_hosts inner k c = (fst (cache_get k c), Some hosts, True)"
    using True by (simp add: cached_hosts_def cache_get_def)
  show ?thesis unfolding eq fst_conv
    using True hosts host_cache.get_inv [OF inv, of k]
    by (simp add: cache_get_def move_to_front_def map_fst_filter)
next
  case False
  then obtain hosts where "inner k = Some hosts" using some by blast
  then have eq: "cached_hosts inner k c = (cache_put k hosts c, Some hosts, False)"
    using False by (simp add: cached_hosts_def cache_get_def)
  show ?thesis unfolding eq fst_conv
    using False put_new_shape [OF inv False, of hosts] host_cache.put_inv [OF inv, of k hosts]
    by (simp add: take_map [symmetric])
qed

lemma take_recency:
  assumes "0 < m" "distinct l"
  shows "(if k \<in> set (take m l) then k # filter (\<lambda>x. x \<noteq> k) (take m l) else take m (k # take m l))
    = take m (k # filter (\<lambda>x. x \<noteq> k) l)"
  using assms
proof (induction l arbitrary: m)
  case Nil
  then show ?case by (cases m) auto
next
  case (Cons a l)
  then obtain n where m: "m = Suc n" by (cases m) auto
  show ?case
  proof (cases "a = k")
    case True
    with Cons.prems have "filter (\<lambda>x. x \<noteq> k) (take n l) = take n l" "filter (\<lambda>x. x \<noteq> k) l = l"
      by (auto simp: filter_id_conv dest: in_set_takeD)
    with True show ?thesis by (simp add: m)
  next
    case False
    show ?thesis
    proof (cases n)
      case 0
      with False show ?thesis by (simp add: m)
    next
      case (Suc n')
      with Cons.IH [of n] Cons.prems(2) have
        "(if k \<in> set (take n l) then k # filter (\<lambda>x. x \<noteq> k) (take n l) else take n (k # take n l))
          = take n (k # filter (\<lambda>x. x \<noteq> k) l)" by simp
      with False Suc show ?thesis by (simp add: m split: if_splits)
    qed
  qed
qed

text \<open>
  What is evicted. After any sequence of lookups that the database answers, the cache holds
  exactly the most recently used distinct state groups, as many as its bound allows, most recent
  first: the entry that goes is always the one unused for longest.
\<close>

theorem host_cache_is_lru:
  assumes "\<forall>g \<in> set gs. inner g \<noteq> None"
  shows "map fst (hc_lru (lookups inner gs (new_host_cache m)))
    = take (if m \<le> 0 then 4096 else nat m) (rev (remdups gs))"
proof -
  have "map fst (hc_lru (lookups inner gs (new_host_cache m)))
      = take (if m \<le> 0 then 4096 else nat m) (rev (remdups gs))
      \<and> cache_inv (lookups inner gs (new_host_cache m))
      \<and> hc_max (lookups inner gs (new_host_cache m)) = (if m \<le> 0 then 4096 else nat m)"
    using assms
  proof (induction gs rule: rev_induct)
    case Nil
    have "cache_inv (new_host_cache m)" by simp
    then show ?case by (simp add: new_host_cache_def)
  next
    case (snoc g gs)
    let ?c = "lookups inner gs (new_host_cache m)" and ?m = "if m \<le> 0 then 4096 else nat m"
    from snoc have IH: "map fst (hc_lru ?c) = take ?m (rev (remdups gs))" "cache_inv ?c" "hc_max ?c = ?m"
      and some: "inner g \<noteq> None" by auto
    note step = keys_cached_hosts [OF IH(2), of inner g, OF some]
    have "g \<in> hc_entries ?c \<longleftrightarrow> g \<in> set (take ?m (rev (remdups gs)))"
      using IH by (metis cache_inv_def list.set_map)
    then have "map fst (hc_lru (fst (cached_hosts inner g ?c)))
        = take ?m (g # filter (\<lambda>x. x \<noteq> g) (rev (remdups gs)))"
      using step take_recency [of ?m "rev (remdups gs)" g] IH by (auto simp: cache_inv_def)
    moreover have "g # filter (\<lambda>x. x \<noteq> g) (rev (remdups gs)) = rev (remdups (gs @ [g]))"
      by (induction gs) (auto simp: rev_filter [symmetric])
    ultimately show ?case using step IH by (simp add: lookups_append)
  qed
  then show ?thesis by blast
qed

theorem host_cache_is_lru_witness:
  "map fst (hc_lru (lookups (\<lambda>g. Some [''a'']) [1, 2, 1, 3] (new_host_cache 2))) = [3, 1]"
  using host_cache_is_lru [of "[1, 2, 1, 3]" "\<lambda>g. Some [''a'']" 2] by simp

end
