(* ===== verification/Sharding.thy ===== *)
theory Sharding
  imports Prelude "HOL-Library.Word"
begin

text \<open>
  \<open>internal/sharding/sharding.go\<close>: which sender instance owns a destination. \<open>crypto/sha256\<close>
  belongs to Go's standard library and is written out (FIPS 180-4) on 32-bit words, so that
  \<open>GetInstance\<close> computes; \<open>big.Int.SetBytes\<close> reads bytes big-endian.
\<close>

section \<open>SHA-256\<close>

type_synonym byte = "8 word"
type_synonym word32 = "32 word"

unbundle bit_operations_syntax

definition big_sigma0 :: "word32 \<Rightarrow> word32" where
  "big_sigma0 x = (word_rotr 2 x XOR word_rotr 13 x) XOR word_rotr 22 x"

definition big_sigma1 :: "word32 \<Rightarrow> word32" where
  "big_sigma1 x = (word_rotr 6 x XOR word_rotr 11 x) XOR word_rotr 25 x"

definition small_sigma0 :: "word32 \<Rightarrow> word32" where
  "small_sigma0 x = (word_rotr 7 x XOR word_rotr 18 x) XOR drop_bit 3 x"

definition small_sigma1 :: "word32 \<Rightarrow> word32" where
  "small_sigma1 x = (word_rotr 17 x XOR word_rotr 19 x) XOR drop_bit 10 x"

definition sha_ch :: "word32 \<Rightarrow> word32 \<Rightarrow> word32 \<Rightarrow> word32" where
  "sha_ch x y z = (x AND y) XOR (NOT x AND z)"

definition sha_maj :: "word32 \<Rightarrow> word32 \<Rightarrow> word32 \<Rightarrow> word32" where
  "sha_maj x y z = ((x AND y) XOR (x AND z)) XOR (y AND z)"

text \<open>The first 32 bits of the fractional parts of the cube roots of the first 64 primes.\<close>

definition round_constants :: "word32 list" where
  "round_constants =
    [1116352408, 1899447441, 3049323471, 3921009573, 961987163, 1508970993,
     2453635748, 2870763221, 3624381080, 310598401, 607225278, 1426881987,
     1925078388, 2162078206, 2614888103, 3248222580, 3835390401, 4022224774,
     264347078, 604807628, 770255983, 1249150122, 1555081692, 1996064986,
     2554220882, 2821834349, 2952996808, 3210313671, 3336571891, 3584528711,
     113926993, 338241895, 666307205, 773529912, 1294757372, 1396182291,
     1695183700, 1986661051, 2177026350, 2456956037, 2730485921, 2820302411,
     3259730800, 3345764771, 3516065817, 3600352804, 4094571909, 275423344,
     430227734, 506948616, 659060556, 883997877, 958139571, 1322822218,
     1537002063, 1747873779, 1955562222, 2024104815, 2227730452, 2361852424,
     2428436474, 2756734187, 3204031479, 3329325298]"

type_synonym sha_state = "word32 \<times> word32 \<times> word32 \<times> word32 \<times> word32 \<times> word32 \<times> word32 \<times> word32"

definition initial_state :: sha_state where
  "initial_state = (1779033703, 3144134277, 1013904242, 2773480762,
                    1359893119, 2600822924, 528734635, 1541459225)"

definition be_word :: "byte list \<Rightarrow> word32" where
  "be_word bs = fold (\<lambda>b acc. push_bit 8 acc OR ucast b) bs 0"

definition word_bytes :: "word32 \<Rightarrow> byte list" where
  "word_bytes w = [ucast (drop_bit 24 w), ucast (drop_bit 16 w), ucast (drop_bit 8 w), ucast w]"

fun chunks :: "nat \<Rightarrow> nat \<Rightarrow> 'a list \<Rightarrow> 'a list list" where
  "chunks 0 n xs = []"
| "chunks (Suc k) n xs = take n xs # chunks k n (drop n xs)"

definition sha_pad :: "byte list \<Rightarrow> byte list" where
  "sha_pad bs =
     (let n = length bs; zeros = (55 + 64 - n mod 64) mod 64
      in bs @ [0x80] @ replicate zeros 0
         @ map (\<lambda>i. of_nat ((8 * n) div 256 ^ (7 - i) mod 256)) [0..<8])"

definition schedule :: "byte list \<Rightarrow> word32 list" where
  "schedule block =
     fold (\<lambda>t w. w @ [small_sigma1 (w ! (t - 2)) + w ! (t - 7) + small_sigma0 (w ! (t - 15)) + w ! (t - 16)])
       [16..<64] (map be_word (chunks 16 4 block))"

fun sha_round :: "word32 \<times> word32 \<Rightarrow> sha_state \<Rightarrow> sha_state" where
  "sha_round (k, w) (a, b, c, d, e, f, g, h) =
     (let t1 = h + big_sigma1 e + sha_ch e f g + k + w; t2 = big_sigma0 a + sha_maj a b c
      in (t1 + t2, a, b, c, d + t1, e, f, g))"

fun add_state :: "sha_state \<Rightarrow> sha_state \<Rightarrow> sha_state" where
  "add_state (a, b, c, d, e, f, g, h) (a', b', c', d', e', f', g', h') =
     (a + a', b + b', c + c', d + d', e + e', f + f', g + g', h + h')"

definition sha_block :: "byte list \<Rightarrow> sha_state \<Rightarrow> sha_state" where
  "sha_block block s = add_state s (fold sha_round (zip round_constants (schedule block)) s)"

fun state_bytes :: "sha_state \<Rightarrow> byte list" where
  "state_bytes (a, b, c, d, e, f, g, h) = concat (map word_bytes [a, b, c, d, e, f, g, h])"

definition sha256 :: "byte list \<Rightarrow> byte list" where
  "sha256 bs = (let p = sha_pad bs in state_bytes (fold sha_block (chunks (length p div 64) 64 p) initial_state))"

definition string_bytes :: "string \<Rightarrow> byte list" where
  "string_bytes s = map (\<lambda>c. of_nat (of_char c)) s"

lemma length_state_bytes [simp]: "length (state_bytes s) = 32"
  by (cases s rule: state_bytes.cases) (simp add: word_bytes_def)

lemma length_sha256 [simp]: "length (sha256 bs) = 32"
  by (simp add: sha256_def Let_def)

section \<open>The configuration\<close>

text \<open>\<open>New\<close> copies the list; \<open>Config\<close> is the list of instances in configuration order.\<close>

record shard_config =
  instances :: "string list"

definition new_shards :: "string list \<Rightarrow> shard_config" where
  "new_shards is = \<lparr>instances = is\<rparr>"

fun big_int_set_bytes :: "byte list \<Rightarrow> nat \<Rightarrow> nat" where
  "big_int_set_bytes [] acc = acc"
| "big_int_set_bytes (b # bs) acc = big_int_set_bytes bs (256 * acc + unat b)"

definition get_instance :: "shard_config \<Rightarrow> string \<Rightarrow> string" where
  "get_instance c key =
     (case instances c of
        [] \<Rightarrow> []
      | [i] \<Rightarrow> i
      | is \<Rightarrow> (let le = rev (sha256 (string_bytes key));
                  idx = big_int_set_bytes le 0 mod length is
              in is ! idx))"

definition should_handle :: "shard_config \<Rightarrow> string \<Rightarrow> string \<Rightarrow> bool" where
  "should_handle c name key \<longleftrightarrow> (if instances c = [] then False else get_instance c key = name)"

section \<open>The reference: \<open>int.from_bytes(digest, byteorder="little") % n\<close>\<close>

fun little_endian :: "byte list \<Rightarrow> nat" where
  "little_endian [] = 0"
| "little_endian (b # bs) = unat b + 256 * little_endian bs"

definition synapse_instance :: "string list \<Rightarrow> string \<Rightarrow> string" where
  "synapse_instance is key = is ! (little_endian (sha256 (string_bytes key)) mod length is)"

lemma big_int_set_bytes_append:
  "big_int_set_bytes (bs @ cs) acc = big_int_set_bytes cs (big_int_set_bytes bs acc)"
  by (induction bs acc rule: big_int_set_bytes.induct) auto

lemma big_int_little_endian: "big_int_set_bytes (rev bs) 0 = little_endian bs"
  by (induction bs) (simp_all add: big_int_set_bytes_append)

lemma get_instance_eq: "is \<noteq> [] \<Longrightarrow> get_instance (new_shards is) key = synapse_instance is key"
  by (cases "is" rule: remdups_adj.cases)
    (auto simp: get_instance_def new_shards_def synapse_instance_def Let_def big_int_little_endian)

text \<open>
  C9. The partition is Synapse's. For every non-empty list of instances the owner of a
  destination is the instance at the little-endian value of its SHA-256 digest modulo the number
  of instances, which is always within the list, also for a single instance, where nothing is
  hashed; every destination is handled by exactly one of distinct instances, and by nobody when
  none is configured.
\<close>

theorem shard_is_synapse:
  assumes "is \<noteq> []"
  shows "get_instance (new_shards is) key = synapse_instance is key
    \<and> get_instance (new_shards is) key \<in> set is
    \<and> (distinct is \<longrightarrow> (\<exists>!i. i < length is \<and> should_handle (new_shards is) (is ! i) key))
    \<and> \<not> should_handle (new_shards []) name key"
proof -
  let ?i = "little_endian (sha256 (string_bytes key)) mod length is"
  have i: "?i < length is" using assms by simp
  have inst: "get_instance (new_shards is) key = is ! ?i"
    using get_instance_eq [OF assms] by (simp add: synapse_instance_def)
  have "should_handle (new_shards is) name key \<longleftrightarrow> is ! ?i = name" for name
    using assms inst by (auto simp: should_handle_def new_shards_def)
  then have "distinct is \<longrightarrow> (\<exists>!i. i < length is \<and> should_handle (new_shards is) (is ! i) key)"
    using i by (metis nth_eq_iff_index_eq)
  then show ?thesis using inst i by (simp add: synapse_instance_def should_handle_def new_shards_def)
qed

theorem shard_is_synapse_witness:
  "get_instance (new_shards [''s1'', ''s2'']) ''example.org'' \<in> {''s1'', ''s2''}"
  using shard_is_synapse [of "[''s1'', ''s2'']" "''example.org''"] by (simp only: list.set) blast

end
