(* ===== verification/Paging.thy ===== *)
theory Paging
  imports Prelude
begin

text \<open>
  The interface of the stream reads: \<open>read t lo bound\<close> answers the rows of the half-open window
  and the position to resume from. The locale \<open>paged_stream\<close> states what the program relies on -
  a page is exactly what lies between the old and the new position, and the position advances -
  and proves once that a loop over pages reads every row of the window, once, in order, and ends.
\<close>

fun drain :: "(int \<Rightarrow> int \<Rightarrow> 'r list \<times> int) \<Rightarrow> nat \<Rightarrow> int \<Rightarrow> int \<Rightarrow> 'r list list \<times> int" where
  "drain rd 0 lo bound = ([], lo)"
| "drain rd (Suc fuel) lo bound =
     (if lo \<ge> bound then ([], lo)
      else case rd lo bound of (rows, next_pos) \<Rightarrow>
        (case drain rd fuel next_pos bound of (pages, end_pos) \<Rightarrow> (rows # pages, end_pos)))"

definition window :: "('r \<Rightarrow> int) \<Rightarrow> int \<Rightarrow> int \<Rightarrow> 'r list \<Rightarrow> 'r list" where
  "window key lo hi rows = sort_key key (filter (\<lambda>r. lo < key r \<and> key r \<le> hi) rows)"

lemma window_empty [page_simps]: "hi \<le> lo \<Longrightarrow> window key lo hi rows = []"
  by (auto simp: window_def filter_empty_conv)

lemma set_window [page_simps]: "set (window key lo hi rows) = {r \<in> set rows. lo < key r \<and> key r \<le> hi}"
  by (simp add: window_def)

lemma sorted_window [page_simps]: "sorted (map key (window key lo hi rows))"
  by (simp add: window_def)

lemma distinct_window: "distinct rows \<Longrightarrow> distinct (window key lo hi rows)"
  by (simp add: window_def)

text \<open>Two adjacent windows are one.\<close>

lemma sorted_filter_split:
  "sorted (map key s) \<Longrightarrow> filter (\<lambda>r. key r \<le> m) s @ filter (\<lambda>r. m < key r) s = s"
proof (induction s)
  case Nil
  then show ?case by simp
next
  case (Cons x s)
  show ?case
  proof (cases "key x \<le> m")
    case True
    with Cons show ?thesis by (simp add: not_less)
  next
    case False
    with Cons.prems have "\<forall>y \<in> set s. m < key y" by auto
    then have "filter (\<lambda>r. key r \<le> m) s = []" "filter (\<lambda>r. m < key r) s = s"
      by (auto simp: filter_empty_conv filter_id_conv)
    with False show ?thesis by simp
  qed
qed

lemma window_append:
  assumes "lo \<le> mid" "mid \<le> hi"
  shows "window key lo mid rows @ window key mid hi rows = window key lo hi rows"
proof -
  let ?s = "window key lo hi rows"
  have "filter (\<lambda>r. key r \<le> mid) ?s = window key lo mid rows"
    unfolding window_def filter_sort filter_filter using assms
    by (intro arg_cong [of _ _ "sort_key key"] filter_cong) auto
  moreover have "filter (\<lambda>r. mid < key r) ?s = window key mid hi rows"
    unfolding window_def filter_sort filter_filter using assms
    by (intro arg_cong [of _ _ "sort_key key"] filter_cong) auto
  moreover have "sorted (map key ?s)" by (rule sorted_window)
  ultimately show ?thesis using sorted_filter_split [of key ?s mid] by simp
qed

locale paged_stream =
  fixes read :: "'t \<Rightarrow> int \<Rightarrow> int \<Rightarrow> 'r list \<times> int"
    and rows :: "'t \<Rightarrow> 'r list"
    and key :: "'r \<Rightarrow> int"
    and ok :: "'t \<Rightarrow> bool"
  assumes exact: "ok t \<Longrightarrow> lo < bound \<Longrightarrow>
      fst (read t lo bound) = window key lo (snd (read t lo bound)) (rows t)"
    and progress: "ok t \<Longrightarrow> lo < bound \<Longrightarrow>
      lo < snd (read t lo bound) \<and> snd (read t lo bound) \<le> bound"
begin

lemma drain_all:
  "ok t \<Longrightarrow> nat (bound - lo) \<le> fuel \<Longrightarrow>
     concat (fst (drain (read t) fuel lo bound)) = window key lo bound (rows t)
     \<and> snd (drain (read t) fuel lo bound) = max lo bound"
proof (induction fuel arbitrary: lo)
  case 0
  then show ?case by (simp add: window_empty)
next
  case (Suc fuel)
  show ?case
  proof (cases "lo \<ge> bound")
    case True
    then show ?thesis by (simp add: window_empty max_def)
  next
    case False
    let ?rs = "fst (read t lo bound)" and ?n = "snd (read t lo bound)"
    have n: "lo < ?n" "?n \<le> bound" using progress [OF Suc.prems(1), of lo bound] False by auto
    then have "nat (bound - ?n) \<le> fuel" using Suc.prems(2) by simp
    note IH = Suc.IH [OF Suc.prems(1) this]
    have "?rs = window key lo ?n (rows t)" using exact [OF Suc.prems(1)] False by simp
    moreover have "max ?n bound = max lo bound" using n False by simp
    ultimately show ?thesis
      using IH n False window_append [of lo ?n bound key "rows t"]
      by (simp add: split_beta)
  qed
qed

lemma rows_beyond_page_kept:
  assumes "ok t" "lo < bound" "r \<in> set (rows t)" "lo < key r" "key r \<le> bound"
  shows "r \<in> set (fst (read t lo bound)) \<or> snd (read t lo bound) < key r"
  using assms exact [OF assms(1,2)] by (auto simp: set_window)

end

section \<open>The shape of the program's reads\<close>

text \<open>
  \<open>SELECT ... ORDER BY key LIMIT n\<close>, resuming from the last row of a full page and from the upper
  bound otherwise.
\<close>

definition read_page :: "('r \<Rightarrow> int) \<Rightarrow> nat \<Rightarrow> 'r list \<Rightarrow> int \<Rightarrow> int \<Rightarrow> 'r list \<times> int" where
  "read_page key n rows lo bound =
     (let out = page key lo bound n rows
      in (out, if length out = n \<and> 0 < n then key (last out) else bound))"

lemma page_window: "page key lo hi n rows = take n (window key lo hi rows)"
  by (simp add: page_def window_def)

lemma sorted_take_le:
  assumes "sorted (map key s)" "distinct (map key s)" "0 < n" "n \<le> length s"
  shows "filter (\<lambda>r. key r \<le> key (last (take n s))) s = take n s"
proof -
  let ?k = "key (last (take n s))"
  have ne: "take n s \<noteq> []" using assms by auto
  have srt: "sorted_wrt (<) (map key s)"
    using assms(1,2) by (simp add: strict_sorted_iff)
  then have "sorted_wrt (<) (map key (take n s) @ map key (drop n s))"
    by (metis append_take_drop_id map_append)
  then have app: "\<forall>x \<in> set (take n s). \<forall>y \<in> set (drop n s). key x < key y"
    and tk: "sorted (map key (take n s))"
    by (auto simp: sorted_wrt_append strict_sorted_iff)
  have "key x \<le> ?k" if "x \<in> set (take n s)" for x
  proof -
    have "take n s = butlast (take n s) @ [last (take n s)]" using ne by simp
    then have "sorted (map key (butlast (take n s)) @ [?k])" using tk by (metis list.simps(8,9) map_append)
    moreover from that ne have "x \<in> set (butlast (take n s)) \<or> x = last (take n s)"
      by (cases "take n s" rule: rev_cases) auto
    ultimately show ?thesis by (auto simp: sorted_append)
  qed
  then have "filter (\<lambda>r. key r \<le> ?k) (take n s) = take n s" by (simp add: filter_id_conv)
  moreover have "filter (\<lambda>r. key r \<le> ?k) (drop n s) = []"
    using app ne by (auto simp: filter_empty_conv not_le)
  ultimately show ?thesis
    using append_take_drop_id [of n s] by (metis append.right_neutral filter_append)
qed

text \<open>With distinct keys and a positive limit the shape is a \<open>paged_stream\<close>.\<close>

lemma read_page_exact:
  assumes "distinct (map key rows)" "0 < n" "lo < bound"
  shows "fst (read_page key n rows lo bound) = window key lo (snd (read_page key n rows lo bound)) rows"
    and "lo < snd (read_page key n rows lo bound) \<and> snd (read_page key n rows lo bound) \<le> bound"
proof -
  let ?s = "window key lo bound rows" and ?p = "page key lo bound n rows"
  have ds: "distinct (map key ?s)"
    using assms(1) unfolding window_def by (simp add: distinct_map inj_on_def)
  show "fst (read_page key n rows lo bound) = window key lo (snd (read_page key n rows lo bound)) rows"
  proof (cases "length ?p = n")
    case True
    then have len: "n \<le> length ?s" by (simp add: page_window)
    have "filter (\<lambda>r. key r \<le> key (last ?p)) ?s = ?p"
      unfolding page_window by (rule sorted_take_le [OF sorted_window ds assms(2) len])
    moreover have "key (last ?p) \<le> bound"
      using True assms(2) set_page_subset [of key lo bound n rows] by (cases ?p rule: rev_cases) auto
    then have "filter (\<lambda>r. key r \<le> key (last ?p)) ?s = window key lo (key (last ?p)) rows"
      unfolding window_def filter_sort filter_filter
      by (intro arg_cong [of _ _ "sort_key key"] filter_cong) auto
    ultimately show ?thesis using True assms(2) by (simp add: read_page_def Let_def)
  next
    case False
    then have "?p = ?s" by (simp add: page_window min_def split: if_splits)
    with False show ?thesis by (simp add: read_page_def Let_def)
  qed
  show "lo < snd (read_page key n rows lo bound) \<and> snd (read_page key n rows lo bound) \<le> bound"
  proof (cases "length ?p = n")
    case True
    then have "last ?p \<in> set ?p" using assms(2) by (intro last_in_set) auto
    with set_page_subset [of key lo bound n rows] True assms(2) show ?thesis
      by (auto simp: read_page_def Let_def)
  next
    case False
    then show ?thesis using assms(3) by (simp add: read_page_def Let_def)
  qed
qed

end
