(* ===== verification/Store.thy ===== *)
theory Store
  imports Paging GoJson Retry "HOL-Library.AList"
begin

text \<open>
  \<open>internal/store\<close> (the reads and writes of Synapse's database) and \<open>internal/state\<close> (the
  worker's own tables). A table is the list of its rows, or a map when the program only looks it
  up by key; a query is the function of the tables its SQL text states, with the clauses in the
  order of the text. That a query can also fail is the \<open>None\<close> of the interfaces built on these
  functions (\<open>Sender\<close>, \<open>CatchUp\<close>, \<open>Devices\<close>).
\<close>

section \<open>Tables\<close>

record event =
  ev_id :: string
  ev_room :: string
  ev_type :: string
  ev_state_key :: string
  ev_sender :: string
  ev_ordering :: int
  ev_outlier :: bool
  ev_rejection :: string
  ev_json :: json
  ev_received_ts :: int
  ev_metadata :: json

text \<open>SQL \<open>NULL\<close> is \<open>None\<close>.\<close>

record destination_row =
  dr_failure_ts :: "int option"
  dr_retry_last_ts :: "int option"
  dr_retry_interval :: "int option"
  dr_last_successful :: "int option"

definition empty_destination_row :: destination_row where
  "empty_destination_row = \<lparr>dr_failure_ts = None, dr_retry_last_ts = None, dr_retry_interval = None,
     dr_last_successful = None\<rparr>"

record to_device_message =
  td_destination :: string
  td_stream_id :: int
  td_messages :: json

record device_poke =
  dp_destination :: string
  dp_user :: string
  dp_device :: string
  dp_stream_id :: int
  dp_context :: string

record synapse_db =
  db_events :: "event list"
  db_destinations :: "string \<rightharpoonup> destination_row"
  db_destination_rooms :: "((string \<times> string) \<times> int) list"
  db_outbox :: "to_device_message list"
  db_pokes :: "device_poke list"
  db_last_success :: "string \<times> string \<rightharpoonup> int"
  db_out_pos :: "string \<times> string \<rightharpoonup> int"

section \<open>Reads\<close>

record new_event =
  ne_ordering :: int
  ne_id :: string
  ne_received_ts :: int

definition new_event_of :: "event \<Rightarrow> new_event" where
  "new_event_of e = \<lparr>ne_ordering = ev_ordering e, ne_id = ev_id e, ne_received_ts = ev_received_ts e\<rparr>"

definition get_all_new_event_ids_stream :: "nat \<Rightarrow> event list \<Rightarrow> int \<Rightarrow> int \<Rightarrow> new_event list \<times> int" where
  "get_all_new_event_ids_stream limit events lo hi =
     (let out = page ne_ordering lo hi limit (map new_event_of events)
      in (out, if length out = limit \<and> limit > 0 then ne_ordering (last out) else hi))"

definition max_column :: "int list \<Rightarrow> int" where
  "max_column xs = (case xs of [] \<Rightarrow> 0 | x # ys \<Rightarrow> fold max ys x)"

definition max_stream_ordering :: "synapse_db \<Rightarrow> int" where
  "max_stream_ordering db = max_column (map ev_ordering (db_events db))"

text \<open>\<open>GetEvents\<close>: by id, in the order of the ids, missing ids absent.\<close>

definition get_events :: "event list \<Rightarrow> string list \<Rightarrow> event list" where
  "get_events events ids =
     List.map_filter (map_of (map (\<lambda>e. (ev_id e, e)) (filter (\<lambda>e. ev_id e \<in> set ids) events))) ids"

definition get_federation_out_pos :: "synapse_db \<Rightarrow> string \<Rightarrow> string \<Rightarrow> int" where
  "get_federation_out_pos db ty instance_name =
     (case db_out_pos db (ty, instance_name) of None \<Rightarrow> 0 | Some p \<Rightarrow> p)"

definition coalesce0 :: "int option \<Rightarrow> int" where
  "coalesce0 x = (case x of None \<Rightarrow> 0 | Some v \<Rightarrow> v)"

definition row_timings :: "destination_row \<Rightarrow> timings" where
  "row_timings r = \<lparr>failure_ts = coalesce0 (dr_failure_ts r), retry_last_ts = coalesce0 (dr_retry_last_ts r),
     retry_interval = coalesce0 (dr_retry_interval r)\<rparr>"

definition get_destination_retry_timings :: "synapse_db \<Rightarrow> string list \<Rightarrow> (string \<rightharpoonup> timings)" where
  "get_destination_retry_timings db ds = (map_option row_timings \<circ> db_destinations db) |` set ds"

text \<open>\<open>RetryTimings.DueAt\<close> of this package is the same text as \<open>Timings.Due\<close> of \<open>retry\<close>.\<close>

definition filter_by_retry_limiter ::
  "string list \<Rightarrow> (string \<rightharpoonup> timings) \<Rightarrow> instant \<Rightarrow> duration \<Rightarrow> string list" where
  "filter_by_retry_limiter ds ts now slack =
     (let cutoff = unix_milli now + milliseconds slack
      in filter (\<lambda>d. case ts d of None \<Rightarrow> True | Some t \<Rightarrow> timings_due t cutoff) ds)"

definition get_last_successful :: "synapse_db \<Rightarrow> string \<Rightarrow> int option" where
  "get_last_successful db d = (case db_destinations db d of None \<Rightarrow> None | Some r \<Rightarrow> dr_last_successful r)"

text \<open>\<open>JOIN events USING (stream_ordering)\<close>.\<close>

definition get_catch_up_room_event_ids :: "synapse_db \<Rightarrow> string \<Rightarrow> int \<Rightarrow> nat \<Rightarrow> string list" where
  "get_catch_up_room_event_ids db d last_succ limit =
     map ev_id (take limit (sort_key ev_ordering
       (concat (map (\<lambda>((d', room), ord). if d' = d \<and> ord > last_succ
                      then filter (\<lambda>e. ev_ordering e = ord) (db_events db) else [])
                    (db_destination_rooms db)))))"

definition due_in_table :: "synapse_db \<Rightarrow> int \<Rightarrow> string \<Rightarrow> bool" where
  "due_in_table db now_ms d =
     (case db_destinations db d of
        None \<Rightarrow> True
      | Some r \<Rightarrow> (case dr_retry_last_ts r of
                     None \<Rightarrow> True
                   | Some t \<Rightarrow> (case dr_retry_interval r of None \<Rightarrow> False | Some i \<Rightarrow> t + i < now_ms)))"

definition select_distinct_page :: "nat \<Rightarrow> string list \<Rightarrow> string list" where
  "select_distinct_page limit ds = take limit (sort (remdups ds))"

definition get_catch_up_outstanding :: "synapse_db \<Rightarrow> string \<Rightarrow> int \<Rightarrow> nat \<Rightarrow> string list" where
  "get_catch_up_outstanding db after now_ms limit =
     (let pdu = select_distinct_page limit
            (map (fst \<circ> fst) (filter (\<lambda>((d, room), ord). d > after
               \<and> ord > (case get_last_successful db d of None \<Rightarrow> 0 | Some v \<Rightarrow> v)
               \<and> due_in_table db now_ms d) (db_destination_rooms db)));
          to_device = select_distinct_page limit
            (filter (\<lambda>d. d > after \<and> due_in_table db now_ms d) (map td_destination (db_outbox db)))
      in select_distinct_page limit (pdu @ to_device))"

definition get_new_device_msgs ::
  "nat \<Rightarrow> to_device_message list \<Rightarrow> string \<Rightarrow> int \<Rightarrow> int \<Rightarrow> to_device_message list \<times> int" where
  "get_new_device_msgs limit outbox d last_id current_id =
     (if last_id \<ge> current_id then ([], current_id)
      else let out = page td_stream_id last_id current_id limit (filter (\<lambda>m. td_destination m = d) outbox)
           in if length out < limit then (out, current_id) else (out, td_stream_id (last out)))"

definition get_device_updates :: "nat \<Rightarrow> device_poke list \<Rightarrow> string \<Rightarrow> int \<Rightarrow> int \<Rightarrow> device_poke list" where
  "get_device_updates limit pokes d lo hi =
     page dp_stream_id lo hi limit (filter (\<lambda>p. dp_destination p = d) pokes)"

definition get_destinations_for_device :: "synapse_db \<Rightarrow> int \<Rightarrow> string list" where
  "get_destinations_for_device db sid = map dp_destination (filter (\<lambda>p. dp_stream_id p = sid) (db_pokes db))"

definition max_device_outbox :: "synapse_db \<Rightarrow> int" where
  "max_device_outbox db = max_column (map td_stream_id (db_outbox db))"

definition max_device_list_outbound :: "synapse_db \<Rightarrow> int" where
  "max_device_list_outbound db = max_column (map dp_stream_id (db_pokes db))"

definition get_last_device_update :: "synapse_db \<Rightarrow> string \<Rightarrow> string \<Rightarrow> int \<Rightarrow> int" where
  "get_last_device_update db d user lo =
     (case db_last_success db (d, user) of None \<Rightarrow> 0 | Some i \<Rightarrow> if i \<le> lo then i else 0)"

section \<open>Writes\<close>

definition delete_device_msgs :: "string \<Rightarrow> int \<Rightarrow> synapse_db \<Rightarrow> synapse_db" where
  "delete_device_msgs d mark db =
     db\<lparr>db_outbox := filter (\<lambda>m. \<not> (td_destination m = d \<and> td_stream_id m \<le> mark)) (db_outbox db)\<rparr>"

text \<open>The loop that aggregates \<open>maxByUser\<close>; a Go map reads a missing key as zero.\<close>

fun max_by_user :: "device_poke list \<Rightarrow> (string \<times> int) list \<Rightarrow> (string \<times> int) list" where
  "max_by_user [] m = m"
| "max_by_user (p # ps) m =
     max_by_user ps
       (if dp_stream_id p > (case map_of m (dp_user p) of None \<Rightarrow> 0 | Some v \<Rightarrow> v)
        then AList.update (dp_user p) (dp_stream_id p) m else m)"

definition mark_as_sent_devices :: "string \<Rightarrow> int \<Rightarrow> synapse_db \<Rightarrow> synapse_db" where
  "mark_as_sent_devices d mark db =
     (let gone = filter (\<lambda>p. dp_destination p = d \<and> dp_stream_id p \<le> mark) (db_pokes db)
      in db\<lparr>db_pokes := filter (\<lambda>p. \<not> (dp_destination p = d \<and> dp_stream_id p \<le> mark)) (db_pokes db),
            db_last_success := fold (\<lambda>(user, sid) m. upsert_max (d, user) sid m)
              (max_by_user gone []) (db_last_success db)\<rparr>)"

text \<open>The conditional upsert, on a table kept as a list.\<close>

definition upsert_row :: "'k \<Rightarrow> int \<Rightarrow> ('k \<times> int) list \<Rightarrow> ('k \<times> int) list" where
  "upsert_row k v l =
     (case map_of l k of None \<Rightarrow> l @ [(k, v)] | Some old \<Rightarrow> if old < v then AList.update k v l else l)"

lemma map_of_upsert_row [upsert_simps]: "map_of (upsert_row k v l) = upsert_max k v (map_of l)"
  by (rule ext) (auto simp: upsert_row_def upsert_max_def update_conv map_add_def split: option.splits)

lemma distinct_upsert_row: "distinct (map fst l) \<Longrightarrow> distinct (map fst (upsert_row k v l))"
  by (auto simp: upsert_row_def distinct_update map_of_eq_None_iff split: option.splits)

definition ensure_destination :: "string \<Rightarrow> (string \<rightharpoonup> destination_row) \<Rightarrow> (string \<rightharpoonup> destination_row)" where
  "ensure_destination d t = (case t d of None \<Rightarrow> t(d \<mapsto> empty_destination_row) | Some _ \<Rightarrow> t)"

definition store_destination_rooms :: "string list \<Rightarrow> string \<Rightarrow> int \<Rightarrow> synapse_db \<Rightarrow> synapse_db" where
  "store_destination_rooms ds room so db =
     (if ds = [] then db
      else db\<lparr>db_destinations := fold ensure_destination ds (db_destinations db),
              db_destination_rooms :=
                fold (\<lambda>d. upsert_row (d, room) so) ds (db_destination_rooms db)\<rparr>)"

definition set_destination_last_successful :: "string \<Rightarrow> int \<Rightarrow> synapse_db \<Rightarrow> synapse_db" where
  "set_destination_last_successful d so db =
     (let t = db_destinations db
      in case t d of
           None \<Rightarrow> db\<lparr>db_destinations := t(d \<mapsto> empty_destination_row\<lparr>dr_last_successful := Some so\<rparr>)\<rparr>
         | Some r \<Rightarrow>
             if (case dr_last_successful r of None \<Rightarrow> True | Some old \<Rightarrow> old < so)
             then db\<lparr>db_destinations := t(d \<mapsto> r\<lparr>dr_last_successful := Some so\<rparr>)\<rparr> else db)"

definition update_federation_out_pos :: "string \<Rightarrow> string \<Rightarrow> int \<Rightarrow> synapse_db \<Rightarrow> synapse_db" where
  "update_federation_out_pos ty instance_name sid db =
     db\<lparr>db_out_pos := upsert_max (ty, instance_name) sid (db_out_pos db)\<rparr>"

text \<open>SQL's three-valued \<open><\<close>: a comparison with \<open>NULL\<close> does not hold.\<close>

definition sql_less :: "int option \<Rightarrow> int \<Rightarrow> bool" where
  "sql_less x y = (case x of None \<Rightarrow> False | Some v \<Rightarrow> v < y)"

definition set_destination_retry_timings :: "string \<Rightarrow> timings \<Rightarrow> synapse_db \<Rightarrow> synapse_db" where
  "set_destination_retry_timings d t db =
     (let tab = db_destinations db;
          new = (\<lambda>r. r\<lparr>dr_failure_ts := (if failure_ts t \<noteq> 0 then Some (failure_ts t) else None),
                       dr_retry_last_ts := Some (retry_last_ts t),
                       dr_retry_interval := Some (retry_interval t)\<rparr>)
      in case tab d of
           None \<Rightarrow> db\<lparr>db_destinations := tab(d \<mapsto> new empty_destination_row)\<rparr>
         | Some r \<Rightarrow>
             if retry_interval t = 0 \<or> retry_last_ts t = 0 \<or> dr_retry_interval r = None
                \<or> sql_less (dr_retry_interval r) (retry_interval t)
                \<or> sql_less (dr_retry_last_ts r) (retry_last_ts t)
             then db\<lparr>db_destinations := tab(d \<mapsto> new r)\<rparr> else db)"

definition clear_destination_retry_timings :: "string \<Rightarrow> synapse_db \<Rightarrow> synapse_db" where
  "clear_destination_retry_timings d db = set_destination_retry_timings d zero_timings db"

section \<open>The worker's own tables\<close>

record routed_room =
  rr_destination :: string
  rr_room :: string
  rr_ordering :: int

record state_store =
  st_instance :: string
  st_cursors :: "string \<times> string \<rightharpoonup> int"
  st_routes :: "(string \<times> string \<times> string) \<rightharpoonup> int"
  st_retry :: "(string \<times> string \<rightharpoonup> timings) option"

text \<open>\<open>st_retry\<close> is \<open>None\<close> when no retry table is configured.\<close>

definition cursor_get :: "state_store \<Rightarrow> string \<Rightarrow> int option" where
  "cursor_get s name = st_cursors s (st_instance s, name)"

definition cursor_set :: "string \<Rightarrow> int \<Rightarrow> state_store \<Rightarrow> state_store" where
  "cursor_set name pos s = s\<lparr>st_cursors := upsert_max (st_instance s, name) pos (st_cursors s)\<rparr>"

definition cursor_get_all :: "state_store \<Rightarrow> (string \<rightharpoonup> int)" where
  "cursor_get_all s = (\<lambda>name. st_cursors s (st_instance s, name))"

definition to_device_cursor :: "string \<Rightarrow> string" where
  "to_device_cursor d = ''to_device:'' @ d"

definition device_list_cursor :: "string \<Rightarrow> string" where
  "device_list_cursor d = ''device_lists:'' @ d"

text \<open>PostgreSQL refuses a command that would update one row twice.\<close>

definition record_routes :: "routed_room list \<Rightarrow> state_store \<Rightarrow> state_store option" where
  "record_routes routes s =
     (if routes = [] then Some s
      else if distinct (map (\<lambda>r. (rr_destination r, rr_room r)) routes)
      then Some (s\<lparr>st_routes := fold (\<lambda>r. upsert_max (st_instance s, rr_destination r, rr_room r) (rr_ordering r))
                    routes (st_routes s)\<rparr>)
      else None)"

definition state_get_retry_timings :: "state_store \<Rightarrow> string list \<Rightarrow> (string \<rightharpoonup> timings)" where
  "state_get_retry_timings s ds =
     (case st_retry s of
        None \<Rightarrow> Map.empty
      | Some t \<Rightarrow> (\<lambda>d. t (st_instance s, d)) |` set ds)"

definition state_set_retry_timings :: "string \<Rightarrow> timings \<Rightarrow> state_store \<Rightarrow> state_store" where
  "state_set_retry_timings d t s =
     (case st_retry s of
        None \<Rightarrow> s
      | Some tab \<Rightarrow> s\<lparr>st_retry := Some (tab((st_instance s, d) \<mapsto> t))\<rparr>)"

section \<open>Stream reads\<close>

lemma event_page_shape:
  "get_all_new_event_ids_stream limit events = read_page ne_ordering limit (map new_event_of events)"
  by (intro ext) (simp add: get_all_new_event_ids_stream_def read_page_def)

lemma outbox_page_shape:
  "lo < hi \<Longrightarrow> 0 < limit \<Longrightarrow> get_new_device_msgs limit outbox d lo hi
     = read_page td_stream_id limit (filter (\<lambda>m. td_destination m = d) outbox) lo hi"
  using length_page [of td_stream_id lo hi limit "filter (\<lambda>m. td_destination m = d) outbox"]
  by (auto simp: get_new_device_msgs_def read_page_def Let_def)

lemma new_event_ordering [simp]: "ne_ordering (new_event_of e) = ev_ordering e"
  by (simp add: new_event_of_def)

text \<open>Stream orderings, and the stream ids of one destination's outbox, are unique.\<close>

interpretation event_stream: paged_stream
  "\<lambda>(limit, events). get_all_new_event_ids_stream limit events"
  "\<lambda>(limit :: nat, events). map new_event_of events" ne_ordering
  "\<lambda>(limit, events). 0 < limit \<and> distinct (map ev_ordering events)"
proof
  fix t :: "nat \<times> event list" and lo hi :: int
  obtain limit events where t: "t = (limit, events)" by force
  assume "case t of (limit, events) \<Rightarrow> 0 < limit \<and> distinct (map ev_ordering events)" "lo < hi"
  then have "distinct (map ne_ordering (map new_event_of events))" "0 < limit" "lo < hi"
    by (simp_all add: t comp_def)
  from read_page_exact [OF this]
  show "fst ((case t of (limit, events) \<Rightarrow> get_all_new_event_ids_stream limit events) lo hi)
      = window ne_ordering lo (snd ((case t of (limit, events) \<Rightarrow> get_all_new_event_ids_stream limit events) lo hi))
          (case t of (limit, events) \<Rightarrow> map new_event_of events)"
    "lo < snd ((case t of (limit, events) \<Rightarrow> get_all_new_event_ids_stream limit events) lo hi)
      \<and> snd ((case t of (limit, events) \<Rightarrow> get_all_new_event_ids_stream limit events) lo hi) \<le> hi"
    by (simp_all add: t event_page_shape)
qed

interpretation outbox_stream: paged_stream
  "\<lambda>(limit, outbox, d). get_new_device_msgs limit outbox d"
  "\<lambda>(limit :: nat, outbox, d). filter (\<lambda>m. td_destination m = d) outbox" td_stream_id
  "\<lambda>(limit, outbox, d). 0 < limit \<and> distinct (map td_stream_id (filter (\<lambda>m. td_destination m = d) outbox))"
proof
  fix t :: "nat \<times> to_device_message list \<times> string" and lo hi :: int
  obtain limit outbox d where t: "t = (limit, outbox, d)" by (cases t) auto
  assume "case t of (limit, outbox, d) \<Rightarrow> 0 < limit \<and> distinct (map td_stream_id (filter (\<lambda>m. td_destination m = d) outbox))"
    and lt: "lo < hi"
  then have d: "distinct (map td_stream_id (filter (\<lambda>m. td_destination m = d) outbox))" and pos: "0 < limit"
    by (simp_all add: t)
  from read_page_exact [OF d pos lt]
  show "fst ((case t of (limit, outbox, d) \<Rightarrow> get_new_device_msgs limit outbox d) lo hi)
      = window td_stream_id lo (snd ((case t of (limit, outbox, d) \<Rightarrow> get_new_device_msgs limit outbox d) lo hi))
          (case t of (limit, outbox, d) \<Rightarrow> filter (\<lambda>m. td_destination m = d) outbox)"
    "lo < snd ((case t of (limit, outbox, d) \<Rightarrow> get_new_device_msgs limit outbox d) lo hi)
      \<and> snd ((case t of (limit, outbox, d) \<Rightarrow> get_new_device_msgs limit outbox d) lo hi) \<le> hi"
    by (simp_all add: t outbox_page_shape [OF lt pos])
qed

text \<open>
  Paging skips nothing. Reading a destination's to-device outbox page by page, from a cursor
  to the newest stream id, returns every row of that destination in between exactly once in
  stream order, whatever the limit, and ends with the cursor at the newest id, past the rows of
  other destinations.
\<close>

theorem outbox_paging_complete:
  assumes "0 < limit" "distinct (map td_stream_id (filter (\<lambda>m. td_destination m = d) outbox))"
    and "nat (hi - lo) \<le> fuel"
  shows "concat (fst (drain (get_new_device_msgs limit outbox d) fuel lo hi))
      = sort_key td_stream_id (filter (\<lambda>m. td_destination m = d \<and> lo < td_stream_id m \<and> td_stream_id m \<le> hi) outbox)
    \<and> snd (drain (get_new_device_msgs limit outbox d) fuel lo hi) = max lo hi"
proof -
  have "filter (\<lambda>r. lo < td_stream_id r \<and> td_stream_id r \<le> hi) (filter (\<lambda>m. td_destination m = d) outbox)
      = filter (\<lambda>m. td_destination m = d \<and> lo < td_stream_id m \<and> td_stream_id m \<le> hi) outbox"
    by (simp add: conj_ac)
  then show ?thesis
    using outbox_stream.drain_all [of "(limit, outbox, d)" hi lo fuel] assms
    by (simp add: window_def)
qed

definition sample_outbox :: "to_device_message list" where
  "sample_outbox = map (\<lambda>(d, i). \<lparr>td_destination = d, td_stream_id = i, td_messages = ''{}''\<rparr>)
     [(''b'', 3), (''c'', 4), (''b'', 5), (''b'', 8)]"

theorem outbox_paging_complete_witness:
  "map td_stream_id (concat (fst (drain (get_new_device_msgs 1 sample_outbox ''b'') 10 0 9))) = [3, 5, 8]"
  using outbox_paging_complete [of 1 "''b''" sample_outbox 9 0 10] by (simp add: sample_outbox_def)

section \<open>The worker's tables\<close>

lemma cursor_get_set:
  "cursor_get (cursor_set name pos s) name'
     = (if name' = name then Some (case cursor_get s name of None \<Rightarrow> pos | Some old \<Rightarrow> max old pos)
        else cursor_get s name')"
  by (simp add: cursor_get_def cursor_set_def upsert_max_apply)

lemma st_instance_set [simp]: "st_instance (cursor_set name pos s) = st_instance s"
  by (simp add: cursor_set_def)

lemma st_cursors_set:
  "st_cursors (cursor_set name pos s) k = (if k = (st_instance s, name)
     then Some (case st_cursors s k of None \<Rightarrow> pos | Some old \<Rightarrow> max old pos) else st_cursors s k)"
  by (simp add: cursor_set_def upsert_max_apply)

text \<open>
  A cursor never goes back. After any writes of positions to cursors of this instance, in
  any order and from any number of writers, a cursor stands at the greatest position ever written
  to it; other cursors, and those of other instances sharing the table, are untouched.
\<close>

theorem cursor_is_max:
  fixes ws :: "(string \<times> int) list"
  defines "run \<equiv> fold (\<lambda>(name, pos) s. cursor_set name pos s) ws"
  shows "(\<forall>v. cursor_get (run s) name = Some v \<longleftrightarrow>
            v \<in> set_option (cursor_get s name) \<union> {pos. (name, pos) \<in> set ws}
            \<and> (\<forall>pos \<in> set_option (cursor_get s name) \<union> {pos. (name, pos) \<in> set ws}. pos \<le> v))
    \<and> (\<forall>inst name'. inst \<noteq> st_instance s \<longrightarrow> st_cursors (run s) (inst, name') = st_cursors s (inst, name'))"
proof -
  have "cursor_get (fold (\<lambda>(name, pos) s. cursor_set name pos s) ws s) name = Some v \<longleftrightarrow>
      v \<in> set_option (cursor_get s name) \<union> {pos. (name, pos) \<in> set ws}
      \<and> (\<forall>pos \<in> set_option (cursor_get s name) \<union> {pos. (name, pos) \<in> set ws}. pos \<le> v)" for v s
  proof (induction ws arbitrary: s)
    case Nil
    then show ?case by (cases "cursor_get s name") auto
  next
    case (Cons w ws)
    obtain n p where w: "w = (n, p)" by force
    show ?case
      unfolding w fold_simps comp_apply prod.case Cons.IH
      by (cases "n = name"; cases "cursor_get s name") (auto simp: cursor_get_set max_def)
  qed
  moreover have "inst \<noteq> st_instance s \<Longrightarrow>
      st_cursors (fold (\<lambda>(name, pos) s. cursor_set name pos s) ws s) (inst, name') = st_cursors s (inst, name')"
    for inst name' s
  proof (induction ws arbitrary: s)
    case (Cons w ws)
    from Cons.IH [of "cursor_set (fst w) (snd w) s"] Cons.prems show ?case
      by (simp add: split_beta st_cursors_set)
  qed simp
  ultimately show ?thesis unfolding run_def by blast
qed

definition sample_state_store :: state_store where
  "sample_state_store = \<lparr>st_instance = ''i'', st_cursors = Map.empty, st_routes = Map.empty, st_retry = None\<rparr>"

theorem cursor_is_max_witness:
  "cursor_get (fold (\<lambda>(name, pos) s. cursor_set name pos s) [(''events'', 5), (''events'', 9), (''events'', 7)]
     sample_state_store) ''events'' = Some 9"
  using cursor_is_max [of "[(''events'', 5), (''events'', 9), (''events'', 7)]" sample_state_store "''events''"]
  by (simp add: sample_state_store_def cursor_get_def)

section \<open>Synapse's tables\<close>

definition seen_ids :: "(string \<times> int) list \<Rightarrow> device_poke list \<Rightarrow> string \<Rightarrow> int set" where
  "seen_ids m ps user = set_option (map_of m user) \<union> {dp_stream_id p | p. p \<in> set ps \<and> dp_user p = user}"

definition is_max :: "int set \<Rightarrow> int option \<Rightarrow> bool" where
  "is_max S x \<longleftrightarrow> (case x of None \<Rightarrow> S = {} | Some v \<Rightarrow> v \<in> S \<and> (\<forall>w \<in> S. w \<le> v))"

lemma seen_ids_Cons: "seen_ids m (p # ps) user
    = (if dp_user p = user then insert (dp_stream_id p) (seen_ids m ps user) else seen_ids m ps user)"
  by (auto simp: seen_ids_def)

lemma seen_ids_update: "seen_ids (AList.update k v m) ps user
    = (if user = k then insert v {dp_stream_id p | p. p \<in> set ps \<and> dp_user p = user} else seen_ids m ps user)"
  by (auto simp: seen_ids_def update_conv)

lemma is_max_drop_smaller:
  "is_max (insert b S) x \<Longrightarrow> a \<le> b \<Longrightarrow> is_max (insert a (insert b S)) x"
  by (auto simp: is_max_def split: option.splits)

lemma max_by_user_is_max:
  "\<forall>p \<in> set ps. 0 < dp_stream_id p \<Longrightarrow> is_max (seen_ids m ps user) (map_of (max_by_user ps m) user)"
proof (induction ps arbitrary: m)
  case Nil
  then show ?case by (auto simp: seen_ids_def is_max_def split: option.splits)
next
  case (Cons p ps)
  let ?i = "dp_stream_id p" and ?R = "{dp_stream_id p | p. p \<in> set ps \<and> dp_user p = user}"
  define r where "r = map_of (max_by_user (p # ps) m) user"
  have "is_max (seen_ids m (p # ps) user) r"
  proof (cases "?i > (case map_of m (dp_user p) of None \<Rightarrow> 0 | Some v \<Rightarrow> v)")
    case True
    with Cons.IH [of "AList.update (dp_user p) ?i m"] Cons.prems have
      IH: "is_max (seen_ids (AList.update (dp_user p) ?i m) ps user) r"
      by (simp add: r_def)
    show ?thesis
    proof (cases "dp_user p = user")
      case same: True
      show ?thesis
      proof (cases "map_of m user")
        case None
        with IH same show ?thesis by (simp add: seen_ids_Cons seen_ids_update) (simp add: seen_ids_def)
      next
        case (Some v)
        with True same have "v \<le> ?i" by simp
        with is_max_drop_smaller [of ?i ?R] IH same Some show ?thesis
          by (simp add: seen_ids_Cons seen_ids_update) (simp add: seen_ids_def insert_commute)
      qed
    next
      case False
      with IH show ?thesis by (simp add: seen_ids_Cons seen_ids_update)
    qed
  next
    case False
    with Cons.IH [of m] Cons.prems have IH: "is_max (seen_ids m ps user) r"
      by (simp add: r_def)
    show ?thesis
    proof (cases "dp_user p = user")
      case same: True
      with False Cons.prems obtain v where v: "map_of m user = Some v" "?i \<le> v"
        by (cases "map_of m user") auto
      then have "seen_ids m ps user = insert v ?R" by (simp add: seen_ids_def)
      with is_max_drop_smaller [of v ?R _ ?i] IH v same show ?thesis by (simp add: seen_ids_Cons)
    next
      case False
      with IH show ?thesis by (simp add: seen_ids_Cons)
    qed
  qed
  then show ?case by (simp only: r_def)
qed

lemma distinct_max_by_user: "distinct (map fst m) \<Longrightarrow> distinct (map fst (max_by_user ps m))"
  by (induction ps arbitrary: m) (auto simp: distinct_update)

lemma fold_upsert_other:
  "fst k \<noteq> d \<or> snd k \<notin> fst ` set l \<Longrightarrow>
     fold (\<lambda>(user, sid) m. upsert_max (d, user) sid m) l t k = t k"
proof (induction l arbitrary: t)
  case (Cons x l)
  then have "fst k \<noteq> d \<or> snd k \<notin> fst ` set l" "k \<noteq> (d, fst x)" by auto
  with Cons.IH [of "upsert_max (d, fst x) (snd x) t"] show ?case
    by (simp add: split_beta upsert_max_other)
qed simp

lemma fold_upsert_distinct:
  "distinct (map fst l) \<Longrightarrow>
     fold (\<lambda>(user, sid) m. upsert_max (d, user) sid m) l t (d, user)
       = (case map_of l user of None \<Rightarrow> t (d, user)
          | Some sid \<Rightarrow> Some (case t (d, user) of None \<Rightarrow> sid | Some old \<Rightarrow> max old sid))"
proof (induction l arbitrary: t)
  case Nil
  then show ?case by simp
next
  case (Cons x l)
  obtain u i where x: "x = (u, i)" by force
  have step: "fold (\<lambda>(user, sid) m. upsert_max (d, user) sid m) (x # l) t (d, user)
      = fold (\<lambda>(user, sid) m. upsert_max (d, user) sid m) l (upsert_max (d, u) i t) (d, user)"
    by (simp add: x)
  show ?case
  proof (cases "u = user")
    case True
    with Cons.prems have "user \<notin> fst ` set l" by (simp add: x)
    then have "fold (\<lambda>(user, sid) m. upsert_max (d, user) sid m) l (upsert_max (d, u) i t) (d, user)
        = upsert_max (d, u) i t (d, user)" by (intro fold_upsert_other) simp
    then show ?thesis unfolding step using True by (simp add: x upsert_max_same)
  next
    case False
    have "fold (\<lambda>(user, sid) m. upsert_max (d, user) sid m) l (upsert_max (d, u) i t) (d, user)
        = (case map_of l user of None \<Rightarrow> upsert_max (d, u) i t (d, user)
          | Some sid \<Rightarrow> Some (case upsert_max (d, u) i t (d, user) of None \<Rightarrow> sid | Some old \<Rightarrow> max old sid))"
      using Cons.prems by (intro Cons.IH) simp
    moreover have "upsert_max (d, u) i t (d, user) = t (d, user)"
      using False by (simp add: upsert_max_apply)
    ultimately show ?thesis unfolding step using False by (simp add: x split: option.splits)
  qed
qed

text \<open>
  What a delivered device-list batch leaves behind. The pokes of the destination up to the
  mark are gone, all others stay; and for every user the last-success row, the next batch's
  \<open>prev_id\<close>, is the greatest of what it was and the stream ids deleted for that user - never
  less, and unchanged for users and destinations without a deleted poke.
\<close>

theorem devices_marked_sent:
  fixes d d' user :: string and mark :: int
  assumes "\<forall>p \<in> set (db_pokes db). 0 < dp_stream_id p"
  defines "db' \<equiv> mark_as_sent_devices d mark db"
    and "sent \<equiv> \<lambda>user. {dp_stream_id p | p. p \<in> set (db_pokes db) \<and> dp_destination p = d
        \<and> dp_stream_id p \<le> mark \<and> dp_user p = user}"
  shows "db_pokes db' = filter (\<lambda>p. dp_destination p = d \<longrightarrow> mark < dp_stream_id p) (db_pokes db)
    \<and> is_max (set_option (db_last_success db (d, user)) \<union> sent user) (db_last_success db' (d, user))
    \<and> (d' \<noteq> d \<longrightarrow> db_last_success db' (d', user) = db_last_success db (d', user))"
proof -
  let ?gone = "filter (\<lambda>p. dp_destination p = d \<and> dp_stream_id p \<le> mark) (db_pokes db)"
  have "is_max (seen_ids [] ?gone user) (map_of (max_by_user ?gone []) user)"
    using assms(1) by (intro max_by_user_is_max) auto
  moreover have "seen_ids [] ?gone user = sent user" by (auto simp: seen_ids_def sent_def)
  ultimately have m: "is_max (sent user) (map_of (max_by_user ?gone []) user)" by simp
  have "distinct (map fst (max_by_user ?gone []))" by (rule distinct_max_by_user) simp
  note f = fold_upsert_distinct [OF this, of d "db_last_success db" user]
  have "is_max (set_option (db_last_success db (d, user)) \<union> sent user) (db_last_success db' (d, user))"
    using m f by (auto simp: db'_def mark_as_sent_devices_def Let_def is_max_def max_def split: option.splits)
  moreover have "d' \<noteq> d \<Longrightarrow> db_last_success db' (d', user) = db_last_success db (d', user)"
    using fold_upsert_other [of "(d', user)" d "max_by_user ?gone []" "db_last_success db"]
    by (auto simp: db'_def mark_as_sent_devices_def Let_def)
  moreover have "db_pokes db' = filter (\<lambda>p. dp_destination p = d \<longrightarrow> mark < dp_stream_id p) (db_pokes db)"
    by (auto simp: db'_def mark_as_sent_devices_def Let_def not_le intro!: filter_cong)
  ultimately show ?thesis by blast
qed

definition empty_db :: synapse_db where
  "empty_db = \<lparr>db_events = [], db_destinations = Map.empty, db_destination_rooms = [], db_outbox = [],
     db_pokes = [], db_last_success = Map.empty, db_out_pos = Map.empty\<rparr>"

theorem devices_marked_sent_witness:
  "map dp_stream_id (db_pokes (mark_as_sent_devices ''b'' 4 (empty_db\<lparr>db_pokes :=
     [\<lparr>dp_destination = ''b'', dp_user = ''@a:x'', dp_device = ''D'', dp_stream_id = 3, dp_context = []\<rparr>,
      \<lparr>dp_destination = ''b'', dp_user = ''@a:x'', dp_device = ''E'', dp_stream_id = 6, dp_context = []\<rparr>]\<rparr>))) = [6]"
  using devices_marked_sent [of "empty_db\<lparr>db_pokes :=
     [\<lparr>dp_destination = ''b'', dp_user = ''@a:x'', dp_device = ''D'', dp_stream_id = 3, dp_context = []\<rparr>,
      \<lparr>dp_destination = ''b'', dp_user = ''@a:x'', dp_device = ''E'', dp_stream_id = 6, dp_context = []\<rparr>]\<rparr>"
      "''b''" 4 "''@a:x''" "''c''"]
  by (simp add: empty_db_def)

text \<open>
  The backoff in Synapse's table only lengthens. A write that is not a reset never replaces a
  longer interval or a later attempt by a shorter and earlier one, and a reset always takes
  effect, whatever was there.
\<close>

theorem retry_upsert_guard:
  assumes "db_destinations db d = Some r"
  shows "let t' = row_timings (the (db_destinations (set_destination_retry_timings d t db) d)) in
      (t' = t \<or> t' = row_timings r)
      \<and> (t' \<noteq> t \<longrightarrow> retry_interval t \<noteq> 0 \<and> retry_interval t \<le> retry_interval t'
           \<and> (dr_retry_last_ts r = None \<or> retry_last_ts t \<le> retry_last_ts t'))
      \<and> row_timings (the (db_destinations (clear_destination_retry_timings d db) d)) = zero_timings"
  using assms
  by (auto simp: set_destination_retry_timings_def clear_destination_retry_timings_def Let_def
      row_timings_def coalesce0_def sql_less_def zero_timings_def split: option.splits if_splits)

theorem retry_upsert_guard_witness:
  "row_timings (the (db_destinations (clear_destination_retry_timings ''b''
     (empty_db\<lparr>db_destinations := [''b'' \<mapsto> empty_destination_row]\<rparr>)) ''b'')) = zero_timings"
  using retry_upsert_guard [of "empty_db\<lparr>db_destinations := [''b'' \<mapsto> empty_destination_row]\<rparr>" "''b''"
      empty_destination_row zero_timings]
  by (simp add: Let_def)

end
