(* ===== verification/Routing.thy ===== *)
theory Routing
  imports Destinations Store Queue
begin

text \<open>
  \<open>internal/sender/event.go\<close> and \<open>auth.go\<close>: what becomes of one event. A handler answers the
  list of what it did, in order, and its result: \<open>None\<close> for an error, \<open>Some sent\<close> otherwise. What
  the database, the clock and the writes answer while the event is handled is a \<open>sender_env\<close>.
\<close>

record sender_config =
  sc_json :: gjson
  sc_server_name :: string
  sc_whitelist :: "string list option"
  sc_should_handle :: "string \<Rightarrow> bool"
  sc_batch_limit :: nat
  sc_record_routes :: bool
  sc_record_position :: bool
  sc_max_room_concurrency :: nat

text \<open>
  \<open>sc_record_routes\<close> and \<open>sc_record_position\<close> are whether the optional writers are set (they are
  in a primary, not in a shadow). The resolver is built with the same server name and whitelist.
\<close>

record sender_env =
  env_hosts :: room_hosts
  env_get_events :: "string list \<Rightarrow> event list option"
  env_retry_timings :: "string list \<Rightarrow> (string \<rightharpoonup> timings) option"
  env_now :: instant
  env_routes_ok :: bool
  env_synapse_ok :: bool

text \<open>
  \<open>Enqueue\<close> is \<open>Queues.Get\<close>, \<open>EnqueuePDU\<close> and \<open>Queues.Wake\<close> for one destination, \<open>Handled\<close> the
  return of \<open>handleEvent\<close> without an error. The timings reported to the observer are left out.
\<close>

datatype sender_effect =
  EventSkipped string skip_reason
| EventRouted string "string list" "string list" fallback_reason
| RoutesRecorded "routed_room list"
| SynapseRoutes "string list" string int
| Enqueue string pdu
| Handled string bool

definition catchup_retry_interval :: duration where "catchup_retry_interval = hour"

definition load_auth_events :: "gjson \<Rightarrow> sender_env \<Rightarrow> event \<Rightarrow> json list option" where
  "load_auth_events g env e =
     (let refs = get_items g (ev_json e) ''auth_events''; ids = event_refs g True refs in
      if refs = [] then Some [] else if ids = [] then Some []
      else map_option (map ev_json) (env_get_events env ids))"

definition our_destinations :: "sender_config \<Rightarrow> metadata \<Rightarrow> string list \<Rightarrow> string list" where
  "our_destinations cfg meta ds = filter (\<lambda>d. sc_should_handle cfg d \<and> d \<noteq> send_on_behalf_of meta) ds"

definition routes_of :: "event \<Rightarrow> string list \<Rightarrow> routed_room list" where
  "routes_of e ds = map (\<lambda>d. \<lparr>rr_destination = d, rr_room = ev_room e, rr_ordering = ev_ordering e\<rparr>) ds"

definition pdu_of :: "event \<Rightarrow> json \<Rightarrow> pdu" where
  "pdu_of e body = \<lparr>event_id = ev_id e, stream_ordering = ev_ordering e, pdu_json = body\<rparr>"

definition fan_out ::
  "sender_config \<Rightarrow> sender_env \<Rightarrow> event \<Rightarrow> string list \<Rightarrow> (string \<rightharpoonup> timings) \<Rightarrow> json
   \<Rightarrow> sender_effect list \<times> bool option" where
  "fan_out cfg env e ours ts body =
     (let due = filter_by_retry_limiter ours ts (env_now env) catchup_retry_interval in
      if \<not> env_routes_ok env then ([], None)
      else if sc_record_routes cfg \<and> \<not> env_synapse_ok env then ([RoutesRecorded (routes_of e ours)], None)
      else (RoutesRecorded (routes_of e ours)
              # (if sc_record_routes cfg then [SynapseRoutes ours (ev_room e) (ev_ordering e)] else [])
              @ map (\<lambda>d. Enqueue d (pdu_of e body)) due,
            Some (due \<noteq> [])))"

definition handle_event :: "sender_config \<Rightarrow> sender_env \<Rightarrow> event \<Rightarrow> sender_effect list \<times> bool option" where
  "handle_event cfg env e =
     (let g = sc_json cfg; meta = parse_metadata g (ev_metadata e) in
      case eligible (ev_sender e) (sc_server_name cfg) meta (ev_rejection e) of
        Some reason \<Rightarrow> ([EventSkipped (ev_id e) reason], Some False)
      | None \<Rightarrow>
          (case resolve g (env_hosts env) (sc_server_name cfg) (sc_whitelist cfg) (ev_json e)
                  (load_auth_events g env e) of
             None \<Rightarrow> ([], None)
           | Some res \<Rightarrow>
               if destinations res = [] then ([EventSkipped (ev_id e) SkipNoDestinations], Some False)
               else let ours = our_destinations cfg meta (destinations res);
                        routed = EventRouted (ev_id e) (destinations res) ours (fallback res)
                    in if ours = [] then ([routed], Some False)
                    else case env_retry_timings env ours of
                        None \<Rightarrow> ([routed], None)
                      | Some ts \<Rightarrow>
                          (case serialise_pdu g (ev_json e) of
                             None \<Rightarrow> ([routed, EventSkipped (ev_id e) SkipUnserialisable], Some False)
                           | Some body \<Rightarrow>
                               (case fan_out cfg env e ours ts body of (effs, r) \<Rightarrow> (routed # effs, r)))))"

section \<open>Facts\<close>

lemma mem_enqueue_fan_out:
  "fan_out cfg env e ours ts body = (effs, r) \<Longrightarrow> Enqueue d p \<in> set effs \<Longrightarrow>
     r \<noteq> None \<and> d \<in> set ours \<and> p = pdu_of e body \<and> RoutesRecorded (routes_of e ours) \<in> set effs"
  by (auto simp: fan_out_def Let_def filter_by_retry_limiter_def split: if_splits)

lemma distinct_our_destinations: "distinct ds \<Longrightarrow> distinct (our_destinations cfg meta ds)"
  by (simp add: our_destinations_def)

lemma routes_accepted:
  "distinct ds \<Longrightarrow> record_routes (routes_of e ds) s \<noteq> None"
  by (simp add: record_routes_def routes_of_def comp_def distinct_map inj_on_def)

text \<open>The one branch of \<open>handleEvent\<close> that sends.\<close>

lemma handle_event_sends:
  assumes "handle_event cfg env e = (effs, r)" "Enqueue d p \<in> set effs"
  obtains res ours ts body rest where
    "eligible (ev_sender e) (sc_server_name cfg) (parse_metadata (sc_json cfg) (ev_metadata e)) (ev_rejection e) = None"
    "resolve (sc_json cfg) (env_hosts env) (sc_server_name cfg) (sc_whitelist cfg) (ev_json e)
       (load_auth_events (sc_json cfg) env e) = Some res"
    "ours = our_destinations cfg (parse_metadata (sc_json cfg) (ev_metadata e)) (destinations res)" "ours \<noteq> []"
    "env_retry_timings env ours = Some ts" "serialise_pdu (sc_json cfg) (ev_json e) = Some body"
    "fan_out cfg env e ours ts body = (rest, r)"
    "effs = EventRouted (ev_id e) (destinations res) ours (fallback res) # rest"
  using assms
  by (auto simp: handle_event_def Let_def split: option.splits if_splits prod.splits)

lemma handle_event_records:
  assumes "handle_event cfg env e = (effs, r)" "RoutesRecorded rs \<in> set effs"
  obtains x ours ts body rest where "env_retry_timings env ours = Some ts"
    "serialise_pdu (sc_json cfg) (ev_json e) = Some body" "fan_out cfg env e ours ts body = (rest, r)"
    "effs = x # rest" "\<forall>d p. x \<noteq> Enqueue d p" "\<forall>rs. x \<noteq> RoutesRecorded rs"
  using assms
  by (auto simp: handle_event_def Let_def split: option.splits if_splits prod.splits)

section \<open>Properties\<close>

text \<open>
  What is queued, and where. An event is enqueued only if it is eligible and serialisable;
  each destination it is enqueued for was resolved for it, is on our shard, is not the server we
  forward on behalf of, is not ourselves and is not excluded by the whitelist; the event is what
  \<open>SerialisePDU\<close> made of it, no destination gets it twice, and the routes recorded before are
  exactly the resolved destinations on our shard, a set of rows the routes table accepts.
\<close>

theorem enqueued_is_routed:
  assumes "handle_event cfg env e = (effs, r)" "Enqueue d p \<in> set effs"
  shows "r = Some True
    \<and> sc_should_handle cfg d \<and> d \<noteq> sc_server_name cfg \<and> d \<noteq> []
    \<and> d \<noteq> send_on_behalf_of (parse_metadata (sc_json cfg) (ev_metadata e))
    \<and> (\<forall>w. sc_whitelist cfg = Some w \<longrightarrow> d \<in> set w)
    \<and> event_id p = ev_id e \<and> stream_ordering p = ev_ordering e
    \<and> serialise_pdu (sc_json cfg) (ev_json e) = Some (pdu_json p)
    \<and> distinct (filter (\<lambda>x. case x of Enqueue _ _ \<Rightarrow> True | _ \<Rightarrow> False) effs)
    \<and> (\<exists>ours before after. effs = before @ RoutesRecorded (routes_of e ours) # after
         \<and> d \<in> set ours \<and> Enqueue d p \<notin> set before \<and> (\<forall>s. record_routes (routes_of e ours) s \<noteq> None))"
proof -
  from assms obtain res ours ts body rest where
    elig: "eligible (ev_sender e) (sc_server_name cfg) (parse_metadata (sc_json cfg) (ev_metadata e)) (ev_rejection e) = None"
    and res: "resolve (sc_json cfg) (env_hosts env) (sc_server_name cfg) (sc_whitelist cfg) (ev_json e)
       (load_auth_events (sc_json cfg) env e) = Some res"
    and ours: "ours = our_destinations cfg (parse_metadata (sc_json cfg) (ev_metadata e)) (destinations res)"
    and ne: "ours \<noteq> []" and ts: "env_retry_timings env ours = Some ts"
    and body: "serialise_pdu (sc_json cfg) (ev_json e) = Some body"
    and fan: "fan_out cfg env e ours ts body = (rest, r)"
    and effs: "effs = EventRouted (ev_id e) (destinations res) ours (fallback res) # rest"
    by (rule handle_event_sends)
  let ?due = "filter_by_retry_limiter ours ts (env_now env) catchup_retry_interval"
  let ?sr = "if sc_record_routes cfg then [SynapseRoutes ours (ev_room e) (ev_ordering e)] else []"
  from assms(2) effs have in_rest: "Enqueue d p \<in> set rest" by simp
  with fan have rest: "rest = RoutesRecorded (routes_of e ours) # ?sr @ map (\<lambda>d. Enqueue d (pdu_of e body)) ?due"
    and r: "r = Some (?due \<noteq> [])"
    by (auto simp: fan_out_def Let_def split: if_splits)
  from in_rest have d: "d \<in> set ?due" and p: "p = pdu_of e body"
    by (auto simp: rest split: if_splits)
  then have dours: "d \<in> set ours" by (simp add: filter_by_retry_limiter_def)
  note sr = set_resolved [OF res]
  have dist: "distinct ours" using sr by (simp add: ours distinct_our_destinations)
  have "distinct (filter (\<lambda>x. case x of Enqueue _ _ \<Rightarrow> True | _ \<Rightarrow> False) effs)"
  proof -
    have "filter (\<lambda>x. case x of Enqueue _ _ \<Rightarrow> True | _ \<Rightarrow> False) effs = map (\<lambda>d. Enqueue d (pdu_of e body)) ?due"
      by (simp add: effs rest filter_map comp_def)
    moreover have "distinct ?due" using dist by (simp add: filter_by_retry_limiter_def)
    ultimately show ?thesis by (simp add: distinct_map inj_on_def)
  qed
  moreover have "\<exists>ours before after. effs = before @ RoutesRecorded (routes_of e ours) # after
      \<and> d \<in> set ours \<and> Enqueue d p \<notin> set before \<and> (\<forall>s. record_routes (routes_of e ours) s \<noteq> None)"
    using dours routes_accepted [OF dist]
    by (intro exI [of _ ours] exI [of _ "[EventRouted (ev_id e) (destinations res) ours (fallback res)]"]
        exI [of _ "?sr @ map (\<lambda>d. Enqueue d (pdu_of e body)) ?due"]) (auto simp: effs rest)
  moreover have "?due \<noteq> []" using d by (metis list.set(1) empty_iff)
  ultimately show ?thesis
    using dours sr r body p by (auto simp: ours our_destinations_def pdu_of_def)
qed

definition sample_sender_config :: sender_config where
  "sample_sender_config = \<lparr>sc_json = sample_event_gjson, sc_server_name = ''a'', sc_whitelist = None,
     sc_should_handle = (\<lambda>d. True), sc_batch_limit = 100, sc_record_routes = True, sc_record_position = True,
     sc_max_room_concurrency = 64\<rparr>"

definition sample_sender_env :: sender_env where
  "sample_sender_env = \<lparr>env_hosts = sample_room_hosts, env_get_events = (\<lambda>ids. Some []),
     env_retry_timings = (\<lambda>ds. Some Map.empty), env_now = 0, env_routes_ok = True, env_synapse_ok = True\<rparr>"

definition sample_event :: event where
  "sample_event = \<lparr>ev_id = ''$e'', ev_room = ''!r:a'', ev_type = ''m.room.member'', ev_state_key = ''@u:b'',
     ev_sender = ''@admin:a'', ev_ordering = 7, ev_outlier = False, ev_rejection = [], ev_json = ''ban'',
     ev_received_ts = 0, ev_metadata = []\<rparr>"

lemma handle_sample:
  "handle_event sample_sender_config sample_sender_env sample_event =
     ([EventRouted ''$e'' [''b'', ''c''] [''b'', ''c''] NoFallback,
       RoutesRecorded (routes_of sample_event [''b'', ''c'']), SynapseRoutes [''b'', ''c''] ''!r:a'' 7,
       Enqueue ''b'' (pdu_of sample_event ''ban''), Enqueue ''c'' (pdu_of sample_event ''ban'')], Some True)"
proof -
  have el: "eligible (ev_sender sample_event) (sc_server_name sample_sender_config)
      (parse_metadata (sc_json sample_sender_config) (ev_metadata sample_event)) (ev_rejection sample_event) = None"
    by (simp add: eligible_def is_mine_def domain_of_def sample_event_def sample_sender_config_def
        parse_metadata_def strings_cut_def)
  have res: "resolve (sc_json sample_sender_config) (env_hosts sample_sender_env) (sc_server_name sample_sender_config)
      (sc_whitelist sample_sender_config) (ev_json sample_event)
      (load_auth_events (sc_json sample_sender_config) sample_sender_env sample_event)
      = Some \<lparr>destinations = [''b'', ''c''], approximate = False, fallback = NoFallback, rescinded_invite = False\<rparr>"
    by (simp add: sample_sender_config_def sample_sender_env_def sample_event_def resolve_def prev_event_ids_def
        hosts_before_event_def single_group_def sample_room_hosts_def rescinded_domain_def load_auth_events_def
        sample_event_gjson_def gjson_eval)
  have body: "serialise_pdu (sc_json sample_sender_config) (ev_json sample_event) = Some ''ban''"
    by (simp add: serialise_pdu_def sample_sender_config_def sample_event_def sample_event_gjson_def gjson_eval)
  show ?thesis
    unfolding handle_event_def Let_def el option.case res body
    by (simp add: our_destinations_def fan_out_def filter_by_retry_limiter_def sample_sender_config_def
        sample_sender_env_def sample_event_def parse_metadata_def routes_of_def)
qed

theorem enqueued_is_routed_witness:
  "serialise_pdu sample_event_gjson ''ban'' = Some (pdu_json (pdu_of sample_event ''ban''))
     \<and> sc_should_handle sample_sender_config ''c''"
  using enqueued_is_routed [OF handle_sample, of "''c''" "pdu_of sample_event ''ban''"]
  by (simp add: sample_sender_config_def sample_event_def)

text \<open>
  Nothing owed is forgotten. When an event is handled and its route to a destination is
  recorded, the destination is either given the event at once or is backing off for more than
  another hour - in which case the recorded route is what catch-up finds. Conversely an event
  that cannot be serialised, or whose handling fails, is given to nobody.
\<close>

theorem routed_or_backing_off:
  assumes "handle_event cfg env e = (effs, r)"
  shows "(\<forall>ours d. RoutesRecorded (routes_of e ours) \<in> set effs \<and> d \<in> set ours \<and> r \<noteq> None \<longrightarrow>
      (\<exists>ts body. env_retry_timings env ours = Some ts \<and> serialise_pdu (sc_json cfg) (ev_json e) = Some body
        \<and> (\<forall>p. Enqueue d p \<in> set effs \<longleftrightarrow> p = pdu_of e body
             \<and> (case ts d of None \<Rightarrow> True
                | Some t \<Rightarrow> timings_due t (unix_milli (env_now env) + 3600000)))))
    \<and> (r = None \<or> serialise_pdu (sc_json cfg) (ev_json e) = None \<longrightarrow> (\<forall>d p. Enqueue d p \<notin> set effs))"
proof (intro conjI allI impI, goal_cases)
  case (1 ours d)
  then have rec: "RoutesRecorded (routes_of e ours) \<in> set effs" and d: "d \<in> set ours" and r: "r \<noteq> None" by auto
  from assms rec obtain x ours' ts body rest where ts: "env_retry_timings env ours' = Some ts"
    and body: "serialise_pdu (sc_json cfg) (ev_json e) = Some body"
    and fan: "fan_out cfg env e ours' ts body = (rest, r)"
    and effs: "effs = x # rest" and x: "\<forall>d p. x \<noteq> Enqueue d p" "\<forall>rs. x \<noteq> RoutesRecorded rs"
    by (rule handle_event_records)
  from effs x have rest: "Enqueue d p \<in> set effs \<longleftrightarrow> Enqueue d p \<in> set rest" for d p by auto
  from rec effs x have rec': "RoutesRecorded (routes_of e ours) \<in> set rest" by auto
  from fan r rec' have "routes_of e ours = routes_of e ours'"
    by (auto simp: fan_out_def Let_def split: if_splits)
  from arg_cong [OF this, of "map rr_destination"] have ours: "ours' = ours" by (simp add: routes_of_def comp_def)
  let ?due = "filter_by_retry_limiter ours ts (env_now env) catchup_retry_interval"
  from fan r ours have rest': "rest = RoutesRecorded (routes_of e ours)
      # (if sc_record_routes cfg then [SynapseRoutes ours (ev_room e) (ev_ordering e)] else [])
      @ map (\<lambda>d. Enqueue d (pdu_of e body)) ?due"
    by (simp add: fan_out_def Let_def split: if_splits)
  have due: "d \<in> set ?due
      \<longleftrightarrow> (case ts d of None \<Rightarrow> True | Some t \<Rightarrow> timings_due t (unix_milli (env_now env) + 3600000))"
    using d by (simp add: filter_by_retry_limiter_def catchup_retry_interval_def milliseconds_def go_div_def)
  have "Enqueue d p \<in> set effs \<longleftrightarrow> p = pdu_of e body \<and> d \<in> set ?due" for p
    unfolding rest rest' by auto
  with ts body ours due show ?case by simp
next
  case (2 d p)
  show ?case
  proof
    assume "Enqueue d p \<in> set effs"
    from assms this obtain res ours ts body rest where
      sb: "serialise_pdu (sc_json cfg) (ev_json e) = Some body" and fan: "fan_out cfg env e ours ts body = (rest, r)"
      and effs: "effs = EventRouted (ev_id e) (destinations (res :: resolution)) ours (fallback res) # rest"
      by (rule handle_event_sends)
    from effs \<open>Enqueue d p \<in> set effs\<close> have "Enqueue d p \<in> set rest" by simp
    with 2 sb mem_enqueue_fan_out [OF fan] show False by auto
  qed
qed

theorem routed_or_backing_off_witness:
  "\<exists>ts. env_retry_timings sample_sender_env [''b'', ''c''] = Some ts \<and>
     (case ts ''b'' of None \<Rightarrow> True | Some t \<Rightarrow> timings_due t (unix_milli (env_now sample_sender_env) + 3600000))"
proof -
  from conjunct1 [OF routed_or_backing_off [OF handle_sample], rule_format, of "[''b'', ''c'']" "''b''"]
  obtain ts body where "env_retry_timings sample_sender_env [''b'', ''c''] = Some ts"
    and "Enqueue ''b'' (pdu_of sample_event ''ban'') \<in> set [EventRouted ''$e'' [''b'', ''c''] [''b'', ''c''] NoFallback,
       RoutesRecorded (routes_of sample_event [''b'', ''c'']), SynapseRoutes [''b'', ''c''] ''!r:a'' 7,
       Enqueue ''b'' (pdu_of sample_event ''ban''), Enqueue ''c'' (pdu_of sample_event ''ban'')]
      \<longleftrightarrow> pdu_of sample_event ''ban'' = pdu_of sample_event body
        \<and> (case ts ''b'' of None \<Rightarrow> True | Some t \<Rightarrow> timings_due t (unix_milli (env_now sample_sender_env) + 3600000))"
    by auto
  then show ?thesis by auto
qed

end
