(* ===== verification/RoomPool.thy ===== *)
theory RoomPool
  imports Routing "HOL-Library.Multiset"
begin

text \<open>
  \<open>handleEvents\<close> (\<open>internal/sender/sender.go\<close>): a batch is grouped by room, and the rooms are
  processed by concurrent goroutines of an \<open>errgroup\<close> with a limit. A goroutine is the list of
  effects it has still to make and the events it has still to handle; a schedule, a list of
  numbers, picks which goroutine makes its next effect or that the loop launches the next one,
  so effects of different rooms interleave one by one.
\<close>

section \<open>Grouping\<close>

definition add_to_room :: "event \<Rightarrow> (string \<times> event list) list \<Rightarrow> (string \<times> event list) list" where
  "add_to_room e = update_first_or_append (\<lambda>(room, _). room = ev_room e) (\<lambda>(room, es). (room, es @ [e]))
     (ev_room e, [e])"

definition group_by_room :: "event list \<Rightarrow> (string \<times> event list) list" where
  "group_by_room es = fold add_to_room es []"

section \<open>The goroutines\<close>

record room_task =
  tk_room :: string
  tk_emit :: "sender_effect list"
  tk_todo :: "event list"
  tk_sent :: nat
  tk_failed :: bool

record room_pool =
  rp_waiting :: "(string \<times> event list) list"
  rp_active :: "room_task list"
  rp_trace :: "(string \<times> sender_effect) list"
  rp_routed :: nat
  rp_failed :: bool

type_synonym handler = "event \<Rightarrow> sender_effect list \<times> bool option"

definition start_task :: "string \<times> event list \<Rightarrow> room_task" where
  "start_task w = \<lparr>tk_room = fst w, tk_emit = [], tk_todo = snd w, tk_sent = 0, tk_failed = False\<rparr>"

definition begin_event :: "handler \<Rightarrow> room_task \<Rightarrow> event \<Rightarrow> event list \<Rightarrow> room_task" where
  "begin_event h t e es =
     (case h e of
        (effs, None) \<Rightarrow> t\<lparr>tk_emit := effs, tk_todo := [], tk_failed := True\<rparr>
      | (effs, Some sent) \<Rightarrow>
          t\<lparr>tk_emit := effs @ [Handled (ev_id e) sent], tk_todo := es,
            tk_sent := (if sent then Suc (tk_sent t) else tk_sent t)\<rparr>)"

definition advance :: "handler \<Rightarrow> room_task list \<Rightarrow> room_task \<Rightarrow> room_task list \<Rightarrow> room_pool \<Rightarrow> room_pool" where
  "advance h before t after p =
     (case tk_emit t of
        eff # rest \<Rightarrow> p\<lparr>rp_active := before @ t\<lparr>tk_emit := rest\<rparr> # after,
                        rp_trace := rp_trace p @ [(tk_room t, eff)]\<rparr>
      | [] \<Rightarrow>
          (case tk_todo t of
             e # es \<Rightarrow> p\<lparr>rp_active := before @ begin_event h t e es # after\<rparr>
           | [] \<Rightarrow>
               if tk_failed t then p\<lparr>rp_active := before @ after, rp_failed := True\<rparr>
               else p\<lparr>rp_active := before @ after, rp_routed := rp_routed p + tk_sent t\<rparr>))"

definition pool_step :: "handler \<Rightarrow> nat \<Rightarrow> nat \<Rightarrow> room_pool \<Rightarrow> room_pool" where
  "pool_step h limit c p =
     (let n = length (rp_active p);
          launch = (rp_waiting p \<noteq> [] \<and> n < limit);
          k = c mod (if launch then Suc n else n)
      in if k < n then advance h (take k (rp_active p)) (rp_active p ! k) (drop (Suc k) (rp_active p)) p
         else p\<lparr>rp_active := rp_active p @ [start_task (hd (rp_waiting p))], rp_waiting := tl (rp_waiting p)\<rparr>)"

definition pool_done :: "room_pool \<Rightarrow> bool" where
  "pool_done p \<longleftrightarrow> rp_waiting p = [] \<and> rp_active p = []"

lemma pool_step_cases:
  assumes "\<not> pool_done p" "0 < limit"
  obtains (advance) before t after where "rp_active p = before @ t # after"
      "pool_step h limit c p = advance h before t after p"
    | (launch) w ws where "rp_waiting p = w # ws" "length (rp_active p) < limit"
      "pool_step h limit c p = p\<lparr>rp_active := rp_active p @ [start_task w], rp_waiting := ws\<rparr>"
proof -
  let ?n = "length (rp_active p)"
  define m where "m = (if rp_waiting p \<noteq> [] \<and> ?n < limit then Suc ?n else ?n)"
  have pos: "0 < m"
    using assms by (auto simp: m_def pool_done_def)
  show thesis
  proof (cases "c mod m < ?n")
    case True
    then show thesis
      by (intro advance [OF id_take_nth_drop]) (auto simp: pool_step_def Let_def m_def)
  next
    case False
    with pos have l: "rp_waiting p \<noteq> [] \<and> ?n < limit"
      by (metis m_def mod_less_divisor)
    then obtain w ws where "rp_waiting p = w # ws" by (auto simp: neq_Nil_conv)
    with l False show thesis by (intro launch) (auto simp: pool_step_def Let_def m_def)
  qed
qed

definition events_left :: "room_pool \<Rightarrow> nat" where
  "events_left p = sum_list (map (length \<circ> tk_todo) (rp_active p)) + sum_list (map (length \<circ> snd) (rp_waiting p))"

definition rooms_left :: "room_pool \<Rightarrow> nat" where
  "rooms_left p = length (rp_active p) + 2 * length (rp_waiting p)"

definition effects_left :: "room_pool \<Rightarrow> nat" where
  "effects_left p = sum_list (map (length \<circ> tk_emit) (rp_active p))"

lemma pool_step_decreases:
  assumes "\<not> pool_done p" "0 < limit"
  shows "(pool_step h limit c p, p) \<in> measures [events_left, rooms_left, effects_left]"
  using assms
proof (cases rule: pool_step_cases [where h = h and c = c])
  case (advance before t after)
  then show ?thesis
    by (cases "tk_emit t"; cases "tk_todo t")
      (auto simp: advance_def begin_event_def events_left_def rooms_left_def effects_left_def
        split: prod.splits option.splits)
next
  case (launch w ws)
  then show ?thesis by (auto simp: events_left_def rooms_left_def start_task_def)
qed

text \<open>
  \<open>g.Wait\<close>: all goroutines run to their end. A schedule that runs out goes on with the first
  choice. A group with limit 0 would never launch one; \<open>New\<close> makes the limit positive.
\<close>

function run_pool :: "handler \<Rightarrow> nat \<Rightarrow> nat list \<Rightarrow> room_pool \<Rightarrow> room_pool" where
  "run_pool h limit sched p =
     (if pool_done p \<or> limit = 0 then p
      else case sched of [] \<Rightarrow> run_pool h limit [] (pool_step h limit 0 p)
           | c # cs \<Rightarrow> run_pool h limit cs (pool_step h limit c p))"
  by pat_completeness auto
termination
  by (relation "inv_image (measures [events_left, rooms_left, effects_left]) (\<lambda>(h, limit, sched, p). p)")
    (use pool_step_decreases in \<open>auto simp del: measures_lesseq\<close>)

declare run_pool.simps [simp del]

definition initial_pool :: "event list \<Rightarrow> room_pool" where
  "initial_pool es = \<lparr>rp_waiting = group_by_room es, rp_active = [], rp_trace = [], rp_routed = 0, rp_failed = False\<rparr>"

definition handle_events ::
  "sender_config \<Rightarrow> (event \<Rightarrow> sender_env) \<Rightarrow> nat list \<Rightarrow> event list \<Rightarrow> (string \<times> sender_effect) list \<times> nat option" where
  "handle_events cfg env sched es =
     (let p = run_pool (\<lambda>e. handle_event cfg (env e) e) (sc_max_room_concurrency cfg) sched (initial_pool es)
      in (rp_trace p, if rp_failed p then None else Some (rp_routed p)))"

section \<open>The sequential reading\<close>

fun handle_room :: "handler \<Rightarrow> event list \<Rightarrow> sender_effect list" where
  "handle_room h [] = []"
| "handle_room h (e # es) =
     (case h e of (effs, None) \<Rightarrow> effs
      | (effs, Some sent) \<Rightarrow> effs @ Handled (ev_id e) sent # handle_room h es)"

fun room_ok :: "handler \<Rightarrow> event list \<Rightarrow> bool" where
  "room_ok h [] = True"
| "room_ok h (e # es) = (case snd (h e) of None \<Rightarrow> False | Some _ \<Rightarrow> room_ok h es)"

definition sent_count :: "handler \<Rightarrow> event list \<Rightarrow> nat" where
  "sent_count h es = length (filter (\<lambda>e. snd (h e) = Some True) es)"

lemma room_ok_iff: "room_ok h es \<longleftrightarrow> (\<forall>e \<in> set es. snd (h e) \<noteq> None)"
  by (induction es) (auto split: option.splits)

definition of_room :: "string \<Rightarrow> (string \<times> 'a) list \<Rightarrow> 'a list" where
  "of_room r tr = map snd (filter (\<lambda>x. fst x = r) tr)"

lemma of_room_simps [simp]:
  "of_room r [] = []"
  "of_room r (xs @ ys) = of_room r xs @ of_room r ys"
  "of_room r ((r', x) # xs) = (if r' = r then x # of_room r xs else of_room r xs)"
  by (simp_all add: of_room_def)

text \<open>What a goroutine, and a waiting room, has still to do.\<close>

definition task_future :: "handler \<Rightarrow> room_task \<Rightarrow> string \<times> sender_effect list" where
  "task_future h t = (tk_room t, tk_emit t @ handle_room h (tk_todo t))"

definition pool_future :: "handler \<Rightarrow> room_pool \<Rightarrow> (string \<times> sender_effect list) list" where
  "pool_future h p = map (task_future h) (rp_active p) @ map (\<lambda>(r, es). (r, handle_room h es)) (rp_waiting p)"

definition pool_total :: "handler \<Rightarrow> room_pool \<Rightarrow> string \<Rightarrow> sender_effect list" where
  "pool_total h p r = of_room r (rp_trace p) @ concat (of_room r (pool_future h p))"

definition pool_rooms :: "room_pool \<Rightarrow> string list" where
  "pool_rooms p = map tk_room (rp_active p) @ map fst (rp_waiting p)"

definition task_fails :: "handler \<Rightarrow> room_task \<Rightarrow> bool" where
  "task_fails h t \<longleftrightarrow> tk_failed t \<or> \<not> room_ok h (tk_todo t)"

definition task_weight :: "handler \<Rightarrow> room_task \<Rightarrow> nat" where
  "task_weight h t = (if task_fails h t then 0 else tk_sent t + sent_count h (tk_todo t))"

definition pool_fails :: "handler \<Rightarrow> room_pool \<Rightarrow> bool" where
  "pool_fails h p \<longleftrightarrow> rp_failed p \<or> list_ex (task_fails h) (rp_active p @ map start_task (rp_waiting p))"

definition pool_weight :: "handler \<Rightarrow> room_pool \<Rightarrow> nat" where
  "pool_weight h p = rp_routed p
     + sum_list (map (task_weight h) (rp_active p @ map start_task (rp_waiting p)))"

definition tasks_sane :: "room_pool \<Rightarrow> bool" where
  "tasks_sane p \<longleftrightarrow> (\<forall>t \<in> set (rp_active p). tk_failed t \<longrightarrow> tk_todo t = [])"

lemma future_start: "task_future h (start_task w) = (case w of (r, es) \<Rightarrow> (r, handle_room h es))"
  by (cases w) (simp add: task_future_def start_task_def)

lemma of_room_other: "r \<notin> set (map fst xs) \<Longrightarrow> of_room r xs = []"
  by (induction xs) auto

lemma rooms_of_future: "map fst (pool_future h p) = pool_rooms p"
  by (simp add: pool_future_def pool_rooms_def task_future_def comp_def split_beta)

lemma begin_event_facts:
  assumes "\<not> tk_failed t" "tk_todo t = e # es" "tk_emit t = []"
  shows "task_future h (begin_event h t e es) = task_future h t"
    "task_fails h (begin_event h t e es) = task_fails h t"
    "task_weight h (begin_event h t e es) = task_weight h t"
    "tk_room (begin_event h t e es) = tk_room t"
    "tk_failed (begin_event h t e es) \<Longrightarrow> tk_todo (begin_event h t e es) = []"
  using assms
  by (auto simp: begin_event_def task_future_def task_fails_def task_weight_def sent_count_def
      split: prod.splits option.splits)

lemma pool_step_preserves:
  fixes h :: handler and c limit :: nat
  assumes "\<not> pool_done p" "0 < limit" "distinct (pool_rooms p)" "tasks_sane p"
  defines "q \<equiv> pool_step h limit c p"
  shows "pool_total h q r = pool_total h p r \<and> distinct (pool_rooms q) \<and> tasks_sane q
    \<and> pool_fails h q = pool_fails h p \<and> pool_weight h q = pool_weight h p
    \<and> (length (rp_active p) \<le> limit \<longrightarrow> length (rp_active q) \<le> limit)"
  using assms(1,2)
proof (cases rule: pool_step_cases [where h = h and c = c])
  case (advance before t after)
  have rooms: "tk_room t \<notin> set (map tk_room before)"
    using assms(3) by (simp add: pool_rooms_def advance)
  then have before: "of_room (tk_room t) (map (task_future h) before) = []"
    by (intro of_room_other) (simp add: task_future_def comp_def)
  show ?thesis
  proof (cases "tk_emit t")
    case (Cons eff rest)
    have tf: "task_fails h (t\<lparr>tk_emit := rest\<rparr>) = task_fails h t" "task_weight h (t\<lparr>tk_emit := rest\<rparr>) = task_weight h t"
      by (simp_all add: task_fails_def task_weight_def)
    show ?thesis
      unfolding q_def advance(2) using assms(3,4) before Cons
      by (auto simp: advance_def advance(1) pool_total_def pool_future_def pool_rooms_def tasks_sane_def
          pool_fails_def pool_weight_def tf task_future_def)
  next
    case Nil
    show ?thesis
    proof (cases "tk_todo t")
      case (Cons e es)
      have nf: "\<not> tk_failed t" using assms(4) Cons by (auto simp: tasks_sane_def advance(1))
      show ?thesis
        unfolding q_def advance(2) using assms(3,4) begin_event_facts [OF nf Cons Nil, of h]
        by (auto simp: advance_def advance(1) Nil Cons pool_total_def pool_future_def pool_rooms_def
            tasks_sane_def pool_fails_def pool_weight_def)
    next
      case Nil': Nil
      have "task_future h t = (tk_room t, [])" by (simp add: task_future_def Nil Nil')
      then show ?thesis
        unfolding q_def advance(2) using assms(3,4)
        by (auto simp: advance_def advance(1) Nil Nil' pool_total_def pool_future_def pool_rooms_def
            tasks_sane_def pool_fails_def pool_weight_def task_fails_def task_weight_def sent_count_def)
    qed
  qed
next
  case (launch w ws)
  have room: "tk_room (start_task w) = fst w" "tk_failed (start_task w) = False" by (simp_all add: start_task_def)
  have "fst w \<notin> fst ` set ws" using assms(3) by (auto simp: pool_rooms_def launch(1))
  with launch show ?thesis
    unfolding q_def launch(3) using assms(3,4)
    by (auto simp: pool_total_def pool_future_def pool_rooms_def tasks_sane_def pool_fails_def
        pool_weight_def future_start room split: prod.splits)
qed

lemma run_pool_preserves:
  assumes "0 < limit" "distinct (pool_rooms p)" "tasks_sane p" "length (rp_active p) \<le> limit"
  shows "pool_done (run_pool h limit sched p)
    \<and> pool_total h (run_pool h limit sched p) r = pool_total h p r
    \<and> pool_fails h (run_pool h limit sched p) = pool_fails h p
    \<and> pool_weight h (run_pool h limit sched p) = pool_weight h p"
  using assms
proof (induction h limit sched p rule: run_pool.induct)
  case (1 h limit sched p)
  show ?case
  proof (cases "pool_done p")
    case True
    then have "run_pool h limit sched p = p" by (subst run_pool.simps) simp
    with True show ?thesis by simp
  next
    case False
    note pres = pool_step_preserves [OF False "1.prems"(1-3), of h _ r]
    show ?thesis
    proof (cases sched)
      case Nil
      have run: "run_pool h limit sched p = run_pool h limit [] (pool_step h limit 0 p)"
        using False "1.prems"(1) by (subst run_pool.simps) (simp add: Nil)
      show ?thesis
        unfolding run using "1.IH"(1) False "1.prems" pres [of 0] Nil by simp
    next
      case (Cons c cs)
      have run: "run_pool h limit sched p = run_pool h limit cs (pool_step h limit c p)"
        using False "1.prems"(1) by (subst run_pool.simps) (simp add: Cons)
      show ?thesis
        unfolding run using "1.IH"(2) False "1.prems" pres [of c] Cons by simp
    qed
  qed
qed

lemma done_total:
  assumes "pool_done p"
  shows "pool_total h p r = of_room r (rp_trace p)" "pool_fails h p = rp_failed p" "pool_weight h p = rp_routed p"
  using assms by (simp_all add: pool_done_def pool_total_def pool_future_def pool_fails_def pool_weight_def)

section \<open>Grouping is by room, in order\<close>

definition events_of_room :: "string \<Rightarrow> (string \<times> event list) list \<Rightarrow> event list" where
  "events_of_room r g = concat (of_room r g)"

lemma members_simps [simp]:
  "events_of_room r [] = []"
  "events_of_room r (xs @ ys) = events_of_room r xs @ events_of_room r ys"
  "events_of_room r ((r', es) # g) = (if r' = r then es @ events_of_room r g else events_of_room r g)"
  by (simp_all add: events_of_room_def)

lemma events_of_room_other: "r \<notin> fst ` set g \<Longrightarrow> events_of_room r g = []"
  by (simp add: events_of_room_def of_room_other)

lemma add_to_room_cases:
  obtains us es vs where "g = us @ (ev_room e, es) # vs" "add_to_room e g = us @ (ev_room e, es @ [e]) # vs"
  | "ev_room e \<notin> fst ` set g" "add_to_room e g = g @ [(ev_room e, [e])]"
proof -
  note ex = that
  show thesis
  proof (cases rule: update_first_or_append_cases [where xs = g and P = "\<lambda>(room, _). room = ev_room e"
        and f = "\<lambda>(room, es). (room, es @ [e])" and new = "(ev_room e, [e])"])
    case (hit us x vs)
    then show thesis by (intro ex(1) [of us "snd x" vs]) (auto simp: add_to_room_def)
  next
    case miss
    then show thesis by (intro ex(2)) (auto simp: add_to_room_def)
  qed
qed

lemma add_to_room_facts:
  assumes "distinct (map fst g)"
  shows "distinct (map fst (add_to_room e g))
    \<and> events_of_room r (add_to_room e g) = events_of_room r g @ (if ev_room e = r then [e] else [])"
proof (cases rule: add_to_room_cases [of g e])
  case (1 us es vs)
  have "ev_room e \<notin> fst ` set vs" using assms by (simp add: 1(1))
  then have "events_of_room (ev_room e) vs = []" by (rule events_of_room_other)
  moreover have "distinct (map fst (add_to_room e g)) = distinct (map fst g)"
    unfolding 1(2) by (simp add: 1(1))
  moreover have "events_of_room r (add_to_room e g) = events_of_room r us @ (if ev_room e = r then es @ e # events_of_room r vs else events_of_room r vs)"
    unfolding 1(2) by simp
  ultimately show ?thesis using assms by (auto simp: 1(1))
next
  case 2
  then show ?thesis using assms by (simp add: events_of_room_other)
qed

lemma group_by_room_facts:
  "distinct (map fst g) \<Longrightarrow>
     distinct (map fst (fold add_to_room es g))
     \<and> events_of_room r (fold add_to_room es g) = events_of_room r g @ filter (\<lambda>e. ev_room e = r) es"
  by (induction es arbitrary: g) (simp_all add: add_to_room_facts)

lemma initial_pool_facts:
  "distinct (pool_rooms (initial_pool es))" "tasks_sane (initial_pool es)"
  "events_of_room r (rp_waiting (initial_pool es)) = filter (\<lambda>e. ev_room e = r) es"
  using group_by_room_facts [of "[]" es]
  by (simp_all add: initial_pool_def pool_rooms_def tasks_sane_def group_by_room_def)

lemma members_unique:
  "distinct (map fst g) \<Longrightarrow> (r, es) \<in> set g \<Longrightarrow> events_of_room r g = es"
  by (induction g) (auto simp: events_of_room_other rev_image_eqI)

lemma waiting_room:
  assumes "(r, l) \<in> set (rp_waiting (initial_pool es))"
  shows "l = filter (\<lambda>e. ev_room e = r) es"
  using initial_pool_facts(1) [of es] initial_pool_facts(3) [of r es] members_unique [OF _ assms]
  by (simp add: initial_pool_def pool_rooms_def)

text \<open>The same events, room by room.\<close>

lemma mset_group: "mset (concat (map snd (fold add_to_room es g))) = mset (concat (map snd g)) + mset es"
proof (induction es arbitrary: g)
  case (Cons e es)
  have "mset (concat (map snd (add_to_room e g))) = add_mset e (mset (concat (map snd g)))"
    by (cases rule: add_to_room_cases [of g e]) simp_all
  then show ?case by (simp add: Cons.IH)
qed simp

lemma mset_waiting: "mset (concat (map snd (rp_waiting (initial_pool es)))) = mset es"
  using mset_group [of es "[]"] by (simp add: initial_pool_def group_by_room_def)

lemma initial_total:
  "pool_total h (initial_pool es) r = handle_room h (filter (\<lambda>e. ev_room e = r) es)"
proof (cases "r \<in> set (map fst (rp_waiting (initial_pool es)))")
  case True
  then obtain l where l: "(r, l) \<in> set (rp_waiting (initial_pool es))" by force
  let ?g = "map (\<lambda>(r, es). (r, handle_room h es)) (rp_waiting (initial_pool es))"
  have "distinct (map fst ?g)" using initial_pool_facts(1) [of es]
    by (simp add: comp_def split_beta pool_rooms_def initial_pool_def)
  moreover have "(r, handle_room h l) \<in> set ?g" using l by force
  moreover have "\<lbrakk>distinct (map fst g); (r, x) \<in> set g\<rbrakk> \<Longrightarrow> concat (of_room r g) = x"
    for g :: "(string \<times> sender_effect list) list" and x
    by (induction g) (auto simp: of_room_other rev_image_eqI)
  ultimately have "concat (of_room r ?g) = handle_room h l" by blast
  then show ?thesis using waiting_room [OF l]
    by (simp add: pool_total_def pool_future_def initial_pool_def)
next
  case False
  then have "filter (\<lambda>e. ev_room e = r) es = []"
    using initial_pool_facts(3) [of r es] events_of_room_other [of r] by simp
  with False show ?thesis
    by (simp add: pool_total_def pool_future_def initial_pool_def of_room_other comp_def split_beta)
qed

lemma initial_fails: "pool_fails h (initial_pool es) \<longleftrightarrow> (\<exists>e \<in> set es. snd (h e) = None)"
proof -
  have "set es = (\<Union>w \<in> set (rp_waiting (initial_pool es)). set (snd w))"
    using arg_cong [OF mset_waiting [of es], of set_mset] by simp
  then show ?thesis
    by (simp add: pool_fails_def list_ex_iff task_fails_def start_task_def room_ok_iff initial_pool_def Bex_def) blast
qed

lemma initial_weight:
  assumes "\<not> pool_fails h (initial_pool es)"
  shows "pool_weight h (initial_pool es) = sent_count h es"
proof -
  let ?ws = "rp_waiting (initial_pool es)"
  have sc: "sent_count h l = size (filter_mset (\<lambda>e. snd (h e) = Some True) (mset l))" for l
    by (simp add: sent_count_def flip: mset_filter)
  have "sent_count h es = sent_count h (concat (map snd ?ws))" by (simp only: sc mset_waiting)
  also have "\<dots> = sum_list (map (sent_count h \<circ> snd) ?ws)"
    by (simp add: sent_count_def filter_concat length_concat comp_def)
  finally show ?thesis using assms
    by (simp add: pool_weight_def pool_fails_def list_ex_iff task_weight_def initial_pool_def start_task_def
        comp_def cong: map_cong)
qed

section \<open>What reaches a destination\<close>

definition enqueued :: "string \<Rightarrow> sender_effect list \<Rightarrow> pdu list" where
  "enqueued d effs = List.map_filter (\<lambda>x. case x of Enqueue d' p \<Rightarrow> if d' = d then Some p else None | _ \<Rightarrow> None) effs"

lemma enqueued_simps [simp]:
  "enqueued d [] = []"
  "enqueued d (xs @ ys) = enqueued d xs @ enqueued d ys"
  "enqueued d (x # xs) = (case x of Enqueue d' p \<Rightarrow> if d' = d then [p] else [] | _ \<Rightarrow> []) @ enqueued d xs"
  by (auto simp: enqueued_def map_filter_def split: sender_effect.splits)

lemma enqueued_map: "distinct ds \<Longrightarrow> enqueued d (map (\<lambda>d. Enqueue d p) ds) = (if d \<in> set ds then [p] else [])"
  by (induction ds) auto

lemma enqueued_handle_event:
  "enqueued d (fst (handle_event cfg env e)) = [] \<or> (\<exists>body. enqueued d (fst (handle_event cfg env e)) = [pdu_of e body])"
proof (cases "\<exists>p. Enqueue d p \<in> set (fst (handle_event cfg env e))")
  case True
  obtain effs r where he: "handle_event cfg env e = (effs, r)" by force
  with True obtain p where "Enqueue d p \<in> set effs" by auto
  with he obtain res ours ts body rest where
    res: "resolve (sc_json cfg) (env_hosts env) (sc_server_name cfg) (sc_whitelist cfg) (ev_json e)
       (load_auth_events (sc_json cfg) env e) = Some (res :: resolution)"
    and ours: "ours = our_destinations cfg (parse_metadata (sc_json cfg) (ev_metadata e)) (destinations res)"
    and fan: "fan_out cfg env e ours ts body = (rest, r)"
    and effs: "effs = EventRouted (ev_id e) (destinations res) ours (fallback res) # rest"
    by (rule handle_event_sends)
  have "distinct (filter_by_retry_limiter ours ts (env_now env) catchup_retry_interval)"
    using set_resolved [OF res] by (simp add: ours filter_by_retry_limiter_def our_destinations_def)
  with fan show ?thesis
    by (auto simp: he effs fan_out_def Let_def enqueued_map split: if_splits)
next
  case False
  then have "enqueued d (fst (handle_event cfg env e)) = []"
    by (induction "fst (handle_event cfg env e)" arbitrary: )
      (auto simp: enqueued_def map_filter_def filter_empty_conv split: sender_effect.splits)
  then show ?thesis ..
qed

lemma enqueued_room_sorted:
  defines "h \<equiv> \<lambda>env cfg e. handle_event cfg (env e) e"
  assumes "sorted_wrt (<) (map ev_ordering es)"
  shows "sorted_wrt (<) (map stream_ordering (enqueued d (handle_room (h env cfg) es)))
    \<and> stream_ordering ` set (enqueued d (handle_room (h env cfg) es)) \<subseteq> ev_ordering ` set es"
  using assms(2)
proof (induction es)
  case (Cons e es)
  have one: "enqueued d (fst (h env cfg e)) = [] \<or> (\<exists>body. enqueued d (fst (h env cfg e)) = [pdu_of e body])"
    unfolding h_def by (rule enqueued_handle_event)
  obtain effs r where he: "h env cfg e = (effs, r)" by force
  from Cons have "\<forall>p \<in> set (enqueued d (handle_room (h env cfg) es)). ev_ordering e < stream_ordering p"
    by fastforce
  with one Cons show ?case
    by (cases r) (auto simp: he pdu_of_def)
qed simp

text \<open>
  C11. Events of a room stay in order. Whatever way the rooms of a batch are interleaved, and
  however many run at once, the effects made for a room are exactly those of handling its
  events one after the other in stream order, stopping at the first error; so the events a
  destination is given for a room are in strictly increasing stream order. The batch fails
  exactly when the handling of some event does, and otherwise counts the events sent.
\<close>

theorem rooms_in_order:
  fixes cfg :: sender_config and env :: "event \<Rightarrow> sender_env"
  defines "h \<equiv> \<lambda>e. handle_event cfg (env e) e"
  assumes "0 < sc_max_room_concurrency cfg" "handle_events cfg env sched es = (tr, res)"
  shows "(\<forall>r. of_room r tr = handle_room h (filter (\<lambda>e. ev_room e = r) es))
    \<and> (\<forall>r d. sorted_wrt (<) (map ev_ordering es) \<longrightarrow>
          sorted_wrt (<) (map stream_ordering (enqueued d (of_room r tr))))
    \<and> (res = None \<longleftrightarrow> (\<exists>e \<in> set es. snd (h e) = None))
    \<and> (\<forall>n. res = Some n \<longrightarrow> n = sent_count h es)"
proof -
  define p where "p = run_pool h (sc_max_room_concurrency cfg) sched (initial_pool es)"
  have p: "pool_done p \<and> pool_total h p r = pool_total h (initial_pool es) r
    \<and> pool_fails h p = pool_fails h (initial_pool es) \<and> pool_weight h p = pool_weight h (initial_pool es)" for r
    unfolding p_def using assms(2) initial_pool_facts(1,2) [of es]
    by (intro run_pool_preserves) (simp_all add: initial_pool_def)
  have tr: "tr = rp_trace p" and res: "res = (if rp_failed p then None else Some (rp_routed p))"
    using assms(3) by (auto simp: handle_events_def p_def h_def Let_def)
  have room: "of_room r tr = handle_room h (filter (\<lambda>e. ev_room e = r) es)" for r
    using p [of r] by (simp add: tr initial_total flip: done_total(1) [of p h])
  have "sorted_wrt (<) (map stream_ordering (enqueued d (of_room r tr)))"
    if "sorted_wrt (<) (map ev_ordering es)" for r d
  proof -
    have "sorted_wrt (<) (map ev_ordering (filter (\<lambda>e. ev_room e = r) es))"
      using that by (simp add: sorted_wrt_map sorted_wrt_filter)
    from enqueued_room_sorted [OF this, of d cfg env] show ?thesis by (simp add: room h_def)
  qed
  moreover have "rp_failed p \<longleftrightarrow> (\<exists>e \<in> set es. snd (h e) = None)"
    using p by (simp add: initial_fails flip: done_total(2) [of p h])
  moreover have "\<not> rp_failed p \<Longrightarrow> rp_routed p = sent_count h es"
    using p by (simp add: initial_weight done_total(2) flip: done_total(2) [of p h] done_total(3) [of p h])
  ultimately show ?thesis using room by (auto simp: res)
qed

theorem rooms_in_order_witness:
  "\<exists>tr res. handle_events sample_sender_config (\<lambda>_. sample_sender_env) [0, 3] [sample_event] = (tr, res) \<and>
     enqueued ''c'' (of_room ''!r:a'' tr) = [pdu_of sample_event ''ban''] \<and> res = Some 1"
proof -
  obtain tr res where run: "handle_events sample_sender_config (\<lambda>_. sample_sender_env) [0, 3] [sample_event] = (tr, res)"
    by force
  have "of_room ''!r:a'' tr = handle_room (\<lambda>e. handle_event sample_sender_config sample_sender_env e)
        (filter (\<lambda>e. ev_room e = ''!r:a'') [sample_event])"
    "res \<noteq> None \<Longrightarrow> res = Some (sent_count (\<lambda>e. handle_event sample_sender_config sample_sender_env e) [sample_event])"
    "res = None \<longleftrightarrow> snd (handle_event sample_sender_config sample_sender_env sample_event) = None"
    using rooms_in_order [OF _ run] by (auto simp: sample_sender_config_def)
  with run show ?thesis by (simp add: handle_sample sent_count_def) (simp add: sample_event_def)
qed

end
