(* ===== verification/Sender.thy ===== *)
theory Sender
  imports RoomPool
begin

text \<open>
  The pickup loop of \<open>internal/sender/sender.go\<close>. \<open>Run\<close> is one goroutine: it takes a wake-up from
  the one-slot channel and then runs batches until one reports nothing more, an error, or the
  context is cancelled. Pokes (\<open>NotifyNewEvents\<close>) arrive between its critical sections. What the
  database answers during one batch is a \<open>batch_world\<close>: a snapshot, which calls succeed, a poke
  that may arrive between the two sections that read \<open>lastPoked\<close>, and the schedule of the rooms.
\<close>

section \<open>State and operations\<close>

record sender_state =
  sn_last_poked :: int
  sn_processing :: bool
  sn_wake :: bool
  sn_store :: state_store
  sn_trace :: "(string \<times> sender_effect) list"
  sn_positions :: "int list"
  sn_failed :: bool

text \<open>
  \<open>sn_trace\<close> and \<open>sn_positions\<close> record the effects and the \<open>RecordPosition\<close> calls in order;
  \<open>sn_failed\<close> is that the last pass ended with the error \<open>Run\<close> logs.
\<close>

record batch_world =
  bw_db :: synapse_db
  bw_poke :: "int option"
  bw_cursor_ok :: bool
  bw_tip_ok :: bool
  bw_stream_ok :: bool
  bw_events_ok :: bool
  bw_set_ok :: bool
  bw_position_ok :: bool
  bw_env :: "event \<Rightarrow> sender_env"
  bw_sched :: "nat list"

definition cursor_events :: string where "cursor_events = ''events''"

text \<open>\<open>New\<close>: a limit of 0 stands for every limit that is not positive.\<close>

definition new_sender_config :: "sender_config \<Rightarrow> sender_config" where
  "new_sender_config cfg =
     cfg\<lparr>sc_batch_limit := (if sc_batch_limit cfg = 0 then 100 else sc_batch_limit cfg),
         sc_max_room_concurrency := (if sc_max_room_concurrency cfg = 0 then 64 else sc_max_room_concurrency cfg)\<rparr>"

definition new_sender :: "state_store \<Rightarrow> sender_state" where
  "new_sender st = \<lparr>sn_last_poked = 0, sn_processing = False, sn_wake = False, sn_store = st, sn_trace = [],
     sn_positions = [], sn_failed = False\<rparr>"

definition notify_new_events :: "int \<Rightarrow> sender_state \<Rightarrow> sender_state" where
  "notify_new_events m s =
     (let s1 = (if m > sn_last_poked s then s\<lparr>sn_last_poked := m\<rparr> else s) in s1\<lparr>sn_wake := True\<rparr>)"

text \<open>\<open>None\<close> is the error of \<open>MaxStreamOrdering\<close> or of the cursor read, which ends \<open>Run\<close>.\<close>

definition seed_sender :: "int option \<Rightarrow> bool \<Rightarrow> sender_state \<Rightarrow> sender_state option" where
  "seed_sender newest cursor_ok s =
     (case newest of
        None \<Rightarrow> None
      | Some m \<Rightarrow>
          (let s1 = (if m > sn_last_poked s then s\<lparr>sn_last_poked := m\<rparr> else s)
           in if cursor_ok then Some (notify_new_events m s1) else None))"

definition set_events_cursor :: "int \<Rightarrow> sender_state \<Rightarrow> sender_state" where
  "set_events_cursor pos s = s\<lparr>sn_store := cursor_set cursor_events pos (sn_store s)\<rparr>"

definition record_effect :: "string \<times> sender_effect \<Rightarrow> state_store \<Rightarrow> state_store" where
  "record_effect x st =
     (case snd x of
        RoutesRecorded rs \<Rightarrow> (case record_routes rs st of None \<Rightarrow> st | Some st' \<Rightarrow> st')
      | _ \<Rightarrow> st)"

definition after_rooms :: "(string \<times> sender_effect) list \<Rightarrow> sender_state \<Rightarrow> sender_state" where
  "after_rooms tr s = s\<lparr>sn_store := fold record_effect tr (sn_store s), sn_trace := sn_trace s @ tr\<rparr>"

definition pickup :: "sender_config \<Rightarrow> batch_world \<Rightarrow> int \<Rightarrow> sender_state \<Rightarrow> sender_state \<times> bool option" where
  "pickup cfg w from_pos s =
     (let upto_pos = sn_last_poked s; events = db_events (bw_db w) in
      if from_pos \<ge> upto_pos then (s, Some False)
      else if \<not> bw_stream_ok w then (s, None)
      else case get_all_new_event_ids_stream (sc_batch_limit cfg) events from_pos upto_pos of (rows, next_pos) \<Rightarrow>
        if rows = []
        then if next_pos > from_pos
             then if \<not> bw_set_ok w then (s, None) else (set_events_cursor next_pos s, Some (next_pos < upto_pos))
             else (s, Some (next_pos < upto_pos))
        else if \<not> bw_events_ok w then (s, None)
        else case handle_events cfg (bw_env w) (bw_sched w) (get_events events (map ne_id rows)) of (tr, routed) \<Rightarrow>
          (let s1 = after_rooms tr s; s2 = set_events_cursor next_pos s1 in
           if routed = None then (s1, None)
           else if \<not> bw_set_ok w then (s1, None)
           else if \<not> sc_record_position cfg then (s2, Some (next_pos < upto_pos))
           else if \<not> bw_position_ok w then (s2, None)
           else (s2\<lparr>sn_positions := sn_positions s2 @ [next_pos]\<rparr>, Some (next_pos < upto_pos))))"

definition poked_between :: "batch_world \<Rightarrow> sender_state \<Rightarrow> sender_state" where
  "poked_between w s = (case bw_poke w of None \<Rightarrow> s | Some m \<Rightarrow> notify_new_events m s)"

definition process_batch :: "sender_config \<Rightarrow> batch_world \<Rightarrow> sender_state \<Rightarrow> sender_state \<times> bool option" where
  "process_batch cfg w s =
     (if \<not> bw_cursor_ok w then (s, None)
      else case cursor_get (sn_store s) cursor_events of
        Some from_pos \<Rightarrow> pickup cfg w from_pos (poked_between w s)
      | None \<Rightarrow>
          (let from_pos = sn_last_poked s in
           if \<not> bw_tip_ok w then (s, None)
           else pickup cfg w from_pos (poked_between w (set_events_cursor from_pos s))))"

datatype sender_input = Poke int | TakeWake | Batch batch_world | ContextDone

text \<open>\<open>processAll\<close> sets \<open>processing\<close> on entry and clears it on every way out.\<close>

definition sender_step :: "sender_config \<Rightarrow> sender_input \<Rightarrow> sender_state \<Rightarrow> sender_state option" where
  "sender_step cfg i s =
     (case i of
        Poke m \<Rightarrow> Some (notify_new_events m s)
      | TakeWake \<Rightarrow>
          if sn_wake s \<and> \<not> sn_processing s
          then Some (s\<lparr>sn_wake := False, sn_processing := True, sn_failed := False\<rparr>) else None
      | Batch w \<Rightarrow>
          if \<not> sn_processing s then None
          else (case process_batch cfg w s of
                  (s', None) \<Rightarrow> Some (s'\<lparr>sn_processing := False, sn_failed := True\<rparr>)
                | (s', Some again) \<Rightarrow> Some (if again then s' else s'\<lparr>sn_processing := False\<rparr>))
      | ContextDone \<Rightarrow>
          if sn_processing s then Some (s\<lparr>sn_processing := False, sn_failed := True\<rparr>) else None)"

section \<open>Frame facts\<close>

lemma record_effect_frame [simp]:
  "cursor_get (record_effect x st) name = cursor_get st name"
  by (auto simp: record_effect_def record_routes_def cursor_get_def split: sender_effect.splits option.splits if_splits)

lemma fold_record_effect [simp]: "cursor_get (fold record_effect tr st) name = cursor_get st name"
  by (induction tr arbitrary: st) simp_all

lemma notify_frame [simp]:
  "sn_store (notify_new_events m s) = sn_store s" "sn_trace (notify_new_events m s) = sn_trace s"
  "sn_processing (notify_new_events m s) = sn_processing s" "sn_failed (notify_new_events m s) = sn_failed s"
  "sn_wake (notify_new_events m s)" "sn_last_poked (notify_new_events m s) = max m (sn_last_poked s)"
  by (simp_all add: notify_new_events_def Let_def max_def)

lemma poked_between_frame [simp]:
  "sn_store (poked_between w s) = sn_store s" "sn_trace (poked_between w s) = sn_trace s"
  "sn_processing (poked_between w s) = sn_processing s" "sn_failed (poked_between w s) = sn_failed s"
  by (simp_all add: poked_between_def split: option.splits)

lemma poked_between_more:
  "sn_last_poked s \<le> sn_last_poked (poked_between w s)"
  "sn_wake (poked_between w s) \<or> poked_between w s = s"
  by (auto simp: poked_between_def split: option.splits)

lemma set_events_cursor_frame [simp]:
  "sn_last_poked (set_events_cursor pos s) = sn_last_poked s" "sn_trace (set_events_cursor pos s) = sn_trace s"
  "sn_processing (set_events_cursor pos s) = sn_processing s" "sn_wake (set_events_cursor pos s) = sn_wake s"
  "sn_failed (set_events_cursor pos s) = sn_failed s"
  "cursor_get (sn_store (set_events_cursor pos s)) cursor_events
     = Some (case cursor_get (sn_store s) cursor_events of None \<Rightarrow> pos | Some old \<Rightarrow> max old pos)"
  by (simp_all add: set_events_cursor_def cursor_get_set)

lemma after_rooms_frame [simp]:
  "sn_last_poked (after_rooms tr s) = sn_last_poked s" "sn_trace (after_rooms tr s) = sn_trace s @ tr"
  "sn_processing (after_rooms tr s) = sn_processing s" "sn_wake (after_rooms tr s) = sn_wake s"
  "sn_failed (after_rooms tr s) = sn_failed s"
  "cursor_get (sn_store (after_rooms tr s)) name = cursor_get (sn_store s) name"
  by (simp_all add: after_rooms_def)

section \<open>One batch\<close>

text \<open>
  \<open>L\<close> is the event stream as it will have been written. A snapshot shows every event up to the
  position poked; orderings and ids are unique.
\<close>

definition snapshot_ok :: "event list \<Rightarrow> int \<Rightarrow> batch_world \<Rightarrow> bool" where
  "snapshot_ok L upto_pos w \<longleftrightarrow> distinct (map ev_ordering (db_events (bw_db w)))
     \<and> distinct (map ev_id (db_events (bw_db w)))
     \<and> (\<forall>e \<in> set L. ev_ordering e \<le> upto_pos \<longrightarrow> e \<in> set (db_events (bw_db w)))"

definition was_handled :: "(string \<times> sender_effect) list \<Rightarrow> event \<Rightarrow> bool" where
  "was_handled tr e \<longleftrightarrow> (\<exists>sent. (ev_room e, Handled (ev_id e) sent) \<in> set tr)"

lemma was_handled_append [simp]: "was_handled (xs @ ys) e \<longleftrightarrow> was_handled xs e \<or> was_handled ys e"
  by (auto simp: was_handled_def)

lemma get_events_all:
  assumes "distinct (map ev_id events)" "e \<in> set events" "ev_id e \<in> set ids"
  shows "e \<in> set (get_events events ids)"
proof -
  let ?f = "filter (\<lambda>e. ev_id e \<in> set ids) events"
  have "distinct (map fst (map (\<lambda>e. (ev_id e, e)) ?f))"
    using assms(1) by (simp add: comp_def distinct_map inj_on_def)
  moreover have "(ev_id e, e) \<in> set (map (\<lambda>e. (ev_id e, e)) ?f)" using assms by auto
  ultimately have "map_of (map (\<lambda>e. (ev_id e, e)) ?f) (ev_id e) = Some e" by (rule map_of_is_SomeI)
  then show ?thesis using assms(3) by (force simp: get_events_def map_filter_def)
qed

lemma handle_room_all:
  "\<forall>e \<in> set es. snd (h e) \<noteq> None \<Longrightarrow> e \<in> set es \<Longrightarrow> \<exists>sent. Handled (ev_id e) sent \<in> set (handle_room h es)"
proof (induction es)
  case (Cons x es)
  obtain effs sent where "h x = (effs, Some sent)" using Cons.prems(1) by (cases "h x") auto
  with Cons show ?case by auto
qed simp

lemma of_room_mem: "x \<in> set (of_room r tr) \<longleftrightarrow> (r, x) \<in> set tr"
  by (force simp: of_room_def)

lemma handle_events_handled:
  assumes "0 < sc_max_room_concurrency cfg" "handle_events cfg env sched es = (tr, Some n)" "e \<in> set es"
  shows "was_handled tr e"
proof -
  let ?h = "\<lambda>e. handle_event cfg (env e) e"
  let ?p = "run_pool ?h (sc_max_room_concurrency cfg) sched (initial_pool es)"
  have p: "pool_done ?p \<and> pool_total ?h ?p r = pool_total ?h (initial_pool es) r
    \<and> pool_fails ?h ?p = pool_fails ?h (initial_pool es) \<and> pool_weight ?h ?p = pool_weight ?h (initial_pool es)" for r
    using assms(1) initial_pool_facts(1,2) [of es]
    by (intro run_pool_preserves) (simp_all add: initial_pool_def)
  from assms(2) have tr: "tr = rp_trace ?p" and nf: "\<not> rp_failed ?p"
    by (auto simp: handle_events_def Let_def split: if_splits)
  have ok: "\<forall>e \<in> set es. snd (?h e) \<noteq> None"
    using p nf done_total(2) [of ?p ?h] by (simp add: initial_fails)
  have "of_room (ev_room e) tr = handle_room ?h (filter (\<lambda>x. ev_room x = ev_room e) es)"
    using p [of "ev_room e"] done_total(1) [of ?p ?h "ev_room e"] by (simp add: tr initial_total)
  moreover have "\<exists>sent. Handled (ev_id e) sent \<in> set (handle_room ?h (filter (\<lambda>x. ev_room x = ev_room e) es))"
    using ok assms(3) by (intro handle_room_all) auto
  ultimately show ?thesis by (metis was_handled_def of_room_mem)
qed

lemma pickup_spec:
  assumes "pickup cfg w from_pos s = (s', r)" "cursor_get (sn_store s) cursor_events = Some from_pos"
    and "0 < sc_batch_limit cfg" "0 < sc_max_room_concurrency cfg" "snapshot_ok L (sn_last_poked s) w"
  obtains c tr where "cursor_get (sn_store s') cursor_events = Some c" "from_pos \<le> c" "c \<le> max from_pos (sn_last_poked s)"
    "sn_trace s' = sn_trace s @ tr" "\<forall>e \<in> set L. from_pos < ev_ordering e \<and> ev_ordering e \<le> c \<longrightarrow> was_handled tr e"
    "sn_last_poked s' = sn_last_poked s" "sn_processing s' = sn_processing s" "sn_wake s' = sn_wake s"
    "r = Some False \<Longrightarrow> sn_last_poked s \<le> c" "r = Some True \<Longrightarrow> from_pos < c"
proof (cases "from_pos \<ge> sn_last_poked s \<or> \<not> bw_stream_ok w")
  case True
  with assms(1) have "s' = s" "r = Some False \<Longrightarrow> sn_last_poked s \<le> from_pos" "r \<noteq> Some True"
    by (auto simp: pickup_def Let_def split: if_splits)
  with assms(2) show thesis by (intro that [of from_pos "[]"]) auto
next
  case False
  let ?ev = "db_events (bw_db w)" and ?u = "sn_last_poked s"
  obtain rows next_pos where pg: "get_all_new_event_ids_stream (sc_batch_limit cfg) ?ev from_pos ?u = (rows, next_pos)"
    by force
  have ok: "case (sc_batch_limit cfg, ?ev) of (limit, events) \<Rightarrow> 0 < limit \<and> distinct (map ev_ordering events)"
    using assms(3,5) by (simp add: snapshot_ok_def)
  have rows: "rows = window ne_ordering from_pos next_pos (map new_event_of ?ev)"
    using event_stream.exact [OF ok, of from_pos ?u] False by (simp add: pg)
  have np: "from_pos < next_pos" "next_pos \<le> ?u"
    using event_stream.progress [OF ok, of from_pos ?u] False by (auto simp: pg)
  have in_rows: "new_event_of e \<in> set rows" if "e \<in> set L" "from_pos < ev_ordering e" "ev_ordering e \<le> next_pos" for e
    using that np assms(5) by (auto simp: rows set_window snapshot_ok_def)
  show thesis
  proof (cases "rows = []")
    case True
    have "\<forall>e \<in> set L. \<not> (from_pos < ev_ordering e \<and> ev_ordering e \<le> next_pos)"
      using in_rows True by force
    with assms(1,2) False np show thesis
      by (intro that [of "if bw_set_ok w then next_pos else from_pos" "[]"])
        (auto simp: pickup_def Let_def pg True split: if_splits)
  next
    case ne: False
    show thesis
    proof (cases "bw_events_ok w")
      case False
      with assms(1,2) \<open>\<not> (?u \<le> from_pos \<or> \<not> bw_stream_ok w)\<close> ne have "s' = s" "r = None"
        by (auto simp: pickup_def Let_def pg)
      with assms(2) show thesis by (intro that [of from_pos "[]"]) auto
    next
      case True
      obtain tr routed where he: "handle_events cfg (bw_env w) (bw_sched w) (get_events ?ev (map ne_id rows)) = (tr, routed)"
        by force
      have handled: "was_handled tr e"
        if rn: "routed \<noteq> None" and "e \<in> set L" "from_pos < ev_ordering e" "ev_ordering e \<le> next_pos" for e
      proof -
        obtain n where "routed = Some n" using rn by auto
        moreover have "e \<in> set (get_events ?ev (map ne_id rows))"
        proof (rule get_events_all)
          show "distinct (map ev_id ?ev)" "e \<in> set ?ev"
            using assms(5) that np by (auto simp: snapshot_ok_def)
          show "ev_id e \<in> set (map ne_id rows)"
            using in_rows [OF that(2-4)] by (force simp: new_event_of_def)
        qed
        ultimately show ?thesis using handle_events_handled [OF assms(4), of "bw_env w" "bw_sched w"] he by simp
      qed
      have res: "pickup cfg w from_pos s = (let s1 = after_rooms tr s; s2 = set_events_cursor next_pos s1 in
           if routed = None then (s1, None)
           else if \<not> bw_set_ok w then (s1, None)
           else if \<not> sc_record_position cfg then (s2, Some (next_pos < ?u))
           else if \<not> bw_position_ok w then (s2, None)
           else (s2\<lparr>sn_positions := sn_positions s2 @ [next_pos]\<rparr>, Some (next_pos < ?u)))"
        using False ne True by (simp add: pickup_def pg he Let_def)
      show thesis
      proof (cases "routed = None \<or> \<not> bw_set_ok w")
        case True
        with res assms(1,2) show thesis
          by (intro that [of from_pos tr]) (auto simp: Let_def split: if_splits)
      next
        case False
        with res assms(1,2) np handled show thesis
          by (intro that [of next_pos tr]) (auto simp: Let_def split: if_splits)
      qed
    qed
  qed
qed

section \<open>Runs\<close>

text \<open>
  Runs of a started worker. A poke says that the events up to it are written, so every snapshot
  taken afterwards shows them.
\<close>

definition input_ok :: "event list \<Rightarrow> sender_state \<Rightarrow> sender_input \<Rightarrow> bool" where
  "input_ok L s i = (case i of Batch w \<Rightarrow> snapshot_ok L (sn_last_poked (poked_between w s)) w | _ \<Rightarrow> True)"

inductive sender_reachable :: "sender_config \<Rightarrow> event list \<Rightarrow> sender_state \<Rightarrow> sender_state \<Rightarrow> bool"
  for cfg L s0 where
  start: "sender_reachable cfg L s0 s0"
| step: "sender_reachable cfg L s0 s \<Longrightarrow> input_ok L s i \<Longrightarrow> sender_step cfg i s = Some s'
           \<Longrightarrow> sender_reachable cfg L s0 s'"

inductive_simps sender_reachable_simps: "sender_reachable cfg L s0 s"

definition started :: "int \<Rightarrow> sender_state \<Rightarrow> bool" where
  "started c0 s \<longleftrightarrow> cursor_get (sn_store s) cursor_events = Some c0 \<and> sn_wake s \<and> \<not> sn_processing s"

definition sender_inv :: "event list \<Rightarrow> int \<Rightarrow> sender_state \<Rightarrow> bool" where
  "sender_inv L c0 s \<longleftrightarrow> (\<exists>c. cursor_get (sn_store s) cursor_events = Some c
     \<and> c0 \<le> c \<and> c \<le> max c0 (sn_last_poked s)
     \<and> (\<forall>e \<in> set L. c0 < ev_ordering e \<and> ev_ordering e \<le> c \<longrightarrow> was_handled (sn_trace s) e)
     \<and> (sn_wake s \<or> sn_processing s \<or> sn_failed s \<or> sn_last_poked s \<le> c))"

lemma sender_inv_notify: "sender_inv L c0 s \<Longrightarrow> sender_inv L c0 (notify_new_events m s)"
  by (fastforce simp: sender_inv_def)

lemma sender_inv_poked: "sender_inv L c0 s \<Longrightarrow> sender_inv L c0 (poked_between w s)"
  by (simp add: poked_between_def sender_inv_notify split: option.splits)

lemma sender_inv_batch:
  assumes "sender_inv L c0 s" "0 < sc_batch_limit cfg" "0 < sc_max_room_concurrency cfg"
    and "snapshot_ok L (sn_last_poked (poked_between w s)) w" "process_batch cfg w s = (s', r)"
    and p: "sn_processing s"
  shows "sender_inv L c0 (s'\<lparr>sn_processing := False, sn_failed := True\<rparr>)
    \<and> (r = Some True \<longrightarrow> sender_inv L c0 s')
    \<and> (r = Some False \<longrightarrow> sender_inv L c0 (s'\<lparr>sn_processing := False\<rparr>))"
proof -
  let ?s = "poked_between w s"
  obtain c where c: "cursor_get (sn_store s) cursor_events = Some c" "c0 \<le> c" "c \<le> max c0 (sn_last_poked s)"
    "\<forall>e \<in> set L. c0 < ev_ordering e \<and> ev_ordering e \<le> c \<longrightarrow> was_handled (sn_trace s) e"
    using assms(1) by (auto simp: sender_inv_def)
  show ?thesis
  proof (cases "bw_cursor_ok w")
    case False
    with assms(1,5) show ?thesis by (auto simp: process_batch_def sender_inv_def)
  next
    case True
    with assms(5) c(1) have pk: "pickup cfg w c ?s = (s', r)" by (simp add: process_batch_def)
    have cs: "cursor_get (sn_store ?s) cursor_events = Some c" using c(1) by simp
    from pickup_spec [OF pk cs assms(2-4)] obtain c' tr where c':
      "cursor_get (sn_store s') cursor_events = Some c'" "c \<le> c'" "c' \<le> max c (sn_last_poked ?s)"
      "sn_trace s' = sn_trace s @ tr" "\<forall>e \<in> set L. c < ev_ordering e \<and> ev_ordering e \<le> c' \<longrightarrow> was_handled tr e"
      "sn_last_poked s' = sn_last_poked ?s" "sn_processing s'"
      "r = Some False \<longrightarrow> sn_last_poked ?s \<le> c'"
      using p by (metis poked_between_frame(2,3))
    have "was_handled (sn_trace s') e" if "e \<in> set L" "c0 < ev_ordering e" "ev_ordering e \<le> c'" for e
      using that c(4) c'(4,5) by (cases "ev_ordering e \<le> c") auto
    moreover have "c' \<le> max c0 (sn_last_poked s')"
      using c(3) c'(3,6) poked_between_more(1) [of s w] by auto
    ultimately show ?thesis using c c' by (auto simp: sender_inv_def)
  qed
qed

lemma sender_inv_step:
  assumes "sender_inv L c0 s" "0 < sc_batch_limit cfg" "0 < sc_max_room_concurrency cfg"
    and "input_ok L s i" "sender_step cfg i s = Some s'"
  shows "sender_inv L c0 s'"
proof (cases i)
  case (Batch w)
  with assms(4,5) have p: "sn_processing s" and so: "snapshot_ok L (sn_last_poked (poked_between w s)) w"
    by (auto simp: sender_step_def input_ok_def split: if_splits)
  obtain s1 r where pb: "process_batch cfg w s = (s1, r)" by force
  from sender_inv_batch [OF assms(1-3) so pb p] assms(5) p Batch pb show ?thesis
    by (auto simp: sender_step_def split: option.splits if_splits)
qed (use assms in \<open>auto simp: sender_step_def sender_inv_notify sender_inv_def split: if_splits\<close>)

lemma sender_reachable_inv:
  assumes "sender_reachable cfg L s0 s" "started c0 s0" "0 < sc_batch_limit cfg" "0 < sc_max_room_concurrency cfg"
  shows "sender_inv L c0 s"
  using assms(1)
proof induction
  case start
  then show ?case using assms(2) by (auto simp: started_def sender_inv_def)
next
  case (step s i s')
  with assms(3,4) show ?case by (blast intro: sender_inv_step)
qed

section \<open>Properties\<close>

text \<open>
  C10. No event is skipped. In every run of the pickup loop - pokes at any moment, any database
  error at any call, any interleaving of rooms, cancelled passes - every event between the
  cursor the worker started from and its present cursor has been handled to the end without an
  error; the cursor never goes back and never passes the newest position poked. (An event may be
  handled again when a batch fails after it.)
\<close>

theorem events_never_skipped:
  assumes "0 < sc_batch_limit cfg" "0 < sc_max_room_concurrency cfg"
    and "started c0 s0" "sender_reachable cfg L s0 s"
  shows "\<exists>c. cursor_get (sn_store s) cursor_events = Some c \<and> c0 \<le> c \<and> c \<le> max c0 (sn_last_poked s)
    \<and> (\<forall>e \<in> set L. c0 < ev_ordering e \<and> ev_ordering e \<le> c \<longrightarrow>
          (\<exists>sent. (ev_room e, Handled (ev_id e) sent) \<in> set (sn_trace s)))"
  using sender_reachable_inv [OF assms(4,3,1,2)] unfolding sender_inv_def was_handled_def by blast

text \<open>
  A poke is never lost. Whenever the loop is at rest although events newer than the cursor
  have been poked, a wake-up is pending that will start it again, or the last pass failed (and
  was logged as such).
\<close>

theorem pokes_never_lost:
  assumes "0 < sc_batch_limit cfg" "0 < sc_max_room_concurrency cfg"
    and "started c0 s0" "sender_reachable cfg L s0 s"
    and "\<not> sn_processing s" "\<not> sn_failed s" "cursor_get (sn_store s) cursor_events = Some c" "c < sn_last_poked s"
  shows "\<exists>s'. sender_step cfg TakeWake s = Some s' \<and> sn_processing s'"
  using sender_reachable_inv [OF assms(4,3,1,2)] assms(5-8) by (auto simp: sender_inv_def sender_step_def)

section \<open>A pass without errors\<close>

fun run_inputs :: "sender_config \<Rightarrow> sender_input list \<Rightarrow> sender_state \<Rightarrow> sender_state option" where
  "run_inputs cfg [] s = Some s"
| "run_inputs cfg (i # is) s = (case sender_step cfg i s of None \<Rightarrow> None | Some s' \<Rightarrow> run_inputs cfg is s')"

definition clean_world :: "sender_config \<Rightarrow> event list \<Rightarrow> int \<Rightarrow> batch_world \<Rightarrow> bool" where
  "clean_world cfg L upto_pos w \<longleftrightarrow> snapshot_ok L upto_pos w \<and> bw_poke w = None \<and> bw_cursor_ok w \<and> bw_stream_ok w
     \<and> bw_events_ok w \<and> bw_set_ok w \<and> bw_position_ok w
     \<and> (\<forall>e \<in> set (db_events (bw_db w)). snd (handle_event cfg (bw_env w e) e) \<noteq> None)"

lemma handle_events_succeeds:
  assumes "0 < sc_max_room_concurrency cfg" "\<forall>e \<in> set es. snd (handle_event cfg (env e) e) \<noteq> None"
  shows "snd (handle_events cfg env sched es) \<noteq> None"
proof -
  let ?h = "\<lambda>e. handle_event cfg (env e) e"
  let ?p = "run_pool ?h (sc_max_room_concurrency cfg) sched (initial_pool es)"
  have "pool_done ?p \<and> pool_fails ?h ?p = pool_fails ?h (initial_pool es)"
    using run_pool_preserves [of "sc_max_room_concurrency cfg" "initial_pool es" ?h sched] assms(1)
      initial_pool_facts(1,2) [of es] by (simp add: initial_pool_def)
  then show ?thesis
    using assms(2) done_total(2) [of ?p ?h] initial_fails [of ?h es] by (auto simp: handle_events_def Let_def)
qed

lemma get_events_subset: "set (get_events events ids) \<subseteq> set events"
proof
  fix x assume "x \<in> set (get_events events ids)"
  then obtain i where "map_of (map (\<lambda>e. (ev_id e, e)) (filter (\<lambda>e. ev_id e \<in> set ids) events)) i = Some x"
    by (auto simp: get_events_def map_filter_def simp del: map_of_map_keys)
  then show "x \<in> set events" by (auto dest: map_of_SomeD)
qed

lemma pickup_clean:
  assumes "clean_world cfg L (sn_last_poked s) w" "0 < sc_max_room_concurrency cfg"
  shows "snd (pickup cfg w from_pos s) \<noteq> None \<and> sn_failed (fst (pickup cfg w from_pos s)) = sn_failed s"
proof -
  have "snd (handle_events cfg (bw_env w) (bw_sched w) (get_events (db_events (bw_db w)) ids)) \<noteq> None" for ids
  proof (rule handle_events_succeeds [OF assms(2)], rule ballI)
    fix e assume "e \<in> set (get_events (db_events (bw_db w)) ids)"
    with get_events_subset have "e \<in> set (db_events (bw_db w))" by blast
    with assms(1) show "snd (handle_event cfg (bw_env w e) e) \<noteq> None" by (simp add: clean_world_def)
  qed
  then have "routed \<noteq> None" if "handle_events cfg (bw_env w) (bw_sched w)
      (get_events (db_events (bw_db w)) ids) = (tr, routed)" for ids tr routed
    using that by (metis snd_conv)
  then show ?thesis
    using assms(1) by (auto simp: pickup_def Let_def clean_world_def split: prod.splits if_splits)
qed

lemma clean_batch:
  assumes "clean_world cfg L (sn_last_poked s) w" "0 < sc_batch_limit cfg" "0 < sc_max_room_concurrency cfg"
    and "sn_processing s" "cursor_get (sn_store s) cursor_events = Some c" "\<not> sn_failed s"
  obtains s' c' tr where "sender_step cfg (Batch w) s = Some s'" "cursor_get (sn_store s') cursor_events = Some c'"
    "c \<le> c'" "c' \<le> max c (sn_last_poked s)" "sn_trace s' = sn_trace s @ tr" "sn_last_poked s' = sn_last_poked s"
    "\<forall>e \<in> set L. c < ev_ordering e \<and> ev_ordering e \<le> c' \<longrightarrow> was_handled tr e" "\<not> sn_failed s'"
    "if sn_processing s' then c < c' else sn_last_poked s \<le> c'"
proof -
  have pb: "process_batch cfg w s = pickup cfg w c s" and so: "snapshot_ok L (sn_last_poked s) w"
    using assms(1,5) by (simp_all add: process_batch_def clean_world_def poked_between_def)
  obtain s1 r where pk: "pickup cfg w c s = (s1, r)" by force
  with pickup_clean [OF assms(1,3), of c] assms(6) obtain again where r: "r = Some again" and nf: "\<not> sn_failed s1" by auto
  from pickup_spec [OF pk assms(5,2,3) so] obtain c' tr where c':
    "cursor_get (sn_store s1) cursor_events = Some c'" "c \<le> c'" "c' \<le> max c (sn_last_poked s)"
    "sn_trace s1 = sn_trace s @ tr" "\<forall>e \<in> set L. c < ev_ordering e \<and> ev_ordering e \<le> c' \<longrightarrow> was_handled tr e"
    "sn_last_poked s1 = sn_last_poked s" "sn_processing s1 = sn_processing s"
    "r = Some False \<longrightarrow> sn_last_poked s \<le> c'" "r = Some True \<longrightarrow> c < c'" by metis
  show thesis
  proof (cases again)
    case True
    with c' r nf pb pk assms(4) show thesis by (intro that [of s1 c' tr]) (auto simp: sender_step_def)
  next
    case False
    with c' r nf pb pk assms(4) show thesis
      by (intro that [of "s1\<lparr>sn_processing := False\<rparr>" c' tr]) (auto simp: sender_step_def)
  qed
qed

lemma clean_pass:
  assumes "0 < sc_batch_limit cfg" "0 < sc_max_room_concurrency cfg"
    and "sn_processing s" "\<not> sn_failed s" "cursor_get (sn_store s) cursor_events = Some c"
    and "\<forall>w \<in> set ws. clean_world cfg L (sn_last_poked s) w" "nat (sn_last_poked s - c) < length ws"
  shows "\<exists>n s' tr. n \<le> length ws \<and> run_inputs cfg (map Batch (take n ws)) s = Some s'
    \<and> \<not> sn_processing s' \<and> \<not> sn_failed s'
    \<and> cursor_get (sn_store s') cursor_events = Some (max c (sn_last_poked s))
    \<and> sn_trace s' = sn_trace s @ tr
    \<and> (\<forall>e \<in> set L. c < ev_ordering e \<and> ev_ordering e \<le> sn_last_poked s \<longrightarrow> was_handled tr e)"
  using assms(3-)
proof (induction ws arbitrary: s c)
  case (Cons w ws)
  have "clean_world cfg L (sn_last_poked s) w" using Cons.prems(4) by simp
  from clean_batch [OF this assms(1,2) Cons.prems(1,3,2)] obtain s1 c1 tr where
    s1: "sender_step cfg (Batch w) s = Some s1" "cursor_get (sn_store s1) cursor_events = Some c1"
      "c \<le> c1" "c1 \<le> max c (sn_last_poked s)" "sn_trace s1 = sn_trace s @ tr" "sn_last_poked s1 = sn_last_poked s"
      "\<forall>e \<in> set L. c < ev_ordering e \<and> ev_ordering e \<le> c1 \<longrightarrow> was_handled tr e" "\<not> sn_failed s1"
      "if sn_processing s1 then c < c1 else sn_last_poked s \<le> c1" .
  show ?case
  proof (cases "sn_processing s1")
    case False
    then have "c1 = max c (sn_last_poked s)" using s1(3,4,9) by auto
    with False s1 show ?thesis by (intro exI [of _ "Suc 0"] exI [of _ s1] exI [of _ tr]) auto
  next
    case True
    then have "nat (sn_last_poked s1 - c1) < length ws" "max c1 (sn_last_poked s) = max c (sn_last_poked s)"
      using s1(4,6,9) Cons.prems(5) by auto
    with Cons.IH [of s1 c1] Cons.prems(4) True s1 obtain n s' tr' where n: "n \<le> length ws"
      "run_inputs cfg (map Batch (take n ws)) s1 = Some s'" "\<not> sn_processing s'" "\<not> sn_failed s'"
      "cursor_get (sn_store s') cursor_events = Some (max c (sn_last_poked s))" "sn_trace s' = sn_trace s1 @ tr'"
      "\<forall>e \<in> set L. c1 < ev_ordering e \<and> ev_ordering e \<le> sn_last_poked s \<longrightarrow> was_handled tr' e" by auto
    have "was_handled (tr @ tr') e" if "e \<in> set L" "c < ev_ordering e" "ev_ordering e \<le> sn_last_poked s" for e
      using that n(7) s1(7) by (cases "ev_ordering e \<le> c1") auto
    with n s1 show ?thesis by (intro exI [of _ "Suc n"] exI [of _ s'] exI [of _ "tr @ tr'"]) simp
  qed
qed simp

text \<open>
  C12. A pass drains the backlog. Started with the cursor behind the newest position poked, and
  with no errors, \<open>processAll\<close> returns after at most as many batches as there are positions to
  cover, whatever the batch limit: the cursor then stands at the newest position - past any gap
  in the stream - and every event in between has been handled.
\<close>

theorem pass_drains_backlog:
  assumes "0 < sc_batch_limit cfg" "0 < sc_max_room_concurrency cfg"
    and "sn_processing s" "\<not> sn_failed s" "cursor_get (sn_store s) cursor_events = Some c"
    and "\<forall>w \<in> set ws. clean_world cfg L (sn_last_poked s) w" "nat (sn_last_poked s - c) < length ws"
  shows "\<exists>n s'. n \<le> length ws \<and> run_inputs cfg (map Batch (take n ws)) s = Some s'
    \<and> \<not> sn_processing s' \<and> \<not> sn_failed s'
    \<and> cursor_get (sn_store s') cursor_events = Some (max c (sn_last_poked s))
    \<and> (\<forall>e \<in> set L. c < ev_ordering e \<and> ev_ordering e \<le> sn_last_poked s \<longrightarrow>
          (\<exists>sent. (ev_room e, Handled (ev_id e) sent) \<in> set (sn_trace s')))"
  using clean_pass [OF assms] by (force simp: was_handled_def)

section \<open>A small run\<close>

definition sample_store_at :: "int \<Rightarrow> state_store" where
  "sample_store_at c = cursor_set cursor_events c sample_state_store"

definition sample_running :: sender_state where
  "sample_running = (new_sender (sample_store_at 3))\<lparr>sn_last_poked := 9, sn_processing := True\<rparr>"

definition sample_world :: batch_world where
  "sample_world = \<lparr>bw_db = empty_db\<lparr>db_events := [sample_event]\<rparr>, bw_poke = None, bw_cursor_ok = True,
     bw_tip_ok = True, bw_stream_ok = True, bw_events_ok = True, bw_set_ok = True, bw_position_ok = True,
     bw_env = (\<lambda>_. sample_sender_env), bw_sched = []\<rparr>"

lemma sample_clean: "clean_world sample_sender_config [sample_event] 9 sample_world"
  by (simp add: clean_world_def snapshot_ok_def sample_world_def handle_sample)

lemma sample_limits: "0 < sc_batch_limit sample_sender_config" "0 < sc_max_room_concurrency sample_sender_config"
  by (simp_all add: sample_sender_config_def)

lemma sample_cursor: "cursor_get (sample_store_at c) cursor_events = Some c"
  by (simp add: sample_store_at_def cursor_get_set) (simp add: sample_state_store_def cursor_get_def)

theorem pass_drains_backlog_witness:
  "\<exists>n s'. run_inputs sample_sender_config (map Batch (take n (replicate 7 sample_world))) sample_running = Some s'
     \<and> cursor_get (sn_store s') cursor_events = Some 9
     \<and> (\<exists>sent. (''!r:a'', Handled ''$e'' sent) \<in> set (sn_trace s'))"
proof -
  have "\<exists>n s'. n \<le> length (replicate 7 sample_world)
    \<and> run_inputs sample_sender_config (map Batch (take n (replicate 7 sample_world))) sample_running = Some s'
    \<and> \<not> sn_processing s' \<and> \<not> sn_failed s'
    \<and> cursor_get (sn_store s') cursor_events = Some (max 3 (sn_last_poked sample_running))
    \<and> (\<forall>e \<in> set [sample_event]. 3 < ev_ordering e \<and> ev_ordering e \<le> sn_last_poked sample_running \<longrightarrow>
          (\<exists>sent. (ev_room e, Handled (ev_id e) sent) \<in> set (sn_trace s')))"
    by (rule pass_drains_backlog [OF sample_limits])
      (simp_all add: sample_running_def new_sender_def sample_cursor sample_clean)
  then show ?thesis by (auto simp: sample_running_def sample_event_def)
qed

definition sample_started :: sender_state where
  "sample_started = notify_new_events 9 (new_sender (sample_store_at 3))"

lemma sample_is_started: "started 3 sample_started"
  by (simp add: started_def sample_started_def new_sender_def sample_cursor)

lemma sample_reaches:
  "\<exists>s. sender_reachable sample_sender_config [sample_event] sample_started s
     \<and> cursor_get (sn_store s) cursor_events = Some 9"
proof -
  let ?R = "sender_reachable sample_sender_config [sample_event] sample_started"
  let ?s1 = "sample_started\<lparr>sn_wake := False, sn_processing := True, sn_failed := False\<rparr>"
  have r1: "?R ?s1"
    by (rule sender_reachable.step [OF sender_reachable.start, where i = TakeWake])
      (simp_all add: input_ok_def sender_step_def sample_started_def notify_new_events_def new_sender_def Let_def)
  have poked: "sn_last_poked ?s1 = 9" by (simp add: sample_started_def new_sender_def)
  with sample_clean have cw: "clean_world sample_sender_config [sample_event] (sn_last_poked ?s1) sample_world" by simp
  then have ok: "input_ok [sample_event] ?s1 (Batch sample_world)"
    by (simp add: input_ok_def clean_world_def poked_between_def)
  have cur: "cursor_get (sn_store ?s1) cursor_events = Some 3"
    by (simp add: sample_started_def new_sender_def sample_cursor)
  have rows: "get_all_new_event_ids_stream (sc_batch_limit sample_sender_config) (db_events (bw_db sample_world)) 3 9
      = ([new_event_of sample_event], 9)"
    by (simp add: get_all_new_event_ids_stream_def page_def sample_world_def sample_sender_config_def)
      (simp add: sample_event_def)
  obtain tr routed where he: "handle_events sample_sender_config (bw_env sample_world) (bw_sched sample_world)
      (get_events (db_events (bw_db sample_world)) (map ne_id [new_event_of sample_event])) = (tr, routed)" by force
  moreover have "snd (handle_events sample_sender_config (bw_env sample_world) (bw_sched sample_world)
      (get_events (db_events (bw_db sample_world)) (map ne_id [new_event_of sample_event]))) \<noteq> None"
  proof (rule handle_events_succeeds [OF sample_limits(2)], rule ballI)
    fix e assume "e \<in> set (get_events (db_events (bw_db sample_world)) (map ne_id [new_event_of sample_event]))"
    with get_events_subset have "e \<in> set (db_events (bw_db sample_world))" by blast
    with sample_clean show "snd (handle_event sample_sender_config (bw_env sample_world e) e) \<noteq> None"
      by (simp add: clean_world_def)
  qed
  ultimately have "routed \<noteq> None" by simp
  then have "process_batch sample_sender_config sample_world ?s1
      = (let s2 = set_events_cursor 9 (after_rooms tr ?s1) in (s2\<lparr>sn_positions := sn_positions s2 @ [9]\<rparr>, Some False))"
    using rows he poked cur
    by (simp add: process_batch_def pickup_def poked_between_def Let_def sample_world_def sample_sender_config_def)
  then obtain s2 where "sender_step sample_sender_config (Batch sample_world) ?s1 = Some s2"
    "cursor_get (sn_store s2) cursor_events = Some 9"
    using cur by (simp add: sender_step_def Let_def)
  with sender_reachable.step [OF r1 ok] show ?thesis by blast
qed

theorem events_never_skipped_witness:
  "\<exists>s sent. sender_reachable sample_sender_config [sample_event] sample_started s
     \<and> (''!r:a'', Handled ''$e'' sent) \<in> set (sn_trace s)"
proof -
  obtain s where s: "sender_reachable sample_sender_config [sample_event] sample_started s"
    "cursor_get (sn_store s) cursor_events = Some 9" using sample_reaches by blast
  from events_never_skipped [OF sample_limits sample_is_started s(1)] s
  show ?thesis by (auto simp: sample_event_def)
qed

theorem pokes_never_lost_witness:
  "\<exists>s'. sender_step sample_sender_config TakeWake sample_started = Some s' \<and> sn_processing s'"
  by (rule pokes_never_lost [OF sample_limits sample_is_started sender_reachable.start [where L = "[]"], of 3])
    (simp_all add: sample_started_def new_sender_def sample_cursor)

end
