(* ===== verification/CatchUp.thy ===== *)
theory CatchUp
  imports Sender QueueLoop
begin

text \<open>
  \<open>internal/sender/catchup.go\<close>. \<open>Destination\<close> replays what one server is owed, page by page; a
  \<open>page_world\<close> is what one turn of its loop meets: the context, the backoff, the answers of the
  two queries, what became of each \<open>SendCatchUp\<close> (whose own steps are in \<open>QueueLoop\<close>), and what
  the live path did to the queue before the section that takes the skipped mark. \<open>sweep\<close> walks
  the destinations that are behind.
\<close>

section \<open>One destination\<close>

datatype catch_up_result = CatchSent | CatchBusy | CatchFailed

datatype catch_up_outcome = CaughtUp | NotDue | LeftForNextSweep | CatchError | CatchCancelled | Unfinished

record page_world =
  pg_cancelled :: bool
  pg_due :: bool
  pg_ids :: "int \<Rightarrow> string list option"
  pg_events :: "string list \<Rightarrow> event list option"
  pg_send :: "event \<Rightarrow> catch_up_result"
  pg_live :: "destination \<Rightarrow> destination"

definition catch_up_page_size :: nat where "catch_up_page_size = 50"
definition destination_page :: nat where "destination_page = 25"

text \<open>The loop over the events of a page: what was sent, the cursor, the queue, why it stopped.\<close>

fun send_page ::
  "gjson \<Rightarrow> (event \<Rightarrow> catch_up_result) \<Rightarrow> event list \<Rightarrow> int \<Rightarrow> destination
   \<Rightarrow> pdu list \<times> int \<times> destination \<times> catch_up_outcome option" where
  "send_page g send [] cur d = ([], cur, d, None)"
| "send_page g send (e # es) cur d =
     (case serialise_pdu g (ev_json e) of
        None \<Rightarrow> send_page g send es (ev_ordering e) d
      | Some body \<Rightarrow>
          (case send e of
             CatchBusy \<Rightarrow> ([], cur, d, Some LeftForNextSweep)
           | CatchFailed \<Rightarrow> ([], cur, d, Some CatchError)
           | CatchSent \<Rightarrow>
               (case send_page g send es (ev_ordering e) (mark_caught_up (pdu_of e body) d) of
                  (sent, r) \<Rightarrow> (pdu_of e body # sent, r))))"

text \<open>\<open>Unfinished\<close>: the list of worlds ended before the loop did.\<close>

fun catch_up_pages ::
  "gjson \<Rightarrow> page_world list \<Rightarrow> int \<Rightarrow> destination \<Rightarrow> pdu list \<times> destination \<times> catch_up_outcome" where
  "catch_up_pages g [] cur d = ([], d, Unfinished)"
| "catch_up_pages g (w # ws) cur d =
     (if pg_cancelled w then ([], d, CatchCancelled)
      else if \<not> pg_due w then ([], d, NotDue)
      else case pg_ids w cur of
        None \<Rightarrow> ([], d, CatchError)
      | Some ids \<Rightarrow>
          if ids = []
          then (case take_catch_up_skipped (pg_live w d) of (d', skipped) \<Rightarrow>
                  if skipped > cur then catch_up_pages g ws cur d'
                  else ([], finish_catch_up d', CaughtUp))
          else case pg_events w ids of
            None \<Rightarrow> ([], d, CatchError)
          | Some events \<Rightarrow>
              (case send_page g (pg_send w) events cur d of
                 (sent, cur', d', Some out) \<Rightarrow> (sent, d', out)
               | (sent, cur', d', None) \<Rightarrow>
                   (case catch_up_pages g ws cur' d' of (rest, r) \<Rightarrow> (sent @ rest, r))))"

text \<open>\<open>Destination\<close>: \<open>recorded\<close> is the answer of the cursor query, \<open>None\<close> an error.\<close>

definition catch_up_destination ::
  "gjson \<Rightarrow> bool \<Rightarrow> int option option \<Rightarrow> page_world list \<Rightarrow> destination
   \<Rightarrow> pdu list \<times> destination \<times> catch_up_outcome" where
  "catch_up_destination g is_due recorded ws d =
     (if \<not> is_due then ([], d, NotDue)
      else case recorded of
        None \<Rightarrow> ([], d, CatchError)
      | Some None \<Rightarrow> ([], finish_catch_up d, CaughtUp)
      | Some (Some cur) \<Rightarrow> catch_up_pages g ws cur (set_last_successful cur d))"

section \<open>The sweep\<close>

record sweep_world =
  sw_cancelled :: bool
  sw_page :: "string \<Rightarrow> string list option"
  sw_due :: "string \<Rightarrow> bool"

fun sweep :: "(string \<Rightarrow> bool) \<Rightarrow> sweep_world list \<Rightarrow> string \<Rightarrow> string list \<times> bool" where
  "sweep should_handle [] after = ([], False)"
| "sweep should_handle (w # ws) after =
     (if sw_cancelled w then ([], True)
      else case sw_page w after of
        None \<Rightarrow> ([], True)
      | Some ds \<Rightarrow>
          if ds = [] then ([], True)
          else case sweep should_handle ws (last ds) of
            (rest, fin) \<Rightarrow> (filter (\<lambda>d. should_handle d \<and> sw_due w d) ds @ rest, fin))"

section \<open>What is owed\<close>

definition owed :: "synapse_db \<Rightarrow> string \<Rightarrow> event list" where
  "owed db d = sort_key ev_ordering
     (concat (map (\<lambda>((d', room), ord). if d' = d then filter (\<lambda>e. ev_ordering e = ord) (db_events db) else [])
                  (db_destination_rooms db)))"

lemma catch_up_ids_owed:
  "get_catch_up_room_event_ids db d l limit = map ev_id (take limit (filter (\<lambda>e. l < ev_ordering e) (owed db d)))"
proof -
  have "filter (\<lambda>e. l < ev_ordering e)
      (concat (map (\<lambda>((d', room), ord). if d' = d then filter (\<lambda>e. ev_ordering e = ord) (db_events db) else []) rows))
      = concat (map (\<lambda>((d', room), ord). if d' = d \<and> ord > l
                      then filter (\<lambda>e. ev_ordering e = ord) (db_events db) else []) rows)" for rows :: "((string \<times> string) \<times> int) list"
    by (induction rows) (auto simp: filter_empty_conv intro!: filter_cong)
  then show ?thesis by (simp add: get_catch_up_room_event_ids_def owed_def filter_sort)
qed

lemma mem_owed:
  "e \<in> set (owed db d) \<longleftrightarrow> e \<in> set (db_events db) \<and> (\<exists>room. ((d, room), ev_ordering e) \<in> set (db_destination_rooms db))"
  by (force simp: owed_def split: if_splits)

text \<open>Each owed event once: orderings are unique and a destination is owed an event for one room.\<close>

definition owed_ok :: "synapse_db \<Rightarrow> string \<Rightarrow> bool" where
  "owed_ok db d \<longleftrightarrow> distinct (map ev_id (db_events db)) \<and> distinct (map ev_ordering (db_events db))
     \<and> distinct (map snd (filter (\<lambda>((d', room), ord). d' = d) (db_destination_rooms db)))"

lemma owed_sorted:
  assumes "owed_ok db d"
  shows "sorted_wrt (<) (map ev_ordering (owed db d))"
proof -
  have "distinct (map ev_ordering (concat (map (\<lambda>((d', room), ord).
      if d' = d then filter (\<lambda>e. ev_ordering e = ord) (db_events db) else []) rows)))"
    if "distinct (map snd (filter (\<lambda>((d', room), ord). d' = d) rows))" for rows :: "((string \<times> string) \<times> int) list"
    using that
  proof (induction rows)
    case (Cons r rows)
    obtain d' room ord where r: "r = ((d', room), ord)" by (metis prod.collapse)
    have one: "distinct (map ev_ordering (filter (\<lambda>e. ev_ordering e = ord) (db_events db)))"
      using assms distinct_map_filter by (auto simp: owed_ok_def)
    show ?case
    proof (cases "d' = d")
      case True
      with Cons.prems have "\<forall>b. ((d, b), ord) \<notin> set rows" by (force simp: r)
      with True one Cons show ?thesis by (auto simp: r split: if_splits)
    next
      case False
      with Cons show ?thesis by (simp add: r)
    qed
  qed simp
  from this [of "db_destination_rooms db"] have "distinct (map ev_ordering (owed db d))"
    using assms by (simp add: owed_ok_def owed_def distinct_map)
  moreover have "sorted (map ev_ordering (owed db d))" by (simp add: owed_def)
  ultimately show ?thesis by (simp add: strict_sorted_iff)
qed

section \<open>Pages of what is owed\<close>

definition still_owed :: "synapse_db \<Rightarrow> string \<Rightarrow> int \<Rightarrow> event list" where
  "still_owed db d l = filter (\<lambda>e. l < ev_ordering e) (owed db d)"

definition pdus_of :: "gjson \<Rightarrow> event list \<Rightarrow> pdu list" where
  "pdus_of g es = List.map_filter (\<lambda>e. map_option (pdu_of e) (serialise_pdu g (ev_json e))) es"

lemma pdus_of_simps [simp]:
  "pdus_of g [] = []"
  "pdus_of g (e # es) = (case serialise_pdu g (ev_json e) of None \<Rightarrow> pdus_of g es | Some b \<Rightarrow> pdu_of e b # pdus_of g es)"
  "pdus_of g (xs @ ys) = pdus_of g xs @ pdus_of g ys"
  by (auto simp: pdus_of_def map_filter_def split: option.splits)

lemma pdus_of_take_drop: "pdus_of g (take n es) @ pdus_of g (drop n es) = pdus_of g es"
  by (metis append_take_drop_id pdus_of_simps(3))

lemma sorted_pdus_of:
  "sorted_wrt (<) (map ev_ordering es) \<Longrightarrow> sorted_wrt (<) (map stream_ordering (pdus_of g es))
     \<and> stream_ordering ` set (pdus_of g es) \<subseteq> ev_ordering ` set es"
  by (induction es) (fastforce simp: pdu_of_def split: option.splits)+

lemma get_events_exact:
  assumes "distinct (map ev_id events)" "set es \<subseteq> set events"
  shows "get_events events (map ev_id es) = es"
proof -
  let ?f = "filter (\<lambda>e. ev_id e \<in> set (map ev_id es)) events"
  have d: "distinct (map fst (map (\<lambda>e. (ev_id e, e)) ?f))"
    using assms(1) by (simp add: comp_def distinct_map inj_on_def)
  have "map_of (map (\<lambda>e. (ev_id e, e)) ?f) (ev_id e) = Some e" if "e \<in> set es" for e
    using that assms(2) by (intro map_of_is_SomeI [OF d]) auto
  then show ?thesis by (simp add: get_events_def map_filter_def comp_def cong: map_cong)
qed

lemma sorted_filter_last:
  assumes "sorted_wrt (<) (map f xs)" "take n xs \<noteq> []"
  shows "filter (\<lambda>x. (f (last (take n xs)) :: int) < f x) xs = drop n xs"
proof -
  have "sorted_wrt (<) (map f (take n xs @ drop n xs))" using assms(1) by simp
  then have lt: "\<forall>x \<in> set (take n xs). \<forall>y \<in> set (drop n xs). f x < f y"
    and st: "sorted_wrt (<) (map f (take n xs))"
    by (simp_all only: map_append sorted_wrt_append) auto
  obtain ys y where ys: "take n xs = ys @ [y]" using assms(2) by (metis rev_exhaust)
  with st have "\<forall>x \<in> set (take n xs). \<not> f y < f x" by (auto simp: sorted_wrt_append dest: order_less_imp_not_less)
  then have "filter (\<lambda>x. f y < f x) (take n xs) = []" by (simp add: filter_empty_conv)
  moreover have "filter (\<lambda>x. f y < f x) (drop n xs) = drop n xs"
    using lt ys by (auto simp: filter_id_conv)
  ultimately have "filter (\<lambda>x. f y < f x) (take n xs @ drop n xs) = drop n xs" by (simp only: filter_append) simp
  then show ?thesis unfolding append_take_drop_id by (simp add: ys)
qed

lemma still_owed_after_page:
  assumes "owed_ok db d" "still_owed db d l \<noteq> []"
  defines "pg \<equiv> take catch_up_page_size (still_owed db d l)"
  shows "still_owed db d (ev_ordering (last pg)) = drop catch_up_page_size (still_owed db d l)" "pg \<noteq> []"
proof -
  show ne: "pg \<noteq> []" using assms(2) by (simp add: pg_def catch_up_page_size_def)
  have "sorted_wrt (<) (map ev_ordering (still_owed db d l))"
    using owed_sorted [OF assms(1)] by (simp add: still_owed_def sorted_wrt_map sorted_wrt_filter)
  from sorted_filter_last [OF this ne [unfolded pg_def]]
  have "filter (\<lambda>e. ev_ordering (last pg) < ev_ordering e) (still_owed db d l) = drop catch_up_page_size (still_owed db d l)"
    by (simp add: pg_def)
  moreover have "l < ev_ordering (last pg)"
  proof -
    have "last pg \<in> set (still_owed db d l)"
      using last_in_set [OF ne] unfolding pg_def by (rule in_set_takeD)
    then show ?thesis by (simp add: still_owed_def)
  qed
  then have "filter (\<lambda>e. ev_ordering (last pg) < ev_ordering e) (still_owed db d l)
      = still_owed db d (ev_ordering (last pg))"
    by (auto simp: still_owed_def intro: filter_cong)
  ultimately show "still_owed db d (ev_ordering (last pg)) = drop catch_up_page_size (still_owed db d l)" by simp
qed

lemma page_events:
  assumes "owed_ok db d"
  shows "get_events (db_events db) (get_catch_up_room_event_ids db d l catch_up_page_size)
    = take catch_up_page_size (still_owed db d l)"
proof -
  have "set (take catch_up_page_size (still_owed db d l)) \<subseteq> set (db_events db)"
    using set_take_subset by (fastforce simp: still_owed_def mem_owed)
  with assms show ?thesis
    by (simp add: catch_up_ids_owed still_owed_def [symmetric] get_events_exact owed_ok_def)
qed

lemma page_ids_empty: "get_catch_up_room_event_ids db d l catch_up_page_size = [] \<longleftrightarrow> still_owed db d l = []"
  by (simp add: catch_up_ids_owed still_owed_def catch_up_page_size_def)

lemma send_page_prefix:
  "send_page g send es l q = (sent, l', q', out) \<Longrightarrow>
     (\<exists>k. sent = take k (pdus_of g es))
     \<and> (out = None \<longrightarrow> sent = pdus_of g es \<and> l' = (if es = [] then l else ev_ordering (last es)))
     \<and> ((\<forall>e \<in> set es. send e = CatchSent) \<longrightarrow> out = None)"
proof (induction es arbitrary: l q sent l' q' out)
  case (Cons e es)
  show ?case
  proof (cases "serialise_pdu g (ev_json e)")
    case None
    with Cons.prems Cons.IH [of "ev_ordering e" q sent l' q' out] show ?thesis by auto
  next
    case (Some body)
    show ?thesis
    proof (cases "send e")
      case CatchSent
      with Cons.prems Some obtain rest where
        rest: "send_page g send es (ev_ordering e) (mark_caught_up (pdu_of e body) q) = (rest, l', q', out)"
        and sent: "sent = pdu_of e body # rest" by (auto split: prod.splits)
      from Cons.IH [OF rest] obtain k where "rest = take k (pdus_of g es)" by blast
      then have "sent = take (Suc k) (pdus_of g (e # es))" by (simp add: sent Some)
      then have "\<exists>k. sent = take k (pdus_of g (e # es))" by blast
      moreover have "out = None \<longrightarrow> sent = pdus_of g (e # es) \<and> l' = (if e # es = [] then l else ev_ordering (last (e # es)))"
        using conjunct1 [OF conjunct2 [OF Cons.IH [OF rest]]] Some sent by simp
      moreover have "(\<forall>e \<in> set (e # es). send e = CatchSent) \<longrightarrow> out = None"
        using conjunct2 [OF conjunct2 [OF Cons.IH [OF rest]]] by simp
      ultimately show ?thesis by blast
    qed (use Cons.prems Some in auto)
  qed
qed auto

section \<open>Properties\<close>

text \<open>The database answers truly or fails; sends and the live path do what they like.\<close>

definition answering :: "synapse_db \<Rightarrow> string \<Rightarrow> page_world \<Rightarrow> bool" where
  "answering db d w \<longleftrightarrow>
     (\<forall>l. pg_ids w l = None \<or> pg_ids w l = Some (get_catch_up_room_event_ids db d l catch_up_page_size))
     \<and> (\<forall>ids. pg_events w ids = None \<or> pg_events w ids = Some (get_events (db_events db) ids))"

lemma catch_up_pages_prefix:
  assumes "owed_ok db d" "\<forall>w \<in> set ws. answering db d w"
  shows "\<exists>k. fst (catch_up_pages g ws l q) = take k (pdus_of g (still_owed db d l))"
  using assms(2)
proof (induction ws arbitrary: l q)
  case (Cons w ws)
  have nil: "\<exists>k. fst ([], x) = take k (pdus_of g (still_owed db d l))" for x :: "destination \<times> catch_up_outcome"
    by (intro exI [of _ 0]) simp
  have IH: "\<exists>k. fst (catch_up_pages g ws l q) = take k (pdus_of g (still_owed db d l))" for l q
    using Cons by simp
  show ?case
  proof (cases "pg_cancelled w \<or> \<not> pg_due w \<or> pg_ids w l = None")
    case True
    then show ?thesis using nil by auto
  next
    case False
    let ?ids = "get_catch_up_room_event_ids db d l catch_up_page_size"
    have "pg_ids w l = None \<or> pg_ids w l = Some ?ids" using Cons.prems by (simp add: answering_def)
    with False have ids: "pg_ids w l = Some ?ids" by auto
    show ?thesis
    proof (cases "?ids = []")
      case True
      with False ids IH nil show ?thesis by (auto simp: take_catch_up_skipped_def)
    next
      case ne: False
      show ?thesis
      proof (cases "pg_events w ?ids")
        case None
        with False ids ne nil show ?thesis by auto
      next
        case (Some events)
        let ?pg = "take catch_up_page_size (still_owed db d l)"
        have "pg_events w ?ids = None \<or> pg_events w ?ids = Some (get_events (db_events db) ?ids)"
          using Cons.prems by (simp add: answering_def)
        with Some have ev: "events = ?pg" using page_events [OF assms(1), of l] by simp
        obtain sent l' q' out where sp: "send_page g (pg_send w) ?pg l q = (sent, l', q', out)"
          by (metis prod.collapse)
        note pre = send_page_prefix [OF sp]
        show ?thesis
        proof (cases out)
          case None
          have "?pg \<noteq> []" using ne still_owed_after_page(2) [OF assms(1)] by (simp only: page_ids_empty) blast
          with pre None have s: "sent = pdus_of g ?pg" "l' = ev_ordering (last ?pg)" by simp_all
          obtain k where "fst (catch_up_pages g ws l' q') = take k (pdus_of g (drop catch_up_page_size (still_owed db d l)))"
            using IH [of l' q'] still_owed_after_page(1) [OF assms(1)] ne s(2) by (auto simp: page_ids_empty)
          with False ids ne Some ev sp None s
          have "fst (catch_up_pages g (w # ws) l q) = pdus_of g ?pg @ take k (pdus_of g (drop catch_up_page_size (still_owed db d l)))"
            by (simp add: split_beta)
          also have "\<dots> = take (length (pdus_of g ?pg) + k) (pdus_of g (still_owed db d l))"
            unfolding pdus_of_take_drop [of g catch_up_page_size "still_owed db d l", symmetric] by simp
          finally show ?thesis by blast
        next
          case (Some o')
          from pre obtain k where k: "sent = take k (pdus_of g ?pg)" by blast
          have "sent = take (min k (length (pdus_of g ?pg))) (pdus_of g (still_owed db d l))"
            unfolding k pdus_of_take_drop [of g catch_up_page_size "still_owed db d l", symmetric]
            by (simp add: min_def)
          with False ids ne ev sp Some \<open>pg_events w ?ids = Some events\<close> show ?thesis by auto
        qed
      qed
    qed
  qed
qed (simp add: exI [of _ 0])

text \<open>
  C13. Catch-up sends what is owed, oldest first, and skips nothing. Whatever fails - a query, a
  send, the context, the backoff, a busy destination - and whatever the live path does
  meanwhile, the events a catch-up puts on the wire are a prefix of the events owed after the
  recorded cursor, in strictly increasing stream order, each once.
\<close>

theorem catch_up_in_order:
  assumes "owed_ok db d" "\<forall>w \<in> set ws. answering db d w"
    and "catch_up_destination g is_due (Some (Some recorded)) ws q = (sent, q', out)"
  shows "(\<exists>k. sent = take k (pdus_of g (filter (\<lambda>e. recorded < ev_ordering e) (owed db d))))
    \<and> sorted_wrt (<) (map stream_ordering sent)
    \<and> (\<forall>p \<in> set sent. recorded < stream_ordering p
         \<and> (\<exists>room. ((d, room), stream_ordering p) \<in> set (db_destination_rooms db)))"
proof -
  let ?o = "filter (\<lambda>e. recorded < ev_ordering e) (owed db d)"
  have "\<exists>k. sent = take k (pdus_of g ?o)"
  proof (cases is_due)
    case True
    with assms(3) have "sent = fst (catch_up_pages g ws recorded (set_last_successful recorded q))"
      by (simp add: catch_up_destination_def)
    with catch_up_pages_prefix [OF assms(1,2), of g recorded] show ?thesis by (simp add: still_owed_def)
  next
    case False
    with assms(3) show ?thesis by (auto simp: catch_up_destination_def intro: exI [of _ 0])
  qed
  then obtain k where k: "sent = take k (pdus_of g ?o)" by blast
  have "sorted_wrt (<) (map ev_ordering ?o)"
    using owed_sorted [OF assms(1)] by (simp add: sorted_wrt_map sorted_wrt_filter)
  note s = sorted_pdus_of [OF this, of g]
  have "set sent \<subseteq> set (pdus_of g ?o)" unfolding k by (rule set_take_subset)
  with s have "\<forall>p \<in> set sent. \<exists>e \<in> set ?o. stream_ordering p = ev_ordering e" by force
  then have "\<forall>p \<in> set sent. recorded < stream_ordering p
      \<and> (\<exists>room. ((d, room), stream_ordering p) \<in> set (db_destination_rooms db))"
    by (fastforce simp: mem_owed)
  moreover have "sorted_wrt (<) (map stream_ordering sent)"
    using s unfolding k take_map [symmetric] by (simp add: sorted_wrt_take)
  ultimately show ?thesis using k by blast
qed

text \<open>The run without a failure.\<close>

definition stable_page :: "synapse_db \<Rightarrow> string \<Rightarrow> page_world \<Rightarrow> bool" where
  "stable_page db d w \<longleftrightarrow> \<not> pg_cancelled w \<and> pg_due w
     \<and> (\<forall>l. pg_ids w l = Some (get_catch_up_room_event_ids db d l catch_up_page_size))
     \<and> (\<forall>ids. pg_events w ids = Some (get_events (db_events db) ids))
     \<and> (\<forall>e. pg_send w e = CatchSent) \<and> (\<forall>q. pg_live w q = q)"

lemma mark_caught_up_frame [simp]:
  "catchup_last_skipped (mark_caught_up p q) = catchup_last_skipped q"
  "pending_pdus (mark_caught_up p q) = pending_pdus q" "pending_edus (mark_caught_up p q) = pending_edus q"
  "last_successful (mark_caught_up p q) = max (stream_ordering p) (last_successful q)"
  by (simp_all add: mark_caught_up_def max_def)

lemma send_page_queue:
  "send_page g send es l q = (sent, l', q', out) \<Longrightarrow>
     catchup_last_skipped q' = catchup_last_skipped q \<and> pending_pdus q' = pending_pdus q
     \<and> pending_edus q' = pending_edus q \<and> last_successful q \<le> last_successful q'
     \<and> (\<forall>p \<in> set sent. stream_ordering p \<le> last_successful q')"
proof (induction es arbitrary: l q sent)
  case (Cons e es)
  show ?case
  proof (cases "serialise_pdu g (ev_json e)")
    case None
    with Cons show ?thesis by simp
  next
    case (Some body)
    show ?thesis
    proof (cases "send e")
      case CatchSent
      with Cons.prems Some obtain rest where
        rest: "send_page g send es (ev_ordering e) (mark_caught_up (pdu_of e body) q) = (rest, l', q', out)"
        and sent: "sent = pdu_of e body # rest" by (auto split: prod.splits)
      from Cons.IH [OF rest] show ?thesis by (auto simp: sent)
    qed (use Cons.prems Some in auto)
  qed
qed simp

lemma page_count:
  fixes n c c' k :: nat
  assumes "c' \<le> c" "n + 50 * c \<le> 50 * Suc k" "0 < n"
  shows "n - 50 + c' * 50 \<le> 50 * k"
proof -
  have "50 * c < 50 * Suc k" using assms by linarith
  then have "c \<le> k" by simp
  with assms show ?thesis by (cases "n < 50") auto
qed

lemma stable_pages_deliver:
  assumes "owed_ok db d"
  shows "\<lbrakk>\<forall>w \<in> set ws. stable_page db d w; 0 \<le> l;
      length (still_owed db d l) + (if l < catchup_last_skipped q then 2 else 1) * catch_up_page_size
        \<le> catch_up_page_size * length ws\<rbrakk>
    \<Longrightarrow> \<exists>q'. catch_up_pages g ws l q = (pdus_of g (still_owed db d l), q', CaughtUp)
      \<and> \<not> catching_up q' \<and> pending_pdus q' = pending_pdus q \<and> pending_edus q' = pending_edus q
      \<and> last_successful q \<le> last_successful q'
      \<and> (\<forall>p \<in> set (pdus_of g (still_owed db d l)). stream_ordering p \<le> last_successful q')"
proof (induction ws arbitrary: l q)
  case Nil
  then show ?case by (auto simp: catch_up_page_size_def split: if_splits)
next
  case (Cons w ws)
  have st: "stable_page db d w" "\<forall>w \<in> set ws. stable_page db d w" using Cons.prems(1) by simp_all
  show ?case
  proof (cases "still_owed db d l = []")
    case True
    then have ids: "get_catch_up_room_event_ids db d l catch_up_page_size = []" by (simp add: page_ids_empty)
    show ?thesis
    proof (cases "l < catchup_last_skipped q")
      case False
      with st(1) ids True show ?thesis
        by (simp add: stable_page_def take_catch_up_skipped_def finish_catch_up_def)
    next
      case skipped: True
      let ?q = "q\<lparr>catchup_last_skipped := 0\<rparr>"
      from skipped Cons.prems(2,3) True have "length (still_owed db d l)
          + (if l < catchup_last_skipped ?q then 2 else 1) * catch_up_page_size \<le> catch_up_page_size * length ws"
        by simp
      from Cons.IH [OF st(2) Cons.prems(2) this] st(1) ids True skipped show ?thesis
        by (auto simp: stable_page_def take_catch_up_skipped_def)
    qed
  next
    case False
    let ?pg = "take catch_up_page_size (still_owed db d l)" and ?rest = "drop catch_up_page_size (still_owed db d l)"
    obtain sent l' q1 out where sp: "send_page g (pg_send w) ?pg l q = (sent, l', q1, out)" by (metis prod.collapse)
    from send_page_prefix [OF sp] st(1) still_owed_after_page(2) [OF assms False]
    have out: "out = None" and sent: "sent = pdus_of g ?pg" and l': "l' = ev_ordering (last ?pg)"
      by (auto simp: stable_page_def)
    have rest: "still_owed db d l' = ?rest" unfolding l' by (rule still_owed_after_page(1) [OF assms False])
    have "last ?pg \<in> set (still_owed db d l)"
      using last_in_set [OF still_owed_after_page(2) [OF assms False]] by (rule in_set_takeD)
    then have pos: "l < l'" by (simp add: l' still_owed_def)
    note qf = send_page_queue [OF sp]
    have fuel: "length (still_owed db d l') + (if l' < catchup_last_skipped q1 then 2 else 1) * catch_up_page_size
        \<le> catch_up_page_size * length ws"
    proof -
      define c where "c = (if l < catchup_last_skipped q then 2 else (1::nat))"
      define c' where "c' = (if l' < catchup_last_skipped q1 then 2 else (1::nat))"
      have "c' \<le> c" using qf pos by (simp add: c_def c'_def)
      moreover have "length (still_owed db d l) + 50 * c \<le> 50 * Suc (length ws)"
        using Cons.prems(3) by (simp add: catch_up_page_size_def c_def mult.commute)
      moreover have "0 < length (still_owed db d l)" using False by simp
      ultimately have "length (still_owed db d l) - 50 + c' * 50 \<le> 50 * length ws" by (rule page_count)
      then show ?thesis by (simp add: rest catch_up_page_size_def c'_def)
    qed
    have "0 \<le> l'" using pos Cons.prems(2) by simp
    from Cons.IH [OF st(2) this fuel] obtain q' where q':
      "catch_up_pages g ws l' q1 = (pdus_of g ?rest, q', CaughtUp)" "\<not> catching_up q'"
      "pending_pdus q' = pending_pdus q1" "pending_edus q' = pending_edus q1" "last_successful q1 \<le> last_successful q'"
      "\<forall>p \<in> set (pdus_of g ?rest). stream_ordering p \<le> last_successful q'" unfolding rest by blast
    have "catch_up_pages g (w # ws) l q = (case catch_up_pages g ws l' q1 of (rest, r) \<Rightarrow> (sent @ rest, r))"
      using st(1) False sp out page_events [OF assms] by (simp add: stable_page_def page_ids_empty)
    then have "catch_up_pages g (w # ws) l q = (pdus_of g (still_owed db d l), q', CaughtUp)"
      unfolding q'(1) sent by (simp add: pdus_of_take_drop)
    moreover have "\<forall>p \<in> set (pdus_of g ?pg @ pdus_of g ?rest). stream_ordering p \<le> last_successful q'"
      using qf q'(5,6) sent by auto
    then have "\<forall>p \<in> set (pdus_of g (still_owed db d l)). stream_ordering p \<le> last_successful q'"
      by (simp only: pdus_of_take_drop)
    moreover have "last_successful q \<le> last_successful q'" using qf q'(5) by simp
    ultimately show ?thesis using qf q'(2-4) by (intro exI [of _ q']) simp
  qed
qed

text \<open>
  C14. Catch-up finishes. If the queries and sends succeed, replaying a destination terminates
  after one page per fifty owed rooms and at most two more, has delivered every event owed since
  the recorded cursor - the newest event of each room routed to it - in stream order, leaves
  what the live path has queued alone, moves the cursor to the last of them, and ends the
  catch-up mode; an event the live path dropped meanwhile makes it look again.
\<close>

theorem catch_up_delivers_owed:
  assumes "owed_ok db d" "\<forall>w \<in> set ws. stable_page db d w" "0 \<le> recorded"
    and "length (filter (\<lambda>e. recorded < ev_ordering e) (owed db d)) + 100 \<le> 50 * length ws"
  shows "\<exists>sent q'. catch_up_destination g True (Some (Some recorded)) ws q = (sent, q', CaughtUp)
    \<and> sent = pdus_of g (filter (\<lambda>e. recorded < ev_ordering e) (owed db d))
    \<and> \<not> catching_up q' \<and> pending_pdus q' = pending_pdus q \<and> pending_edus q' = pending_edus q
    \<and> recorded \<le> last_successful q'
    \<and> (\<forall>p \<in> set sent. stream_ordering p \<le> last_successful q')"
proof -
  let ?q = "set_last_successful recorded q"
  have fuel: "length (still_owed db d recorded) + (if recorded < catchup_last_skipped ?q then 2 else 1) * catch_up_page_size
      \<le> catch_up_page_size * length ws"
    using assms(4) by (simp add: still_owed_def catch_up_page_size_def)
  have q: "pending_pdus ?q = pending_pdus q" "pending_edus ?q = pending_edus q" "recorded \<le> last_successful ?q"
    by (simp_all add: set_last_successful_def)
  obtain q' where q': "catch_up_pages g ws recorded ?q = (pdus_of g (still_owed db d recorded), q', CaughtUp)"
    "\<not> catching_up q'" "pending_pdus q' = pending_pdus ?q" "pending_edus q' = pending_edus ?q"
    "last_successful ?q \<le> last_successful q'"
    "\<forall>p \<in> set (pdus_of g (still_owed db d recorded)). stream_ordering p \<le> last_successful q'"
    using stable_pages_deliver [OF assms(1,2,3) fuel, of g] by blast
  moreover have "recorded \<le> last_successful q'" using q(3) q'(5) by simp
  ultimately show ?thesis unfolding still_owed_def [symmetric] q(1,2) [symmetric]
    by (simp add: catch_up_destination_def)
qed

section \<open>A small run\<close>

definition stable_world :: "synapse_db \<Rightarrow> string \<Rightarrow> page_world" where
  "stable_world db d = \<lparr>pg_cancelled = False, pg_due = True,
     pg_ids = (\<lambda>l. Some (get_catch_up_room_event_ids db d l catch_up_page_size)),
     pg_events = (\<lambda>ids. Some (get_events (db_events db) ids)), pg_send = (\<lambda>e. CatchSent), pg_live = (\<lambda>q. q)\<rparr>"

definition owing_db :: synapse_db where
  "owing_db = empty_db\<lparr>db_events := [sample_event], db_destination_rooms := [((''b'', ''!r:a''), 7)]\<rparr>"

definition sample_queue :: destination where
  "sample_queue = new_destination ''b'' \<lparr>max_pdus = 0, max_edus = 0\<rparr> \<lparr>max_states = 50, max_wait = 5 * second\<rparr>"

lemma owed_sample: "owed owing_db ''b'' = [sample_event]"
  by (simp add: owed_def owing_db_def) (simp add: sample_event_def)

lemma owed_ok_sample: "owed_ok owing_db ''b''"
  by (simp add: owed_ok_def owing_db_def)

lemma ordering_sample: "ev_ordering sample_event = 7" by (simp add: sample_event_def)

lemma serialise_sample: "serialise_pdu sample_event_gjson (ev_json sample_event) = Some ''ban''"
  by (simp add: serialise_pdu_def sample_event_gjson_def gjson_eval sample_event_def)

theorem catch_up_delivers_owed_witness:
  "\<exists>q'. catch_up_destination sample_event_gjson True (Some (Some 3)) (replicate 3 (stable_world owing_db ''b'')) sample_queue
     = ([pdu_of sample_event ''ban''], q', CaughtUp) \<and> \<not> catching_up q'"
proof -
  let ?ws = "replicate 3 (stable_world owing_db ''b'')"
  have st: "\<forall>w \<in> set ?ws. stable_page owing_db ''b'' w" by (simp add: stable_page_def stable_world_def)
  have "length (filter (\<lambda>e. 3 < ev_ordering e) (owed owing_db ''b'')) + 100 \<le> 50 * length ?ws"
    by (simp add: owed_sample ordering_sample)
  from catch_up_delivers_owed [OF owed_ok_sample st _ this, of sample_event_gjson sample_queue] show ?thesis
    by (auto simp: owed_sample ordering_sample serialise_sample simp del: replicate.simps)
qed

theorem catch_up_in_order_witness:
  "\<exists>sent q' out k. catch_up_destination sample_event_gjson True (Some (Some 3))
       [(stable_world owing_db ''b'')\<lparr>pg_send := \<lambda>e. CatchBusy\<rparr>] sample_queue = (sent, q', out)
     \<and> sent = take k [pdu_of sample_event ''ban'']"
proof -
  let ?w = "(stable_world owing_db ''b'')\<lparr>pg_send := \<lambda>e. CatchBusy\<rparr>"
  obtain sent q' out where run: "catch_up_destination sample_event_gjson True (Some (Some 3)) [?w] sample_queue = (sent, q', out)"
    by (metis prod.collapse)
  have "\<forall>w \<in> set [?w]. answering owing_db ''b'' w" by (simp add: answering_def stable_world_def)
  from catch_up_in_order [OF owed_ok_sample this run] obtain k where
    "sent = take k (pdus_of sample_event_gjson (filter (\<lambda>e. 3 < ev_ordering e) (owed owing_db ''b'')))" by blast
  with run show ?thesis by (auto simp: owed_sample ordering_sample serialise_sample)
qed

section \<open>Two ways round the backlog\<close>

lemma set_last_successful_frame [simp]:
  "db_events (set_destination_last_successful d so db) = db_events db"
  "db_destination_rooms (set_destination_last_successful d so db) = db_destination_rooms db"
  by (simp_all add: set_destination_last_successful_def Let_def split: option.splits)

lemma last_successful_after:
  assumes "get_last_successful db d = Some r" "r < so"
  shows "get_last_successful (set_destination_last_successful d so db) d = Some so"
  using assms by (auto simp: get_last_successful_def set_destination_last_successful_def Let_def split: option.splits)

lemma passed_is_not_owed:
  assumes "owed_ok db d" "e \<in> set (owed db d)" "ev_ordering e \<le> l"
  shows "ev_id e \<notin> set (get_catch_up_room_event_ids (set_destination_last_successful d' so db) d l limit)"
proof
  assume "ev_id e \<in> set (get_catch_up_room_event_ids (set_destination_last_successful d' so db) d l limit)"
  moreover have "owed (set_destination_last_successful d' so db) d = owed db d"
    unfolding owed_def set_last_successful_frame ..
  ultimately obtain e' where "e' \<in> set (take limit (filter (\<lambda>e. l < ev_ordering e) (owed db d)))" "ev_id e' = ev_id e"
    by (auto simp: catch_up_ids_owed)
  then have e': "e' \<in> set (owed db d)" "l < ev_ordering e'" "ev_id e' = ev_id e" by (auto dest: in_set_takeD)
  then have "e' = e" using assms(1,2) by (auto simp: owed_ok_def mem_owed distinct_map inj_on_def)
  with e'(2) assms(3) show False by simp
qed

text \<open>
  A restart can lose the backlog. A fresh queue is catching up but does not know its cursor
  yet, and then \<open>EnqueuePDU\<close> queues; so a live event that arrives before the first sweep reaches
  the destination is delivered first, and the cursor written for it passes every event owed from
  before, which no catch-up then finds.
\<close>

theorem restart_skips_backlog:
  assumes "0 < stream_ordering p" "owed_ok db n"
    and "get_last_successful db n = Some recorded" "recorded < stream_ordering p"
  shows "\<exists>s ts. reachable valid (new_destination n \<lparr>max_pdus = 0, max_edus = 0\<rparr> b) (s, ts)
    \<and> concat (map t_pdus (live_wire s)) = [p] \<and> catchup_wire s = [] \<and> set ts = {Done}
    \<and> (let db' = fold (set_destination_last_successful n) (success_calls s) db in
        \<exists>l. get_last_successful db' n = Some l
          \<and> (\<forall>e \<in> set (owed db n). recorded < ev_ordering e \<and> ev_ordering e < stream_ordering p \<longrightarrow>
               (\<forall>limit. ev_id e \<notin> set (get_catch_up_room_event_ids db' n l limit))))"
proof -
  let ?as = "[EnqueuePDU p, Wake, Thread 0 Proceed, Thread 0 Proceed, Thread 0 GateOpen,
    Thread 0 (Clock 0), Thread 0 SendOk, Thread 0 Proceed, Thread 0 Proceed, Thread 0 GateOpen,
    Thread 0 (Clock 0), Thread 0 Proceed, Thread 0 Proceed]"
  obtain s ts where run: "run_actions valid ?as
      (initial_system (new_destination n \<lparr>max_pdus = 0, max_edus = 0\<rparr> b)) = Some (s, ts)"
    and end_state: "concat (map t_pdus (live_wire s)) = [p]" "catchup_wire s = []" "ts = [Done]"
      "success_calls s = [stream_ordering p]"
    using assms(1) by (simp add: queue_eval)
  have "ev_id e \<notin> set (get_catch_up_room_event_ids (set_destination_last_successful n (stream_ordering p) db) n
      (stream_ordering p) limit)" if "e \<in> set (owed db n)" "ev_ordering e < stream_ordering p" for e limit
    using that by (intro passed_is_not_owed [OF assms(2)]) simp_all
  with reachable_run [OF reachable.start run] end_state last_successful_after [OF assms(3,4)] show ?thesis
    by (intro exI [of _ s] exI [of _ ts]) (simp add: Let_def)
qed

text \<open>
  Leaving catch-up can lose an event. Between the section that takes the skipped mark and the
  one that ends the catch-up mode a live event is still dropped, and nothing looks for it again:
  once a later live event is delivered the cursor has passed it.
\<close>

theorem end_of_catch_up_drops_event:
  assumes "0 < stream_ordering p" "stream_ordering p < stream_ordering p'" "0 \<le> recorded" "owed_ok db n"
    and "get_last_successful db n = Some recorded" "recorded < stream_ordering p"
    and "e \<in> set (owed db n)" "ev_ordering e = stream_ordering p"
  shows "\<exists>s ts. run_actions valid
        [SetLastSuccessful recorded, TakeSkipped, EnqueuePDU p, FinishCatchUp, EnqueuePDU p', Wake,
         Thread 0 Proceed, Thread 0 Proceed, Thread 0 GateOpen, Thread 0 (Clock 0), Thread 0 SendOk,
         Thread 0 Proceed, Thread 0 Proceed, Thread 0 GateOpen, Thread 0 (Clock 0), Thread 0 Proceed, Thread 0 Proceed]
        (initial_system (new_destination n \<lparr>max_pdus = 0, max_edus = 0\<rparr> b)) = Some (s, ts)
    \<and> concat (map t_pdus (live_wire s)) = [p'] \<and> catchup_wire s = [] \<and> pending_pdus (dest s) = [] \<and> set ts = {Done}
    \<and> (let db' = fold (set_destination_last_successful n) (success_calls s) db in
        \<exists>l. get_last_successful db' n = Some l
          \<and> (\<forall>limit. ev_id e \<notin> set (get_catch_up_room_event_ids db' n l limit)))"
proof -
  obtain s ts where run: "run_actions valid
        [SetLastSuccessful recorded, TakeSkipped, EnqueuePDU p, FinishCatchUp, EnqueuePDU p', Wake,
         Thread 0 Proceed, Thread 0 Proceed, Thread 0 GateOpen, Thread 0 (Clock 0), Thread 0 SendOk,
         Thread 0 Proceed, Thread 0 Proceed, Thread 0 GateOpen, Thread 0 (Clock 0), Thread 0 Proceed, Thread 0 Proceed]
        (initial_system (new_destination n \<lparr>max_pdus = 0, max_edus = 0\<rparr> b)) = Some (s, ts)"
    and end_state: "concat (map t_pdus (live_wire s)) = [p']" "catchup_wire s = []" "ts = [Done]"
      "success_calls s = [stream_ordering p']" "pending_pdus (dest s) = []"
  proof -
    have o: "recorded < stream_ordering p'" "0 < stream_ordering p'" using assms(1,2,6) by simp_all
    show thesis
    proof (cases "recorded = 0")
      case True
      then show thesis using that o(2) assms(1)
        by (simp add: queue_eval set_last_successful_def take_catch_up_skipped_def finish_catch_up_def)
    next
      case False
      then have "0 < recorded" using assms(3) by simp
      then show thesis using that o(1) assms(1)
        by (simp add: queue_eval set_last_successful_def take_catch_up_skipped_def finish_catch_up_def)
    qed
  qed
  have "get_last_successful (set_destination_last_successful n (stream_ordering p') db) n = Some (stream_ordering p')"
    using assms(2,6) by (intro last_successful_after [OF assms(5)]) simp
  moreover have "ev_id e \<notin> set (get_catch_up_room_event_ids (set_destination_last_successful n (stream_ordering p') db) n
      (stream_ordering p') limit)" for limit
    using assms(2,8) by (intro passed_is_not_owed [OF assms(4,7)]) simp
  ultimately show ?thesis using run end_state
    by (intro exI [of _ s] exI [of _ ts]) (simp add: Let_def)
qed

definition behind_db :: synapse_db where
  "behind_db = owing_db\<lparr>db_destinations := [''b'' \<mapsto> empty_destination_row\<lparr>dr_last_successful := Some 3\<rparr>]\<rparr>"

lemma behind_db_facts:
  "owed behind_db ''b'' = [sample_event]" "owed_ok behind_db ''b''" "get_last_successful behind_db ''b'' = Some 3"
  using owed_sample owed_ok_sample
  by (simp_all add: behind_db_def owed_def owed_ok_def get_last_successful_def cong: if_cong)

theorem restart_skips_backlog_witness:
  "\<exists>s ts. reachable (\<lambda>_. True) (new_destination ''b'' \<lparr>max_pdus = 0, max_edus = 0\<rparr> \<lparr>max_states = 50, max_wait = 0\<rparr>) (s, ts)
     \<and> catchup_wire s = [] \<and> set ts = {Done}
     \<and> (\<exists>l. get_last_successful (fold (set_destination_last_successful ''b'') (success_calls s) behind_db) ''b'' = Some l
          \<and> ''$e'' \<notin> set (get_catch_up_room_event_ids
               (fold (set_destination_last_successful ''b'') (success_calls s) behind_db) ''b'' l 50))"
proof -
  have "0 < stream_ordering (sample_pdu ''$9'' 9)" "3 < stream_ordering (sample_pdu ''$9'' 9)"
    by (simp_all add: sample_pdu_def)
  from restart_skips_backlog [OF this(1) behind_db_facts(2,3) this(2),
      of "\<lambda>_. True" "\<lparr>max_states = 50, max_wait = 0\<rparr>"]
  have "\<exists>s ts. reachable (\<lambda>_. True) (new_destination ''b'' \<lparr>max_pdus = 0, max_edus = 0\<rparr> \<lparr>max_states = 50, max_wait = 0\<rparr>) (s, ts)
     \<and> catchup_wire s = [] \<and> set ts = {Done}
     \<and> (\<exists>l. get_last_successful (fold (set_destination_last_successful ''b'') (success_calls s) behind_db) ''b'' = Some l
          \<and> (\<forall>limit. ev_id sample_event \<notin> set (get_catch_up_room_event_ids
               (fold (set_destination_last_successful ''b'') (success_calls s) behind_db) ''b'' l limit)))"
    unfolding Let_def behind_db_facts(1) by (auto simp: ordering_sample sample_pdu_def)
  moreover have "ev_id sample_event = ''$e''" by (simp add: sample_event_def)
  ultimately show ?thesis by metis
qed

theorem end_of_catch_up_drops_event_witness:
  "\<exists>s ts as. run_actions (\<lambda>_. True) as
       (initial_system (new_destination ''b'' \<lparr>max_pdus = 0, max_edus = 0\<rparr> \<lparr>max_states = 50, max_wait = 0\<rparr>)) = Some (s, ts)
     \<and> EnqueuePDU (sample_pdu ''$e'' 7) \<in> set as \<and> pending_pdus (dest s) = [] \<and> set ts = {Done}
     \<and> concat (map t_pdus (live_wire s)) = [sample_pdu ''$9'' 9]"
proof -
  let ?p = "sample_pdu ''$e'' 7" and ?p' = "sample_pdu ''$9'' 9"
  have "0 < stream_ordering ?p" "stream_ordering ?p < stream_ordering ?p'" "3 < stream_ordering ?p"
    "ev_ordering sample_event = stream_ordering ?p" "sample_event \<in> set (owed behind_db ''b'')"
    by (simp_all add: sample_pdu_def ordering_sample behind_db_facts)
  from end_of_catch_up_drops_event [OF this(1,2) _ behind_db_facts(2,3) this(3,5,4),
      of "\<lambda>_. True" "\<lparr>max_states = 50, max_wait = 0\<rparr>"]
  obtain s ts where "run_actions (\<lambda>_. True)
        [SetLastSuccessful 3, TakeSkipped, EnqueuePDU ?p, FinishCatchUp, EnqueuePDU ?p', Wake,
         Thread 0 Proceed, Thread 0 Proceed, Thread 0 GateOpen, Thread 0 (Clock 0), Thread 0 SendOk,
         Thread 0 Proceed, Thread 0 Proceed, Thread 0 GateOpen, Thread 0 (Clock 0), Thread 0 Proceed, Thread 0 Proceed]
        (initial_system (new_destination ''b'' \<lparr>max_pdus = 0, max_edus = 0\<rparr> \<lparr>max_states = 50, max_wait = 0\<rparr>)) = Some (s, ts)"
    "concat (map t_pdus (live_wire s)) = [?p']" "pending_pdus (dest s) = []" "set ts = {Done}"
    by auto
  moreover have "EnqueuePDU ?p \<in> set
        [SetLastSuccessful 3, TakeSkipped, EnqueuePDU ?p, FinishCatchUp, EnqueuePDU ?p', Wake,
         Thread 0 Proceed, Thread 0 Proceed, Thread 0 GateOpen, Thread 0 (Clock 0), Thread 0 SendOk,
         Thread 0 Proceed, Thread 0 Proceed, Thread 0 GateOpen, Thread 0 (Clock 0), Thread 0 Proceed, Thread 0 Proceed]"
    by simp
  ultimately show ?thesis by blast
qed

end
