(* ===== verification/Devices.thy ===== *)
theory Devices
  imports Store Queue
begin

text \<open>
  \<open>internal/sender/devices.go\<close> and \<open>devicelist.go\<close>: to-device messages and device list updates
  from Synapse's tables into the destination queues. Operations answer what they did to the
  queues, the worker's cursors afterwards and whether they returned without an error; what the
  database answers meanwhile is a \<open>device_world\<close>. \<open>json.Marshal\<close> of an update's body is an
  argument (\<open>dw_marshal\<close>), \<open>None\<close> for its error.
\<close>

section \<open>Data\<close>

record device_detail =
  dd_exists :: bool
  dd_name :: string
  dd_keys :: json

record signing_key =
  sk_user :: string
  sk_type :: string
  sk_data :: json
  sk_pseudo :: string

record device_update =
  du_user :: string
  du_device :: string
  du_stream :: int
  du_prev :: "int list"
  du_deleted :: bool
  du_keys :: "json option"
  du_name :: "string option"

datatype device_body =
  UpdateBody device_update
| SigningBody string "(string \<times> json) list"

record device_world =
  dw_db :: synapse_db
  dw_cursor_ok :: bool
  dw_read_ok :: bool
  dw_set_ok :: bool
  dw_signing :: "string list \<Rightarrow> signing_key list option"
  dw_details :: "string list \<Rightarrow> string list \<Rightarrow> (string \<rightharpoonup> device_detail) option"
  dw_last_ok :: "string \<Rightarrow> bool"
  dw_marshal :: "device_body \<Rightarrow> raw_message option"

datatype device_effect = EnqueueMarked string edu | WakeQueue string

record devices =
  dv_should_handle :: "string \<Rightarrow> bool"
  dv_due_within :: "string \<Rightarrow> bool"
  dv_edus_per_read :: nat
  dv_allow_name :: bool

definition new_devices :: "(string \<Rightarrow> bool) \<Rightarrow> (string \<Rightarrow> bool) \<Rightarrow> int \<Rightarrow> bool \<Rightarrow> devices" where
  "new_devices mine is_due n allow =
     \<lparr>dv_should_handle = mine, dv_due_within = is_due,
      dv_edus_per_read = (if n \<le> 0 then 90 else nat n), dv_allow_name = allow\<rparr>"

definition our_share :: "devices \<Rightarrow> string list \<Rightarrow> string list" where
  "our_share dv servers = filter (\<lambda>s. dv_should_handle dv s \<and> dv_due_within dv s) servers"

section \<open>To-device messages\<close>

definition to_device_edu :: "to_device_message \<Rightarrow> int \<Rightarrow> edu" where
  "to_device_edu m mark =
     (plain_edu \<lparr>edu_type = EDUTypeDirectToDevice, edu_content = Raw (td_messages m)\<rparr>)\<lparr>to_device_upto := mark\<rparr>"

text \<open>The loop: only the last unit carries the mark.\<close>

fun to_device_edus :: "int \<Rightarrow> to_device_message list \<Rightarrow> edu list" where
  "to_device_edus mark [] = []"
| "to_device_edus mark (m # ms) = to_device_edu m (if ms = [] then mark else 0) # to_device_edus mark ms"

definition to_device_for ::
  "devices \<Rightarrow> device_world \<Rightarrow> string \<Rightarrow> int \<Rightarrow> state_store \<Rightarrow> device_effect list \<times> state_store \<times> bool" where
  "to_device_for dv w server current st =
     (let name = to_device_cursor server; last_id = coalesce0 (cursor_get st name) in
      if \<not> dw_cursor_ok w then ([], st, False)
      else if \<not> dw_read_ok w then ([], st, False)
      else case get_new_device_msgs (dv_edus_per_read dv) (db_outbox (dw_db w)) server last_id current of (msgs, next_id) \<Rightarrow>
        (let effs = (if msgs = [] then []
                     else map (EnqueueMarked server) (to_device_edus next_id msgs) @ [WakeQueue server])
         in if dw_set_ok w then (effs, cursor_set name next_id st, True) else (effs, st, False)))"

fun to_device_servers ::
  "devices \<Rightarrow> (string \<Rightarrow> device_world) \<Rightarrow> int \<Rightarrow> string list \<Rightarrow> state_store \<Rightarrow> device_effect list \<times> state_store \<times> bool" where
  "to_device_servers dv w current [] st = ([], st, True)"
| "to_device_servers dv w current (s # ss) st =
     (case to_device_for dv (w s) s current st of
        (effs, st', False) \<Rightarrow> (effs, st', False)
      | (effs, st', True) \<Rightarrow>
          (case to_device_servers dv w current ss st' of (effs', r) \<Rightarrow> (effs @ effs', r)))"

text \<open>\<open>HandleToDevice\<close>: \<open>max_id\<close> is the answer of \<open>MaxDeviceOutboxStreamID\<close>.\<close>

definition handle_to_device ::
  "devices \<Rightarrow> (string \<Rightarrow> device_world) \<Rightarrow> int option \<Rightarrow> string list \<Rightarrow> state_store
   \<Rightarrow> device_effect list \<times> state_store \<times> bool" where
  "handle_to_device dv w max_id servers st =
     (let ours = our_share dv servers in
      if ours = [] then ([], st, True)
      else case max_id of None \<Rightarrow> ([], st, False) | Some current \<Rightarrow> to_device_servers dv w current ours st)"

section \<open>Device lists\<close>

definition device_detail_key :: "string \<Rightarrow> string \<Rightarrow> string" where
  "device_detail_key user device = user @ CHR 0x00 # device"

text \<open>A Go map filled in the order of the list: the last entry of a key stays.\<close>

definition key_by_pseudo_device :: "signing_key list \<Rightarrow> (string \<rightharpoonup> signing_key)" where
  "key_by_pseudo_device ks = map_of (rev (map (\<lambda>k. (device_detail_key (sk_user k) (sk_pseudo k), k)) ks))"

definition poke_key :: "device_poke \<Rightarrow> string" where
  "poke_key p = device_detail_key (dp_user p) (dp_device p)"

definition prev_ids :: "int \<Rightarrow> int list" where
  "prev_ids prev = (if prev = 0 then [] else [prev])"

definition update_of :: "devices \<Rightarrow> (string \<rightharpoonup> device_detail) \<Rightarrow> int \<Rightarrow> device_poke \<Rightarrow> device_update" where
  "update_of dv details prev p =
     (let base = \<lparr>du_user = dp_user p, du_device = dp_device p, du_stream = dp_stream_id p, du_prev = prev_ids prev,
                  du_deleted = False, du_keys = None, du_name = None\<rparr> in
      case details (poke_key p) of
        None \<Rightarrow> base\<lparr>du_deleted := True\<rparr>
      | Some det \<Rightarrow>
          if \<not> dd_exists det then base\<lparr>du_deleted := True\<rparr>
          else base\<lparr>du_keys := (if dd_keys det \<noteq> [] then Some (dd_keys det) else None),
                    du_name := (if dv_allow_name dv \<and> dd_name det \<noteq> [] then Some (dd_name det) else None)\<rparr>)"

text \<open>The updates of one user, each chaining from the one before; key changes are passed over.\<close>

fun user_updates ::
  "devices \<Rightarrow> (string \<rightharpoonup> signing_key) \<Rightarrow> (string \<rightharpoonup> device_detail) \<Rightarrow> int \<Rightarrow> device_poke list \<Rightarrow> device_update list" where
  "user_updates dv keys details prev [] = []"
| "user_updates dv keys details prev (p # ps) =
     (case keys (poke_key p) of
        Some k \<Rightarrow> user_updates dv keys details prev ps
      | None \<Rightarrow> update_of dv details prev p # user_updates dv keys details (dp_stream_id p) ps)"

definition merge_signing_key :: "(string \<times> json) list \<Rightarrow> signing_key \<Rightarrow> (string \<times> json) list" where
  "merge_signing_key into k =
     (if sk_type k = ''master'' then AList.update ''master_key'' (sk_data k) into
      else if sk_type k = ''self_signing'' then AList.update ''self_signing_key'' (sk_data k) into
      else into)"

definition merge_signing :: "string \<Rightarrow> signing_key \<Rightarrow> (string \<times> (string \<times> json) list) list \<Rightarrow> (string \<times> (string \<times> json) list) list" where
  "merge_signing user k signing =
     AList.update user (merge_signing_key (case map_of signing user of None \<Rightarrow> [] | Some m \<Rightarrow> m) k) signing"

fun user_signing ::
  "(string \<rightharpoonup> signing_key) \<Rightarrow> device_poke list \<Rightarrow> (string \<times> (string \<times> json) list) list \<Rightarrow> (string \<times> (string \<times> json) list) list" where
  "user_signing keys [] signing = signing"
| "user_signing keys (p # ps) signing =
     (case keys (poke_key p) of
        None \<Rightarrow> user_signing keys ps signing
      | Some k \<Rightarrow> user_signing keys ps (merge_signing (dp_user p) k signing))"

text \<open>\<open>order\<close>: the users as they are met.\<close>

fun users_of :: "device_poke list \<Rightarrow> string list \<Rightarrow> string list" where
  "users_of [] seen = seen"
| "users_of (p # ps) seen = users_of ps (if dp_user p \<in> set seen then seen else seen @ [dp_user p])"

definition of_user :: "string \<Rightarrow> device_poke list \<Rightarrow> device_poke list" where
  "of_user user pokes = sort_key dp_stream_id (filter (\<lambda>p. dp_user p = user) pokes)"

definition highest_of :: "int \<Rightarrow> device_poke list \<Rightarrow> int" where
  "highest_of from_id pokes = fold (\<lambda>p h. if dp_stream_id p > h then dp_stream_id p else h) pokes from_id"

definition signing_bodies :: "(string \<times> (string \<times> json) list) list \<Rightarrow> (string \<times> device_body) list" where
  "signing_bodies signing =
     concat (map (\<lambda>user. let body = SigningBody user (the (map_of signing user))
                         in [(EDUTypeSigningKeyUpdate, body), (EDUTypeUnstableSigningKeyUpdate, body)])
                 (sort (map fst signing)))"

fun marshal_all :: "(device_body \<Rightarrow> raw_message option) \<Rightarrow> (string \<times> device_body) list \<Rightarrow> txn_edu list option" where
  "marshal_all mj [] = Some []"
| "marshal_all mj ((ty, b) # bs) =
     (case mj b of None \<Rightarrow> None
      | Some raw \<Rightarrow> (case marshal_all mj bs of None \<Rightarrow> None
                   | Some es \<Rightarrow> Some (\<lparr>edu_type = ty, edu_content = Raw raw\<rparr> # es)))"

text \<open>\<open>buildDeviceListEDUs\<close>, before and after the encoding of the bodies.\<close>

definition device_list_bodies ::
  "devices \<Rightarrow> (string \<Rightarrow> int) \<Rightarrow> signing_key list \<Rightarrow> (string \<rightharpoonup> device_detail) \<Rightarrow> device_poke list \<Rightarrow> (string \<times> device_body) list" where
  "device_list_bodies dv last_update ks details pokes =
     (let keys = key_by_pseudo_device ks; users = users_of pokes [] in
      concat (map (\<lambda>user. map (\<lambda>u. (EDUTypeDeviceListUpdate, UpdateBody u))
                      (user_updates dv keys details (last_update user) (of_user user pokes))) users)
      @ signing_bodies (fold (\<lambda>user. user_signing keys (of_user user pokes)) users []))"

definition build_device_list_edus ::
  "devices \<Rightarrow> device_world \<Rightarrow> string \<Rightarrow> int \<Rightarrow> device_poke list \<Rightarrow> (txn_edu list \<times> int) option" where
  "build_device_list_edus dv w server from_id pokes =
     (if pokes = [] then Some ([], from_id)
      else case dw_signing w (map dp_user pokes) of
        None \<Rightarrow> None
      | Some ks \<Rightarrow>
          (case dw_details w (map dp_user pokes) (map dp_device pokes) of
             None \<Rightarrow> None
           | Some details \<Rightarrow>
               if list_ex (\<lambda>user. \<not> dw_last_ok w user) (users_of pokes []) then None
               else map_option (\<lambda>edus. (edus, highest_of from_id pokes))
                 (marshal_all (dw_marshal w)
                   (device_list_bodies dv (\<lambda>user. get_last_device_update (dw_db w) server user from_id) ks details pokes))))"

fun device_list_edus :: "int \<Rightarrow> txn_edu list \<Rightarrow> edu list" where
  "device_list_edus mark [] = []"
| "device_list_edus mark (e # es) = (plain_edu e)\<lparr>device_list_upto := (if es = [] then mark else 0)\<rparr> # device_list_edus mark es"

definition device_lists_for ::
  "devices \<Rightarrow> device_world \<Rightarrow> string \<Rightarrow> int \<Rightarrow> state_store \<Rightarrow> device_effect list \<times> state_store \<times> bool" where
  "device_lists_for dv w server current st =
     (let name = device_list_cursor server; last_id = coalesce0 (cursor_get st name) in
      if \<not> dw_cursor_ok w then ([], st, False)
      else if \<not> dw_read_ok w then ([], st, False)
      else (let pokes = get_device_updates (dv_edus_per_read dv) (db_pokes (dw_db w)) server last_id current in
        if pokes = [] then (if dw_set_ok w then ([], cursor_set name current st, True) else ([], st, False))
        else case build_device_list_edus dv w server last_id pokes of
          None \<Rightarrow> ([], st, False)
        | Some (edus, highest) \<Rightarrow>
            (let effs = map (EnqueueMarked server) (device_list_edus highest edus) @ [WakeQueue server]
             in if dw_set_ok w then (effs, cursor_set name highest st, True) else (effs, st, False))))"

fun device_list_servers ::
  "devices \<Rightarrow> (string \<Rightarrow> device_world) \<Rightarrow> int \<Rightarrow> string list \<Rightarrow> state_store \<Rightarrow> device_effect list \<times> state_store \<times> bool" where
  "device_list_servers dv w current [] st = ([], st, True)"
| "device_list_servers dv w current (s # ss) st =
     (case device_lists_for dv (w s) s current st of
        (effs, st', False) \<Rightarrow> (effs, st', False)
      | (effs, st', True) \<Rightarrow>
          (case device_list_servers dv w current ss st' of (effs', r) \<Rightarrow> (effs @ effs', r)))"

text \<open>\<open>HandleDeviceLists\<close>: \<open>named\<close> and \<open>max_id\<close> are the answers of the first two queries.\<close>

definition handle_device_lists ::
  "devices \<Rightarrow> (string \<Rightarrow> device_world) \<Rightarrow> string list option \<Rightarrow> int option \<Rightarrow> state_store
   \<Rightarrow> device_effect list \<times> state_store \<times> bool" where
  "handle_device_lists dv w named max_id st =
     (case named of
        None \<Rightarrow> ([], st, False)
      | Some servers \<Rightarrow>
          (let ours = our_share dv servers in
           if ours = [] then ([], st, True)
           else case max_id of None \<Rightarrow> ([], st, False) | Some current \<Rightarrow> device_list_servers dv w current ours st))"

section \<open>To-device messages are queued once\<close>

definition queued_units :: "string \<Rightarrow> device_effect list \<Rightarrow> edu list" where
  "queued_units d effs = List.map_filter (\<lambda>x. case x of EnqueueMarked d' e \<Rightarrow> if d' = d then Some e else None | _ \<Rightarrow> None) effs"

lemma queued_units_simps [simp]:
  "queued_units d [] = []"
  "queued_units d (x # xs) = (case x of EnqueueMarked d' e \<Rightarrow> if d' = d then [e] else [] | _ \<Rightarrow> []) @ queued_units d xs"
  "queued_units d (xs @ ys) = queued_units d xs @ queued_units d ys"
  "queued_units d (map (EnqueueMarked d) es) = es"
  by (auto simp: queued_units_def map_filter_def comp_def split: device_effect.splits)

definition direct_unit :: "to_device_message \<Rightarrow> txn_edu" where
  "direct_unit m = \<lparr>edu_type = EDUTypeDirectToDevice, edu_content = Raw (td_messages m)\<rparr>"

lemma units_of_to_device: "map unit_of (to_device_edus mark ms) = map direct_unit ms"
  by (induction ms) (simp_all add: to_device_edu_def plain_edu_def direct_unit_def)

text \<open>\<open>L\<close>: every row ever written for the server. A snapshot shows those above the cursor.\<close>

definition rows_visible :: "to_device_message list \<Rightarrow> string \<Rightarrow> int \<Rightarrow> int \<Rightarrow> synapse_db \<Rightarrow> bool" where
  "rows_visible L d lo current db \<longleftrightarrow>
     distinct (map td_stream_id L) \<and> distinct (map td_stream_id (filter (\<lambda>m. td_destination m = d) (db_outbox db)))
     \<and> (\<forall>m. lo < td_stream_id m \<and> td_stream_id m \<le> current \<longrightarrow>
            (m \<in> set L \<longleftrightarrow> m \<in> set (db_outbox db) \<and> td_destination m = d))"

lemma window_same:
  assumes "distinct (map key xs)" "distinct (map key ys)"
    and "\<forall>x. lo < key x \<and> key x \<le> hi \<longrightarrow> (x \<in> set xs \<longleftrightarrow> x \<in> set ys)"
  shows "window key lo hi xs = window key lo hi ys"
proof -
  have s: "set (window key lo hi xs) = set (window key lo hi ys)" using assms(3) by (auto simp: set_window)
  have d: "distinct (map key (window key lo hi zs))" if "distinct (map key zs)" for zs
    using that by (simp add: window_def distinct_map) (simp add: inj_on_def)
  have "inj_on key (set (window key lo hi xs) \<union> set (window key lo hi ys))"
    using d [OF assms(1)] by (simp add: s [symmetric] distinct_map)
  then show ?thesis
    by (rule map_sorted_distinct_set_unique) (use s d assms in \<open>simp_all add: sorted_window\<close>)
qed

text \<open>
  Any sequence of pokes: every query and every write of the cursor may fail. The number counts the
  pokes that put units in the queue and then could not save the cursor.
\<close>

inductive to_device_run ::
  "devices \<Rightarrow> string \<Rightarrow> to_device_message list \<Rightarrow> state_store \<Rightarrow> nat \<Rightarrow> device_effect list \<Rightarrow> state_store \<Rightarrow> bool"
  for dv d L st0 where
  none: "to_device_run dv d L st0 0 [] st0"
| poke: "to_device_run dv d L st0 n effs st \<Longrightarrow> rows_visible L d (coalesce0 (cursor_get st (to_device_cursor d))) current (dw_db w)
           \<Longrightarrow> 0 \<le> current \<Longrightarrow> to_device_for dv w d current st = (effs', st', ok)
           \<Longrightarrow> to_device_run dv d L st0 (if effs' \<noteq> [] \<and> \<not> ok then Suc n else n) (effs @ effs') st'"

lemma coalesce_cursor_set:
  "0 \<le> pos \<Longrightarrow> 0 \<le> coalesce0 (cursor_get st name) \<Longrightarrow>
     coalesce0 (cursor_get (cursor_set name pos st) name) = max (coalesce0 (cursor_get st name)) pos"
  by (auto simp: cursor_get_set coalesce0_def split: option.splits)

lemma marked_last:
  "to_device_edus mark ms = ys @ e # zs \<Longrightarrow> 0 < to_device_upto e \<Longrightarrow> to_device_upto e = mark \<and> zs = []"
proof (induction ms arbitrary: ys)
  case (Cons m ms)
  then show ?case by (cases ys; cases ms) (auto simp: to_device_edu_def plain_edu_def)
qed simp

text \<open>One poke reads a window above the cursor; the cursor moves to its end, unless that fails.\<close>

lemma to_device_for_spec:
  assumes run: "to_device_for dv w d current st = (effs, st', ok)" and "0 < dv_edus_per_read dv"
    and vis: "rows_visible L d c current (dw_db w)" and c: "c = coalesce0 (cursor_get st (to_device_cursor d))"
    and "0 \<le> c" "0 \<le> current"
  shows "\<exists>c'. c \<le> c' \<and> coalesce0 (cursor_get st' (to_device_cursor d)) = (if effs \<noteq> [] \<and> \<not> ok then c else c')
    \<and> map unit_of (queued_units d effs) = map direct_unit (window td_stream_id c c' L)
    \<and> (\<forall>ys e zs. queued_units d effs = ys @ e # zs \<and> 0 < to_device_upto e \<longrightarrow> to_device_upto e = c' \<and> zs = [])"
proof -
  let ?rows = "filter (\<lambda>m. td_destination m = d) (db_outbox (dw_db w))"
  let ?rd = "get_new_device_msgs (dv_edus_per_read dv) (db_outbox (dw_db w)) d c current"
  show ?thesis
  proof (cases "\<not> dw_cursor_ok w \<or> \<not> dw_read_ok w \<or> effs = [] \<and> \<not> ok")
    case True
    with run c have "effs = []" "st' = st" by (auto simp: to_device_for_def Let_def split: if_splits prod.splits)
    with c show ?thesis by (intro exI [of _ c]) (simp add: window_empty)
  next
    case False
    obtain msgs next_id where rd: "?rd = (msgs, next_id)" by force
    from run False rd c have
      effs: "effs = (if msgs = [] then [] else map (EnqueueMarked d) (to_device_edus next_id msgs) @ [WakeQueue d])"
      and st': "st' = (if ok then cursor_set (to_device_cursor d) next_id st else st)"
      by (auto simp: to_device_for_def Let_def split: if_splits)
    have units: "queued_units d effs = to_device_edus next_id msgs" by (simp add: effs)
    show ?thesis
    proof (cases "c < current")
      case low: False
      with rd have m: "msgs = []" "next_id = current" by (auto simp: get_new_device_msgs_def)
      with False have ok by (simp add: effs)
      with m low st' assms(5,6) c show ?thesis
        by (intro exI [of _ c]) (simp add: units coalesce_cursor_set window_empty max_def)
    next
      case True
      have good: "case (dv_edus_per_read dv, db_outbox (dw_db w), d) of (limit, outbox, d) \<Rightarrow>
          0 < limit \<and> distinct (map td_stream_id (filter (\<lambda>m. td_destination m = d) outbox))"
        using assms(2) vis by (simp add: rows_visible_def)
      have np: "c < next_id" "next_id \<le> current" using outbox_stream.progress [OF good True] by (auto simp: rd)
      have "msgs = window td_stream_id c next_id ?rows" using outbox_stream.exact [OF good True] by (simp add: rd)
      also have "\<dots> = window td_stream_id c next_id L"
        using vis np(2) by (intro window_same) (auto simp: rows_visible_def)
      finally have msgs: "msgs = window td_stream_id c next_id L" .
      have "coalesce0 (cursor_get st' (to_device_cursor d)) = (if effs \<noteq> [] \<and> \<not> ok then c else next_id)"
        using np assms(5) c False by (auto simp: st' coalesce_cursor_set)
      moreover have "\<forall>ys e zs. queued_units d effs = ys @ e # zs \<and> 0 < to_device_upto e \<longrightarrow> to_device_upto e = next_id \<and> zs = []"
        unfolding units by (blast dest: marked_last)
      moreover have "map unit_of (queued_units d effs) = map direct_unit (window td_stream_id c next_id L)"
        by (simp add: units units_of_to_device flip: msgs)
      ultimately show ?thesis using np(1) less_imp_le by blast
    qed
  qed
qed

text \<open>
  What a run has queued is the units of a list of rows: windows of the outbox one after the other.
  \<open>n\<close> is how often the cursor could not be saved.
\<close>

definition queued_rows :: "string \<Rightarrow> to_device_message list \<Rightarrow> int \<Rightarrow> nat \<Rightarrow> device_effect list \<Rightarrow> int \<Rightarrow> to_device_message list \<Rightarrow> bool" where
  "queued_rows d L c0 n effs c rows \<longleftrightarrow>
     map unit_of (queued_units d effs) = map direct_unit rows
     \<and> set (window td_stream_id c0 c L) \<subseteq> set rows \<and> (\<forall>m \<in> set rows. m \<in> set L \<and> c0 < td_stream_id m)
     \<and> (\<forall>m. count_list rows m \<le> n + (if td_stream_id m \<le> c then 1 else 0))
     \<and> (n = 0 \<longrightarrow> rows = window td_stream_id c0 c L)
     \<and> (\<forall>ys e zs. queued_units d effs = ys @ e # zs \<and> 0 < to_device_upto e \<longrightarrow>
          set (window td_stream_id c0 (to_device_upto e) L) \<subseteq> set (take (Suc (length ys)) rows))"

lemma window_subset: "set (window td_stream_id lo hi L) \<subseteq> S \<longleftrightarrow> (\<forall>m \<in> set L. lo < td_stream_id m \<and> td_stream_id m \<le> hi \<longrightarrow> m \<in> S)"
  by (auto simp: set_window)

lemma split_append: "xs @ ys = as @ e # bs \<Longrightarrow> (\<exists>us. xs = as @ e # us) \<or> (\<exists>us. as = xs @ us \<and> ys = us @ e # bs)"
  by (auto simp: append_eq_append_conv2 append_eq_Cons_conv Cons_eq_append_conv)

lemma count_list_distinct: "distinct xs \<Longrightarrow> count_list xs x = (if x \<in> set xs then 1 else 0)"
  by (induction xs) (auto simp: count_list_0_iff)

lemma distinct_window_rows: "distinct (map key xs) \<Longrightarrow> distinct (window key lo hi xs)"
  by (simp add: window_def distinct_map)

lemma queued_rows_step:
  assumes Q: "queued_rows d L c0 n effs c rows" and le: "c0 \<le> c" "c \<le> c'" and L: "distinct (map td_stream_id L)"
    and units: "map unit_of (queued_units d effs') = map direct_unit (window td_stream_id c c' L)"
    and marks: "\<forall>ys e zs. queued_units d effs' = ys @ e # zs \<and> 0 < to_device_upto e \<longrightarrow> to_device_upto e = c' \<and> zs = []"
  shows "queued_rows d L c0 (if lost then Suc n else n) (effs @ effs') (if lost then c else c') (rows @ window td_stream_id c c' L)"
proof -
  let ?W = "window td_stream_id c c' L"
  have W: "window td_stream_id c0 c' L = window td_stream_id c0 c L @ ?W" by (rule window_append [OF le, symmetric])
  note Qs = Q [unfolded queued_rows_def]
  note U = Qs [THEN conjunct1] and S = Qs [THEN conjunct2, THEN conjunct1] and In = Qs [THEN conjunct2, THEN conjunct2, THEN conjunct1]
    and C = Qs [THEN conjunct2, THEN conjunct2, THEN conjunct2, THEN conjunct1, rule_format]
    and Z = Qs [THEN conjunct2, THEN conjunct2, THEN conjunct2, THEN conjunct2, THEN conjunct1]
    and M = Qs [THEN conjunct2, THEN conjunct2, THEN conjunct2, THEN conjunct2, THEN conjunct2, rule_format]
  have all: "map unit_of (queued_units d (effs @ effs')) = map direct_unit (rows @ ?W)" using U units by simp
  have inL: "m \<in> set L \<and> c0 < td_stream_id m" if m: "m \<in> set (rows @ ?W)" for m
  proof (cases "m \<in> set rows")
    case True
    then show ?thesis using In by blast
  next
    case False
    then have "m \<in> set ?W" using m by simp
    then have "m \<in> set L" "c < td_stream_id m" by (simp_all add: set_window)
    then show ?thesis using le(1) by simp
  qed
  have cnt: "count_list (rows @ ?W) m \<le> (if lost then Suc n else n) + (if td_stream_id m \<le> (if lost then c else c') then 1 else 0)" for m
  proof -
    note C [of m]
    moreover have "count_list ?W m = (if m \<in> set ?W then 1 else 0)" by (rule count_list_distinct) (rule distinct_window_rows [OF L])
    moreover have "m \<in> set ?W \<longrightarrow> c < td_stream_id m \<and> td_stream_id m \<le> c'" by (auto simp: set_window)
    ultimately show ?thesis using le(2) by (auto split: if_splits)
  qed
  have mark: "set (window td_stream_id c0 (to_device_upto e) L) \<subseteq> set (take (Suc (length ys)) (rows @ ?W))"
    if e: "queued_units d (effs @ effs') = ys @ e # zs" "0 < to_device_upto e" for ys e zs
  proof -
    from split_append [of "queued_units d effs" "queued_units d effs'" ys e zs] e(1)
    consider us where "queued_units d effs = ys @ e # us" | us where "ys = queued_units d effs @ us" "queued_units d effs' = us @ e # zs" by auto
    then show ?thesis
    proof cases
      case 1
      then have "set (window td_stream_id c0 (to_device_upto e) L) \<subseteq> set (take (Suc (length ys)) rows)" using M [of ys e us] e(2) by simp
      then show ?thesis by auto
    next
      case (2 us)
      with marks e(2) have m: "to_device_upto e = c'" "zs = []" by blast+
      have "length (queued_units d effs) = length rows" using arg_cong [OF U, of length] by simp
      moreover have "Suc (length us) = length ?W" using arg_cong [OF units, of length] 2(2) m(2) by simp
      ultimately have "Suc (length ys) = length (rows @ ?W)" by (simp add: 2(1))
      then have "take (Suc (length ys)) (rows @ ?W) = rows @ ?W" by simp
      then show ?thesis using S by (auto simp: m(1) W)
    qed
  qed
  have "set (window td_stream_id c0 (if lost then c else c') L) \<subseteq> set (rows @ ?W)" using S by (auto simp: W)
  moreover have "(if lost then Suc n else n) = 0 \<longrightarrow> rows @ ?W = window td_stream_id c0 (if lost then c else c') L"
    using Z by (simp add: W)
  moreover have "\<forall>m \<in> set (rows @ ?W). m \<in> set L \<and> c0 < td_stream_id m" using inL by blast
  moreover have "\<forall>m. count_list (rows @ ?W) m \<le> (if lost then Suc n else n) + (if td_stream_id m \<le> (if lost then c else c') then 1 else 0)"
    using cnt by (rule allI)
  moreover have "\<forall>ys e zs. queued_units d (effs @ effs') = ys @ e # zs \<and> 0 < to_device_upto e \<longrightarrow>
      set (window td_stream_id c0 (to_device_upto e) L) \<subseteq> set (take (Suc (length ys)) (rows @ ?W))"
    using mark by (intro allI impI) (elim conjE)
  ultimately show ?thesis unfolding queued_rows_def using all by (intro conjI)
qed

lemma to_device_run_spec:
  assumes "to_device_run dv d L st0 n effs st" "0 < dv_edus_per_read dv"
    and "0 \<le> coalesce0 (cursor_get st0 (to_device_cursor d))"
  defines "c0 \<equiv> coalesce0 (cursor_get st0 (to_device_cursor d))"
  shows "c0 \<le> coalesce0 (cursor_get st (to_device_cursor d))
    \<and> (\<exists>rows. queued_rows d L c0 n effs (coalesce0 (cursor_get st (to_device_cursor d))) rows)"
  using assms(1)
proof induction
  case none
  then show ?case by (auto simp: c0_def window_empty queued_rows_def)
next
  case (poke n effs st current w effs' st' ok)
  let ?c = "coalesce0 (cursor_get st (to_device_cursor d))"
  let ?lost = "effs' \<noteq> [] \<and> \<not> ok"
  obtain rows where IH: "c0 \<le> ?c" "queued_rows d L c0 n effs ?c rows" using poke.IH by auto
  have "0 \<le> ?c" using IH(1) assms(3) by (simp add: c0_def)
  with to_device_for_spec [OF poke.hyps(4) assms(2) poke.hyps(2) refl _ poke.hyps(3)]
  obtain c' where c': "?c \<le> c'" "coalesce0 (cursor_get st' (to_device_cursor d)) = (if ?lost then ?c else c')"
    "map unit_of (queued_units d effs') = map direct_unit (window td_stream_id ?c c' L)"
    "\<forall>ys e zs. queued_units d effs' = ys @ e # zs \<and> 0 < to_device_upto e \<longrightarrow> to_device_upto e = c' \<and> zs = []"
    by blast
  have L: "distinct (map td_stream_id L)" using poke.hyps(2) by (simp add: rows_visible_def)
  from queued_rows_step [OF IH(2,1) c'(1) L c'(3,4), of ?lost] c'(1,2) IH(1) show ?case by auto
qed


section \<open>Device list updates chain\<close>

lemma user_updates_first:
  "user_updates dv keys details prev ps = u # us \<Longrightarrow> du_prev u = prev_ids prev"
  by (induction ps arbitrary: prev) (auto simp: update_of_def Let_def split: option.splits if_splits)

lemma update_of_fields [simp]:
  "du_user (update_of dv details prev p) = dp_user p" "du_device (update_of dv details prev p) = dp_device p"
  "du_stream (update_of dv details prev p) = dp_stream_id p" "du_prev (update_of dv details prev p) = prev_ids prev"
  by (auto simp: update_of_def Let_def split: option.splits)

lemma user_updates_chain:
  "i < length (user_updates dv keys details prev ps) \<Longrightarrow>
     du_prev (user_updates dv keys details prev ps ! i)
       = prev_ids (if i = 0 then prev else du_stream (user_updates dv keys details prev ps ! (i - 1)))"
proof (induction ps arbitrary: prev i)
  case (Cons p ps)
  show ?case
  proof (cases "keys (poke_key p)")
    case None
    let ?us = "user_updates dv keys details (dp_stream_id p) ps"
    have eq: "user_updates dv keys details prev (p # ps) = update_of dv details prev p # ?us" by (simp add: None)
    show ?thesis
    proof (cases i)
      case (Suc j)
      with Cons.prems have "j < length ?us" by (simp add: None)
      from Cons.IH [OF this] show ?thesis unfolding eq Suc by (cases j) simp_all
    qed (simp only: eq, simp)
  qed (use Cons in simp)
qed simp

lemma user_updates_pokes:
  "map (\<lambda>u. (du_user u, du_device u, du_stream u)) (user_updates dv keys details prev ps)
     = map (\<lambda>p. (dp_user p, dp_device p, dp_stream_id p)) (filter (\<lambda>p. keys (poke_key p) = None) ps)"
  by (induction ps arbitrary: prev) (auto split: option.splits)

definition updates_for :: "string \<Rightarrow> (string \<times> device_body) list \<Rightarrow> device_update list" where
  "updates_for user bodies =
     List.map_filter (\<lambda>(ty, b). case b of UpdateBody u \<Rightarrow> if du_user u = user then Some u else None | _ \<Rightarrow> None) bodies"

lemma updates_for_simps [simp]:
  "updates_for user [] = []"
  "updates_for user (xs @ ys) = updates_for user xs @ updates_for user ys"
  "updates_for user (signing_bodies s) = []"
  by (auto simp: updates_for_def map_filter_def signing_bodies_def filter_empty_conv Let_def)

lemma updates_for_map:
  "\<forall>u \<in> set us. du_user u = user' \<Longrightarrow>
     updates_for user (map (\<lambda>u. (ty, UpdateBody u)) us) = (if user' = user then us else [])"
  by (induction us) (auto simp: updates_for_def map_filter_def)

lemma users_of_facts:
  "distinct seen \<Longrightarrow> distinct (users_of ps seen) \<and> set (users_of ps seen) = set seen \<union> dp_user ` set ps"
  by (induction ps arbitrary: seen) (auto simp del: insert_subset)

lemma updates_for_users:
  assumes "\<And>user'. \<forall>u \<in> set (f user'). du_user u = user'" "distinct users"
  shows "updates_for user (concat (map (\<lambda>user'. map (\<lambda>u. (ty, UpdateBody u)) (f user')) users))
    = (if user \<in> set users then f user else [])"
  using assms(2) by (induction users) (auto simp: updates_for_map [OF assms(1)])

lemma user_updates_user:
  "u \<in> set (user_updates dv keys details prev ps) \<Longrightarrow> \<exists>p \<in> set ps. du_user u = dp_user p"
  by (induction ps arbitrary: prev) (auto split: option.splits)

lemma highest_of_max: "highest_of h ps = fold max (map dp_stream_id ps) h"
  by (induction ps arbitrary: h) (auto simp: highest_of_def max_def)

lemma updates_for_bodies:
  "updates_for user (device_list_bodies dv last_update ks details pokes)
     = user_updates dv (key_by_pseudo_device ks) details (last_update user) (of_user user pokes)"
proof -
  let ?f = "\<lambda>user. user_updates dv (key_by_pseudo_device ks) details (last_update user) (of_user user pokes)"
  have "\<forall>u \<in> set (?f user'). du_user u = user'" for user'
    by (auto dest!: user_updates_user simp: of_user_def)
  moreover have "?f user = []" if "user \<notin> set (users_of pokes [])"
  proof -
    have "filter (\<lambda>p. dp_user p = user) pokes = []" using that users_of_facts [of "[]" pokes] by (auto simp: filter_empty_conv)
    then have "of_user user pokes = []" by (simp add: of_user_def)
    then show ?thesis by simp
  qed
  ultimately show ?thesis
    using users_of_facts [of "[]" pokes]
    by (simp add: device_list_bodies_def Let_def updates_for_users [where f = ?f])
qed

text \<open>
  C17. Device list updates chain. In the batch built for a destination the updates of each user
  are in stream order, one for every poke that is not a cross-signing key; the first names as
  its predecessor the last update delivered to that destination for that user, or none, and
  every later one names the one before it; and the mark of the batch is the greatest stream id
  in it.
\<close>

theorem device_list_chain:
  fixes ks :: "signing_key list" and dv :: devices and details :: "string \<rightharpoonup> device_detail"
    and last_update :: "string \<Rightarrow> int" and user :: string
  assumes "pokes \<noteq> []" "\<forall>p \<in> set pokes. from_id < dp_stream_id p"
  defines "keys \<equiv> key_by_pseudo_device ks"
  defines "us \<equiv> updates_for user (device_list_bodies dv last_update ks details pokes)"
  shows "map (\<lambda>u. (du_device u, du_stream u)) us
      = map (\<lambda>p. (dp_device p, dp_stream_id p))
          (sort_key dp_stream_id (filter (\<lambda>p. dp_user p = user \<and> keys (poke_key p) = None) pokes))
    \<and> (\<forall>i < length us. du_prev (us ! i) = prev_ids (if i = 0 then last_update user else du_stream (us ! (i - 1))))
    \<and> (\<forall>p \<in> set pokes. dp_stream_id p \<le> highest_of from_id pokes)
    \<and> highest_of from_id pokes \<in> dp_stream_id ` set pokes"
proof -
  have us: "us = user_updates dv keys details (last_update user) (of_user user pokes)"
    by (simp add: us_def keys_def updates_for_bodies)
  from arg_cong [OF user_updates_pokes [of dv keys details "last_update user" "of_user user pokes"], of "map snd"]
  have "map (\<lambda>u. (du_device u, du_stream u)) us
      = map (\<lambda>p. (dp_device p, dp_stream_id p)) (filter (\<lambda>p. keys (poke_key p) = None) (of_user user pokes))"
    by (simp add: us comp_def)
  moreover have "filter (\<lambda>p. keys (poke_key p) = None) (of_user user pokes)
      = sort_key dp_stream_id (filter (\<lambda>p. dp_user p = user \<and> keys (poke_key p) = None) pokes)"
    by (simp add: of_user_def filter_sort conj_commute)
  moreover have h: "highest_of from_id pokes = Max (set (from_id # map dp_stream_id pokes))"
    unfolding highest_of_max by (simp only: Max.set_eq_fold)
  moreover have "highest_of from_id pokes \<in> dp_stream_id ` set pokes"
  proof -
    have "highest_of from_id pokes \<in> set (from_id # map dp_stream_id pokes)" unfolding h by (rule Max_in) simp_all
    moreover obtain p where "p \<in> set pokes" using assms(1) by (cases pokes) auto
    moreover from this have "dp_stream_id p \<le> highest_of from_id pokes" unfolding h by simp
    ultimately show ?thesis using assms(2) by force
  qed
  ultimately show ?thesis by (simp add: user_updates_chain us)
qed

definition sample_devices :: devices where
  "sample_devices = new_devices (\<lambda>d. True) (\<lambda>d. True) 0 True"

definition sample_poke :: "string \<Rightarrow> int \<Rightarrow> device_poke" where
  "sample_poke device n = \<lparr>dp_destination = ''b'', dp_user = ''@a:x'', dp_device = device, dp_stream_id = n, dp_context = []\<rparr>"

theorem device_list_chain_witness:
  "map du_prev (updates_for ''@a:x'' (device_list_bodies sample_devices (\<lambda>u. 2) [] Map.empty
     [sample_poke ''D'' 5, sample_poke ''E'' 4])) = [[2], [4]]"
proof -
  let ?ps = "[sample_poke ''D'' 5, sample_poke ''E'' 4]"
  let ?us = "updates_for ''@a:x'' (device_list_bodies sample_devices (\<lambda>u. 2) [] Map.empty ?ps)"
  have "map (\<lambda>u. (du_device u, du_stream u)) ?us = [(''E'', 4), (''D'', 5)]"
    and prev: "\<forall>i < length ?us. du_prev (?us ! i) = prev_ids (if i = 0 then 2 else du_stream (?us ! (i - 1)))"
    using device_list_chain [where pokes = ?ps and from_id = 3 and user = "''@a:x''" and ks = "[]"
        and dv = sample_devices and last_update = "\<lambda>u. 2" and details = Map.empty]
    by (simp_all add: sample_poke_def key_by_pseudo_device_def)
  then obtain u v where uv: "?us = [u, v]" "du_stream u = 4" by (auto simp: map_eq_Cons_conv)
  with prev have "du_prev u = prev_ids 2" "du_prev v = prev_ids 4"
    using prev [rule_format, of 0] prev [rule_format, of 1] by simp_all
  then show ?thesis unfolding uv(1) by (simp add: prev_ids_def)
qed

text \<open>
  A poke at a page boundary is lost. Two devices of a user may be poked under one stream id;
  if the read limit falls between them, the batch is marked with that stream id, so once the
  batch is queued no later read returns the poke that was cut off, and its delivery deletes it
  unsent.
\<close>

theorem boundary_poke_lost:
  assumes "device_lists_for dv w d current st = (effs, st', True)"
    and "page_read = get_device_updates (dv_edus_per_read dv) (db_pokes (dw_db w)) d
           (coalesce0 (cursor_get st (device_list_cursor d))) current"
    and "page_read \<noteq> []" "0 \<le> coalesce0 (cursor_get st (device_list_cursor d))"
    and "p \<in> set (db_pokes (dw_db w))" "dp_destination p = d" "p \<notin> set page_read"
    and "dp_stream_id p = dp_stream_id (last page_read)"
  shows "p \<notin> set (get_device_updates n pokes d (coalesce0 (cursor_get st' (device_list_cursor d))) now)
    \<and> (\<forall>e \<in> set (queued_units d effs). 0 < device_list_upto e \<longrightarrow>
          p \<notin> set (db_pokes (mark_as_sent_devices d (device_list_upto e) (dw_db w))))"
proof -
  let ?c = "coalesce0 (cursor_get st (device_list_cursor d))"
  from assms(1,2,3) obtain edus where b: "build_device_list_edus dv w d ?c page_read = Some (edus, highest_of ?c page_read)"
    and effs: "effs = map (EnqueueMarked d) (device_list_edus (highest_of ?c page_read) edus) @ [WakeQueue d]"
    and st': "st' = cursor_set (device_list_cursor d) (highest_of ?c page_read) st"
    by (auto simp: device_lists_for_def build_device_list_edus_def Let_def split: if_splits option.splits)
  have "highest_of ?c page_read = Max (set (?c # map dp_stream_id page_read))"
    unfolding highest_of_max by (simp only: Max.set_eq_fold)
  then have ge: "dp_stream_id p \<le> highest_of ?c page_read" "?c \<le> highest_of ?c page_read"
    using assms(3,8) by (simp_all add: max.coboundedI2)
  have "coalesce0 (cursor_get st' (device_list_cursor d)) = max ?c (highest_of ?c page_read)"
    using ge(2) assms(4) by (simp add: st' coalesce_cursor_set)
  then have "p \<notin> set (get_device_updates n pokes d (coalesce0 (cursor_get st' (device_list_cursor d))) now)"
    using ge set_page_subset by (fastforce simp: get_device_updates_def)
  moreover have mark: "e \<in> set (device_list_edus m es) \<Longrightarrow> 0 < device_list_upto e \<Longrightarrow> device_list_upto e = m" for e m es
    by (induction es) (auto simp: plain_edu_def split: if_splits)
  then have "p \<notin> set (db_pokes (mark_as_sent_devices d (device_list_upto e) (dw_db w)))"
    if "e \<in> set (queued_units d effs)" "0 < device_list_upto e" for e
  proof -
    have "queued_units d effs = device_list_edus (highest_of ?c page_read) edus" by (simp add: effs)
    with that have "device_list_upto e = highest_of ?c page_read" using mark by metis
    with ge(1) assms(6) show ?thesis by (simp add: mark_as_sent_devices_def Let_def)
  qed
  ultimately show ?thesis by blast
qed

definition boundary_world :: device_world where
  "boundary_world = \<lparr>dw_db = empty_db\<lparr>db_pokes := [sample_poke ''D'' 4, sample_poke ''E'' 4]\<rparr>, dw_cursor_ok = True,
     dw_read_ok = True, dw_set_ok = True, dw_signing = (\<lambda>_. Some []), dw_details = (\<lambda>_ _. Some Map.empty),
     dw_last_ok = (\<lambda>_. True), dw_marshal = (\<lambda>_. Some ''{}'')\<rparr>"

theorem boundary_poke_lost_witness:
  "\<exists>effs st'. device_lists_for (sample_devices\<lparr>dv_edus_per_read := 1\<rparr>) boundary_world ''b'' 4 sample_state_store = (effs, st', True)
     \<and> sample_poke ''E'' 4 \<notin> set (get_device_updates 90 [sample_poke ''D'' 4, sample_poke ''E'' 4] ''b''
          (coalesce0 (cursor_get st' (device_list_cursor ''b''))) 9)"
proof -
  let ?dv = "sample_devices\<lparr>dv_edus_per_read := 1\<rparr>"
  have c: "coalesce0 (cursor_get sample_state_store (device_list_cursor ''b'')) = 0"
    by (simp add: sample_state_store_def cursor_get_def coalesce0_def)
  have pg: "get_device_updates (dv_edus_per_read ?dv) (db_pokes (dw_db boundary_world)) ''b'' 0 4 = [sample_poke ''D'' 4]"
    by (simp add: get_device_updates_def page_def boundary_world_def sample_poke_def)
  obtain effs st' ok where run: "device_lists_for ?dv boundary_world ''b'' 4 sample_state_store = (effs, st', ok)"
    by (metis prod.collapse)
  have mj: "marshal_all (\<lambda>_. Some x) bs = Some (map (\<lambda>b. \<lparr>edu_type = fst b, edu_content = Raw x\<rparr>) bs)" for x bs
    by (induction bs) auto
  from run have ok: "ok = True"
    by (auto simp: device_lists_for_def Let_def c pg build_device_list_edus_def boundary_world_def list_ex_iff mj
        split: option.splits if_splits)
  have "sample_poke ''E'' 4 \<notin> set (get_device_updates 90 [sample_poke ''D'' 4, sample_poke ''E'' 4] ''b''
          (coalesce0 (cursor_get st' (device_list_cursor ''b''))) 9)"
    by (rule conjunct1 [OF boundary_poke_lost [OF run [unfolded ok] refl]])
      (simp_all only: c pg, simp_all add: boundary_world_def sample_poke_def)
  with run [unfolded ok] show ?thesis by blast
qed


end
