(* ===== verification/StateGroups.thy ===== *)
theory StateGroups
  imports Prelude
begin

text \<open>
  \<open>internal/store/state.go\<close> and the membership queries of \<open>internal/store/events.go\<close>: who is in
  a room, now and at a state group. The recursive query is run as PostgreSQL runs it - a working
  table joined with the edges until it is empty - with fuel for the rounds (\<open>None\<close> when it has not
  ended); the property says how much is enough.
\<close>

section \<open>Tables\<close>

record membership_tables =
  mt_edges :: "(int \<times> int) list"
  mt_state :: "(int \<times> string \<times> string \<times> string) list"
  mt_memberships :: "string \<rightharpoonup> string"
  mt_event_groups :: "(string \<times> int) list"
  mt_current :: "(string \<times> string \<times> string \<times> string) list"
  mt_partial :: "(string \<times> string) list"

text \<open>
  \<open>mt_edges\<close>: (state group, previous group); \<open>mt_state\<close>: (group, type, state key, event id);
  \<open>mt_current\<close>: (room, type, state key, membership); \<open>mt_partial\<close>: (room, server).
\<close>

text \<open>\<open>substring(state_key FROM '@[^:]*:(.*)$')\<close>: what follows the first colon after the first at sign.\<close>

definition host_of_key :: "string \<Rightarrow> string option" where
  "host_of_key k =
     (case dropWhile (\<lambda>c. c \<noteq> CHR ''@'') k of
        [] \<Rightarrow> None
      | _ # rest \<Rightarrow> (case strings_cut (CHR '':'') rest of (_, host, ok) \<Rightarrow> if ok then Some host else None))"

text \<open>\<open>SELECT DISTINCT\<close>, then the scan loop that drops \<open>NULL\<close> and the empty name.\<close>

definition hosts_of_keys :: "string list \<Rightarrow> string list" where
  "hosts_of_keys ks = filter (\<lambda>h. h \<noteq> []) (remdups (List.map_filter host_of_key ks))"

section \<open>Queries\<close>

definition current_joined_hosts :: "membership_tables \<Rightarrow> string \<Rightarrow> string list" where
  "current_joined_hosts t room = hosts_of_keys
     (List.map_filter (\<lambda>(r, ty, sk, m). if ty = ''m.room.member'' \<and> m = ''join'' \<and> r = room then Some sk else None)
        (mt_current t))"

definition partial_state_servers_at_join :: "membership_tables \<Rightarrow> string \<Rightarrow> string list \<times> bool" where
  "partial_state_servers_at_join t room =
     (let out = map snd (filter (\<lambda>x. fst x = room) (mt_partial t)) in (out, out \<noteq> []))"

definition get_state_groups_for_events :: "membership_tables \<Rightarrow> string list \<Rightarrow> (string \<times> int) list" where
  "get_state_groups_for_events t ids =
     (if ids = [] then [] else filter (\<lambda>x. fst x \<in> set ids) (mt_event_groups t))"

fun sgs :: "(int \<times> int) list \<Rightarrow> nat \<Rightarrow> int list \<Rightarrow> int list option" where
  "sgs edges 0 gs = (if gs = [] then Some [] else None)"
| "sgs edges (Suc n) gs =
     (if gs = [] then Some []
      else map_option ((@) gs) (sgs edges n (concat (map (\<lambda>g. map snd (filter (\<lambda>e. fst e = g) edges)) gs))))"

definition newest_member :: "(int \<times> string \<times> string \<times> string) list \<Rightarrow> string \<Rightarrow> string option" where
  "newest_member rows k =
     (case sort_key (\<lambda>r. - fst r) (filter (\<lambda>(g, ty, sk, e). sk = k) rows) of
        [] \<Rightarrow> None | (g, ty, sk, e) # _ \<Rightarrow> Some e)"

definition members :: "membership_tables \<Rightarrow> int list \<Rightarrow> (string \<times> string) list" where
  "members t gs =
     (let rows = filter (\<lambda>(g, ty, sk, e). g \<in> set gs \<and> ty = ''m.room.member'') (mt_state t)
      in List.map_filter (\<lambda>k. map_option (Pair k) (newest_member rows k))
           (sort (remdups (map (\<lambda>(g, ty, sk, e). sk) rows))))"

definition joined_hosts_at_state_group :: "membership_tables \<Rightarrow> nat \<Rightarrow> int \<Rightarrow> string list option" where
  "joined_hosts_at_state_group t n group_id =
     map_option (\<lambda>gs. hosts_of_keys (map fst (filter (\<lambda>(k, e). mt_memberships t e = Some ''join'') (members t gs))))
       (sgs (mt_edges t) n [group_id])"

section \<open>The state a group stands for\<close>

definition member_row :: "int \<Rightarrow> int \<times> string \<times> string \<times> string \<Rightarrow> (string \<times> string) option" where
  "member_row g r = (case r of (g', ty, sk, e) \<Rightarrow> if g' = g \<and> ty = ''m.room.member'' then Some (sk, e) else None)"

definition delta :: "membership_tables \<Rightarrow> int \<Rightarrow> (string \<rightharpoonup> string)" where
  "delta t g = map_of (List.map_filter (member_row g) (mt_state t))"

text \<open>A group holds full state, or the changes to the group before it.\<close>

inductive member_state :: "membership_tables \<Rightarrow> int \<Rightarrow> (string \<rightharpoonup> string) \<Rightarrow> bool" for t where
  full: "\<forall>p. (g, p) \<notin> set (mt_edges t) \<Longrightarrow> member_state t g (delta t g)"
| changes: "(g, p) \<in> set (mt_edges t) \<Longrightarrow> member_state t p m \<Longrightarrow> member_state t g (m ++ delta t g)"

definition tables_ok :: "membership_tables \<Rightarrow> bool" where
  "tables_ok t \<longleftrightarrow> distinct (map fst (mt_edges t)) \<and> (\<forall>(g, p) \<in> set (mt_edges t). 0 \<le> p \<and> p < g)
     \<and> distinct (map (\<lambda>(g, ty, sk, e). (g, ty, sk)) (mt_state t))"

lemma delta_Some:
  assumes "tables_ok t"
  shows "delta t g sk = Some e \<longleftrightarrow> (g, ''m.room.member'', sk, e) \<in> set (mt_state t)"
proof -
  let ?f = "member_row g"
  have row: "?f r = Some (sk, e) \<longleftrightarrow> r = (g, ''m.room.member'', sk, e)" for r sk e
    by (auto simp: member_row_def split: prod.splits)
  have mem: "(sk, e) \<in> set (List.map_filter ?f rows) \<longleftrightarrow> (g, ''m.room.member'', sk, e) \<in> set rows" for sk e rows
    using row by (induction rows) (auto simp: List.map_filter_simps member_row_def split: option.splits if_splits)
  have "distinct (map (\<lambda>(g, ty, sk, e). (g, ty, sk)) rows) \<Longrightarrow> distinct (map fst (List.map_filter ?f rows))" for rows
  proof (induction rows)
    case (Cons r rows)
    show ?case
    proof (cases "?f r")
      case (Some x)
      obtain sk e where x: "x = (sk, e)" by force
      with Some have r: "r = (g, ''m.room.member'', sk, e)" by (simp add: row)
      have "sk \<notin> fst ` set (List.map_filter ?f rows)"
      proof
        assume "sk \<in> fst ` set (List.map_filter ?f rows)"
        then obtain e' where "(g, ''m.room.member'', sk, e') \<in> set rows" using mem by force
        then have "(g, ''m.room.member'', sk) \<in> set (map (\<lambda>(g, ty, sk, e). (g, ty, sk)) rows)" by force
        with Cons.prems show False by (simp add: r)
      qed
      with Cons show ?thesis by (simp add: List.map_filter_simps Some x)
    qed (use Cons in \<open>simp add: List.map_filter_simps\<close>)
  qed (simp add: List.map_filter_simps)
  with assms have "distinct (map fst (List.map_filter ?f (mt_state t)))" by (simp add: tables_ok_def)
  then show ?thesis unfolding delta_def by (subst map_of_eq_Some_iff) (simp_all only: mem)
qed

lemma edges_of:
  assumes "distinct (map fst edges)"
  shows "(g, p) \<in> set edges \<Longrightarrow> map snd (filter (\<lambda>e. fst e = g) edges) = [p]"
    "\<forall>p. (g, p) \<notin> set edges \<Longrightarrow> map snd (filter (\<lambda>e. fst e = g) edges) = []"
proof -
  show "(g, p) \<in> set edges \<Longrightarrow> map snd (filter (\<lambda>e. fst e = g) edges) = [p]"
    using assms by (induction edges) (force simp: filter_empty_conv)+
qed (auto simp: filter_empty_conv)

lemma sgs_mono: "sgs edges n l = Some r \<Longrightarrow> n \<le> n' \<Longrightarrow> sgs edges n' l = Some r"
proof (induction n arbitrary: l r n')
  case 0
  then show ?case by (cases n') (auto split: if_splits)
next
  case (Suc n)
  then obtain k where k: "n' = Suc k" "n \<le> k" by (cases n') auto
  show ?case
  proof (cases "l = []")
    case False
    with Suc.prems(1) obtain r' where r': "r = l @ r'"
      "sgs edges n (concat (map (\<lambda>g. map snd (filter (\<lambda>e. fst e = g) edges)) l)) = Some r'" by auto
    from Suc.IH [OF r'(2) k(2)] False r'(1) show ?thesis by (simp add: k(1))
  qed (use Suc.prems k in simp)
qed

text \<open>The chain, and which event wins on it.\<close>

lemma chain_state:
  assumes "tables_ok t" "member_state t g m" "0 \<le> g"
  shows "\<exists>gs. sgs (mt_edges t) (Suc (nat g) + 1) [g] = Some gs
    \<and> (\<forall>h \<in> set gs. h \<le> g) \<and> g \<in> set gs
    \<and> (\<forall>sk e. m sk = Some e \<longleftrightarrow>
         (\<exists>h \<in> set gs. delta t h sk = Some e \<and> (\<forall>h' \<in> set gs. delta t h' sk \<noteq> None \<longrightarrow> h' \<le> h)))"
  using assms(2,3)
proof induction
  case (full g)
  from edges_of(2) [OF _ full.hyps] assms(1) have "sgs (mt_edges t) (Suc (nat g) + 1) [g] = Some [g]"
    by (cases "nat g") (simp_all add: tables_ok_def)
  then show ?case by auto
next
  case (changes g p m)
  have "0 \<le> p" "p < g" using assms(1) changes.hyps(1) by (auto simp: tables_ok_def)
  with changes.IH obtain gs where gs: "sgs (mt_edges t) (Suc (nat p) + 1) [p] = Some gs" "\<forall>h \<in> set gs. h \<le> p" "p \<in> set gs"
    "\<forall>sk e. m sk = Some e \<longleftrightarrow>
       (\<exists>h \<in> set gs. delta t h sk = Some e \<and> (\<forall>h' \<in> set gs. delta t h' sk \<noteq> None \<longrightarrow> h' \<le> h))" by blast
  have "Suc (nat p) + 1 \<le> Suc (nat g)" using \<open>p < g\<close> \<open>0 \<le> p\<close> by simp
  with sgs_mono [OF gs(1)] have "sgs (mt_edges t) (Suc (nat g)) [p] = Some gs" by blast
  then have run: "sgs (mt_edges t) (Suc (nat g) + 1) [g] = Some (g # gs)"
    using edges_of(1) [OF _ changes.hyps(1)] assms(1) by (simp add: tables_ok_def)
  have "(m ++ delta t g) sk = Some e \<longleftrightarrow>
      (\<exists>h \<in> set (g # gs). delta t h sk = Some e \<and> (\<forall>h' \<in> set (g # gs). delta t h' sk \<noteq> None \<longrightarrow> h' \<le> h))" for sk e
  proof (cases "delta t g sk")
    case None
    with gs(4) show ?thesis by (auto simp: map_add_def)
  next
    case (Some e')
    have "\<forall>h' \<in> set (g # gs). h' \<le> g" "\<forall>h \<in> set gs. \<not> g \<le> h" using gs(2) \<open>p < g\<close> by auto
    note le = this
    have "(\<exists>h \<in> set (g # gs). delta t h sk = Some e \<and> (\<forall>h' \<in> set (g # gs). delta t h' sk \<noteq> None \<longrightarrow> h' \<le> h))
        \<longleftrightarrow> delta t g sk = Some e" (is "?L \<longleftrightarrow> ?R")
    proof
      assume ?L
      then obtain h where h: "h \<in> set (g # gs)" "delta t h sk = Some e"
        "\<forall>h' \<in> set (g # gs). delta t h' sk \<noteq> None \<longrightarrow> h' \<le> h" by blast
      have "g \<le> h" using h(3) Some by simp
      with le(2) h(1) have "h = g" by auto
      with h(2) show ?R by simp
    next
      assume ?R
      with le(1) show ?L by (intro bexI [of _ g]) simp_all
    qed
    moreover have "(m ++ delta t g) sk = delta t g sk" by (simp add: map_add_def Some)
    ultimately show ?thesis by (simp only:)
  qed
  with run gs(2) \<open>p < g\<close> show ?case by (intro exI [of _ "g # gs"]) auto
qed

section \<open>The query answers that state\<close>

lemma newest_member_spec:
  "case newest_member rows k of
     None \<Rightarrow> \<forall>(g, ty, sk, e) \<in> set rows. sk \<noteq> k
   | Some e \<Rightarrow> \<exists>g ty. (g, ty, k, e) \<in> set rows \<and> (\<forall>(g', ty', sk', e') \<in> set rows. sk' = k \<longrightarrow> g' \<le> g)"
proof -
  let ?f = "filter (\<lambda>(g, ty, sk, e). sk = k) rows"
  let ?s = "sort_key (\<lambda>r. - fst r) ?f"
  show ?thesis
  proof (cases ?s)
    case Nil
    then have "set ?s = {}" by simp
    then have "?f = []" by (simp only: set_sort set_empty)
    then show ?thesis using Nil by (force simp: newest_member_def filter_empty_conv)
  next
    case (Cons r rs)
    obtain g ty sk e where r: "r = (g, ty, sk, e)" by (cases r)
    have "sorted (map (\<lambda>r. - fst r) ?s)" by simp
    then have le: "\<forall>x \<in> set rs. fst x \<le> g" by (simp only: Cons) (simp add: r)
    have "set ?f = set (r # rs)" by (simp only: Cons [symmetric] set_sort)
    then have rf: "r \<in> set ?f" and le': "\<forall>x \<in> set ?f. fst x \<le> g" using le by (simp_all add: r)
    have rk: "r = (g, ty, k, e)" "r \<in> set rows" using rf by (auto simp: r)
    have "\<forall>(g', ty', sk', e') \<in> set rows. sk' = k \<longrightarrow> g' \<le> g" using le' by fastforce
    moreover have "newest_member rows k = Some e" by (simp add: newest_member_def Cons r)
    moreover have "(g, ty, k, e) \<in> set rows" using rk by simp
    ultimately show ?thesis by (simp only: option.case) blast
  qed
qed

lemma mem_map_filter_pair:
  "(k, e) \<in> set (List.map_filter (\<lambda>k. map_option (Pair k) (f k)) ks) \<longleftrightarrow> k \<in> set ks \<and> f k = Some e"
  by (induction ks) (auto simp: List.map_filter_simps split: option.splits)

lemma mem_members:
  assumes "tables_ok t"
  shows "(k, e) \<in> set (members t gs)
    \<longleftrightarrow> (\<exists>h \<in> set gs. delta t h k = Some e \<and> (\<forall>h' \<in> set gs. delta t h' k \<noteq> None \<longrightarrow> h' \<le> h))"
proof -
  let ?rows = "filter (\<lambda>(g, ty, sk, e). g \<in> set gs \<and> ty = ''m.room.member'') (mt_state t)"
  have rows: "(g, ty, k, e) \<in> set ?rows \<longleftrightarrow> g \<in> set gs \<and> ty = ''m.room.member'' \<and> delta t g k = Some e" for g ty e
    by (auto simp: delta_Some [OF assms])
  have "(k, e) \<in> set (members t gs) \<longleftrightarrow> newest_member ?rows k = Some e"
  proof -
    have "k \<in> (\<lambda>(g, ty, sk, e). sk) ` set ?rows" if n: "newest_member ?rows k = Some e"
    proof -
      from newest_member_spec [of ?rows k] n obtain g ty where "(g, ty, k, e) \<in> set ?rows" by auto
      then show ?thesis by (rule rev_image_eqI) simp
    qed
    then show ?thesis by (auto simp only: members_def Let_def mem_map_filter_pair set_sort set_remdups set_map)
  qed
  also have "\<dots> \<longleftrightarrow> (\<exists>h \<in> set gs. delta t h k = Some e \<and> (\<forall>h' \<in> set gs. delta t h' k \<noteq> None \<longrightarrow> h' \<le> h))" (is "_ \<longleftrightarrow> ?R e")
  proof
    assume "newest_member ?rows k = Some e"
    with newest_member_spec [of ?rows k] obtain g ty where
      g: "(g, ty, k, e) \<in> set ?rows" "\<forall>(g', ty', sk', e') \<in> set ?rows. sk' = k \<longrightarrow> g' \<le> g" by auto
    have "h' \<le> g" if "h' \<in> set gs" "delta t h' k = Some e'" for h' e'
    proof -
      have "(h', ''m.room.member'', k, e') \<in> set ?rows" using that by (simp only: rows)
      from g(2) [rule_format, OF this] show ?thesis by simp
    qed
    with g(1) show "?R e" unfolding rows by blast
  next
    assume "?R e"
    then obtain h where h: "h \<in> set gs" "delta t h k = Some e" "\<forall>h' \<in> set gs. delta t h' k \<noteq> None \<longrightarrow> h' \<le> h" by blast
    then have hr: "(h, ''m.room.member'', k, e) \<in> set ?rows" by (simp only: rows)
    show "newest_member ?rows k = Some e"
    proof (cases "newest_member ?rows k")
      case None
      with newest_member_spec [of ?rows k] have "\<forall>(g, ty, sk, e) \<in> set ?rows. sk \<noteq> k" by simp
      from this [rule_format, OF hr] show ?thesis by simp
    next
      case (Some e')
      with newest_member_spec [of ?rows k] obtain g ty where
        g: "(g, ty, k, e') \<in> set ?rows" "\<forall>(g', ty', sk', e') \<in> set ?rows. sk' = k \<longrightarrow> g' \<le> g" by auto
      from g(2) [rule_format, OF hr] have "h \<le> g" by simp
      moreover have "g \<le> h" using h(3) g(1) unfolding rows by auto
      ultimately have "g = h" by simp
      with g(1) h(2) have "e' = e" unfolding rows by simp
      with Some show ?thesis by simp
    qed
  qed
  finally show ?thesis .
qed

lemma set_hosts_of_keys:
  "set (hosts_of_keys ks) = {h. h \<noteq> [] \<and> (\<exists>k \<in> set ks. host_of_key k = Some h)}" "distinct (hosts_of_keys ks)"
  by (force simp: hosts_of_keys_def map_filter_def, simp add: hosts_of_keys_def)

text \<open>
  C18. The hosts before an event. The recursive query over a state group's chain of changes ends
  after as many rounds as the group's number at most, and answers exactly the servers, each
  once, of the users whose membership event in the state the group stands for - full state
  overlaid by every later set of changes - is a join.
\<close>

theorem hosts_at_group_is_state:
  assumes "tables_ok t" "0 \<le> g" "member_state t g m" "nat g + 2 \<le> n"
  shows "\<exists>hosts. joined_hosts_at_state_group t n g = Some hosts \<and> distinct hosts
    \<and> set hosts = {h. h \<noteq> [] \<and> (\<exists>k e. m k = Some e \<and> mt_memberships t e = Some ''join'' \<and> host_of_key k = Some h)}"
proof -
  from chain_state [OF assms(1,3,2)] obtain gs where gs: "sgs (mt_edges t) (Suc (nat g) + 1) [g] = Some gs"
    "\<forall>sk e. m sk = Some e \<longleftrightarrow>
       (\<exists>h \<in> set gs. delta t h sk = Some e \<and> (\<forall>h' \<in> set gs. delta t h' sk \<noteq> None \<longrightarrow> h' \<le> h))" by blast
  have "sgs (mt_edges t) n [g] = Some gs" using sgs_mono [OF gs(1)] assms(4) by simp
  moreover have "(k, e) \<in> set (members t gs) \<longleftrightarrow> m k = Some e" for k e
    unfolding mem_members [OF assms(1)] using gs(2) by blast
  ultimately show ?thesis
    by (intro exI [of _ "hosts_of_keys (map fst (filter (\<lambda>(k, e). mt_memberships t e = Some ''join'') (members t gs)))"])
      (auto simp: joined_hosts_at_state_group_def set_hosts_of_keys; force)
qed

definition sample_tables :: membership_tables where
  "sample_tables = \<lparr>mt_edges = [(9, 4)],
     mt_state = [(4, ''m.room.member'', ''@a:x'', ''$1''), (4, ''m.room.member'', ''@b:y'', ''$2''),
                 (9, ''m.room.member'', ''@b:y'', ''$3'')],
     mt_memberships = [''$1'' \<mapsto> ''join'', ''$2'' \<mapsto> ''join'', ''$3'' \<mapsto> ''leave''],
     mt_event_groups = [], mt_current = [], mt_partial = []\<rparr>"

theorem hosts_at_group_is_state_witness:
  "\<exists>hosts. joined_hosts_at_state_group sample_tables 11 9 = Some hosts \<and> set hosts = {''x''}"
proof -
  have "member_state sample_tables 4 (delta sample_tables 4)"
    by (rule member_state.full) (simp add: sample_tables_def)
  then have "member_state sample_tables 9 (delta sample_tables 4 ++ delta sample_tables 9)"
    by (rule member_state.changes [rotated]) (simp add: sample_tables_def)
  moreover have "tables_ok sample_tables" by (simp add: tables_ok_def sample_tables_def)
  ultimately have "\<exists>hosts. joined_hosts_at_state_group sample_tables 11 9 = Some hosts"
    using hosts_at_group_is_state [of sample_tables 9 "delta sample_tables 4 ++ delta sample_tables 9" 11] by auto
  then obtain hosts where run: "joined_hosts_at_state_group sample_tables 11 9 = Some hosts" ..
  have "sgs (mt_edges sample_tables) 11 [9] = Some [9, 4]" by (simp add: sample_tables_def eval_nat_numeral)
  moreover have "members sample_tables [9, 4] = [(''@a:x'', ''$1''), (''@b:y'', ''$3'')]"
    by (simp add: sample_tables_def members_def newest_member_def List.map_filter_simps)
  moreover have "hosts_of_keys [''@a:x''] = [''x'']"
    by (simp add: hosts_of_keys_def host_of_key_def strings_cut_def List.map_filter_simps)
  ultimately have "hosts = [''x'']" using run by (simp add: joined_hosts_at_state_group_def) (simp add: sample_tables_def)
  with run show ?thesis by simp
qed

end
