(* ===== verification/Ephemeral.thy ===== *)
theory Ephemeral
  imports Merging Manager Destinations
begin

text \<open>
  \<open>internal/sender/ephemeral.go\<close>: receipts, typing, presence and ready-made EDUs on their way to
  the destination queues, and \<open>GetPresenceStates\<close> of \<open>internal/store/devices.go\<close>. A handler
  answers what it did to the queues, in order, or \<open>None\<close> for a returned error; \<open>route_effects\<close>
  carries that out on the manager. \<open>json.Marshal\<close> of a body is an argument, \<open>None\<close> for its error.
\<close>

section \<open>Effects on the queues\<close>

datatype edu_effect = ToQueue string arrival | WakeUp string

definition queue_of :: "manager \<Rightarrow> string \<Rightarrow> destination" where
  "queue_of m name =
     (case map_of (m_dests m) name of Some d \<Rightarrow> d | None \<Rightarrow> new_destination name (m_limits m) (m_batch m))"

definition update_queue :: "string \<Rightarrow> (destination \<Rightarrow> destination) \<Rightarrow> manager \<Rightarrow> manager" where
  "update_queue name f m =
     (case get_queue name m of (m', d) \<Rightarrow> m'\<lparr>m_dests := AList.update name (f d) (m_dests m')\<rparr>)"

fun route_effect :: "edu_effect \<Rightarrow> manager \<Rightarrow> manager" where
  "route_effect (ToQueue name a) m = update_queue name (arrival_op a) m"
| "route_effect (WakeUp name) m = update_queue name (\<lambda>d. fst (try_start d)) m"

abbreviation route_effects :: "edu_effect list \<Rightarrow> manager \<Rightarrow> manager" where
  "route_effects effs m \<equiv> fold route_effect effs m"

definition pending_of :: "manager \<Rightarrow> string \<Rightarrow> edu list" where
  "pending_of m name = pending_edus (queue_of m name)"

section \<open>The router\<close>

record presence_state =
  ps_user :: string
  ps_state :: string
  ps_last_active :: int
  ps_status :: string
  ps_active :: bool

record presence_row =
  pr_stream :: int
  pr_user :: string
  pr_state :: string
  pr_last_active :: "int option"
  pr_status :: "string option"
  pr_active :: "bool option"

record presence_body =
  pb_presence :: string
  pb_user :: string
  pb_last_active_ago :: "int option"
  pb_status_msg :: "string option"
  pb_currently_active :: "bool option"

record receipt_update =
  ru_room :: string
  ru_type :: string
  ru_user :: string
  ru_event :: string
  ru_thread :: string
  ru_data :: raw_message

record ephemeral =
  eph_server :: string
  eph_should_handle :: "string \<Rightarrow> bool"
  eph_track_presence :: bool
  eph_due_within :: "(string \<Rightarrow> bool) option"

text \<open>The answers of the database, \<open>None\<close> for an error.\<close>

record ephemeral_world =
  ew_at_join :: "string \<Rightarrow> (string list \<times> bool) option"
  ew_current :: "string \<Rightarrow> string list option"
  ew_presence :: "presence_row list option"
  ew_receipt_json :: "string \<Rightarrow> raw_message \<Rightarrow> raw_message option"
  ew_presence_json :: "presence_body \<Rightarrow> raw_message option"

definition new_ephemeral :: "string \<Rightarrow> (string \<Rightarrow> bool) \<Rightarrow> bool \<Rightarrow> (string \<Rightarrow> bool) option \<Rightarrow> ephemeral" where
  "new_ephemeral server mine track is_due =
     \<lparr>eph_server = server, eph_should_handle = mine, eph_track_presence = track, eph_due_within = is_due\<rparr>"

definition ephemeral_due :: "ephemeral \<Rightarrow> string \<Rightarrow> bool" where
  "ephemeral_due e h = (case eph_due_within e of None \<Rightarrow> True | Some f \<Rightarrow> f h)"

definition ephemeral_destinations :: "ephemeral \<Rightarrow> string list \<Rightarrow> string list" where
  "ephemeral_destinations e hosts = filter (\<lambda>h. \<not> (h = eph_server e \<or> \<not> eph_should_handle e h)) hosts"

definition ephemeral_is_mine :: "ephemeral \<Rightarrow> string \<Rightarrow> bool" where
  "ephemeral_is_mine e i \<longleftrightarrow> domain_of i = eph_server e"

text \<open>The loop over the union, with its \<open>seen\<close> map.\<close>

fun union_hosts :: "string list \<Rightarrow> string list \<Rightarrow> string list" where
  "union_hosts seen [] = []"
| "union_hosts seen (h # hs) =
     (if h = [] \<or> h \<in> set seen then union_hosts seen hs else h # union_hosts (h # seen) hs)"

definition receipt_hosts :: "ephemeral_world \<Rightarrow> string \<Rightarrow> string list option" where
  "receipt_hosts w room =
     (case ew_at_join w room of
        None \<Rightarrow> None
      | Some (at_join, partial) \<Rightarrow>
          (case ew_current w room of
             None \<Rightarrow> None
           | Some current \<Rightarrow>
               if \<not> partial then Some current else Some (sort (union_hosts [] (at_join @ current)))))"

definition receipt_effects :: "receipt_update \<Rightarrow> raw_message \<Rightarrow> string \<Rightarrow> edu_effect list" where
  "receipt_effects r c host =
     [ToQueue host (ReceiptArrival (ru_room r) (ru_type r) (ru_user r) (ru_thread r) c), WakeUp host]"

definition handle_receipt :: "ephemeral \<Rightarrow> ephemeral_world \<Rightarrow> receipt_update \<Rightarrow> edu_effect list option" where
  "handle_receipt e w r =
     (if \<not> ephemeral_is_mine e (ru_user r) \<or> ru_type r = ''m.read.private'' then Some []
      else case receipt_hosts w (ru_room r) of
        None \<Rightarrow> None
      | Some hosts \<Rightarrow>
          (case ew_receipt_json w (ru_event r) (ru_data r) of
             None \<Rightarrow> None
           | Some c \<Rightarrow> Some (concat (map (receipt_effects r c)
               (filter (ephemeral_due e) (ephemeral_destinations e hosts))))))"

definition not_ours_to_send :: "ephemeral \<Rightarrow> string \<Rightarrow> bool" where
  "not_ours_to_send e host \<longleftrightarrow> \<not> eph_should_handle e host \<or> host = eph_server e"

definition handle_typing :: "ephemeral \<Rightarrow> string \<Rightarrow> string \<Rightarrow> raw_message \<Rightarrow> edu_effect list" where
  "handle_typing e host key c =
     (if not_ours_to_send e host then []
      else [ToQueue host (KeyedArrival key \<lparr>edu_type = EDUTypeTyping, edu_content = Raw c\<rparr>), WakeUp host])"

definition handle_edu :: "ephemeral \<Rightarrow> string \<Rightarrow> string \<Rightarrow> raw_message \<Rightarrow> edu_effect list" where
  "handle_edu e host ty c =
     (if not_ours_to_send e host then []
      else [ToQueue host (MarkedArrival (plain_edu \<lparr>edu_type = ty, edu_content = Raw c\<rparr>)), WakeUp host])"

section \<open>Presence\<close>

text \<open>\<open>SELECT DISTINCT ON (user_id) ... ORDER BY user_id, stream_id DESC\<close>.\<close>

definition state_of_row :: "presence_row \<Rightarrow> presence_state" where
  "state_of_row r =
     \<lparr>ps_user = pr_user r, ps_state = pr_state r,
      ps_last_active = (case pr_last_active r of None \<Rightarrow> 0 | Some t \<Rightarrow> t),
      ps_status = (case pr_status r of None \<Rightarrow> [] | Some s \<Rightarrow> s),
      ps_active = (case pr_active r of None \<Rightarrow> False | Some b \<Rightarrow> b)\<rparr>"

definition get_presence_states :: "presence_row list \<Rightarrow> string list \<Rightarrow> (string \<rightharpoonup> presence_state)" where
  "get_presence_states rows users =
     (\<lambda>u. if u \<in> set users
          then case sort_key (\<lambda>r. - pr_stream r) (filter (\<lambda>r. pr_user r = u) rows) of
                 [] \<Rightarrow> None | r # _ \<Rightarrow> Some (state_of_row r)
          else None)"

definition format_presence_at :: "presence_state \<Rightarrow> int \<Rightarrow> presence_body" where
  "format_presence_at s now_ms =
     \<lparr>pb_presence = ps_state s, pb_user = ps_user s,
      pb_last_active_ago = (if ps_last_active s > 0 then Some (now_ms - ps_last_active s) else None),
      pb_status_msg = (if ps_status s \<noteq> [] then Some (ps_status s) else None),
      pb_currently_active = (if ps_state s = ''online'' then Some (ps_active s) else None)\<rparr>"

definition encode_presence :: "(presence_body \<Rightarrow> raw_message option) \<Rightarrow> presence_state \<Rightarrow> int \<Rightarrow> raw_message" where
  "encode_presence mj st now_ms =
     (case mj (format_presence_at st now_ms) of None \<Rightarrow> ''{}'' | Some body \<Rightarrow> body)"

fun presence_effects ::
  "(presence_body \<Rightarrow> raw_message option) \<Rightarrow> string \<Rightarrow> (string \<rightharpoonup> presence_state) \<Rightarrow> string list \<Rightarrow> edu_effect list" where
  "presence_effects mj host states [] = []"
| "presence_effects mj host states (u # us) =
     (case states u of
        None \<Rightarrow> presence_effects mj host states us
      | Some st \<Rightarrow> ToQueue host (PresenceArrival \<lparr>pe_user = u, pe_encode = encode_presence mj st\<rparr>)
                    # presence_effects mj host states us)"

definition handle_presence :: "ephemeral \<Rightarrow> ephemeral_world \<Rightarrow> string \<Rightarrow> string list \<Rightarrow> edu_effect list option" where
  "handle_presence e w host users =
     (if \<not> eph_track_presence e then Some []
      else if not_ours_to_send e host \<or> users = [] then Some []
      else if \<not> ephemeral_due e host then Some []
      else case ew_presence w of
        None \<Rightarrow> None
      | Some rows \<Rightarrow>
          (let states = get_presence_states rows users;
               effs = presence_effects (ew_presence_json w) host states users
           in if list_all (\<lambda>u. states u = None) users then Some []
              else if effs = [] then Some [] else Some (effs @ [WakeUp host])))"

section \<open>What an effect does to the queues\<close>

fun arrivals_for :: "string \<Rightarrow> edu_effect list \<Rightarrow> arrival list" where
  "arrivals_for h [] = []"
| "arrivals_for h (ToQueue h' a # effs) = (if h' = h then a # arrivals_for h effs else arrivals_for h effs)"
| "arrivals_for h (WakeUp h' # effs) = arrivals_for h effs"

lemma arrivals_for_append [simp]: "arrivals_for h (xs @ ys) = arrivals_for h xs @ arrivals_for h ys"
  by (induction h xs rule: arrivals_for.induct) auto

lemma queue_of_update_queue:
  "queue_of (update_queue name f m) h = (if h = name then f (queue_of m h) else queue_of m h)"
  by (cases "map_of (m_dests m) name")
    (simp_all add: update_queue_def queue_of_def get_queue_def get_fast_def get_slow_def update_conv' Let_def
      split: option.split)

lemma pending_of_effects: "pending_of (route_effects effs m) h = fold arrive (arrivals_for h effs) (pending_of m h)"
proof (induction effs arbitrary: m)
  case (Cons x effs)
  have "pending_of (route_effect x m) h = fold arrive (arrivals_for h [x]) (pending_of m h)"
    by (cases x) (auto simp: pending_of_def queue_of_update_queue merge_simps try_start_def)
  then show ?case using Cons.IH [of "route_effect x m"] arrivals_for_append [of h "[x]" effs] by simp
qed simp

text \<open>A queue that merging has built up from nothing, as every reachable one has been.\<close>

definition merged :: "edu list \<Rightarrow> bool" where
  "merged es \<longleftrightarrow> keyed_inv es \<and> receipt_inv es \<and> presence_inv es \<and> merged_are_unmarked es"

lemma merged_nil: "merged []"
  by (simp add: merged_def keyed.inv_nil receipt.inv_nil presence.inv_nil merged_are_unmarked_def)

lemma merged_arrive: "arrival_ok a \<Longrightarrow> merged es \<Longrightarrow> merged (arrive a es)"
  by (simp add: merged_def keyed.inv_arrival receipt.inv_arrival presence.inv_arrival marked_arrive)

lemma merged_arrivals: "list_all arrival_ok as \<Longrightarrow> merged es \<Longrightarrow> merged (fold arrive as es)"
  by (induction as arbitrary: es) (simp_all add: merged_arrive)

lemma pending_of_unreached: "arrivals_for h effs = [] \<Longrightarrow> pending_of (route_effects effs m) h = pending_of m h"
  by (simp add: pending_of_effects)

section \<open>Receipts\<close>

lemma set_union_hosts: "set (union_hosts seen hs) = {h \<in> set hs. h \<noteq> [] \<and> h \<notin> set seen}"
  by (induction seen hs rule: union_hosts.induct) auto

lemma distinct_union_hosts: "distinct (union_hosts seen hs)"
  by (induction seen hs rule: union_hosts.induct) (auto simp: set_union_hosts)

lemma set_receipt_hosts:
  "ew_at_join w room = Some (at_join, partial) \<Longrightarrow> ew_current w room = Some current \<Longrightarrow>
     \<exists>hosts. receipt_hosts w room = Some hosts
       \<and> set hosts = (if partial then {h \<in> set at_join \<union> set current. h \<noteq> []} else set current)"
  by (auto simp: receipt_hosts_def set_union_hosts)

lemma arrivals_for_receipts:
  "arrivals_for h (concat (map (receipt_effects r c) hosts)) =
     replicate (count_list hosts h) (ReceiptArrival (ru_room r) (ru_type r) (ru_user r) (ru_thread r) c)"
  by (induction hosts) (simp_all add: receipt_effects_def)

lemma receipts_arrive:
  assumes "merged es" "a = ReceiptArrival room rtype user thread c"
  shows "receipt_view (fold arrive (replicate n a) es) =
      (if n = 0 then receipt_view es else (receipt_view es)((room, rtype, user, thread) \<mapsto> c))
    \<and> keyed_view (fold arrive (replicate n a) es) = keyed_view es
    \<and> presence_view (fold arrive (replicate n a) es) = presence_view es
    \<and> marked_units (fold arrive (replicate n a) es) = marked_units es"
  using assms(1)
proof (induction n arbitrary: es)
  case (Suc n)
  have own: "receipt_own a = Some ((room, rtype, user, thread), c)" "keyed_own a = None" "presence_own a = None"
    "marked_of a = []" and ok: "arrival_ok a"
    by (simp_all add: assms(2))
  have inv: "receipt_inv es" "merged_are_unmarked es" using Suc.prems by (simp_all add: merged_def)
  from Suc.IH [OF merged_arrive [OF ok Suc.prems]] receipt.own_arrival [OF ok inv(1) own(1)]
    keyed.other_arrival [OF ok own(2)] presence.other_arrival [OF ok own(3)] marked_arrive [OF ok inv(2)] own(4)
  show ?case by (auto simp: fun_eq_iff)
qed simp

text \<open>The servers a receipt is for.\<close>

definition receipt_for :: "ephemeral \<Rightarrow> bool \<Rightarrow> string list \<Rightarrow> string list \<Rightarrow> receipt_update \<Rightarrow> string \<Rightarrow> bool" where
  "receipt_for e partial at_join current r h \<longleftrightarrow>
     domain_of (ru_user r) = eph_server e \<and> ru_type r \<noteq> ''m.read.private''
     \<and> (if partial then h \<noteq> [] \<and> h \<in> set at_join \<union> set current else h \<in> set current)
     \<and> h \<noteq> eph_server e \<and> eph_should_handle e h \<and> ephemeral_due e h"

text \<open>
  C19. Where a read receipt goes. A public receipt of one of our users reaches exactly the other
  servers of the room that this worker sends to and that are due within the hour - for a room
  still being joined, the servers known at the join as well - and there it becomes the last word
  on its room, type, user and thread; typing, presence and the marked units of the queue are left
  alone, and the queues of all other servers too. The error cases queue nothing at all.
\<close>

theorem receipts_reach_the_room:
  assumes "ew_at_join w (ru_room r) = Some (at_join, partial)" "ew_current w (ru_room r) = Some current"
    "ew_receipt_json w (ru_event r) (ru_data r) = Some c" "\<forall>h. merged (pending_of m h)"
  shows "\<exists>effs. handle_receipt e w r = Some effs
    \<and> (\<forall>h. let before = pending_of m h; now = pending_of (route_effects effs m) h in
         if receipt_for e partial at_join current r h
         then receipt_view now = (receipt_view before)((ru_room r, ru_type r, ru_user r, ru_thread r) \<mapsto> c)
           \<and> keyed_view now = keyed_view before \<and> presence_view now = presence_view before
           \<and> marked_units now = marked_units before
         else now = before)"
proof (cases "\<not> ephemeral_is_mine e (ru_user r) \<or> ru_type r = ''m.read.private''")
  case True
  then show ?thesis
    by (intro exI [of _ "[]"]) (auto simp: handle_receipt_def receipt_for_def ephemeral_is_mine_def)
next
  case False
  obtain hosts where hosts: "receipt_hosts w (ru_room r) = Some hosts"
    "set hosts = (if partial then {h \<in> set at_join \<union> set current. h \<noteq> []} else set current)"
    using set_receipt_hosts [OF assms(1,2)] by blast
  define ours where "ours = filter (ephemeral_due e) (ephemeral_destinations e hosts)"
  let ?effs = "concat (map (receipt_effects r c) ours)"
  have run: "handle_receipt e w r = Some ?effs"
    using False by (simp add: handle_receipt_def hosts(1) assms(3) ours_def)
  have who: "receipt_for e partial at_join current r h \<longleftrightarrow> count_list ours h \<noteq> 0" for h
    using False hosts(2)
    by (auto simp: receipt_for_def count_list_0_iff ours_def ephemeral_destinations_def ephemeral_is_mine_def)
  show ?thesis
  proof (intro exI conjI allI)
    fix h
    show "let before = pending_of m h; now = pending_of (route_effects ?effs m) h in
         if receipt_for e partial at_join current r h
         then receipt_view now = (receipt_view before)((ru_room r, ru_type r, ru_user r, ru_thread r) \<mapsto> c)
           \<and> keyed_view now = keyed_view before \<and> presence_view now = presence_view before
           \<and> marked_units now = marked_units before
         else now = before"
      using receipts_arrive [OF spec [OF assms(4), of h] refl, of "count_list ours h"]
      by (simp add: Let_def pending_of_effects arrivals_for_receipts who)
  qed (rule run)
qed

section \<open>Presence reaches its destination\<close>

definition presence_arrivals ::
  "(presence_body \<Rightarrow> raw_message option) \<Rightarrow> (string \<rightharpoonup> presence_state) \<Rightarrow> string list \<Rightarrow> arrival list" where
  "presence_arrivals mj states us =
     List.map_filter (\<lambda>u. map_option (\<lambda>st. PresenceArrival \<lparr>pe_user = u, pe_encode = encode_presence mj st\<rparr>) (states u)) us"

definition presence_of :: "(presence_body \<Rightarrow> raw_message option) \<Rightarrow> (string \<rightharpoonup> presence_state) \<Rightarrow> string \<Rightarrow> presence_entry option" where
  "presence_of mj states u = map_option (\<lambda>st. \<lparr>pe_user = u, pe_encode = encode_presence mj st\<rparr>) (states u)"

lemma presence_arrivals_simps [simp]:
  "presence_arrivals mj states [] = []"
  "presence_arrivals mj states (u # us) = (case states u of
     None \<Rightarrow> presence_arrivals mj states us
   | Some st \<Rightarrow> PresenceArrival \<lparr>pe_user = u, pe_encode = encode_presence mj st\<rparr> # presence_arrivals mj states us)"
  by (simp_all add: presence_arrivals_def List.map_filter_simps split: option.split)

lemma arrivals_for_presence:
  "arrivals_for h (presence_effects mj host states us) = (if h = host then presence_arrivals mj states us else [])"
  by (induction us) (auto split: option.split)

lemma presence_arrivals_ok: "list_all arrival_ok (presence_arrivals mj states us)"
  by (induction us) (simp_all split: option.split)

lemma presence_arrives:
  "merged es \<Longrightarrow>
     presence_view (fold arrive (presence_arrivals mj states us) es) = presence_view es ++ (presence_of mj states |` set us)"
proof (induction us arbitrary: es)
  case (Cons u us)
  show ?case
  proof (cases "states u")
    case None
    with Cons show ?thesis by (auto simp: fun_eq_iff map_add_def restrict_map_def presence_of_def split: option.splits)
  next
    case (Some st)
    let ?p = "\<lparr>pe_user = u, pe_encode = encode_presence mj st\<rparr>"
    have inv: "presence_inv es" using Cons.prems by (simp add: merged_def)
    have "presence_view (arrive (PresenceArrival ?p) es) = (presence_view es)(u \<mapsto> ?p)"
      by (rule presence.own_arrival [OF _ inv]) simp_all
    moreover have "merged (arrive (PresenceArrival ?p) es)" by (rule merged_arrive [OF _ Cons.prems]) simp
    ultimately show ?thesis
      using Cons.IH [of "arrive (PresenceArrival ?p) es"]
      by (auto simp: Some fun_eq_iff map_add_def restrict_map_def presence_of_def split: option.splits)
  qed
qed simp

lemma newest_presence:
  "case get_presence_states rows us u of
     None \<Rightarrow> u \<notin> set us \<or> (\<forall>r \<in> set rows. pr_user r \<noteq> u)
   | Some st \<Rightarrow> u \<in> set us \<and> (\<exists>r \<in> set rows. st = state_of_row r \<and> pr_user r = u
       \<and> (\<forall>r' \<in> set rows. pr_user r' = u \<longrightarrow> pr_stream r' \<le> pr_stream r))"
proof (cases "u \<in> set us")
  case True
  let ?f = "filter (\<lambda>r. pr_user r = u) rows"
  let ?s = "sort_key (\<lambda>r. - pr_stream r) ?f"
  show ?thesis
  proof (cases ?s)
    case Nil
    then have "set ?s = {}" by simp
    then have "\<forall>r \<in> set rows. pr_user r \<noteq> u" by (simp only: set_sort) auto
    then show ?thesis using Nil by (simp add: get_presence_states_def)
  next
    case (Cons r rs)
    have "sorted (map (\<lambda>r. - pr_stream r) ?s)" by simp
    then have "\<forall>x \<in> set rs. pr_stream x \<le> pr_stream r" by (simp only: Cons) simp
    moreover have "set ?f = set (r # rs)" by (simp only: Cons [symmetric] set_sort)
    ultimately have "r \<in> set rows \<and> pr_user r = u \<and> (\<forall>r' \<in> set rows. pr_user r' = u \<longrightarrow> pr_stream r' \<le> pr_stream r)"
      by (auto simp: set_eq_iff)
    then show ?thesis using True by (auto simp: get_presence_states_def Cons)
  qed
qed (simp add: get_presence_states_def)

lemma presence_effects_nil: "presence_effects mj host states us = [] \<longleftrightarrow> list_all (\<lambda>u. states u = None) us"
  by (induction us) (auto split: option.split)

text \<open>
  What presence a destination is told. With federated presence on, a destination of ours
  that is due gets, for every user named that the presence table knows, the state of that user's
  newest row, read when the update is routed and turned into its age only when a transaction is
  built; this replaces whatever was pending for the user. Every other user's pending presence and
  every other server's queue is as it was.
\<close>

theorem presence_is_newest:
  assumes "eph_track_presence e" "eph_should_handle e host" "host \<noteq> eph_server e" "ephemeral_due e host"
    "ew_presence w = Some rows" "\<forall>h. merged (pending_of m h)"
  shows "\<exists>effs. handle_presence e w host us = Some effs
    \<and> (\<forall>h. h \<noteq> host \<longrightarrow> pending_of (route_effects effs m) h = pending_of m h)
    \<and> (\<forall>u. let now = presence_view (pending_of (route_effects effs m) host) u in
         if u \<in> set us \<and> (\<exists>r \<in> set rows. pr_user r = u)
         then \<exists>r \<in> set rows. pr_user r = u \<and> (\<forall>r' \<in> set rows. pr_user r' = u \<longrightarrow> pr_stream r' \<le> pr_stream r)
           \<and> now = Some \<lparr>pe_user = u, pe_encode = encode_presence (ew_presence_json w) (state_of_row r)\<rparr>
         else now = presence_view (pending_of m host) u)"
proof -
  let ?states = "get_presence_states rows us" and ?mj = "ew_presence_json w"
  obtain effs where effs: "handle_presence e w host us = Some effs"
    "\<forall>h. arrivals_for h effs = (if h = host then presence_arrivals ?mj ?states us else [])"
  proof (cases "us = [] \<or> list_all (\<lambda>u. ?states u = None) us")
    case True
    then have "presence_arrivals ?mj ?states us = []"
      by (auto simp: presence_arrivals_def map_filter_def list_all_iff filter_empty_conv)
    with True assms that [of "[]"] show ?thesis
      by (auto simp: handle_presence_def not_ours_to_send_def)
  next
    case False
    then have "presence_effects ?mj host ?states us \<noteq> []" by (simp add: presence_effects_nil)
    with False assms that [of "presence_effects ?mj host ?states us @ [WakeUp host]"] show ?thesis
      by (simp add: handle_presence_def not_ours_to_send_def arrivals_for_presence Let_def)
  qed
  have now: "presence_view (pending_of (route_effects effs m) host) u =
      (case presence_of ?mj ?states u of
         Some p \<Rightarrow> if u \<in> set us then Some p else presence_view (pending_of m host) u
       | None \<Rightarrow> presence_view (pending_of m host) u)" for u
    using presence_arrives [OF spec [OF assms(6), of host], of ?mj ?states us] effs(2)
    by (simp add: pending_of_effects map_add_def restrict_map_def split: option.split)
  have "let now = presence_view (pending_of (route_effects effs m) host) u in
         if u \<in> set us \<and> (\<exists>r \<in> set rows. pr_user r = u)
         then \<exists>r \<in> set rows. pr_user r = u \<and> (\<forall>r' \<in> set rows. pr_user r' = u \<longrightarrow> pr_stream r' \<le> pr_stream r)
           \<and> now = Some \<lparr>pe_user = u, pe_encode = encode_presence ?mj (state_of_row r)\<rparr>
         else now = presence_view (pending_of m host) u" for u
    using newest_presence [where rows = rows and us = us and u = u] by (auto simp: now presence_of_def Let_def split: option.splits)
  with effs show ?thesis by (auto simp: pending_of_unreached)
qed

text \<open>A room of three servers, one of them down, and a manager that knows none of them.\<close>

definition sample_ephemeral :: ephemeral where
  "sample_ephemeral = new_ephemeral ''us'' (\<lambda>h. h \<noteq> ''elsewhere'') True (Some (\<lambda>h. h \<noteq> ''down''))"

definition sample_ephemeral_world :: ephemeral_world where
  "sample_ephemeral_world =
     \<lparr>ew_at_join = (\<lambda>_. Some ([], False)), ew_current = (\<lambda>_. Some [''us'', ''b'', ''down'', ''elsewhere'']),
      ew_presence = Some [\<lparr>pr_stream = 4, pr_user = ''@a:us'', pr_state = ''online'', pr_last_active = Some 7,
                           pr_status = None, pr_active = Some True\<rparr>,
                          \<lparr>pr_stream = 9, pr_user = ''@a:us'', pr_state = ''offline'', pr_last_active = Some 8,
                           pr_status = None, pr_active = None\<rparr>],
      ew_receipt_json = (\<lambda>ev data. Some ev), ew_presence_json = (\<lambda>b. Some (pb_presence b))\<rparr>"

definition sample_manager :: manager where
  "sample_manager = new_manager \<lparr>max_pdus = 0, max_edus = 0\<rparr> \<lparr>max_states = 50, max_wait = 5 * second\<rparr> 0"

lemma sample_manager_empty: "pending_of sample_manager h = []"
  by (simp add: pending_of_def queue_of_def sample_manager_def new_manager_def new_destination_def)

theorem receipts_reach_the_room_witness:
  "\<exists>effs. handle_receipt sample_ephemeral sample_ephemeral_world
       \<lparr>ru_room = ''!r'', ru_type = ''m.read'', ru_user = ''@a:us'', ru_event = ''$e'', ru_thread = [], ru_data = []\<rparr> = Some effs
     \<and> receipt_view (pending_of (route_effects effs sample_manager) ''b'') (''!r'', ''m.read'', ''@a:us'', []) = Some ''$e''
     \<and> pending_of (route_effects effs sample_manager) ''down'' = []"
proof -
  let ?r = "\<lparr>ru_room = ''!r'', ru_type = ''m.read'', ru_user = ''@a:us'', ru_event = ''$e'', ru_thread = [], ru_data = []\<rparr>"
  have merged: "\<forall>h. merged (pending_of sample_manager h)" by (simp add: sample_manager_empty merged_nil)
  have who: "receipt_for sample_ephemeral False [] [''us'', ''b'', ''down'', ''elsewhere''] ?r ''b''"
    "\<not> receipt_for sample_ephemeral False [] [''us'', ''b'', ''down'', ''elsewhere''] ?r ''down''"
    by (simp_all add: receipt_for_def sample_ephemeral_def new_ephemeral_def ephemeral_due_def domain_of_def strings_cut_def)
  have world: "ew_at_join sample_ephemeral_world (ru_room ?r) = Some ([], False)"
    "ew_current sample_ephemeral_world (ru_room ?r) = Some [''us'', ''b'', ''down'', ''elsewhere'']"
    "ew_receipt_json sample_ephemeral_world (ru_event ?r) (ru_data ?r) = Some ''$e''"
    by (simp_all add: sample_ephemeral_world_def)
  obtain effs where "handle_receipt sample_ephemeral sample_ephemeral_world ?r = Some effs"
    and eff: "\<forall>h. let before = pending_of sample_manager h; now = pending_of (route_effects effs sample_manager) h in
         if receipt_for sample_ephemeral False [] [''us'', ''b'', ''down'', ''elsewhere''] ?r h
         then receipt_view now = (receipt_view before)((''!r'', ''m.read'', ''@a:us'', []) \<mapsto> ''$e'')
           \<and> keyed_view now = keyed_view before \<and> presence_view now = presence_view before
           \<and> marked_units now = marked_units before
         else now = before"
    using receipts_reach_the_room [OF world merged, of sample_ephemeral] by (simp only: receipt_update.select_convs) blast
  with spec [OF eff, of "''b''"] spec [OF eff, of "''down''"] who show ?thesis
    by (simp add: Let_def sample_manager_empty)
qed

theorem presence_is_newest_witness:
  "\<exists>effs p. handle_presence sample_ephemeral sample_ephemeral_world ''b'' [''@a:us''] = Some effs
     \<and> presence_view (pending_of (route_effects effs sample_manager) ''b'') ''@a:us'' = Some p
     \<and> pe_encode p 100 = ''offline''"
proof -
  have merged: "\<forall>h. merged (pending_of sample_manager h)" by (simp add: sample_manager_empty merged_nil)
  have "\<exists>rows. ew_presence sample_ephemeral_world = Some rows" by (simp add: sample_ephemeral_world_def)
  then obtain rows where rows: "ew_presence sample_ephemeral_world = Some rows" by blast
  obtain effs where "handle_presence sample_ephemeral sample_ephemeral_world ''b'' [''@a:us''] = Some effs"
    and eff: "\<forall>u. let now = presence_view (pending_of (route_effects effs sample_manager) ''b'') u in
         if u \<in> set [''@a:us''] \<and> (\<exists>r \<in> set rows. pr_user r = u)
         then \<exists>r \<in> set rows. pr_user r = u \<and> (\<forall>r' \<in> set rows. pr_user r' = u \<longrightarrow> pr_stream r' \<le> pr_stream r)
           \<and> now = Some \<lparr>pe_user = u, pe_encode = encode_presence (ew_presence_json sample_ephemeral_world) (state_of_row r)\<rparr>
         else now = presence_view (pending_of sample_manager ''b'') u"
    using presence_is_newest [of sample_ephemeral "''b''", OF _ _ _ _ rows merged, of "[''@a:us'']"]
    by (auto simp: sample_ephemeral_def new_ephemeral_def ephemeral_due_def)
  with spec [OF eff, of "''@a:us''"] rows show ?thesis
    by (auto simp: sample_ephemeral_world_def Let_def encode_presence_def format_presence_at_def state_of_row_def)
qed

end
