(* ===== verification/Typing.thy ===== *)
theory Typing
  imports Ephemeral "HOL-Library.Product_Lexorder" "HOL-Library.Sublist"
begin

text \<open>
  \<open>internal/sender/typing.go\<close>: the typing stream's whole-room sets turned into start and stop
  notifications. A Go map is an association list with distinct keys and the typing set of a room
  a list of distinct users; the buffered channel is the list of what waits in it, at most 1024.
  \<open>json.Marshal\<close> of the notification cannot fail and is an argument.
\<close>

section \<open>State\<close>

type_synonym member = "string \<times> string"
type_synonym typing_work = "member \<times> bool"

record typing =
  ty_server :: string
  ty_should_handle :: "string \<Rightarrow> bool"
  ty_due :: "(string \<Rightarrow> bool) option"
  ty_serial :: int
  ty_rooms :: "(string \<times> string list) list"
  ty_last_poke :: "(member \<times> instant) list"
  ty_work :: "typing_work list"

record typing_row =
  tr_room :: string
  tr_users :: "string list"

abbreviation federation_ping_interval :: duration where "federation_ping_interval \<equiv> 40 * second"
abbreviation typing_work_buffer :: nat where "typing_work_buffer \<equiv> 1024"

definition new_typing :: "string \<Rightarrow> (string \<Rightarrow> bool) \<Rightarrow> (string \<Rightarrow> bool) option \<Rightarrow> typing" where
  "new_typing server mine is_due =
     \<lparr>ty_server = server, ty_should_handle = mine, ty_due = is_due, ty_serial = 0, ty_rooms = [],
      ty_last_poke = [], ty_work = []\<rparr>"

text \<open>The loop from the end of the id: what follows the \<^emph>\<open>last\<close> colon.\<close>

definition typing_is_mine :: "typing \<Rightarrow> string \<Rightarrow> bool" where
  "typing_is_mine t user \<longleftrightarrow>
     (case dropWhile (\<lambda>c. c \<noteq> CHR '':'') (rev user) of
        [] \<Rightarrow> False
      | _ \<Rightarrow> rev (takeWhile (\<lambda>c. c \<noteq> CHR '':'') (rev user)) = ty_server t)"

section \<open>The stream\<close>

definition typing_in :: "typing \<Rightarrow> string \<Rightarrow> string list" where
  "typing_in t room = (case map_of (ty_rooms t) room of None \<Rightarrow> [] | Some us \<Rightarrow> us)"

definition set_room :: "string \<Rightarrow> string list \<Rightarrow> (string \<times> string list) list \<Rightarrow> (string \<times> string list) list" where
  "set_room room us rooms = (if us = [] then AList.delete room rooms else AList.update room us rooms)"

text \<open>One row: the new set of its room, who started and who stopped.\<close>

definition diff_row :: "typing \<Rightarrow> typing_row \<Rightarrow> typing \<times> member list \<times> member list" where
  "diff_row t row =
     (let room = tr_room row; prev = typing_in t room; now = remdups (tr_users row);
          starts = map (Pair room) (filter (\<lambda>u. u \<notin> set prev \<and> typing_is_mine t u) now);
          stops = map (Pair room) (filter (\<lambda>u. u \<notin> set now \<and> typing_is_mine t u) prev)
      in (t\<lparr>ty_rooms := set_room room now (ty_rooms t),
            ty_last_poke := filter (\<lambda>p. fst p \<notin> set stops) (ty_last_poke t)\<rparr>, starts, stops))"

fun diff_rows :: "typing \<Rightarrow> typing_row list \<Rightarrow> typing \<times> member list \<times> member list" where
  "diff_rows t [] = (t, [], [])"
| "diff_rows t (row # rows) =
     (case diff_row t row of (t1, starts, stops) \<Rightarrow>
        (case diff_rows t1 rows of (t2, starts', stops') \<Rightarrow> (t2, starts @ starts', stops @ stops')))"

definition forget_if_backwards :: "int \<Rightarrow> typing \<Rightarrow> typing" where
  "forget_if_backwards token t = (if token < ty_serial t then t\<lparr>ty_rooms := [], ty_last_poke := []\<rparr> else t)"

definition typing_diff :: "int \<Rightarrow> typing_row list \<Rightarrow> typing \<Rightarrow> typing \<times> member list \<times> member list" where
  "typing_diff token rows t =
     (case diff_rows ((forget_if_backwards token t)\<lparr>ty_serial := token\<rparr>) rows of
        (t', starts, stops) \<Rightarrow> (t', sort starts, sort stops))"

definition submit :: "typing_work \<Rightarrow> typing \<Rightarrow> typing" where
  "submit w t = (if length (ty_work t) < typing_work_buffer then t\<lparr>ty_work := ty_work t @ [w]\<rparr> else t)"

definition handle_rows :: "int \<Rightarrow> typing_row list \<Rightarrow> typing \<Rightarrow> typing" where
  "handle_rows token rows t =
     (case typing_diff token rows t of (t', starts, stops) \<Rightarrow>
        fold (\<lambda>m. submit (m, False)) stops (fold (\<lambda>m. submit (m, True)) starts t'))"

definition keep_alive :: "instant \<Rightarrow> typing \<Rightarrow> typing" where
  "keep_alive now t =
     (let waiting = filter (\<lambda>(room, u). typing_is_mine t u
                \<and> (case map_of (ty_last_poke t) (room, u) of
                     None \<Rightarrow> True | Some last_time \<Rightarrow> now - last_time \<ge> federation_ping_interval))
              (concat (map (\<lambda>(room, us). map (Pair room) us) (ty_rooms t)))
      in fold (\<lambda>m. submit (m, True)) (sort waiting) t)"

section \<open>The consumer\<close>

definition typing_key :: "member \<Rightarrow> string" where
  "typing_key m = fst m @ ''|'' @ snd m"

definition typing_hosts :: "typing \<Rightarrow> string list \<Rightarrow> string list" where
  "typing_hosts t hosts =
     filter (\<lambda>h. \<not> (h = ty_server t \<or> \<not> ty_should_handle t h) \<and> (case ty_due t of None \<Rightarrow> True | Some f \<Rightarrow> f h)) hosts"

text \<open>\<open>hosts\<close> is the answer of \<open>CurrentJoinedHosts\<close>, \<open>now\<close> the clock at the end.\<close>

definition push ::
  "(member \<Rightarrow> bool \<Rightarrow> raw_message) \<Rightarrow> string list option \<Rightarrow> instant \<Rightarrow> member \<Rightarrow> bool \<Rightarrow> typing \<Rightarrow> typing \<times> edu_effect list" where
  "push mj hosts now m on t =
     (case hosts of
        None \<Rightarrow> (t, [])
      | Some hs \<Rightarrow>
          (let sent = typing_hosts t hs;
               effs = concat (map (\<lambda>h. [ToQueue h (KeyedArrival (typing_key m)
                        \<lparr>edu_type = EDUTypeTyping, edu_content = Raw (mj m on)\<rparr>), WakeUp h]) sent)
           in (if on \<and> sent \<noteq> [] then t\<lparr>ty_last_poke := AList.update m now (ty_last_poke t)\<rparr> else t, effs)))"

text \<open>One turn of \<open>Run\<close>: the oldest waiting push.\<close>

definition run_typing ::
  "(member \<Rightarrow> bool \<Rightarrow> raw_message) \<Rightarrow> (string \<Rightarrow> string list option) \<Rightarrow> instant \<Rightarrow> typing \<Rightarrow> typing \<times> edu_effect list" where
  "run_typing mj hosts now t =
     (case ty_work t of
        [] \<Rightarrow> (t, [])
      | (m, on) # ws \<Rightarrow> push mj (hosts (fst m)) now m on (t\<lparr>ty_work := ws\<rparr>))"

section \<open>Runs\<close>

text \<open>
  Three goroutines: the replication one, which calls \<open>HandleRows\<close>, the ticker of the keep-alive and the
  consumer. The first two change or read the remembered sets in one section under the lock and hand
  their words over after it, one by one; \<open>th_rows\<close> and \<open>th_ticks\<close> are what they have still to hand
  over. The consumer takes a word, looks the room up and tells its servers, and then notes when.
  Ghosts: the words handed to \<open>submit\<close>, those the consumer took, and the members the keep-alive
  announced although they had stopped, until the next batch that speaks of them.
\<close>

datatype typing_event =
    RowBatch int "typing_row list"
  | RowWord
  | Tick instant
  | TickWord
  | Take
  | Pushed instant "string list option"

record typing_history =
  th_state :: typing
  th_rows :: "typing_work list"
  th_ticks :: "typing_work list"
  th_push :: "typing_work option"
  th_taken :: "typing_work list"
  th_words :: "typing_work list"
  th_late :: "member list"

definition due_members :: "instant \<Rightarrow> typing \<Rightarrow> member list" where
  "due_members now t =
     sort (filter (\<lambda>(room, u). typing_is_mine t u
                \<and> (case map_of (ty_last_poke t) (room, u) of
                     None \<Rightarrow> True | Some last_time \<Rightarrow> now - last_time \<ge> federation_ping_interval))
              (concat (map (\<lambda>(room, us). map (Pair room) us) (ty_rooms t))))"

definition row_words :: "member list \<Rightarrow> member list \<Rightarrow> typing_work list" where
  "row_words starts stops = map (\<lambda>m. (m, True)) starts @ map (\<lambda>m. (m, False)) stops"

fun typing_step :: "(member \<Rightarrow> bool \<Rightarrow> raw_message) \<Rightarrow> typing_event \<Rightarrow> typing_history \<Rightarrow> typing_history option" where
  "typing_step mj (RowBatch token rows) h =
     (if th_rows h \<noteq> [] then None
      else case typing_diff token rows (th_state h) of (t', starts, stops) \<Rightarrow>
        Some (h\<lparr>th_state := t', th_rows := row_words starts stops,
                th_late := filter (\<lambda>m. m \<notin> set starts \<union> set stops) (th_late h)\<rparr>))"
| "typing_step mj RowWord h =
     (case th_rows h of
        [] \<Rightarrow> None
      | w # ws \<Rightarrow> Some (h\<lparr>th_state := submit w (th_state h), th_rows := ws, th_words := th_words h @ [w]\<rparr>))"
| "typing_step mj (Tick now) h =
     (if th_ticks h \<noteq> [] then None else Some (h\<lparr>th_ticks := map (\<lambda>m. (m, True)) (due_members now (th_state h))\<rparr>))"
| "typing_step mj TickWord h =
     (case th_ticks h of
        [] \<Rightarrow> None
      | w # ws \<Rightarrow> Some (h\<lparr>th_state := submit w (th_state h), th_ticks := ws, th_words := th_words h @ [w],
             th_late := (if snd (fst w) \<in> set (typing_in (th_state h) (fst (fst w))) then th_late h else fst w # th_late h)\<rparr>))"
| "typing_step mj Take h =
     (case (th_push h, ty_work (th_state h)) of
        (None, w # ws) \<Rightarrow> Some (h\<lparr>th_state := (th_state h)\<lparr>ty_work := ws\<rparr>, th_push := Some w, th_taken := th_taken h @ [w]\<rparr>)
      | _ \<Rightarrow> None)"
| "typing_step mj (Pushed now hosts) h =
     (case th_push h of
        None \<Rightarrow> None
      | Some (m, on) \<Rightarrow> Some (h\<lparr>th_state := fst (push mj hosts now m on (th_state h)), th_push := None\<rparr>))"

definition typing_start :: "typing \<Rightarrow> typing_history" where
  "typing_start t = \<lparr>th_state = t, th_rows = [], th_ticks = [], th_push = None, th_taken = [], th_words = [], th_late = []\<rparr>"

fun typing_run :: "(member \<Rightarrow> bool \<Rightarrow> raw_message) \<Rightarrow> typing_event list \<Rightarrow> typing_history \<Rightarrow> typing_history option" where
  "typing_run mj [] h = Some h"
| "typing_run mj (e # evs) h = Option.bind (typing_step mj e h) (typing_run mj evs)"

definition last_word :: "typing_work list \<Rightarrow> member \<rightharpoonup> bool" where
  "last_word ws = map_of (rev ws)"

text \<open>Tokens in order, and one row per room in a batch.\<close>

fun in_order :: "int \<Rightarrow> typing_event list \<Rightarrow> bool" where
  "in_order token [] = True"
| "in_order token (RowBatch token' rows # evs) =
     (token \<le> token' \<and> distinct (map tr_room rows) \<and> in_order token' evs)"
| "in_order token (_ # evs) = in_order token evs"

section \<open>The words are what is typed\<close>

definition submits :: "typing_work list \<Rightarrow> typing \<Rightarrow> typing" where
  "submits ws t = fold submit ws t"

lemma submit_frame [simp]:
  "ty_server (submit w t) = ty_server t" "ty_rooms (submit w t) = ty_rooms t" "ty_serial (submit w t) = ty_serial t"
  by (simp_all add: submit_def)

text \<open>Left alone, the two callers do what their functions say.\<close>

lemma handle_rows_submits:
  "handle_rows token rows t = (case typing_diff token rows t of (t', starts, stops) \<Rightarrow> submits (row_words starts stops) t')"
  by (simp add: handle_rows_def submits_def row_words_def fold_map comp_def split: prod.split)

lemma keep_alive_submits: "keep_alive now t = submits (map (\<lambda>m. (m, True)) (due_members now t)) t"
  by (simp add: keep_alive_def submits_def due_members_def fold_map comp_def)

lemma row_words_run:
  "th_rows h = ws \<Longrightarrow> typing_run mj (replicate (length ws) RowWord) h
     = Some (h\<lparr>th_state := submits ws (th_state h), th_rows := [], th_words := th_words h @ ws\<rparr>)"
  by (induction ws arbitrary: h) (simp_all add: submits_def)

lemma handle_rows_alone:
  assumes "th_rows h = []" "typing_diff token rows (th_state h) = (t', starts, stops)"
  shows "map_option th_state (typing_run mj (RowBatch token rows # replicate (length (row_words starts stops)) RowWord) h)
    = Some (handle_rows token rows (th_state h))"
  by (simp add: assms handle_rows_submits row_words_run)

lemma mine_same: "ty_server t' = ty_server t \<Longrightarrow> typing_is_mine t' = typing_is_mine t"
  by (intro ext) (simp only: typing_is_mine_def)

lemma typing_in_set_room:
  "typing_in (t\<lparr>ty_rooms := set_room room us rooms, ty_last_poke := lp\<rparr>) room' =
     (if room' = room then us else typing_in (t\<lparr>ty_rooms := rooms\<rparr>) room')"
  by (auto simp: typing_in_def set_room_def update_conv' delete_conv' split: option.split)

lemma diff_row_facts:
  assumes "diff_row t row = (t', starts, stops)"
  shows "ty_server t' = ty_server t" "ty_work t' = ty_work t"
    "\<forall>room. set (typing_in t' room) = (if room = tr_room row then set (tr_users row) else set (typing_in t room))"
    "set starts = {(room, u). room = tr_room row \<and> u \<in> set (typing_in t' room) \<and> u \<notin> set (typing_in t room) \<and> typing_is_mine t u}"
    "set stops = {(room, u). room = tr_room row \<and> u \<notin> set (typing_in t' room) \<and> u \<in> set (typing_in t room) \<and> typing_is_mine t u}"
proof -
  have t': "t' = t\<lparr>ty_rooms := set_room (tr_room row) (remdups (tr_users row)) (ty_rooms t), ty_last_poke := ty_last_poke t'\<rparr>"
    and start: "starts = map (Pair (tr_room row)) (filter (\<lambda>u. u \<notin> set (typing_in t (tr_room row)) \<and> typing_is_mine t u) (remdups (tr_users row)))"
    and stop: "stops = map (Pair (tr_room row)) (filter (\<lambda>u. u \<notin> set (remdups (tr_users row)) \<and> typing_is_mine t u) (typing_in t (tr_room row)))"
    using assms by (auto simp: diff_row_def Let_def)
  have here: "typing_in t' room = (if room = tr_room row then remdups (tr_users row) else typing_in t room)" for room
    by (subst t', subst typing_in_set_room) simp
  show "ty_server t' = ty_server t" "ty_work t' = ty_work t" by (subst t', simp)+
  show "\<forall>room. set (typing_in t' room) = (if room = tr_room row then set (tr_users row) else set (typing_in t room))"
    by (simp add: here)
  show "set starts = {(room, u). room = tr_room row \<and> u \<in> set (typing_in t' room) \<and> u \<notin> set (typing_in t room) \<and> typing_is_mine t u}"
    by (auto simp: here start)
  show "set stops = {(room, u). room = tr_room row \<and> u \<notin> set (typing_in t' room) \<and> u \<in> set (typing_in t room) \<and> typing_is_mine t u}"
    by (auto simp: here stop)
qed

lemma diff_rows_facts:
  assumes "distinct (map tr_room rows)" "diff_rows t rows = (t', starts, stops)"
  shows "ty_server t' = ty_server t \<and> ty_work t' = ty_work t
    \<and> (\<forall>room. room \<notin> tr_room ` set rows \<longrightarrow> set (typing_in t' room) = set (typing_in t room))
    \<and> (\<forall>row \<in> set rows. set (typing_in t' (tr_room row)) = set (tr_users row))
    \<and> set starts = {(room, u). u \<in> set (typing_in t' room) \<and> u \<notin> set (typing_in t room) \<and> typing_is_mine t u}
    \<and> set stops = {(room, u). u \<notin> set (typing_in t' room) \<and> u \<in> set (typing_in t room) \<and> typing_is_mine t u}"
  using assms
proof (induction rows arbitrary: t t' starts stops)
  case (Cons row rows)
  obtain t1 s1 p1 where one: "diff_row t row = (t1, s1, p1)" by (cases "diff_row t row")
  obtain t2 s2 p2 where rest: "diff_rows t1 rows = (t2, s2, p2)" by (cases "diff_rows t1 rows")
  have eq: "t' = t2" "starts = s1 @ s2" "stops = p1 @ p2" using Cons.prems(2) by (simp_all add: one rest)
  have new: "tr_room row \<notin> tr_room ` set rows" using Cons.prems(1) by simp
  note f = diff_row_facts [OF one]
  note IH = Cons.IH [OF _ rest]
  have dist: "distinct (map tr_room rows)" using Cons.prems(1) by simp
  note mine = mine_same [OF f(1)]
  have here: "set (typing_in t2 (tr_room row)) = set (tr_users row)" using IH [OF dist] new f(3) by simp
  have others: "room \<noteq> tr_room row \<Longrightarrow> set (typing_in t1 room) = set (typing_in t room)" for room
    using f(3) by simp
  have start: "set (s1 @ s2) = {(room, u). u \<in> set (typing_in t2 room) \<and> u \<notin> set (typing_in t room) \<and> typing_is_mine t u}"
  proof -
    have "(room, u) \<in> set (s1 @ s2) \<longleftrightarrow> u \<in> set (typing_in t2 room) \<and> u \<notin> set (typing_in t room) \<and> typing_is_mine t u" for room u
      using IH [OF dist] f(3,4) here others [of room] by (cases "room = tr_room row") (auto simp: mine)
    then show ?thesis by auto
  qed
  have stop: "set (p1 @ p2) = {(room, u). u \<notin> set (typing_in t2 room) \<and> u \<in> set (typing_in t room) \<and> typing_is_mine t u}"
  proof -
    have "(room, u) \<in> set (p1 @ p2) \<longleftrightarrow> u \<notin> set (typing_in t2 room) \<and> u \<in> set (typing_in t room) \<and> typing_is_mine t u" for room u
      using IH [OF dist] f(3,5) here others [of room] by (cases "room = tr_room row") (auto simp: mine)
    then show ?thesis by auto
  qed
  show ?case unfolding eq using start stop IH [OF dist] f(1,2) here others new by auto
qed simp

lemma typing_diff_facts:
  assumes "distinct (map tr_room rows)" "typing_diff token rows t = (t', starts, stops)" "ty_serial t \<le> token"
  shows "ty_server t' = ty_server t" "ty_work t' = ty_work t"
    "set starts = {(room, u). u \<in> set (typing_in t' room) \<and> u \<notin> set (typing_in t room) \<and> typing_is_mine t u}"
    "set stops = {(room, u). u \<notin> set (typing_in t' room) \<and> u \<in> set (typing_in t room) \<and> typing_is_mine t u}"
    "\<forall>row \<in> set rows. set (typing_in t' (tr_room row)) = set (tr_users row)"
    "\<forall>room. room \<notin> tr_room ` set rows \<longrightarrow> set (typing_in t' room) = set (typing_in t room)"
proof -
  let ?t = "t\<lparr>ty_serial := token\<rparr>"
  have forget: "(forget_if_backwards token t)\<lparr>ty_serial := token\<rparr> = ?t"
    using assms(3) by (simp add: forget_if_backwards_def)
  obtain t2 s2 p2 where run: "diff_rows ?t rows = (t2, s2, p2)" by (cases "diff_rows ?t rows")
  have eq: "t' = t2" "starts = sort s2" "stops = sort p2" using assms(2) by (simp_all add: typing_diff_def forget run)
  have same: "typing_is_mine ?t = typing_is_mine t" "typing_in ?t = typing_in t" "ty_server ?t = ty_server t" "ty_work ?t = ty_work t"
    by (rule mine_same, simp) (simp_all add: typing_in_def fun_eq_iff)
  note f = diff_rows_facts [OF assms(1) run, unfolded same]
  show "ty_server t' = ty_server t" "ty_work t' = ty_work t"
    "set starts = {(room, u). u \<in> set (typing_in t' room) \<and> u \<notin> set (typing_in t room) \<and> typing_is_mine t u}"
    "set stops = {(room, u). u \<notin> set (typing_in t' room) \<and> u \<in> set (typing_in t room) \<and> typing_is_mine t u}"
    "\<forall>row \<in> set rows. set (typing_in t' (tr_room row)) = set (tr_users row)"
    "\<forall>room. room \<notin> tr_room ` set rows \<longrightarrow> set (typing_in t' room) = set (typing_in t room)"
    using f by (simp_all add: eq)
qed

lemma typing_in_submit [simp]: "typing_in (submit w t) = typing_in t"
  by (simp add: typing_in_def fun_eq_iff)

lemma diff_serial: "ty_serial (fst (typing_diff token rows t)) = token"
proof -
  have "ty_serial (fst (diff_rows t' rows)) = ty_serial t'" for t'
  proof (induction rows arbitrary: t')
    case (Cons row rows)
    obtain t1 s1 p1 where d: "diff_row t' row = (t1, s1, p1)" by (cases "diff_row t' row")
    then have "ty_serial t1 = ty_serial t'" by (auto simp: diff_row_def Let_def)
    with Cons.IH [of t1] show ?case by (cases "diff_rows t1 rows") (simp add: d)
  qed simp
  from this [of "(forget_if_backwards token t)\<lparr>ty_serial := token\<rparr>"] show ?thesis
    by (auto simp: typing_diff_def split: prod.splits)
qed

lemma last_word_append: "last_word (ws @ ws') = last_word ws ++ last_word ws'"
  by (simp add: last_word_def)

lemma last_word_same: "last_word (map (\<lambda>m. (m, b)) ms) m = (if m \<in> set ms then Some b else None)"
proof -
  have "map_of (map (\<lambda>m. (m, b)) xs) m = (if m \<in> set xs then Some b else None)" for xs
    by (induction xs) auto
  from this [of "rev ms"] show ?thesis by (simp add: last_word_def rev_map)
qed

text \<open>What has been said and what the rows have still to say.\<close>

definition last_said :: "typing_history \<Rightarrow> member \<rightharpoonup> bool" where
  "last_said h = last_word (th_words h @ th_rows h)"

definition tells :: "typing_history \<Rightarrow> string \<Rightarrow> string \<Rightarrow> bool" where
  "tells h room u \<longleftrightarrow>
     (if typing_is_mine (th_state h) u
      then (u \<in> set (typing_in (th_state h) room) \<longrightarrow> last_said h (room, u) = Some True)
        \<and> (last_said h (room, u) = Some True \<longrightarrow> u \<in> set (typing_in (th_state h) room) \<or> (room, u) \<in> set (th_late h))
      else last_said h (room, u) = None)"

definition telling :: "typing_history \<Rightarrow> bool" where
  "telling h \<longleftrightarrow> (\<forall>room u. tells h room u) \<and> (\<forall>w \<in> set (th_ticks h). snd w \<and> typing_is_mine (th_state h) (snd (fst w)))"

lemma telling_about:
  assumes "telling h"
  shows "typing_is_mine (th_state h) u \<Longrightarrow> u \<in> set (typing_in (th_state h) room) \<Longrightarrow> last_said h (room, u) = Some True"
    "typing_is_mine (th_state h) u \<Longrightarrow> last_said h (room, u) = Some True
       \<Longrightarrow> u \<in> set (typing_in (th_state h) room) \<or> (room, u) \<in> set (th_late h)"
    "\<not> typing_is_mine (th_state h) u \<Longrightarrow> last_said h (room, u) = None"
  using assms by (simp_all add: telling_def tells_def)

lemma telling_same:
  assumes "telling h" "last_said h' = last_said h" "ty_server (th_state h') = ty_server (th_state h)" "ty_rooms (th_state h') = ty_rooms (th_state h)"
    "th_late h' = th_late h" "\<forall>w \<in> set (th_ticks h'). snd w \<and> typing_is_mine (th_state h) (snd (fst w))"
  shows "telling h'"
proof -
  have "typing_in (th_state h') = typing_in (th_state h)" by (simp add: typing_in_def fun_eq_iff assms(4))
  with assms(2,5) mine_same [OF assms(3)] have "tells h' = tells h" by (simp add: tells_def fun_eq_iff)
  with assms(1,6) mine_same [OF assms(3)] show ?thesis by (simp add: telling_def)
qed

lemma last_word_rows: "last_word (ws @ row_words starts stops) m =
    (if m \<in> set stops then Some False else if m \<in> set starts then Some True else last_word ws m)"
  by (simp add: row_words_def last_word_append last_word_same map_add_def split: option.split)

lemma last_word_between: "last_word (ws @ w # vs) m = (case last_word vs m of Some b \<Rightarrow> Some b | None \<Rightarrow> if m = fst w then Some (snd w) else last_word ws m)"
proof -
  have "last_word (ws @ w # vs) = last_word ws ++ last_word [w] ++ last_word vs" using last_word_append [of "ws @ [w]" vs] last_word_append [of ws "[w]"] by simp
  then show ?thesis by (cases w) (auto simp: last_word_def map_add_def split: option.split)
qed

text \<open>Who types where, by the newest row of each room.\<close>

definition overlay :: "typing_row list \<Rightarrow> (string \<Rightarrow> string set) \<Rightarrow> (string \<Rightarrow> string set)" where
  "overlay rows f = fold (\<lambda>r f. f(tr_room r := set (tr_users r))) rows f"

definition typing_now :: "typing_event list \<Rightarrow> (string \<Rightarrow> string set) \<Rightarrow> (string \<Rightarrow> string set)" where
  "typing_now evs f = fold (\<lambda>e f. case e of RowBatch _ rows \<Rightarrow> overlay rows f | _ \<Rightarrow> f) evs f"

lemma overlay_other: "room \<notin> tr_room ` set rows \<Longrightarrow> overlay rows f room = f room"
  by (induction rows arbitrary: f) (simp_all add: overlay_def)

lemma overlay_row: "distinct (map tr_room rows) \<Longrightarrow> row \<in> set rows \<Longrightarrow> overlay rows f (tr_room row) = set (tr_users row)"
proof (induction rows arbitrary: f)
  case (Cons r rows)
  have step: "overlay (r # rows) f = overlay rows (f(tr_room r := set (tr_users r)))" by (simp add: overlay_def)
  show ?case
  proof (cases "row = r")
    case True
    with Cons.prems overlay_other [of "tr_room r" rows] show ?thesis by (simp add: step)
  qed (use Cons in \<open>simp add: step\<close>)
qed simp

definition rooms_ok :: "typing \<Rightarrow> bool" where
  "rooms_ok t \<longleftrightarrow> distinct (map fst (ty_rooms t))"

lemma rooms_ok_diff: "rooms_ok t \<Longrightarrow> rooms_ok (fst (typing_diff token rows t))"
proof -
  have one: "rooms_ok t \<Longrightarrow> rooms_ok (fst (diff_row t row))" for t row
    by (simp add: rooms_ok_def diff_row_def Let_def set_room_def distinct_update distinct_delete)
  have all: "rooms_ok t \<Longrightarrow> rooms_ok (fst (diff_rows t rows))" for t
  proof (induction rows arbitrary: t)
    case (Cons row rows)
    obtain t1 s1 p1 where d: "diff_row t row = (t1, s1, p1)" by (cases "diff_row t row")
    with one [OF Cons.prems, of row] Cons.IH [of t1] show ?case by (cases "diff_rows t1 rows") (simp add: d)
  qed simp
  assume "rooms_ok t"
  then have "rooms_ok ((forget_if_backwards token t)\<lparr>ty_serial := token\<rparr>)"
    by (simp add: rooms_ok_def forget_if_backwards_def)
  from all [OF this] show ?thesis
    by (cases "diff_rows ((forget_if_backwards token t)\<lparr>ty_serial := token\<rparr>) rows") (simp add: typing_diff_def)
qed

lemma due_members_mine: "(room, u) \<in> set (due_members now t) \<Longrightarrow> typing_is_mine t u"
  by (auto simp: due_members_def)

text \<open>What the consumer took and what waits are words handed over, in order.\<close>

definition in_step :: "typing_history \<Rightarrow> bool" where
  "in_step h \<longleftrightarrow> subseq (th_taken h @ ty_work (th_state h)) (th_words h)
     \<and> length (ty_work (th_state h)) \<le> typing_work_buffer"

lemma in_step_submit:
  assumes "in_step h"
  shows "subseq (th_taken h @ ty_work (submit w (th_state h))) (th_words h @ [w]) \<and> length (ty_work (submit w (th_state h))) \<le> typing_work_buffer"
proof (cases "length (ty_work (th_state h)) < typing_work_buffer")
  case True
  have "subseq ((th_taken h @ ty_work (th_state h)) @ [w]) (th_words h @ [w])"
    using assms by (intro list_emb_append_mono) (simp_all add: in_step_def)
  with True show ?thesis by (simp add: submit_def)
next
  case False
  with assms show ?thesis by (simp add: submit_def in_step_def subseq_rev_drop_many)
qed

lemma push_frame:
  "ty_server (fst (push mj hosts now m on t)) = ty_server t" "ty_rooms (fst (push mj hosts now m on t)) = ty_rooms t"
  "ty_serial (fst (push mj hosts now m on t)) = ty_serial t" "ty_work (fst (push mj hosts now m on t)) = ty_work t"
  by (simp_all add: push_def Let_def split: option.split)

definition typing_ok :: "typing \<Rightarrow> (string \<Rightarrow> string set) \<Rightarrow> typing_history \<Rightarrow> bool" where
  "typing_ok start f h \<longleftrightarrow> telling h \<and> in_step h \<and> rooms_ok (th_state h) \<and> ty_server (th_state h) = ty_server start
     \<and> (\<forall>room. set (typing_in (th_state h) room) = f room)"

lemma typing_ok_words:
  assumes ok: "typing_ok start f h" and w: "h' = h\<lparr>th_state := submit w (th_state h), th_words := th_words h @ [w], th_rows := rs, th_ticks := ts, th_late := late\<rparr>"
    and tell: "telling h'"
  shows "typing_ok start f h'"
  using ok in_step_submit [of h w] tell by (simp add: typing_ok_def w in_step_def rooms_ok_def)

lemma typing_ok_step:
  assumes step: "typing_step mj e h = Some h'" and ok: "typing_ok start f h" and ord: "in_order (ty_serial (th_state h)) (e # evs)"
  shows "typing_ok start (typing_now [e] f) h' \<and> in_order (ty_serial (th_state h')) evs"
proof (cases e)
  case (RowBatch token rows)
  have o: "ty_serial (th_state h) \<le> token" "distinct (map tr_room rows)" "in_order token evs" using ord by (simp_all add: RowBatch)
  obtain t' starts stops where d: "typing_diff token rows (th_state h) = (t', starts, stops)" by (cases "typing_diff token rows (th_state h)")
  have rows: "th_rows h = []" and h': "h' = h\<lparr>th_state := t', th_rows := row_words starts stops, th_late := filter (\<lambda>m. m \<notin> set starts \<union> set stops) (th_late h)\<rparr>"
    using step by (auto simp: RowBatch d split: if_splits)
  note F = typing_diff_facts [OF o(2) d o(1)]
  have mine: "typing_is_mine t' = typing_is_mine (th_state h)" by (rule mine_same) (rule F(1))
  have said: "last_said h' m = (if m \<in> set stops then Some False else if m \<in> set starts then Some True else last_said h m)" for m
    by (simp add: last_said_def h' last_word_rows rows)
  have tell: "telling h" using ok by (simp add: typing_ok_def)
  have after: "th_state h' = t'" "th_late h' = filter (\<lambda>m. m \<notin> set starts \<union> set stops) (th_late h)" by (simp_all add: h')
  have "telling h'"
    unfolding telling_def
  proof (intro conjI allI)
    fix room u
    show "tells h' room u"
      using telling_about [OF tell, of u room] by (auto simp: tells_def said after mine F(3,4))
  qed (use tell in \<open>simp add: telling_def h' mine\<close>)
  moreover have "set (typing_in t' room) = overlay rows f room" for room
  proof (cases "room \<in> tr_room ` set rows")
    case True
    then show ?thesis using F(5) overlay_row [OF o(2)] by auto
  next
    case False
    then show ?thesis using F(6) overlay_other [OF False] ok by (simp add: typing_ok_def)
  qed
  moreover have "ty_serial t' = token" using diff_serial [of token rows "th_state h"] by (simp add: d)
  moreover have "rooms_ok t'" using rooms_ok_diff [of "th_state h" token rows] ok by (simp add: d typing_ok_def)
  ultimately show ?thesis using ok o(3) F(1,2) by (simp add: typing_ok_def h' in_step_def typing_now_def RowBatch)
next
  case RowWord
  obtain w ws where r: "th_rows h = w # ws" using step by (auto simp: RowWord split: list.splits)
  have h': "h' = h\<lparr>th_state := submit w (th_state h), th_words := th_words h @ [w], th_rows := ws, th_ticks := th_ticks h, th_late := th_late h\<rparr>"
    using step by (auto simp: RowWord r)
  have mine: "typing_is_mine (submit w (th_state h)) = typing_is_mine (th_state h)" by (rule mine_same) simp
  have "last_said h' = last_said h" by (simp add: last_said_def h' r)
  then have "telling h'" using ok by (intro telling_same [of h h']) (simp_all add: typing_ok_def h', simp add: telling_def)
  with typing_ok_words [OF ok h'] ord show ?thesis by (simp add: typing_now_def RowWord h')
next
  case (Tick now)
  have h': "h' = h\<lparr>th_ticks := map (\<lambda>m. (m, True)) (due_members now (th_state h))\<rparr>" using step by (auto simp: Tick split: if_splits)
  have "telling h'" using ok due_members_mine by (intro telling_same [of h h']) (auto simp: typing_ok_def h' last_said_def)
  then show ?thesis using ok ord by (simp add: typing_ok_def h' in_step_def typing_now_def Tick)
next
  case TickWord
  obtain w ws where r: "th_ticks h = w # ws" using step by (auto simp: TickWord split: list.splits)
  let ?late = "if snd (fst w) \<in> set (typing_in (th_state h) (fst (fst w))) then th_late h else fst w # th_late h"
  have h': "h' = h\<lparr>th_state := submit w (th_state h), th_words := th_words h @ [w], th_rows := th_rows h, th_ticks := ws, th_late := ?late\<rparr>"
    using step by (auto simp: TickWord r)
  have mine: "typing_is_mine (submit w (th_state h)) = typing_is_mine (th_state h)" by (rule mine_same) simp
  have tell: "telling h" using ok by (simp add: typing_ok_def)
  then have w: "snd w" "typing_is_mine (th_state h) (snd (fst w))" by (simp_all add: telling_def r)
  have said: "last_said h' m = (case last_word (th_rows h) m of Some b \<Rightarrow> Some b | None \<Rightarrow> if m = fst w then Some True else last_said h m)" for m
  proof -
    have "last_word (th_words h @ th_rows h) m = (case last_word (th_rows h) m of Some b \<Rightarrow> Some b | None \<Rightarrow> last_word (th_words h) m)"
      by (simp add: last_word_append map_add_def)
    then show ?thesis by (simp add: last_said_def h' last_word_between w(1) split: option.split)
  qed
  have after: "th_state h' = submit w (th_state h)" "th_late h' = ?late" by (simp_all add: h')
  have old: "last_word (th_rows h) m = Some b \<Longrightarrow> last_said h m = Some b" for m b
    by (simp add: last_said_def last_word_append)
  have "telling h'"
    unfolding telling_def
  proof (intro conjI allI)
    fix room u
    note T = telling_about [OF tell, of u room]
    show "tells h' room u"
    proof (cases "last_word (th_rows h) (room, u)")
      case (Some b)
      then show ?thesis using T old [OF Some] by (auto simp: tells_def said after mine split: if_splits)
    next
      case None
      then show ?thesis using T w(2) by (cases "fst w") (auto simp: tells_def said after mine split: if_splits)
    qed
  qed (use tell in \<open>simp add: telling_def h' mine r\<close>)
  with typing_ok_words [OF ok h'] ord show ?thesis by (simp add: typing_now_def TickWord h')
next
  case Take
  obtain w ws where r: "ty_work (th_state h) = w # ws"
    and h': "h' = h\<lparr>th_state := (th_state h)\<lparr>ty_work := ws\<rparr>, th_push := Some w, th_taken := th_taken h @ [w]\<rparr>"
    using step by (auto simp: Take split: option.splits list.splits)
  have "typing_is_mine ((th_state h)\<lparr>ty_work := ws\<rparr>) = typing_is_mine (th_state h)" "typing_in ((th_state h)\<lparr>ty_work := ws\<rparr>) = typing_in (th_state h)"
    by (rule mine_same, simp) (simp add: typing_in_def fun_eq_iff)
  moreover have "telling h'" using ok by (intro telling_same [of h h']) (simp_all add: typing_ok_def h' last_said_def, simp add: telling_def)
  ultimately show ?thesis using ok ord by (simp add: typing_ok_def in_step_def rooms_ok_def h' r typing_now_def Take)
next
  case (Pushed now hosts)
  obtain m on where h': "h' = h\<lparr>th_state := fst (push mj hosts now m on (th_state h)), th_push := None\<rparr>"
    using step by (auto simp: Pushed split: option.splits prod.splits)
  have "typing_is_mine (fst (push mj hosts now m on (th_state h))) = typing_is_mine (th_state h)"
    "typing_in (fst (push mj hosts now m on (th_state h))) = typing_in (th_state h)"
    by (rule mine_same, simp add: push_frame) (simp add: typing_in_def fun_eq_iff push_frame)
  moreover have "telling h'" using ok by (intro telling_same [of h h']) (simp_all add: typing_ok_def h' last_said_def push_frame, simp add: telling_def)
  ultimately show ?thesis using ok ord by (simp add: typing_ok_def in_step_def rooms_ok_def h' push_frame typing_now_def Pushed)
qed

lemma typing_ok_run:
  "typing_run mj evs h = Some h' \<Longrightarrow> typing_ok start f h \<Longrightarrow> in_order (ty_serial (th_state h)) evs \<Longrightarrow> typing_ok start (typing_now evs f) h'"
proof (induction evs arbitrary: h f)
  case (Cons e evs)
  obtain h1 where s: "typing_step mj e h = Some h1" "typing_run mj evs h1 = Some h'" using Cons.prems(1) by (cases "typing_step mj e h") auto
  from typing_ok_step [OF s(1) Cons.prems(2,3)] Cons.IH [OF s(2), of "typing_now [e] f"] show ?case by (simp add: typing_now_def)
qed (simp add: typing_now_def)


text \<open>
  The keep-alive overtakes a stop: it reads that alice is typing, the batch that stops her is handled
  and both its words are handed over, then it hands over its own. Nobody types, nothing is left to
  do, and the last word on alice is that she is typing.
\<close>

definition overtaking_run :: "typing_event list" where
  "overtaking_run = [RowBatch 3 [\<lparr>tr_room = ''!r'', tr_users = [''@a:us'', ''@b:them'']\<rparr>], RowWord, Take, Pushed 1 (Some [''b'']),
     Tick (50 * second), RowBatch 5 [\<lparr>tr_room = ''!r'', tr_users = [''@b:them'']\<rparr>], RowWord, TickWord]"

lemmas typing_eval = typing_start_def new_typing_def typing_diff_def forget_if_backwards_def diff_row_def typing_in_def set_room_def
  row_words_def submit_def due_members_def typing_is_mine_def push_def typing_hosts_def Let_def

lemma keep_alive_overtakes:
  "\<exists>h. typing_run (\<lambda>m on. []) overtaking_run (typing_start (new_typing ''us'' (\<lambda>_. True) None)) = Some h
     \<and> th_words h = [((''!r'', ''@a:us''), True), ((''!r'', ''@a:us''), False), ((''!r'', ''@a:us''), True)]
     \<and> th_rows h = [] \<and> th_ticks h = [] \<and> th_late h = [(''!r'', ''@a:us'')]
     \<and> typing_now overtaking_run (\<lambda>_. {}) ''!r'' = {''@b:them''}"
  by (simp add: overtaking_run_def typing_eval typing_now_def overlay_def)

definition quiet_run :: "typing_event list" where
  "quiet_run = [RowBatch 3 [\<lparr>tr_room = ''!r'', tr_users = [''@a:us'', ''@b:them'']\<rparr>], RowWord, Tick 9, Take, TickWord, Pushed 1 (Some [''b'']),
     RowBatch 5 [\<lparr>tr_room = ''!r'', tr_users = [''@b:them'']\<rparr>], RowWord]"


section \<open>Where a word goes\<close>

lemma arrivals_for_push:
  "arrivals_for h (concat (map (\<lambda>h. [ToQueue h a, WakeUp h]) hs)) = replicate (count_list hs h) a"
  by (induction hs) simp_all

lemma push_reaches:
  assumes "merged (pending_of m h)" "h \<in> set (typing_hosts t hs)" "typing_key mem = key" "key \<noteq> []"
  shows "keyed_view (pending_of (route_effects (snd (push mj (Some hs) now mem on t)) m) h) (key, EDUTypeTyping)
    = Some (Raw (mj mem on))"
proof -
  let ?a = "KeyedArrival key \<lparr>edu_type = EDUTypeTyping, edu_content = Raw (mj mem on)\<rparr>"
  have ok: "arrival_ok ?a" using assms(4) by simp
  have own: "keyed_own ?a = Some ((key, EDUTypeTyping), Raw (mj mem on))" by simp
  obtain n where n: "count_list (typing_hosts t hs) h = Suc n"
    using assms(2) by (metis count_list_0_iff not0_implies_Suc)
  have "arrivals_for h (snd (push mj (Some hs) now mem on t)) = replicate n ?a @ [?a]"
    by (simp add: push_def Let_def arrivals_for_push n assms(3) replicate_append_same)
  moreover have "merged (fold arrive (replicate n ?a) (pending_of m h))"
    by (rule merged_arrivals [OF _ assms(1)]) (simp add: assms(4) list_all_iff)
  then have inv: "keyed_inv (fold arrive (replicate n ?a) (pending_of m h))" by (simp add: merged_def)
  ultimately show ?thesis using keyed.own_arrival [OF ok inv own] by (simp add: pending_of_effects del: arrive.simps)
qed

text \<open>
  A server name with a port. For a server whose name contains a colon - \<open>example.org:8448\<close> -
  the users that \<open>destinations.DomainOf\<close> (first colon) counts as ours are not ours to
  \<open>Typing.isMine\<close> (last colon), whatever their ids: over any run not a single word about typing
  is handed over.
\<close>

theorem typing_silent_with_port:
  assumes "CHR '':'' \<in> set server" "typing_run mj evs (typing_start (new_typing server mine is_due)) = Some h"
  shows "th_words h = []
    \<and> domain_of (''@a:'' @ server) = server"
proof -
  have never: "ty_server t = server \<Longrightarrow> \<not> typing_is_mine t u" for t u
  proof -
    have "CHR '':'' \<notin> set (rev (takeWhile (\<lambda>c. c \<noteq> CHR '':'') (rev u)))" by (auto dest: set_takeWhileD)
    with assms(1) have "rev (takeWhile (\<lambda>c. c \<noteq> CHR '':'') (rev u)) \<noteq> server" by metis
    then show "ty_server t = server \<Longrightarrow> \<not> typing_is_mine t u"
      by (simp add: typing_is_mine_def split: list.split)
  qed
  have row: "ty_server t = server \<Longrightarrow> ty_server (fst (diff_row t r)) = server \<and> snd (diff_row t r) = ([], [])" for t r
    by (auto simp: diff_row_def Let_def never)
  have rows: "ty_server t = server \<Longrightarrow> ty_server (fst (diff_rows t rs)) = server \<and> snd (diff_rows t rs) = ([], [])" for t rs
  proof (induction rs arbitrary: t)
    case (Cons r rs)
    from row [OF Cons.prems, of r] obtain t1 where d: "diff_row t r = (t1, [], [])" "ty_server t1 = server"
      by (cases "diff_row t r") auto
    with Cons.IH [OF d(2)] show ?case by (cases "diff_rows t1 rs") simp
  qed simp
  have diff: "ty_server (fst (typing_diff token rs t)) = server \<and> snd (typing_diff token rs t) = ([], [])"
    if "ty_server t = server" for token rs t
  proof -
    have "ty_server ((forget_if_backwards token t)\<lparr>ty_serial := token\<rparr>) = server" using that by (simp add: forget_if_backwards_def)
    from rows [OF this, of rs] show ?thesis by (auto simp: typing_diff_def split: prod.splits)
  qed
  have none: "due_members now t = []" if "ty_server t = server" for now t
    by (simp add: due_members_def never [OF that] split_beta)
  let ?quiet = "\<lambda>h. ty_server (th_state h) = server \<and> th_rows h = [] \<and> th_ticks h = [] \<and> th_words h = []"
  have keep: "?quiet h'" if "?quiet h" "typing_step mj e h = Some h'" for e h h'
  proof (cases e)
    case (RowBatch token rs)
    then show ?thesis using that diff [of "th_state h" token rs] by (auto simp: row_words_def split: prod.splits)
  next
    case (Tick now)
    then show ?thesis using that none [of "th_state h" now] by auto
  qed (use that in \<open>auto simp: push_frame split: option.splits list.splits\<close>)
  have "?quiet h \<Longrightarrow> typing_run mj evs h = Some h' \<Longrightarrow> ?quiet h'" for h h'
  proof (induction evs arbitrary: h)
    case (Cons e evs)
    then obtain h1 where "typing_step mj e h = Some h1" "typing_run mj evs h1 = Some h'" by (cases "typing_step mj e h") auto
    with Cons keep show ?case by blast
  qed simp
  from this [OF _ assms(2)] show ?thesis by (simp add: typing_start_def new_typing_def domain_of_def strings_cut_def)
qed

theorem typing_silent_with_port_witness:
  "\<exists>h. typing_run (\<lambda>m on. []) [RowBatch 1 [\<lparr>tr_room = ''!r'', tr_users = [''@a:us:8448'']\<rparr>], Tick 5]
     (typing_start (new_typing ''us:8448'' (\<lambda>_. True) None)) = Some h \<and> th_words h = []"
proof -
  have "CHR '':'' \<in> set ''us:8448''" by simp
  moreover obtain h where h: "typing_run (\<lambda>m on. []) [RowBatch 1 [\<lparr>tr_room = ''!r'', tr_users = [''@a:us:8448'']\<rparr>], Tick 5]
     (typing_start (new_typing ''us:8448'' (\<lambda>_. True) None)) = Some h"
    by (simp add: typing_eval)
  ultimately show ?thesis using typing_silent_with_port [THEN conjunct1] by blast
qed

end
