(* ===== verification/Replication.thy ===== *)
theory Replication
  imports GoJson
begin

text \<open>
  \<open>internal/replication/replication.go\<close>: the lines of Synapse's replication channel and the state
  they drive. Calls on the handler and the callbacks are values. White space in
  \<open>strings.Fields\<close> and \<open>strings.TrimSpace\<close> is ASCII white space; \<open>strconv.ParseInt\<close> and
  \<open>FormatInt\<close> are written out for base 10 and 64 bits. Redis itself is a sequence of events.
\<close>

section \<open>Numbers and fields\<close>

definition digit_char :: "nat \<Rightarrow> char" where
  "digit_char n = char_of (48 + n)"

definition digit_value :: "char \<Rightarrow> nat option" where
  "digit_value c = (let n = of_char c in if 48 \<le> n \<and> n \<le> 57 then Some (n - 48) else None)"

fun format_nat :: "nat \<Rightarrow> string" where
  "format_nat n = (if n < 10 then [digit_char n] else format_nat (n div 10) @ [digit_char (n mod 10)])"

declare format_nat.simps [simp del]

definition format_int :: "int \<Rightarrow> string" where
  "format_int v = (if v < 0 then CHR ''-'' # format_nat (nat (- v)) else format_nat (nat v))"

fun parse_digits :: "nat \<Rightarrow> string \<Rightarrow> nat option" where
  "parse_digits acc [] = Some acc"
| "parse_digits acc (c # cs) =
     (case digit_value c of None \<Rightarrow> None | Some d \<Rightarrow> parse_digits (10 * acc + d) cs)"

text \<open>\<open>strconv.ParseInt(s, 10, 64)\<close>, \<open>None\<close> for a syntax or a range error.\<close>

definition parse_int64 :: "string \<Rightarrow> int option" where
  "parse_int64 s =
     (let neg = (case s of [] \<Rightarrow> False | c # _ \<Rightarrow> c = CHR ''-'');
          body = (case s of [] \<Rightarrow> [] | c # cs \<Rightarrow> if c = CHR ''-'' \<or> c = CHR ''+'' then cs else s)
      in if body = [] then None
         else case parse_digits 0 body of
           None \<Rightarrow> None
         | Some n \<Rightarrow> (let v = (if neg then - int n else int n)
                     in if - (2 ^ 63) \<le> v \<and> v < 2 ^ 63 then Some v else None))"

definition white :: "char \<Rightarrow> bool" where
  "white c \<longleftrightarrow> c \<in> {CHR '' '', CHR 0x09, CHR 0x0A, CHR 0x0B, CHR 0x0C, CHR 0x0D}"

function split_fields :: "string \<Rightarrow> string list" where
  "split_fields s = (case dropWhile white s of
     [] \<Rightarrow> []
   | c # cs \<Rightarrow> takeWhile (\<lambda>x. \<not> white x) (c # cs) # split_fields (dropWhile (\<lambda>x. \<not> white x) (c # cs)))"
  by pat_completeness auto
termination
proof (relation "measure length")
  fix s c cs
  assume c: "dropWhile white s = c # cs"
  then have "\<not> white c" using hd_dropWhile [of white s] by auto
  then have "length (dropWhile (\<lambda>x. \<not> white x) (c # cs)) < length (c # cs)"
    using length_dropWhile_le [of _ cs] by (simp add: less_Suc_eq_le)
  also have "length (c # cs) \<le> length s" using length_dropWhile_le [of white s] by (simp add: c)
  finally show "(dropWhile (\<lambda>x. \<not> white x) (c # cs), s) \<in> measure length" by simp
qed simp

declare split_fields.simps [simp del]

definition trim_space :: "string \<Rightarrow> string" where
  "trim_space s = rev (dropWhile white (rev (dropWhile white s)))"

section \<open>State\<close>

record replication_row =
  rw_stream :: string
  rw_instance :: string
  rw_position :: int
  rw_json :: json

datatype replication_call =
    OnRows string int "replication_row list"
  | OnPosition string string int
  | OnRemoteServerUp string
  | OnConnect
  | OnDrop

record subscriber =
  sb_instance :: string
  sb_has_handler :: bool
  sb_live :: bool
  sb_positions :: "string \<rightharpoonup> int"
  sb_pending :: "string \<Rightarrow> replication_row list"

definition new_subscriber :: "string \<Rightarrow> bool \<Rightarrow> subscriber" where
  "new_subscriber name has_handler =
     \<lparr>sb_instance = name, sb_has_handler = has_handler, sb_live = False, sb_positions = Map.empty,
      sb_pending = (\<lambda>_. [])\<rparr>"

definition stream_position :: "subscriber \<Rightarrow> string \<Rightarrow> int" where
  "stream_position s stream = (case sb_positions s stream of None \<Rightarrow> 0 | Some p \<Rightarrow> p)"

definition move_position :: "string \<Rightarrow> int \<Rightarrow> subscriber \<Rightarrow> subscriber" where
  "move_position stream pos s =
     (if pos > stream_position s stream then s\<lparr>sb_positions := (sb_positions s)(stream \<mapsto> pos)\<rparr> else s)"

definition seed_positions :: "(string \<times> int) list \<Rightarrow> subscriber \<Rightarrow> subscriber" where
  "seed_positions ps s = fold (\<lambda>(stream, pos). move_position stream pos) ps s"

definition set_live :: "bool \<Rightarrow> subscriber \<Rightarrow> subscriber \<times> replication_call list" where
  "set_live live s =
     (let s' = s\<lparr>sb_live := live\<rparr>
      in (if live then s' else s'\<lparr>sb_pending := (\<lambda>_. [])\<rparr>, if sb_live s \<and> \<not> live then [OnDrop] else []))"

definition to_handler :: "subscriber \<Rightarrow> replication_call \<Rightarrow> replication_call list" where
  "to_handler s c = (if sb_has_handler s then [c] else [])"

section \<open>Lines\<close>

definition handle_rdata :: "string \<Rightarrow> subscriber \<Rightarrow> subscriber \<times> replication_call list" where
  "handle_rdata rest s =
     (case strings_cut (CHR '' '') rest of (stream, rest1, ok1) \<Rightarrow>
      case strings_cut (CHR '' '') rest1 of (inst, rest2, ok2) \<Rightarrow>
      case strings_cut (CHR '' '') rest2 of (token, row_json, ok3) \<Rightarrow>
        if \<not> ok1 \<or> \<not> ok2 \<or> \<not> ok3 then (s, [])
        else if inst = sb_instance s then (s, [])
        else (let row = \<lparr>rw_stream = stream, rw_instance = inst, rw_position = 0, rw_json = row_json\<rparr> in
          if token = ''batch''
          then (s\<lparr>sb_pending := (sb_pending s)(stream := sb_pending s stream @ [row])\<rparr>, [])
          else case parse_int64 token of
            None \<Rightarrow> (s, [])
          | Some pos \<Rightarrow>
              (let batch = map (\<lambda>r. r\<lparr>rw_position := pos\<rparr>) (sb_pending s stream @ [row]);
                   s1 = move_position stream pos (s\<lparr>sb_pending := (sb_pending s)(stream := [])\<rparr>)
               in (s1, to_handler s1 (OnRows stream pos batch)))))"

definition handle_position :: "string \<Rightarrow> subscriber \<Rightarrow> subscriber \<times> replication_call list" where
  "handle_position rest s =
     (case split_fields rest of
        stream # inst # prev_token # new_token # _ \<Rightarrow>
          (case parse_int64 new_token of
             None \<Rightarrow> (s, [])
           | Some pos \<Rightarrow>
               if inst = sb_instance s then (s, [])
               else (let s1 = move_position stream pos s in (s1, to_handler s1 (OnPosition stream inst pos))))
      | _ \<Rightarrow> (s, []))"

definition handle_line :: "string \<Rightarrow> subscriber \<Rightarrow> subscriber \<times> replication_call list" where
  "handle_line line s =
     (case strings_cut (CHR '' '') line of (name, rest, ok) \<Rightarrow>
        if \<not> ok then (s, [])
        else if name = ''RDATA'' then handle_rdata rest s
        else if name = ''POSITION'' then handle_position rest s
        else if name = ''REMOTE_SERVER_UP'' then (s, to_handler s (OnRemoteServerUp (trim_space rest)))
        else (s, []))"

text \<open>What happens to the connection; \<open>session\<close> and the part of \<open>Run\<close> after it.\<close>

datatype channel_event = Subscribed | Message string | Lost

fun channel_step :: "channel_event \<Rightarrow> subscriber \<Rightarrow> subscriber \<times> replication_call list" where
  "channel_step Subscribed s = (fst (set_live True s), [OnConnect])"
| "channel_step (Message line) s = handle_line line s"
| "channel_step Lost s = set_live False s"

fun follow :: "channel_event list \<Rightarrow> subscriber \<Rightarrow> subscriber \<times> replication_call list" where
  "follow [] s = (s, [])"
| "follow (e # es) s =
     (case channel_step e s of (s1, calls) \<Rightarrow> (case follow es s1 of (s2, calls') \<Rightarrow> (s2, calls @ calls')))"

text \<open>The waits between sessions, given which of them got as far as subscribing.\<close>

fun reconnect_waits :: "duration \<Rightarrow> bool list \<Rightarrow> duration list" where
  "reconnect_waits backoff [] = []"
| "reconnect_waits backoff (subscribed # ss) =
     (let b = (if subscribed then second else backoff)
      in b # reconnect_waits (if b < 30 * second then b * 2 else b) ss)"

lemma reconnect_waits_bounds:
  "second \<le> b \<Longrightarrow> b \<le> 32 * second \<Longrightarrow> (\<exists>k. b = 2 ^ k * second) \<Longrightarrow>
     \<forall>w \<in> set (reconnect_waits b ss). second \<le> w \<and> w \<le> 32 * second"
proof (induction ss arbitrary: b)
  case (Cons sub ss)
  define c where "c = (if sub then second else b)"
  have "\<exists>k. c = 2 ^ k * second"
    using Cons.prems(3) by (cases sub) (auto simp: c_def intro: exI [of _ "0::nat"])
  then obtain k where k: "c = 2 ^ k * second" by blast
  have c: "second \<le> c" "c \<le> 32 * second" using Cons.prems(1,2) by (simp_all add: c_def)
  define c' where "c' = (if c < 30 * second then c * 2 else c)"
  have "c' \<le> 32 * second"
  proof (cases "c < 30 * second")
    case True
    with k have "(2::int) ^ k < 2 ^ 5" by simp
    then have "k < 5" by (rule power_less_imp_less_exp [rotated]) simp
    then have "(2::int) ^ k \<le> 2 ^ 4" by (intro power_increasing) simp_all
    with k True show ?thesis by (simp add: c'_def)
  qed (use c in \<open>simp add: c'_def\<close>)
  moreover have "\<exists>k. c' = 2 ^ k * second"
    using k by (cases "c < 30 * second") (auto simp: c'_def intro: exI [of _ "Suc k"])
  moreover have "second \<le> c'" using c(1) by (simp add: c'_def)
  ultimately have "\<forall>w \<in> set (reconnect_waits c' ss). second \<le> w \<and> w \<le> 32 * second"
    using Cons.IH [of c'] by blast
  moreover have "reconnect_waits b (sub # ss) = c # reconnect_waits c' ss"
    by (simp only: reconnect_waits.simps Let_def c_def c'_def)
  ultimately show ?case using c by simp
qed simp

section \<open>Numbers come back\<close>

lemma digit_code: "n < 10 \<Longrightarrow> of_char (digit_char n) = 48 + n"
  by (simp only: digit_char_def of_char_of) simp

lemma digit_value_char: "n < 10 \<Longrightarrow> digit_value (digit_char n) = Some n"
  by (simp only: digit_value_def digit_code Let_def) simp

lemma parse_digits_append:
  "parse_digits acc (xs @ ys) = (case parse_digits acc xs of None \<Rightarrow> None | Some a \<Rightarrow> parse_digits a ys)"
  by (induction xs arbitrary: acc) (auto split: option.split)

lemma format_nat_ne: "format_nat n \<noteq> []"
  by (subst format_nat.simps) simp

lemma parse_digits_format: "\<exists>k. \<forall>acc. parse_digits acc (format_nat n) = Some (acc * k + n)"
proof (induction n rule: less_induct)
  case (less n)
  show ?case
  proof (cases "n < 10")
    case True
    then show ?thesis by (subst format_nat.simps) (auto simp: digit_value_char intro!: exI [of _ "10::nat"])
  next
    case False
    with less.IH [of "n div 10"] obtain k where k: "\<forall>acc. parse_digits acc (format_nat (n div 10)) = Some (acc * k + n div 10)"
      by auto
    then have "parse_digits acc (format_nat n) = Some (acc * (10 * k) + n)" for acc
      using False by (subst format_nat.simps) (simp add: parse_digits_append digit_value_char algebra_simps)
    then show ?thesis by blast
  qed
qed

lemma format_nat_digits: "c \<in> set (format_nat n) \<Longrightarrow> \<exists>d < 10. c = digit_char d"
proof (induction n rule: less_induct)
  case (less n)
  show ?case
  proof (cases "n < 10")
    case True
    with less.prems show ?thesis by (subst (asm) format_nat.simps) auto
  next
    case False
    then have "format_nat n = format_nat (n div 10) @ [digit_char (n mod 10)]" by (subst format_nat.simps) simp
    with less.prems consider "c \<in> set (format_nat (n div 10))" | "c = digit_char (n mod 10)" by auto
    then show ?thesis
    proof cases
      case 1
      with less.IH [of "n div 10"] False show ?thesis by simp
    next
      case 2
      then show ?thesis by (intro exI [of _ "n mod 10"]) simp
    qed
  qed
qed

lemma digit_char_facts:
  assumes "n < 10"
  shows "digit_char n \<noteq> CHR ''-''" "digit_char n \<noteq> CHR ''+''" "digit_char n \<noteq> CHR ''b''" "\<not> white (digit_char n)"
proof -
  note code = digit_code [OF assms]
  have "c \<noteq> digit_char n" if "of_char c < (48::nat) \<or> of_char c > (57::nat)" for c
    using that code assms by auto
  then show "digit_char n \<noteq> CHR ''-''" "digit_char n \<noteq> CHR ''+''" "digit_char n \<noteq> CHR ''b''" "\<not> white (digit_char n)"
    by (force simp: white_def)+
qed

lemma parse_format_int:
  assumes "- (2 ^ 63) \<le> v" "v < 2 ^ 63"
  shows "parse_int64 (format_int v) = Some v"
proof -
  have digits: "parse_digits 0 (format_nat n) = Some n" for n
    using parse_digits_format [of n] by auto
  have sign: "format_nat n = c # cs \<Longrightarrow> c \<noteq> CHR ''-'' \<and> c \<noteq> CHR ''+''" for n c cs
    using format_nat_digits [of c n] digit_char_facts(1,2) by force
  show ?thesis
  proof (cases "v < 0")
    case True
    then show ?thesis using assms digits [of "nat (- v)"]
      by (simp add: parse_int64_def format_int_def Let_def format_nat_ne)
  next
    case False
    obtain c cs where c: "format_nat (nat v) = c # cs" using format_nat_ne by (cases "format_nat (nat v)") auto
    from sign [OF this] digits [of "nat v"] show ?thesis using False assms
      by (simp add: parse_int64_def format_int_def Let_def c)
  qed
qed

lemma format_int_facts: "format_int v \<noteq> []" "\<forall>c \<in> set (format_int v). \<not> white c" "format_int v \<noteq> ''batch''"
proof -
  have digits: "c \<in> set (format_nat n) \<Longrightarrow> \<not> white c \<and> c \<noteq> CHR ''b''" for n c
    using format_nat_digits [of c n] by (auto simp: digit_char_facts)
  show "format_int v \<noteq> []" by (simp add: format_int_def format_nat_ne)
  have minus: "\<not> white (CHR ''-'')" by (simp add: white_def)
  show "\<forall>c \<in> set (format_int v). \<not> white c"
  proof
    fix c
    assume "c \<in> set (format_int v)"
    then have "c = CHR ''-'' \<or> c \<in> set (format_nat (nat (- v))) \<or> c \<in> set (format_nat (nat v))"
      by (auto simp: format_int_def split: if_splits)
    with minus digits show "\<not> white c" by blast
  qed
  show "format_int v \<noteq> ''batch''"
  proof
    assume "format_int v = ''batch''"
    then have "CHR ''b'' \<in> set (format_int v)" by simp
    then have "CHR ''b'' \<in> set (format_nat (nat (- v))) \<or> CHR ''b'' \<in> set (format_nat (nat v))"
      by (simp add: format_int_def split: if_splits)
    with digits show False by blast
  qed
qed

section \<open>Lines come back\<close>

text \<open>What a publisher writes; \<open>None\<close> is the token \<open>batch\<close>.\<close>

datatype wire =
    Rdata string string "int option" json
  | PositionTo string string int int
  | ServerUp string

definition token_text :: "int option \<Rightarrow> string" where
  "token_text t = (case t of None \<Rightarrow> ''batch'' | Some p \<Rightarrow> format_int p)"

fun line_of :: "wire \<Rightarrow> string" where
  "line_of (Rdata stream inst token j) =
     ''RDATA'' @ CHR '' '' # stream @ CHR '' '' # inst @ CHR '' '' # token_text token @ CHR '' '' # j"
| "line_of (PositionTo stream inst old new) =
     ''POSITION'' @ CHR '' '' # stream @ CHR '' '' # inst @ CHR '' '' # format_int old @ CHR '' '' # format_int new"
| "line_of (ServerUp name) = ''REMOTE_SERVER_UP'' @ CHR '' '' # name"

definition word_ok :: "string \<Rightarrow> bool" where
  "word_ok t \<longleftrightarrow> t \<noteq> [] \<and> (\<forall>c \<in> set t. \<not> white c)"

abbreviation int64 :: "int \<Rightarrow> bool" where
  "int64 v \<equiv> - (2 ^ 63) \<le> v \<and> v < 2 ^ 63"

fun wire_ok :: "string \<Rightarrow> wire \<Rightarrow> bool" where
  "wire_ok own (Rdata stream inst token j) =
     (word_ok stream \<and> word_ok inst \<and> inst \<noteq> own \<and> (case token of None \<Rightarrow> True | Some p \<Rightarrow> int64 p))"
| "wire_ok own (PositionTo stream inst old new) = (word_ok stream \<and> word_ok inst \<and> inst \<noteq> own \<and> int64 new)"
| "wire_ok own (ServerUp name) = word_ok name"

lemma word_ok_space: "word_ok t \<Longrightarrow> CHR '' '' \<notin> set t"
  by (auto simp: word_ok_def white_def)

lemma format_word: "word_ok (format_int v)"
  by (simp add: word_ok_def format_int_facts)

lemma token_word: "word_ok (token_text t)"
  by (cases t) (auto simp: token_text_def format_word, simp add: word_ok_def white_def)

lemma split_fields_word:
  assumes "word_ok t"
  shows "split_fields (t @ CHR '' '' # rest) = t # split_fields rest" "split_fields t = [t]"
proof -
  have sp: "white (CHR '' '')" by (simp add: white_def)
  obtain c cs where t: "t = c # cs" "\<not> white c" "\<forall>x \<in> set cs. \<not> white x"
    using assms by (cases t) (auto simp: word_ok_def)
  have tw: "takeWhile (\<lambda>x. \<not> white x) (cs @ CHR '' '' # rest) = cs" "takeWhile (\<lambda>x. \<not> white x) cs = cs"
    "dropWhile (\<lambda>x. \<not> white x) (cs @ CHR '' '' # rest) = CHR '' '' # rest" "dropWhile (\<lambda>x. \<not> white x) cs = []"
    using t(3) sp by (simp_all add: takeWhile_append dropWhile_append)
  have skip: "split_fields (CHR '' '' # rest) = split_fields rest"
    using sp by (subst (1 2) split_fields.simps) simp
  show "split_fields (t @ CHR '' '' # rest) = t # split_fields rest"
    by (subst split_fields.simps) (simp add: t(1,2) tw skip)
  show "split_fields t = [t]"
    by (subst split_fields.simps) (simp add: t(1,2) tw, subst split_fields.simps, simp)
qed

lemma trim_word: "word_ok t \<Longrightarrow> trim_space t = t"
proof -
  assume t: "word_ok t"
  have keep: "\<forall>c \<in> set xs. \<not> white c \<Longrightarrow> dropWhile white xs = xs" for xs by (cases xs) auto
  show ?thesis using t by (simp add: trim_space_def word_ok_def keep)
qed

lemma handle_line_rdata:
  assumes "wire_ok (sb_instance s) (Rdata stream inst token j)"
  shows "handle_line (line_of (Rdata stream inst token j)) s =
    (let row = \<lparr>rw_stream = stream, rw_instance = inst, rw_position = 0, rw_json = j\<rparr> in
     case token of
       None \<Rightarrow> (s\<lparr>sb_pending := (sb_pending s)(stream := sb_pending s stream @ [row])\<rparr>, [])
     | Some pos \<Rightarrow>
         (let s1 = move_position stream pos (s\<lparr>sb_pending := (sb_pending s)(stream := [])\<rparr>)
          in (s1, to_handler s1 (OnRows stream pos (map (\<lambda>r. r\<lparr>rw_position := pos\<rparr>) (sb_pending s stream @ [row]))))))"
proof -
  let ?sp = "CHR '' ''"
  have words: "?sp \<notin> set stream" "?sp \<notin> set inst" "?sp \<notin> set (token_text token)" "inst \<noteq> sb_instance s"
    using assms by (simp_all add: word_ok_space token_word)
  have name: "strings_cut ?sp (line_of (Rdata stream inst token j)) =
      (''RDATA'', stream @ ?sp # inst @ ?sp # token_text token @ ?sp # j, True)"
    by (simp only: line_of.simps) (rule strings_cut_found, simp)
  have line: "handle_line (line_of (Rdata stream inst token j)) s =
      handle_rdata (stream @ ?sp # inst @ ?sp # token_text token @ ?sp # j) s"
    by (simp only: handle_line_def name) simp
  show ?thesis
  proof (cases token)
    case None
    then have batch: "token_text token = ''batch''" by (simp add: token_text_def)
    have "handle_rdata (stream @ ?sp # inst @ ?sp # token_text token @ ?sp # j) s =
        (s\<lparr>sb_pending := (sb_pending s)(stream := sb_pending s stream
           @ [\<lparr>rw_stream = stream, rw_instance = inst, rw_position = 0, rw_json = j\<rparr>])\<rparr>, [])"
      by (simp only: handle_rdata_def strings_cut_found words not_False_eq_True prod.case) (simp add: words batch)
    then show ?thesis unfolding line by (simp add: None)
  next
    case (Some p)
    then have "parse_int64 (token_text token) = Some p" "token_text token \<noteq> ''batch''"
      using assms parse_format_int [of p] format_int_facts(3) by (simp_all add: token_text_def)
    then show ?thesis unfolding line using words Some
      by (simp add: handle_rdata_def strings_cut_found Let_def)
  qed
qed

lemma handle_line_position:
  assumes "wire_ok (sb_instance s) (PositionTo stream inst old new)"
  shows "handle_line (line_of (PositionTo stream inst old new)) s =
    (let s1 = move_position stream new s in (s1, to_handler s1 (OnPosition stream inst new)))"
proof -
  let ?sp = "CHR '' ''"
  have words: "word_ok stream" "word_ok inst" "inst \<noteq> sb_instance s" "parse_int64 (format_int new) = Some new"
    using assms parse_format_int [of new] by simp_all
  have name: "strings_cut ?sp (line_of (PositionTo stream inst old new)) =
      (''POSITION'', stream @ ?sp # inst @ ?sp # format_int old @ ?sp # format_int new, True)"
    by (simp only: line_of.simps) (rule strings_cut_found, simp)
  show ?thesis
    by (simp add: handle_line_def name del: line_of.simps)
      (simp add: handle_position_def split_fields_word words format_word)
qed

lemma handle_line_up:
  assumes "word_ok name"
  shows "handle_line (line_of (ServerUp name)) s = (s, to_handler s (OnRemoteServerUp name))"
proof -
  have "strings_cut (CHR '' '') (line_of (ServerUp name)) = (''REMOTE_SERVER_UP'', name, True)"
    by (simp only: line_of.simps) (rule strings_cut_found, simp)
  then show ?thesis by (simp add: handle_line_def trim_word assms del: line_of.simps)
qed

section \<open>Batches come back\<close>

definition feed :: "wire list \<Rightarrow> subscriber \<Rightarrow> subscriber \<times> replication_call list" where
  "feed ws s = follow (map (\<lambda>w. Message (line_of w)) ws) s"

definition rows_for :: "string \<Rightarrow> replication_call list \<Rightarrow> (int \<times> replication_row list) list" where
  "rows_for st calls = List.map_filter (\<lambda>c. case c of OnRows st' p rs \<Rightarrow> if st' = st then Some (p, rs) else None | _ \<Rightarrow> None) calls"

definition jumps :: "replication_call list \<Rightarrow> (string \<times> string \<times> int) list" where
  "jumps calls = List.map_filter (\<lambda>c. case c of OnPosition st i p \<Rightarrow> Some (st, i, p) | _ \<Rightarrow> None) calls"

definition ups :: "replication_call list \<Rightarrow> string list" where
  "ups calls = List.map_filter (\<lambda>c. case c of OnRemoteServerUp d \<Rightarrow> Some d | _ \<Rightarrow> None) calls"

lemma calls_append:
  "rows_for st (xs @ ys) = rows_for st xs @ rows_for st ys" "jumps (xs @ ys) = jumps xs @ jumps ys" "ups (xs @ ys) = ups xs @ ups ys"
  by (simp_all add: rows_for_def jumps_def ups_def map_filter_def)

lemmas calls_simps = rows_for_def jumps_def ups_def List.map_filter_simps

fun collect :: "string \<Rightarrow> replication_row list \<Rightarrow> wire list \<Rightarrow> (int \<times> replication_row list) list" where
  "collect st pend [] = []"
| "collect st pend (Rdata st' inst token j # ws) =
     (if st' \<noteq> st then collect st pend ws
      else (let row = \<lparr>rw_stream = st, rw_instance = inst, rw_position = 0, rw_json = j\<rparr> in
        case token of
          None \<Rightarrow> collect st (pend @ [row]) ws
        | Some p \<Rightarrow> (p, map (\<lambda>r. r\<lparr>rw_position := p\<rparr>) (pend @ [row])) # collect st [] ws))"
| "collect st pend (w # ws) = collect st pend ws"

text \<open>A batch: who wrote it, its position, its rows before the last, its last row.\<close>

type_synonym row_batch = "string \<times> int \<times> json list \<times> json"

definition wires_of :: "string \<Rightarrow> row_batch \<Rightarrow> wire list" where
  "wires_of st b = (case b of (inst, pos, js, j) \<Rightarrow> map (Rdata st inst None) js @ [Rdata st inst (Some pos) j])"

definition delivered_batch :: "string \<Rightarrow> row_batch \<Rightarrow> int \<times> replication_row list" where
  "delivered_batch st b = (case b of (inst, pos, js, j) \<Rightarrow>
     (pos, map (\<lambda>x. \<lparr>rw_stream = st, rw_instance = inst, rw_position = pos, rw_json = x\<rparr>) (js @ [j])))"

fun of_stream :: "string \<Rightarrow> wire \<Rightarrow> bool" where
  "of_stream st (Rdata st' inst token j) = (st' = st)"
| "of_stream st w = False"

lemma collect_filter: "collect st pend ws = collect st pend (filter (of_stream st) ws)"
  by (induction st pend ws rule: collect.induct) (auto simp: Let_def split: option.split)

lemma collect_wires:
  "collect st pend (map (Rdata st inst None) js @ ws) =
     collect st (pend @ map (\<lambda>x. \<lparr>rw_stream = st, rw_instance = inst, rw_position = 0, rw_json = x\<rparr>) js) ws"
  by (induction js arbitrary: pend) simp_all

lemma collect_batches: "collect st [] (concat (map (wires_of st) bs)) = map (delivered_batch st) bs"
proof (induction bs)
  case (Cons b bs)
  obtain inst pos js j where b: "b = (inst, pos, js, j)" by (cases b)
  with Cons show ?case
    by (simp add: wires_of_def delivered_batch_def collect_wires Let_def comp_def)
qed simp

lemma move_position_frame [simp]:
  "sb_pending (move_position st p s) = sb_pending s" "sb_instance (move_position st p s) = sb_instance s"
  "sb_has_handler (move_position st p s) = sb_has_handler s" "sb_live (move_position st p s) = sb_live s"
  by (simp_all add: move_position_def)

lemma stream_position_move:
  "stream_position (move_position st p s) st' = (if st' = st then max (stream_position s st) p else stream_position s st')"
  by (auto simp: move_position_def stream_position_def split: option.splits)

fun announced :: "string \<Rightarrow> wire \<Rightarrow> int list" where
  "announced st (Rdata st' inst token j) = (case token of Some p \<Rightarrow> if st' = st then [p] else [] | None \<Rightarrow> [])"
| "announced st (PositionTo st' inst old new) = (if st' = st then [new] else [])"
| "announced st (ServerUp d) = []"

fun wire_jump :: "wire \<Rightarrow> (string \<times> string \<times> int) option" where
  "wire_jump (PositionTo st inst old new) = Some (st, inst, new)"
| "wire_jump w = None"

fun wire_up :: "wire \<Rightarrow> string option" where
  "wire_up (ServerUp d) = Some d"
| "wire_up w = None"

lemma feed_spec:
  assumes "\<forall>w \<in> set ws. wire_ok (sb_instance s) w" "sb_has_handler s"
  shows "rows_for st (snd (feed ws s)) = collect st (sb_pending s st) ws
    \<and> jumps (snd (feed ws s)) = List.map_filter wire_jump ws
    \<and> ups (snd (feed ws s)) = List.map_filter wire_up ws
    \<and> stream_position (fst (feed ws s)) st = fold max (concat (map (announced st) ws)) (stream_position s st)"
  using assms
proof (induction ws arbitrary: s)
  case Nil
  then show ?case by (simp add: feed_def calls_simps)
next
  case (Cons w ws)
  obtain s1 calls where one: "handle_line (line_of w) s = (s1, calls)" by (cases "handle_line (line_of w) s")
  obtain s2 calls' where rest: "feed ws s1 = (s2, calls')" by (cases "feed ws s1")
  have run: "feed (w # ws) s = (s2, calls @ calls')" using one rest by (simp add: feed_def)
  have ok: "wire_ok (sb_instance s) w" using Cons.prems by simp
  have step: "(sb_instance s1 = sb_instance s \<and> sb_has_handler s1)
      \<and> rows_for st calls @ collect st (sb_pending s1 st) ws = collect st (sb_pending s st) (w # ws)
      \<and> jumps calls = List.map_filter wire_jump [w] \<and> ups calls = List.map_filter wire_up [w]
      \<and> stream_position s1 st = fold max (announced st w) (stream_position s st)"
  proof (cases w)
    case (Rdata st' inst token j)
    have eqs: "\<And>f. stream_position (s\<lparr>sb_pending := f\<rparr>) st = stream_position s st" by (simp add: stream_position_def)
    from handle_line_rdata [of s st' inst token j] ok one Cons.prems(2)
    show ?thesis
      by (cases token) (auto simp: Rdata Let_def to_handler_def calls_simps stream_position_move eqs max.commute)
  next
    case (PositionTo st' inst old new)
    from handle_line_position [of s st' inst old new] ok one Cons.prems(2)
    show ?thesis
      by (auto simp: PositionTo Let_def to_handler_def calls_simps stream_position_move max.commute)
  next
    case (ServerUp d)
    from handle_line_up [of d s] ok one Cons.prems(2)
    show ?thesis
      by (auto simp: ServerUp to_handler_def calls_simps)
  qed
  have "\<forall>w \<in> set ws. wire_ok (sb_instance s1) w" using Cons.prems(1) step by simp
  from Cons.IH [OF this] step rest show ?case by (simp add: run calls_append) (simp add: List.map_filter_simps split: option.split)
qed

text \<open>
  C21. Batches survive the wire. Take any batches of rows for each stream, written as Synapse
  writes them - every row but the last under the token \<open>batch\<close>, the last under the position -
  with the lines of different streams, \<open>POSITION\<close> and \<open>REMOTE_SERVER_UP\<close> lines mixed in any
  order. The handler is then called, for each stream, with exactly its batches in order, every
  row with its text untouched and the position of its batch; with every jump and every server
  seen up, in order; and the position kept for a stream is the greatest one announced.
\<close>

theorem batches_survive_the_wire:
  assumes "\<forall>w \<in> set ws. wire_ok (sb_instance s) w" "sb_has_handler s" "\<forall>st. sb_pending s st = []"
    "\<forall>st. filter (of_stream st) ws = concat (map (wires_of st) (batches st))"
  shows "let calls = snd (follow (map (\<lambda>w. Message (line_of w)) ws) s);
             s' = fst (follow (map (\<lambda>w. Message (line_of w)) ws) s) in
    (\<forall>st. rows_for st calls = map (delivered_batch st) (batches st))
    \<and> jumps calls = List.map_filter wire_jump ws \<and> ups calls = List.map_filter wire_up ws
    \<and> (\<forall>st. stream_position s' st = fold max (concat (map (announced st) ws)) (stream_position s st))"
proof -
  have "collect st (sb_pending s st) ws = map (delivered_batch st) (batches st)" for st
    using collect_filter [of st "[]" ws] collect_batches [of st "batches st"] assms(3,4) by simp
  with feed_spec [OF assms(1,2)] show ?thesis by (simp add: feed_def Let_def)
qed

text \<open>A device list batch with a to-device row between its lines.\<close>

definition sample_wires :: "wire list" where
  "sample_wires = [Rdata ''device_lists'' ''w1'' None ''[1]'', Rdata ''to_device'' ''w2'' (Some 7) ''[b]'',
     PositionTo ''events'' ''w1'' 3 12, Rdata ''device_lists'' ''w1'' (Some 40) ''[2]'']"

definition sample_batches :: "string \<Rightarrow> row_batch list" where
  "sample_batches st = (if st = ''device_lists'' then [(''w1'', 40, [''[1]''], ''[2]'')]
     else if st = ''to_device'' then [(''w2'', 7, [], ''[b]'')] else [])"

theorem batches_survive_the_wire_witness:
  "rows_for ''device_lists'' (snd (follow (map (\<lambda>w. Message (line_of w)) sample_wires) (new_subscriber ''gofed'' True)))
     = [delivered_batch ''device_lists'' (''w1'', 40, [''[1]''], ''[2]'')]"
proof -
  let ?s = "new_subscriber ''gofed'' True"
  have ok: "\<forall>w \<in> set sample_wires. wire_ok (sb_instance ?s) w"
    by (simp add: sample_wires_def new_subscriber_def word_ok_def white_def)
  have rest: "sb_has_handler ?s" "\<forall>st. sb_pending ?s st = []" by (simp_all add: new_subscriber_def)
  have parts: "\<forall>st. filter (of_stream st) sample_wires = concat (map (wires_of st) (sample_batches st))"
    by (simp add: sample_wires_def sample_batches_def wires_of_def)
  from batches_survive_the_wire [OF ok rest parts] show ?thesis
    by (simp add: Let_def sample_batches_def)
qed

section \<open>A lost connection\<close>

text \<open>The half of a batch that was buffered is forgotten, and the loss is told once.\<close>

lemma lost_forgets_half_batches:
  "sb_pending (fst (channel_step Lost s)) = (\<lambda>_. []) \<and> sb_positions (fst (channel_step Lost s)) = sb_positions s
   \<and> snd (channel_step Lost s) = (if sb_live s then [OnDrop] else [])
   \<and> snd (channel_step Lost (fst (channel_step Lost s))) = []"
  by (simp add: set_live_def Let_def)

end
