(* ===== verification/Rows.thy ===== *)
theory Rows
  imports GoJson
begin

text \<open>
  \<open>internal/replication/rows.go\<close>: the positional JSON rows of each stream. A parser answers
  \<open>None\<close> where the code answers \<open>false\<close>. \<open>gjson.Parse(row)\<close> is the row itself read as a raw
  value, \<open>Array()\<close> its items, and \<open>Raw\<close> the text of a value.
\<close>

definition item :: "json list \<Rightarrow> nat \<Rightarrow> json option" where
  "item a i = (if i < length a then Some (a ! i) else None)"

definition str_at :: "gjson \<Rightarrow> json list \<Rightarrow> nat \<Rightarrow> string" where
  "str_at g a i = (case item a i of None \<Rightarrow> [] | Some r \<Rightarrow> gj_str g r)"

definition bool_at :: "gjson \<Rightarrow> json list \<Rightarrow> nat \<Rightarrow> bool" where
  "bool_at g a i = (case item a i of None \<Rightarrow> False | Some r \<Rightarrow> gj_bool g r)"

definition get_raw :: "gjson \<Rightarrow> json \<Rightarrow> string \<Rightarrow> json" where
  "get_raw g doc path = (case gj_get g doc path of None \<Rightarrow> [] | Some r \<Rightarrow> r)"

text \<open>The shape every parser starts with: an array of at least \<open>n\<close> items.\<close>

definition row_items :: "gjson \<Rightarrow> nat \<Rightarrow> json \<Rightarrow> json list option" where
  "row_items g n r =
     (if \<not> gj_is_array g r then None
      else if length (gj_items g r) < n then None else Some (gj_items g r))"

section \<open>Events\<close>

record event_row =
  er_kind :: string
  er_event :: string
  er_room :: string
  er_type :: string
  er_state_key :: string
  er_outlier :: bool
  er_rejected :: bool

definition parse_event_row :: "gjson \<Rightarrow> json \<Rightarrow> event_row option" where
  "parse_event_row g r =
     (case row_items g 2 r of
        None \<Rightarrow> None
      | Some a \<Rightarrow>
          (let kind = gj_str g (a ! 0); inner = gj_items g (a ! 1) in
           if kind = ''ev'' then
             (if length inner < 2 then None
              else Some \<lparr>er_kind = kind, er_event = str_at g inner 0, er_room = str_at g inner 1,
                     er_type = str_at g inner 2, er_state_key = str_at g inner 3,
                     er_outlier = bool_at g inner 8, er_rejected = bool_at g inner 7\<rparr>)
           else if kind = ''state'' then
             (if length inner < 1 then None
              else Some \<lparr>er_kind = kind, er_event = str_at g inner 3, er_room = str_at g inner 0,
                     er_type = str_at g inner 1, er_state_key = str_at g inner 2,
                     er_outlier = False, er_rejected = False\<rparr>)
           else if kind = ''state-all'' then
             (if length inner < 1 then None
              else Some \<lparr>er_kind = kind, er_event = [], er_room = str_at g inner 0, er_type = [],
                     er_state_key = [], er_outlier = False, er_rejected = False\<rparr>)
           else None))"

section \<open>To-device and device lists\<close>

text \<open>The entity and whether it is a remote server.\<close>

definition parse_to_device_entity :: "gjson \<Rightarrow> json \<Rightarrow> (string \<times> bool) option" where
  "parse_to_device_entity g r =
     (case row_items g 1 r of
        None \<Rightarrow> None
      | Some a \<Rightarrow> (case gj_str g (a ! 0) of [] \<Rightarrow> None | c # cs \<Rightarrow> Some (c # cs, c \<noteq> CHR ''@'')))"

record device_list_row =
  dl_user :: string
  dl_signature :: bool
  dl_hosts_calculated :: bool

definition parse_device_list_row :: "gjson \<Rightarrow> json \<Rightarrow> device_list_row option" where
  "parse_device_list_row g r =
     map_option (\<lambda>a. \<lparr>dl_user = gj_str g (a ! 0), dl_signature = bool_at g a 1, dl_hosts_calculated = bool_at g a 2\<rparr>)
       (row_items g 1 r)"

section \<open>Receipts, presence, typing\<close>

record receipt_row =
  rc_room :: string
  rc_type :: string
  rc_user :: string
  rc_event :: string
  rc_thread :: string
  rc_data :: json

definition parse_receipt_row :: "gjson \<Rightarrow> json \<Rightarrow> receipt_row option" where
  "parse_receipt_row g r =
     (case row_items g 3 r of
        None \<Rightarrow> None
      | Some a \<Rightarrow>
          (let out = \<lparr>rc_room = gj_str g (a ! 0), rc_type = gj_str g (a ! 1), rc_user = gj_str g (a ! 2),
                      rc_event = str_at g a 3,
                      rc_thread = (case item a 4 of None \<Rightarrow> [] | Some t \<Rightarrow> if gj_null g t then [] else gj_str g t),
                      rc_data = (case item a 5 of None \<Rightarrow> [] | Some d \<Rightarrow> d)\<rparr>
           in if rc_room out = [] \<or> rc_user out = [] then None else Some out))"

definition parse_presence_federation_row :: "gjson \<Rightarrow> json \<Rightarrow> (string \<times> string) option" where
  "parse_presence_federation_row g r =
     (case row_items g 2 r of
        None \<Rightarrow> None
      | Some a \<Rightarrow>
          (let dest = gj_str g (a ! 0); user = gj_str g (a ! 1)
           in if dest = [] \<or> user = [] then None else Some (dest, user)))"

definition parse_typing_row :: "gjson \<Rightarrow> json \<Rightarrow> (string \<times> string list) option" where
  "parse_typing_row g r =
     (case row_items g 2 r of
        None \<Rightarrow> None
      | Some a \<Rightarrow>
          (let room = gj_str g (a ! 0)
           in if room = [] then None
              else Some (room, filter (\<lambda>u. u \<noteq> []) (map (gj_str g) (gj_items g (a ! 1))))))"

section \<open>The federation stream\<close>

record federation_row =
  fr_kind :: string
  fr_key :: string
  fr_edu_type :: string
  fr_content :: json
  fr_destination :: string
  fr_presence_state :: json
  fr_presence_destinations :: "string list"

abbreviation empty_federation_row :: federation_row where
  "empty_federation_row \<equiv> \<lparr>fr_kind = [], fr_key = [], fr_edu_type = [], fr_content = [], fr_destination = [],
     fr_presence_state = [], fr_presence_destinations = []\<rparr>"

definition parse_federation_row :: "gjson \<Rightarrow> json \<Rightarrow> federation_row option" where
  "parse_federation_row g r =
     (case row_items g 2 r of
        None \<Rightarrow> None
      | Some a \<Rightarrow>
          (let kind = gj_str g (a ! 0); body = a ! 1 in
           if kind = ''k'' then
             (case gj_get g body ''edu'' of
                None \<Rightarrow> None
              | Some edu \<Rightarrow>
                  Some (empty_federation_row\<lparr>fr_kind := kind, fr_key := get_raw g body ''key'',
                    fr_edu_type := get_str g edu ''edu_type'', fr_content := get_raw g edu ''content'',
                    fr_destination := get_str g edu ''destination''\<rparr>))
           else if kind = ''e'' then
             Some (empty_federation_row\<lparr>fr_kind := kind, fr_edu_type := get_str g body ''edu_type'',
               fr_content := get_raw g body ''content'', fr_destination := get_str g body ''destination''\<rparr>)
           else if kind = ''pd'' then
             Some (empty_federation_row\<lparr>fr_kind := kind, fr_presence_state := get_raw g body ''state'',
               fr_presence_destinations := map (gj_str g) (get_items g body ''dests'')\<rparr>)
           else None))"

section \<open>What a parsed row is like\<close>

lemma receipt_row_ok: "parse_receipt_row g r = Some x \<Longrightarrow> rc_room x \<noteq> [] \<and> rc_user x \<noteq> []"
  by (auto simp: parse_receipt_row_def Let_def split: option.splits if_splits)

lemma presence_row_ok: "parse_presence_federation_row g r = Some (d, u) \<Longrightarrow> d \<noteq> [] \<and> u \<noteq> []"
  by (auto simp: parse_presence_federation_row_def Let_def split: option.splits if_splits)

lemma typing_row_ok: "parse_typing_row g r = Some (room, us) \<Longrightarrow> room \<noteq> [] \<and> [] \<notin> set us"
  by (auto simp: parse_typing_row_def Let_def split: option.splits if_splits)

lemma to_device_row_ok:
  assumes "parse_to_device_entity g r = Some (e, remote)"
  shows "e \<noteq> [] \<and> (remote \<longleftrightarrow> hd e \<noteq> CHR ''@'')"
proof -
  obtain a where a: "row_items g (Suc 0) r = Some a" using assms by (auto simp: parse_to_device_entity_def split: option.splits)
  define s where "s = gj_str g (a ! 0)"
  have "(case s of [] \<Rightarrow> None | c # cs \<Rightarrow> Some (c # cs, c \<noteq> CHR ''@'')) = Some (e, remote)"
    using assms by (simp add: parse_to_device_entity_def a s_def)
  then show ?thesis by (cases s) auto
qed

lemma federation_row_ok:
  "parse_federation_row g r = Some x \<Longrightarrow> fr_kind x \<in> {''k'', ''e'', ''pd''}"
  by (auto simp: parse_federation_row_def Let_def split: option.splits if_splits)

end
