(* ===== verification/Sink.thy ===== *)
theory Sink
  imports Replication
begin

text \<open>
  \<open>internal/sink\<close>: the HTTP sender with its retries (\<open>http.go\<close>), the send allowlist
  (\<open>router.go\<close>), the dry run (\<open>sink.go\<close>) and the counts (\<open>count.go\<close>). The network is what each
  attempt is answered with; a \<open>time.Duration\<close> is an \<open>int64\<close> of nanoseconds, and \<open>wrap64\<close> is
  written where the code multiplies one. \<open>float64\<close> is idealised as \<open>rat\<close>, with the random draw
  \<open>u\<close> an argument.
\<close>

section \<open>Durations at their width\<close>

definition wrap64 :: "int \<Rightarrow> int" where
  "wrap64 x = (x + 2 ^ 63) mod 2 ^ 64 - 2 ^ 63"

lemma wrap64_small: "- (2 ^ 63) \<le> x \<Longrightarrow> x < 2 ^ 63 \<Longrightarrow> wrap64 x = x"
  by (simp add: wrap64_def)

section \<open>Errors\<close>

text \<open>
  What went wrong with one attempt; \<open>RateLimitedStatus\<close> is the \<open>rateLimited\<close> wrapper around its
  \<open>StatusError\<close>, with the hint.
\<close>

datatype attempt_error = BadRequest | NotReached | ReadFailed | Status int | RateLimitedStatus duration

text \<open>What \<open>Send\<close> returns; every error but the context's wraps an attempt's.\<close>

datatype send_error =
    Refused_at_once attempt_error
  | RateLimitedNotRetrying attempt_error
  | GaveUp attempt_error
  | ContextDone

definition wrapped :: "send_error \<Rightarrow> attempt_error option" where
  "wrapped e = (case e of Refused_at_once a \<Rightarrow> Some a | RateLimitedNotRetrying a \<Rightarrow> Some a | GaveUp a \<Rightarrow> Some a
     | ContextDone \<Rightarrow> None)"

definition attempt_rate_limited :: "attempt_error \<Rightarrow> duration option" where
  "attempt_rate_limited a = (case a of RateLimitedStatus after \<Rightarrow> Some after | _ \<Rightarrow> None)"

definition is_rate_limited :: "send_error \<Rightarrow> duration \<times> bool" where
  "is_rate_limited e =
     (case Option.bind (wrapped e) attempt_rate_limited of Some after \<Rightarrow> (after, True) | None \<Rightarrow> (0, False))"

definition answered :: "send_error \<Rightarrow> bool" where
  "answered e = (case wrapped e of Some (Status _) \<Rightarrow> True | Some (RateLimitedStatus _) \<Rightarrow> True | _ \<Rightarrow> False)"

section \<open>Retry-After\<close>

text \<open>\<open>strconv.Atoi\<close> on a 64-bit machine is \<open>parse_int64\<close>.\<close>

record http_response =
  hr_code :: int
  hr_body :: json
  hr_retry_after :: string

definition cap_retry_after :: "duration \<Rightarrow> duration" where
  "cap_retry_after d = (if d > 60 * second then 60 * second else d)"

definition retry_after :: "gjson \<Rightarrow> http_response \<Rightarrow> duration" where
  "retry_after g resp =
     (if get_exists g (hr_body resp) ''retry_after_ms'' \<and> get_int g (hr_body resp) ''retry_after_ms'' > 0
      then cap_retry_after (wrap64 (get_int g (hr_body resp) ''retry_after_ms'' * millisecond))
      else if hr_retry_after resp \<noteq> []
      then (case parse_int64 (hr_retry_after resp) of
              Some secs \<Rightarrow> if secs > 0 then cap_retry_after (wrap64 (secs * second)) else 0
            | None \<Rightarrow> 0)
      else 0)"

section \<open>One attempt\<close>

datatype network = CannotBuild | NoAnswer | BrokenBody | Answer http_response

record send_result =
  sr_delivered :: bool
  sr_status :: int
  sr_pdu_errors :: "(string \<times> string) list"

text \<open>\<open>entries\<close> are the members of an object, in the order \<open>ForEach\<close> walks them.\<close>

definition pdu_errors :: "gjson \<Rightarrow> (json \<Rightarrow> (string \<times> json) list) \<Rightarrow> json \<Rightarrow> (string \<times> string) list" where
  "pdu_errors g entries body =
     (case gj_get g body ''pdus'' of
        None \<Rightarrow> []
      | Some pdus \<Rightarrow>
          List.map_filter (\<lambda>(k, v). let msg = get_str g v ''error'' in if msg \<noteq> [] then Some (k, msg) else None) (entries pdus))"

definition attempt ::
  "gjson \<Rightarrow> (json \<Rightarrow> (string \<times> json) list) \<Rightarrow> network
   \<Rightarrow> (attempt_error \<times> bool) + send_result" where
  "attempt g entries n =
     (case n of
        CannotBuild \<Rightarrow> Inl (BadRequest, False)
      | NoAnswer \<Rightarrow> Inl (NotReached, True)
      | BrokenBody \<Rightarrow> Inl (ReadFailed, True)
      | Answer resp \<Rightarrow>
          if hr_code resp \<noteq> 200
          then (let retryable = (hr_code resp \<ge> 500 \<or> hr_code resp = 429)
                in if hr_code resp = 429 then Inl (RateLimitedStatus (retry_after g resp), retryable)
                   else Inl (Status (hr_code resp), retryable))
          else Inr \<lparr>sr_delivered = True, sr_status = hr_code resp, sr_pdu_errors = pdu_errors g entries (hr_body resp)\<rparr>)"

section \<open>The retry schedule\<close>

record http_sink =
  hs_retries :: nat
  hs_max_delay :: duration

definition new_http :: "int \<Rightarrow> duration \<Rightarrow> http_sink" where
  "new_http retries max_delay =
     \<lparr>hs_retries = (if retries \<le> 0 then 3 else nat retries),
      hs_max_delay = (if max_delay \<le> 0 then 60 * second else max_delay)\<rparr>"

abbreviation max_backoff_attempt :: nat where "max_backoff_attempt \<equiv> 16"
abbreviation max_rate_limited_attempts :: nat where "max_rate_limited_attempts \<equiv> 2"

definition base_backoff :: "http_sink \<Rightarrow> nat \<Rightarrow> duration" where
  "base_backoff h n =
     (if n \<le> max_backoff_attempt
      then (let d = wrap64 (wrap64 (2 ^ (2 * n)) * second) in if d < hs_max_delay h then d else hs_max_delay h)
      else hs_max_delay h)"

definition send_backoff :: "http_sink \<Rightarrow> nat \<Rightarrow> rat \<Rightarrow> duration" where
  "send_backoff h n u = \<lfloor>of_int (base_backoff h n) * (8/10 + u * (6/10))\<rfloor>"

text \<open>The delay before the next try and how often a 429 has been seen; \<open>None\<close> is not to retry.\<close>

definition rate_limit_delay :: "duration \<Rightarrow> attempt_error \<Rightarrow> nat \<Rightarrow> duration option \<times> nat" where
  "rate_limit_delay base e seen =
     (case attempt_rate_limited e of
        None \<Rightarrow> (Some base, seen)
      | Some after \<Rightarrow>
          (if Suc seen \<ge> max_rate_limited_attempts then (None, Suc seen)
           else (Some (if after > 0 then after else base), Suc seen)))"

text \<open>
  What happens around attempt \<open>n\<close>: the draw, whether the context ends during the wait before it,
  the network's answer, whether the context has ended after it.
\<close>

record attempt_world =
  aw_draw :: rat
  aw_cancel_wait :: bool
  aw_network :: network
  aw_cancelled :: bool

datatype send_event = Waited duration | Tried

text \<open>The loop, from attempt \<open>n\<close> with \<open>left\<close> attempts to go.\<close>

fun send_loop ::
  "(network \<Rightarrow> (attempt_error \<times> bool) + send_result) \<Rightarrow> http_sink \<Rightarrow> (nat \<Rightarrow> attempt_world)
   \<Rightarrow> nat \<Rightarrow> nat \<Rightarrow> nat \<Rightarrow> attempt_error \<Rightarrow> send_event list \<times> (send_error + send_result)" where
  "send_loop att h w 0 n seen last_err = ([], Inl (GaveUp last_err))"
| "send_loop att h w (Suc left) n seen last_err =
     (let (wait, seen') = (if n = 0 then (Some 0, seen)
                           else rate_limit_delay (send_backoff h n (aw_draw (w n))) last_err seen)
      in case wait of
           None \<Rightarrow> ([], Inl (RateLimitedNotRetrying last_err))
         | Some delay \<Rightarrow>
             (let waited = (if n = 0 then [] else [Waited delay])
              in if n \<noteq> 0 \<and> aw_cancel_wait (w n) then (waited, Inl ContextDone)
                 else case att (aw_network (w n)) of
                   Inr r \<Rightarrow> (waited @ [Tried], Inr r)
                 | Inl (e, retryable) \<Rightarrow>
                     if \<not> retryable \<or> aw_cancelled (w n) then (waited @ [Tried], Inl (Refused_at_once e))
                     else (case send_loop att h w left (Suc n) seen' e of
                             (evs, r) \<Rightarrow> (waited @ Tried # evs, r))))"

definition http_send ::
  "gjson \<Rightarrow> (json \<Rightarrow> (string \<times> json) list) \<Rightarrow> http_sink \<Rightarrow> (nat \<Rightarrow> attempt_world)
   \<Rightarrow> send_event list \<times> (send_error + send_result)" where
  "http_send g entries h w = send_loop (attempt g entries) h w (Suc (hs_retries h)) 0 0 BadRequest"

section \<open>The allowlist\<close>

record router =
  rt_allowed :: "string list"
  rt_all :: bool

definition new_router :: "string list \<Rightarrow> bool \<Rightarrow> router" where
  "new_router allowed all_of = \<lparr>rt_allowed = remdups (map trim_space allowed), rt_all = all_of\<rparr>"

definition router_sends :: "router \<Rightarrow> string \<Rightarrow> bool" where
  "router_sends r d \<longleftrightarrow> rt_all r \<or> d \<in> set (rt_allowed r)"

definition router_allowed :: "router \<Rightarrow> string list" where
  "router_allowed r = sort (rt_allowed r)"

datatype sink_used = LiveSink | DrySink

definition router_send :: "router \<Rightarrow> string \<Rightarrow> sink_used" where
  "router_send r d = (if router_sends r d then LiveSink else DrySink)"

section \<open>The dry run\<close>

definition count_units :: "gjson \<Rightarrow> json \<Rightarrow> nat \<times> nat" where
  "count_units g body = (length (get_items g body ''pdus''), length (get_items g body ''edus''))"

definition edu_type_name :: "gjson \<Rightarrow> json \<Rightarrow> string" where
  "edu_type_name g e = (let t = get_str g e ''edu_type'' in if t = [] then ''unknown'' else t)"

definition count_edu_types :: "gjson \<Rightarrow> json \<Rightarrow> (string \<Rightarrow> nat)" where
  "count_edu_types g body = count_list (map (edu_type_name g) (get_items g body ''edus''))"

definition count_presence_states :: "gjson \<Rightarrow> json \<Rightarrow> nat" where
  "count_presence_states g body =
     sum_list (map (\<lambda>e. length (get_items g e ''content.push''))
       (filter (\<lambda>e. get_str g e ''edu_type'' = ''m.presence'') (get_items g body ''edus'')))"

record sink_stats =
  ss_transactions :: nat
  ss_pdus :: nat
  ss_edus :: nat
  ss_bytes :: nat

text \<open>The counters after a dry-run send, and its result, which is always a delivery.\<close>

definition dry_run_send :: "gjson \<Rightarrow> json \<Rightarrow> sink_stats \<Rightarrow> sink_stats \<times> send_result" where
  "dry_run_send g body st =
     (case count_units g body of (pdus, edus) \<Rightarrow>
        (st\<lparr>ss_transactions := Suc (ss_transactions st), ss_pdus := ss_pdus st + pdus,
            ss_edus := ss_edus st + edus, ss_bytes := ss_bytes st + length body\<rparr>,
         \<lparr>sr_delivered = True, sr_status = 0, sr_pdu_errors = []\<rparr>))"

section \<open>The schedule stays in range\<close>

lemma pow4_small: "n \<le> max_backoff_attempt \<Longrightarrow> wrap64 (wrap64 (2 ^ (2 * n)) * second) = 4 ^ n * second"
proof -
  assume n: "n \<le> max_backoff_attempt"
  have "(2::int) ^ (2 * n) = 4 ^ n" by (simp add: power_mult)
  moreover have "(4::int) ^ n \<le> 4 ^ 16" using n by (intro power_increasing) simp_all
  moreover have "(0::int) < 4 ^ n" by simp
  moreover have small: "wrap64 x = x" if "0 < x" "x \<le> 4294967296 * second" for x
    by (rule wrap64_small) (use that in simp_all)
  ultimately have "wrap64 (4 ^ n) = 4 ^ n" "wrap64 (4 ^ n * second) = 4 ^ n * second"
    by (intro small; simp)+
  then show ?thesis by (simp only: \<open>2 ^ (2 * n) = 4 ^ n\<close>)
qed

lemma base_backoff_eq:
  assumes "hs_max_delay h < 2 ^ 63"
  shows "base_backoff h n = min (4 ^ n * second) (hs_max_delay h)"
proof (cases "n \<le> max_backoff_attempt")
  case True
  then have "wrap64 (wrap64 (2 ^ (2 * n)) * second) = 4 ^ n * second" by (rule pow4_small)
  with True show ?thesis by (simp only: base_backoff_def Let_def min_def) auto
next
  case False
  then have "(4::int) ^ 17 \<le> 4 ^ n" by (intro power_increasing) simp_all
  with assms False show ?thesis by (simp add: base_backoff_def min_def)
qed

text \<open>
  The wait before a retry. It is \<open>4^attempt\<close> seconds capped at the configured maximum,
  within the jitter of 0.8 to 1.4, for every attempt: the multiplications, made on 64 bits, never
  wrap for the attempts they are made for, and past the sixteenth the cap is what they would give.
\<close>

theorem backoff_in_range:
  assumes "0 \<le> u" "u < 1" "0 < hs_max_delay h" "hs_max_delay h < 2 ^ 63"
  shows "8 * min (4 ^ n * second) (hs_max_delay h) < 10 * send_backoff h n u + 10
    \<and> 10 * send_backoff h n u \<le> 14 * min (4 ^ n * second) (hs_max_delay h) \<and> 0 \<le> send_backoff h n u"
proof -
  define b where "b = min (4 ^ n * second) (hs_max_delay h)"
  have b: "0 \<le> b" using assms(3) by (simp add: b_def)
  have base: "base_backoff h n = b" using base_backoff_eq [OF assms(4)] by (simp add: b_def)
  define x where "x = (of_int b * (8 / 10 + u * (6 / 10)) :: rat)"
  have "of_int b * (8 / 10) \<le> x" unfolding x_def using b assms(1) by (intro mult_left_mono) simp_all
  moreover have "x \<le> of_int b * (14 / 10)" unfolding x_def using b assms(2) by (intro mult_left_mono) simp_all
  moreover have "of_int \<lfloor>x\<rfloor> \<le> x" "x < of_int \<lfloor>x\<rfloor> + 1" by linarith+
  ultimately have "of_int (8 * b) < (of_int (10 * \<lfloor>x\<rfloor> + 10) :: rat)" "(of_int (10 * \<lfloor>x\<rfloor>) :: rat) \<le> of_int (14 * b)"
    by (simp_all only: of_int_mult of_int_add of_int_numeral)
  then have "8 * b < 10 * \<lfloor>x\<rfloor> + 10" "10 * \<lfloor>x\<rfloor> \<le> 14 * b" by (simp_all only: of_int_less_iff of_int_le_iff)
  moreover have "0 \<le> \<lfloor>x\<rfloor>" using b assms(1) by (simp add: x_def)
  ultimately show ?thesis by (simp only: send_backoff_def base b_def [symmetric] x_def [symmetric])
qed

theorem backoff_in_range_witness:
  "10 * send_backoff (new_http 30 0) 25 (1/2) \<le> 14 * (60 * second)"
proof -
  have "hs_max_delay (new_http 30 0) = 60 * second" by (simp add: new_http_def)
  with backoff_in_range [of "1/2" "new_http 30 0" 25] show ?thesis by simp
qed

section \<open>What comes of a send\<close>

definition tries :: "send_event list \<Rightarrow> nat" where
  "tries evs = length (filter (\<lambda>e. e = Tried) evs)"

lemma tries_simps [simp]:
  "tries [] = 0" "tries (Tried # evs) = Suc (tries evs)" "tries (Waited d # evs) = tries evs"
  by (simp_all add: tries_def)

definition is_429 :: "attempt_error \<Rightarrow> bool" where
  "is_429 e \<longleftrightarrow> attempt_rate_limited e \<noteq> None"

text \<open>What the attempts \<open>n, ..., n + k - 1\<close> ended with, as the loop sees them.\<close>

definition error_at :: "(network \<Rightarrow> (attempt_error \<times> bool) + send_result) \<Rightarrow> (nat \<Rightarrow> attempt_world) \<Rightarrow> nat \<Rightarrow> attempt_error option" where
  "error_at att w n = (case att (aw_network (w n)) of Inl (e, _) \<Rightarrow> Some e | Inr _ \<Rightarrow> None)"

lemma send_loop_spec:
  "send_loop att h w left n seen last_err = (evs, r) \<Longrightarrow>
     tries evs \<le> left
     \<and> (\<forall>k < tries evs. Suc k < tries evs \<longrightarrow> (\<exists>e. att (aw_network (w (n + k))) = Inl (e, True)))
     \<and> (case r of
          Inr res \<Rightarrow> tries evs > 0 \<and> att (aw_network (w (n + tries evs - 1))) = Inr res
        | Inl ContextDone \<Rightarrow> True
        | Inl e \<Rightarrow> wrapped e = (if tries evs = 0 then Some last_err else error_at att w (n + tries evs - 1)))"
proof (induction att h w left n seen last_err arbitrary: evs r rule: send_loop.induct)
  case (1 att h w n seen last_err)
  then show ?case by (auto simp: wrapped_def)
next
  case (2 att h w left n seen last_err)
  define step where "step = (if n = 0 then (Some 0, seen) else rate_limit_delay (send_backoff h n (aw_draw (w n))) last_err seen)"
  obtain wait seen' where step': "step = (wait, seen')" by (cases step)
  show ?case
  proof (cases wait)
    case None
    with "2.prems" step' show ?thesis by (auto simp: step_def wrapped_def)
  next
    case (Some delay)
    define waited where "waited = (if n = 0 then [] else [Waited delay])"
    have tw: "tries (waited @ evs') = tries evs'" for evs' by (simp add: waited_def)
    note unf = "2.prems" [unfolded send_loop.simps, folded step_def, unfolded step' Let_def prod.case Some option.case, folded waited_def]
    show ?thesis
    proof (cases "n \<noteq> 0 \<and> aw_cancel_wait (w n)")
      case True
      with unf tw [of "[]"] show ?thesis by auto
    next
      case False
      show ?thesis
      proof (cases "att (aw_network (w n))")
        case (Inr res)
        with unf False tw [of "[Tried]"] show ?thesis by auto
      next
        case (Inl er)
        obtain e retryable where er: "er = (e, retryable)" by force
        show ?thesis
        proof (cases "\<not> retryable \<or> aw_cancelled (w n)")
          case True
          with unf False Inl er tw [of "[Tried]"] show ?thesis by (auto simp: wrapped_def error_at_def)
        next
          case retry: False
          obtain evs1 where rec: "send_loop att h w left (Suc n) seen' e = (evs1, r)"
            and evs: "evs = waited @ Tried # evs1"
            using unf False Inl er retry by (auto split: prod.splits)
          have IH: "tries evs1 \<le> left
             \<and> (\<forall>k < tries evs1. Suc k < tries evs1 \<longrightarrow> (\<exists>e. att (aw_network (w (Suc n + k))) = Inl (e, True)))
             \<and> (case r of
                  Inr res \<Rightarrow> tries evs1 > 0 \<and> att (aw_network (w (Suc n + tries evs1 - 1))) = Inr res
                | Inl ContextDone \<Rightarrow> True
                | Inl x \<Rightarrow> wrapped x = (if tries evs1 = 0 then Some e else error_at att w (Suc n + tries evs1 - 1)))"
            using "2.IH" [OF step_def step' [symmetric] Some waited_def False Inl er [symmetric] retry rec] .
          have first: "att (aw_network (w n)) = Inl (e, True)" using Inl er retry by simp
          have t: "tries evs = Suc (tries evs1)" by (simp add: evs tw)
          have "\<forall>k < tries evs. Suc k < tries evs \<longrightarrow> (\<exists>e. att (aw_network (w (n + k))) = Inl (e, True))"
          proof (intro allI impI)
            fix k
            assume "k < tries evs" "Suc k < tries evs"
            then show "\<exists>e. att (aw_network (w (n + k))) = Inl (e, True)"
              using IH first by (cases k) (auto simp: t)
          qed
          with IH first show ?thesis
            by (cases r) (auto simp: t error_at_def split: send_error.splits)
        qed
      qed
    qed
  qed
qed

text \<open>How many of the attempts were answered 429.\<close>

definition count_429 :: "(network \<Rightarrow> (attempt_error \<times> bool) + send_result) \<Rightarrow> (nat \<Rightarrow> attempt_world) \<Rightarrow> nat \<Rightarrow> nat \<Rightarrow> nat" where
  "count_429 att w n k = length (filter (\<lambda>i. case error_at att w i of Some e \<Rightarrow> is_429 e | None \<Rightarrow> False) [n..<n + k])"

lemma count_429_step:
  "count_429 att w n (Suc k) = (case error_at att w n of Some e \<Rightarrow> if is_429 e then 1 else 0 | None \<Rightarrow> 0) + count_429 att w (Suc n) k"
proof -
  have "[n..<n + Suc k] = n # [Suc n..<Suc n + k]" by (simp add: upt_rec)
  then show ?thesis by (simp add: count_429_def split: option.split)
qed

lemma send_loop_429:
  "send_loop att h w left n seen last_err = (evs, r) \<Longrightarrow> seen \<le> 1 \<Longrightarrow>
     (n = 0 \<Longrightarrow> seen = 0 \<and> \<not> is_429 last_err) \<Longrightarrow>
     count_429 att w n (tries evs) + seen + (if is_429 last_err then 1 else 0) \<le> 2"
proof (induction att h w left n seen last_err arbitrary: evs r rule: send_loop.induct)
  case (1 att h w n seen last_err)
  then show ?case by (auto simp: count_429_def)
next
  case (2 att h w left n seen last_err)
  define step where "step = (if n = 0 then (Some 0, seen) else rate_limit_delay (send_backoff h n (aw_draw (w n))) last_err seen)"
  obtain wait seen' where step': "step = (wait, seen')" by (cases step)
  show ?case
  proof (cases wait)
    case None
    with "2.prems" step' show ?thesis by (auto simp: step_def count_429_def)
  next
    case (Some delay)
    have seen': "seen' = seen + (if is_429 last_err then 1 else 0)" "seen' \<le> 1"
      using step' Some "2.prems"(2,3)
      by (auto simp: step_def rate_limit_delay_def is_429_def split: if_splits option.splits)
    define waited where "waited = (if n = 0 then [] else [Waited delay])"
    have tw: "tries (waited @ evs') = tries evs'" for evs' by (simp add: waited_def)
    note unf = "2.prems"(1) [unfolded send_loop.simps, folded step_def, unfolded step' Let_def prod.case Some option.case, folded waited_def]
    show ?thesis
    proof (cases "n \<noteq> 0 \<and> aw_cancel_wait (w n)")
      case True
      with unf tw [of "[]"] seen' show ?thesis by (auto simp: count_429_def)
    next
      case False
      show ?thesis
      proof (cases "att (aw_network (w n))")
        case (Inr res)
        with unf False tw [of "[Tried]"] seen' show ?thesis by (auto simp: count_429_step count_429_def error_at_def)
      next
        case (Inl er)
        obtain e retryable where er: "er = (e, retryable)" by force
        have here: "error_at att w n = Some e" by (simp add: error_at_def Inl er)
        show ?thesis
        proof (cases "\<not> retryable \<or> aw_cancelled (w n)")
          case True
          with unf False Inl er have "evs = waited @ [Tried]" by auto
          then have "tries evs = Suc 0" by (simp add: tw)
          then have "count_429 att w n (tries evs) \<le> 1" by (simp add: count_429_step count_429_def here)
          with seen' show ?thesis by linarith
        next
          case retry: False
          obtain evs1 where rec: "send_loop att h w left (Suc n) seen' e = (evs1, r)"
            and evs: "evs = waited @ Tried # evs1"
            using unf False Inl er retry by (auto split: prod.splits)
          have "count_429 att w (Suc n) (tries evs1) + seen' + (if is_429 e then 1 else 0) \<le> 2"
            by (rule "2.IH" [OF step_def step' [symmetric] Some waited_def False Inl er [symmetric] retry rec seen'(2)]) simp
          moreover have "tries evs = Suc (tries evs1)" by (simp add: evs tw)
          ultimately show ?thesis using seen'(1) by (simp add: count_429_step here)
        qed
      qed
    qed
  qed
qed

lemma attempt_429:
  "(case error_at (attempt g entries) w i of Some e \<Rightarrow> is_429 e | None \<Rightarrow> False)
     \<longleftrightarrow> (\<exists>resp. aw_network (w i) = Answer resp \<and> hr_code resp = 429)"
  by (cases "aw_network (w i)") (auto simp: error_at_def attempt_def is_429_def attempt_rate_limited_def Let_def)

lemma attempt_error_of:
  "error_at (attempt g entries) w i = Some a \<Longrightarrow> wrapped e = Some a \<Longrightarrow>
     (answered e \<longleftrightarrow> (\<exists>resp. aw_network (w i) = Answer resp \<and> hr_code resp \<noteq> 200))
     \<and> (snd (is_rate_limited e) \<longleftrightarrow> (\<exists>resp. aw_network (w i) = Answer resp \<and> hr_code resp = 429))
     \<and> (\<forall>resp. aw_network (w i) = Answer resp \<longrightarrow> hr_code resp = 429 \<longrightarrow> fst (is_rate_limited e) = retry_after g resp)"
  by (cases "aw_network (w i)")
    (auto simp: error_at_def attempt_def attempt_rate_limited_def is_rate_limited_def answered_def Let_def split: if_splits)

lemma attempt_retryable:
  "attempt g entries net = Inl (e, True) \<Longrightarrow> net = NoAnswer \<or> net = BrokenBody
     \<or> (\<exists>resp. net = Answer resp \<and> (hr_code resp = 429 \<or> hr_code resp \<ge> 500))"
  by (cases net) (auto simp: attempt_def Let_def split: if_splits)

lemma first_attempt: "http_send g entries h w = (evs, r) \<Longrightarrow> 0 < tries evs"
  by (auto simp: http_send_def Let_def split: sum.splits prod.splits if_splits)

text \<open>The last attempt is what a send ends with.\<close>

lemma send_last:
  assumes "http_send g entries h w = (evs, r)"
  shows "\<And>res. r = Inr res \<Longrightarrow> attempt g entries (aw_network (w (tries evs - 1))) = Inr res"
    "\<And>e. r = Inl e \<Longrightarrow> e \<noteq> ContextDone \<Longrightarrow>
       \<exists>a. wrapped e = Some a \<and> error_at (attempt g entries) w (tries evs - 1) = Some a"
proof -
  have run: "send_loop (attempt g entries) h w (Suc (hs_retries h)) 0 0 BadRequest = (evs, r)"
    using assms by (simp add: http_send_def)
  note S = send_loop_spec [OF run] and k = first_attempt [OF assms]
  show "\<And>res. r = Inr res \<Longrightarrow> attempt g entries (aw_network (w (tries evs - 1))) = Inr res"
    using S by simp
  fix e
  assume e: "r = Inl e" "e \<noteq> ContextDone"
  have "wrapped e = error_at (attempt g entries) w (tries evs - 1)" using S e k by (cases e) auto
  moreover obtain a where "wrapped e = Some a" using e(2) by (cases e) (auto simp: wrapped_def)
  ultimately show "\<exists>a. wrapped e = Some a \<and> error_at (attempt g entries) w (tries evs - 1) = Some a" by metis
qed

text \<open>
  C22. What comes of a send. The sender makes at least one attempt and at most one more than the
  configured retries, at most two of them answered 429, and goes on only after a connection
  failure, a 429 or a 5xx. A result is a delivery, answered 200 by the last attempt. An error that
  is not the end of the context tells the last attempt: \<open>Answered\<close> says that the host answered
  with a status, \<open>IsRateLimited\<close> that it was a 429, with its hint.
\<close>

theorem send_tells_last_attempt:
  assumes "http_send g entries h w = (evs, r)"
  defines "net \<equiv> (\<lambda>i. aw_network (w i))" and "k \<equiv> tries evs"
  shows "1 \<le> k \<and> k \<le> hs_retries h + 1
    \<and> length (filter (\<lambda>i. \<exists>resp. net i = Answer resp \<and> hr_code resp = 429) [0..<k]) \<le> 2
    \<and> (\<forall>i. Suc i < k \<longrightarrow> net i = NoAnswer \<or> net i = BrokenBody
         \<or> (\<exists>resp. net i = Answer resp \<and> (hr_code resp = 429 \<or> hr_code resp \<ge> 500)))
    \<and> (\<forall>res. r = Inr res \<longrightarrow> sr_delivered res \<and> (\<exists>resp. net (k - 1) = Answer resp \<and> hr_code resp = 200))
    \<and> (\<forall>e. r = Inl e \<longrightarrow> e \<noteq> ContextDone \<longrightarrow>
         (answered e \<longleftrightarrow> (\<exists>resp. net (k - 1) = Answer resp \<and> hr_code resp \<noteq> 200))
         \<and> (snd (is_rate_limited e) \<longleftrightarrow> (\<exists>resp. net (k - 1) = Answer resp \<and> hr_code resp = 429))
         \<and> (\<forall>resp. net (k - 1) = Answer resp \<longrightarrow> hr_code resp = 429 \<longrightarrow> fst (is_rate_limited e) = retry_after g resp))"
proof -
  have run: "send_loop (attempt g entries) h w (Suc (hs_retries h)) 0 0 BadRequest = (evs, r)"
    using assms(1) by (simp add: http_send_def)
  note S = send_loop_spec [OF run]
  have k: "0 < k" using first_attempt [OF assms(1)] by (simp add: k_def)
  have "k \<le> hs_retries h + 1" using S by (simp add: k_def)
  moreover have "length (filter (\<lambda>i. \<exists>resp. net i = Answer resp \<and> hr_code resp = 429) [0..<k]) \<le> 2"
    using send_loop_429 [OF run] by (simp add: is_429_def attempt_rate_limited_def count_429_def attempt_429 net_def k_def)
  moreover have "net i = NoAnswer \<or> net i = BrokenBody
       \<or> (\<exists>resp. net i = Answer resp \<and> (hr_code resp = 429 \<or> hr_code resp \<ge> 500))" if "Suc i < k" for i
  proof -
    have "\<exists>e. attempt g entries (net i) = Inl (e, True)"
      using S [THEN conjunct2, THEN conjunct1, rule_format, of i] that by (simp add: k_def net_def)
    then obtain e where "attempt g entries (net i) = Inl (e, True)" ..
    then show ?thesis by (rule attempt_retryable)
  qed
  moreover have "sr_delivered res \<and> (\<exists>resp. net (k - 1) = Answer resp \<and> hr_code resp = 200)" if "r = Inr res" for res
  proof -
    have "attempt g entries (net (k - 1)) = Inr res" using send_last(1) [OF assms(1) that] by (simp add: k_def net_def)
    then show ?thesis by (cases "net (k - 1)") (auto simp: attempt_def Let_def split: if_splits)
  qed
  moreover have "(answered e \<longleftrightarrow> (\<exists>resp. net (k - 1) = Answer resp \<and> hr_code resp \<noteq> 200))
         \<and> (snd (is_rate_limited e) \<longleftrightarrow> (\<exists>resp. net (k - 1) = Answer resp \<and> hr_code resp = 429))
         \<and> (\<forall>resp. net (k - 1) = Answer resp \<longrightarrow> hr_code resp = 429 \<longrightarrow> fst (is_rate_limited e) = retry_after g resp)"
    if ends: "r = Inl e" "e \<noteq> ContextDone" for e
    using send_last(2) [OF assms(1) ends] attempt_error_of [of g entries w "k - 1" _ e] by (auto simp: net_def k_def)
  ultimately show ?thesis using k by auto
qed

text \<open>Two 429s in a row, the first with a hint of three seconds.\<close>

definition sample_network :: "nat \<Rightarrow> attempt_world" where
  "sample_network i = \<lparr>aw_draw = 1/2, aw_cancel_wait = False,
     aw_network = Answer \<lparr>hr_code = 429, hr_body = [], hr_retry_after = ''3''\<rparr>, aw_cancelled = False\<rparr>"

theorem send_tells_last_attempt_witness:
  "\<exists>evs e. http_send (table_gjson [] [] []) (\<lambda>_. []) (new_http 10 0) sample_network = (evs, Inl e)
     \<and> tries evs \<le> 11 \<and> answered e \<and> is_rate_limited e = (3 * second, True)"
proof -
  let ?g = "table_gjson [] [] []"
  have after: "retry_after ?g \<lparr>hr_code = 429, hr_body = [], hr_retry_after = ''3''\<rparr> = 3 * second"
    by (simp add: retry_after_def gjson_eval parse_int64_def digit_value_def Let_def wrap64_def cap_retry_after_def)
  obtain evs r where run: "http_send ?g (\<lambda>_. []) (new_http 10 0) sample_network = (evs, r)" by force
  note T = send_tells_last_attempt [OF run]
  have all: "\<And>i. aw_network (sample_network i) = Answer \<lparr>hr_code = 429, hr_body = [], hr_retry_after = ''3''\<rparr>"
    by (simp add: sample_network_def)
  from run have "\<exists>e. r = Inl e \<and> e \<noteq> ContextDone"
    by (auto simp: http_send_def new_http_def eval_nat_numeral attempt_def after all Let_def rate_limit_delay_def
        attempt_rate_limited_def sample_network_def)
  then obtain e where e: "r = Inl e" "e \<noteq> ContextDone" by blast
  from T e have "answered e" "snd (is_rate_limited e)" "fst (is_rate_limited e) = 3 * second" "tries evs \<le> 11"
    by (simp_all add: all after new_http_def)
  then have "is_rate_limited e = (3 * second, True)" by (metis prod.collapse)
  with run e \<open>answered e\<close> \<open>tries evs \<le> 11\<close> show ?thesis by blast
qed

end
