(* ===== verification/ResolveCache.thy ===== *)
theory ResolveCache
  imports Prelude
begin

text \<open>
  \<open>internal/sink/resolvecache.go\<close>: how long a resolved server name is trusted. The resolver
  itself is not part of the repository; of what it hands over the cache reads the name, the host
  header and the expiry, and keeps the rest (\<open>rn_rest\<close>) as it is. Clock readings and the random
  draw are arguments; \<open>float64\<close> is idealised as \<open>rat\<close>.
\<close>

record 'a resolved_name =
  rn_server :: string
  rn_host_header :: string
  rn_expires :: instant
  rn_rest :: 'a

record 'a resolve_cache =
  rc_entries :: "string \<rightharpoonup> 'a resolved_name"
  rc_delegated_until :: "string \<rightharpoonup> instant"
  rc_last_sweep :: instant

abbreviation "delegated_ttl \<equiv> 24 * hour"
abbreviation "no_delegation_ttl \<equiv> hour"
abbreviation "down_ttl \<equiv> 2 * minute"
abbreviation "remember_delegation \<equiv> 2 * hour"
abbreviation "min_ttl \<equiv> 5 * minute"
abbreviation "max_ttl \<equiv> 48 * hour"
abbreviation "sweep_every \<equiv> 5 * minute"

definition new_resolve_cache :: "instant \<Rightarrow> 'a resolve_cache" where
  "new_resolve_cache zero_time = \<lparr>rc_entries = Map.empty, rc_delegated_until = Map.empty, rc_last_sweep = zero_time\<rparr>"

definition resolve_jitter :: "rat \<Rightarrow> rat" where
  "resolve_jitter u = 1 - 1/10 + u * 2 * (1/10)"

definition sweep_locked :: "instant \<Rightarrow> 'a resolve_cache \<Rightarrow> 'a resolve_cache" where
  "sweep_locked now c =
     (if now - rc_last_sweep c < sweep_every then c
      else c\<lparr>rc_last_sweep := now,
             rc_entries := (\<lambda>n. case rc_entries c n of
                None \<Rightarrow> None | Some r \<Rightarrow> if rn_expires r > now then Some r else None),
             rc_delegated_until := (\<lambda>n. case rc_delegated_until c n of
                None \<Rightarrow> None | Some t \<Rightarrow> if t > now then Some t else None)\<rparr>)"

definition delegates :: "'a resolved_name \<Rightarrow> bool" where
  "delegates r \<longleftrightarrow> rn_host_header r \<noteq> [] \<and> rn_host_header r \<noteq> rn_server r"

text \<open>The time to live before the jitter.\<close>

definition resolution_ttl :: "instant \<Rightarrow> 'a resolved_name \<Rightarrow> 'a resolve_cache \<Rightarrow> duration" where
  "resolution_ttl now r c =
     (let ttl = rn_expires r - now in
      if delegates r
      then (let t = (if ttl \<le> 0 then delegated_ttl else ttl) in min (max t min_ttl) max_ttl)
      else (let limit = (case rc_delegated_until c (rn_server r) of
                           Some until \<Rightarrow> if until > now then down_ttl else no_delegation_ttl
                         | None \<Rightarrow> no_delegation_ttl);
                t = min ttl limit
            in if t \<le> 0 then limit else t))"

text \<open>\<open>None\<close> is a nil argument.\<close>

definition store_resolution :: "instant \<Rightarrow> rat \<Rightarrow> 'a resolved_name option \<Rightarrow> 'a resolve_cache \<Rightarrow> 'a resolve_cache" where
  "store_resolution now u res c =
     (case res of
        None \<Rightarrow> c
      | Some r \<Rightarrow>
          if rn_server r = [] then c
          else (let ttl = resolution_ttl now r c;
                    c1 = (if delegates r
                          then c\<lparr>rc_delegated_until := (rc_delegated_until c)(rn_server r \<mapsto> now + remember_delegation)\<rparr>
                          else c);
                    stored = r\<lparr>rn_expires := now + \<lfloor>of_int ttl * resolve_jitter u\<rfloor>\<rparr>
                in sweep_locked now (c1\<lparr>rc_entries := (rc_entries c1)(rn_server r \<mapsto> stored)\<rparr>)))"

definition load_resolution :: "instant \<Rightarrow> string \<Rightarrow> 'a resolve_cache \<Rightarrow> 'a resolve_cache \<times> 'a resolved_name option" where
  "load_resolution now name c =
     (case rc_entries c name of
        None \<Rightarrow> (c, None)
      | Some r \<Rightarrow> if \<not> rn_expires r > now then (c\<lparr>rc_entries := (rc_entries c)(name := None)\<rparr>, None) else (c, Some r))"

section \<open>Runs\<close>

datatype 'a cache_call = StoreName instant rat "'a resolved_name" | LoadName instant string

fun call_time :: "'a cache_call \<Rightarrow> instant" where
  "call_time (StoreName now u r) = now"
| "call_time (LoadName now name) = now"

fun cache_call_step :: "'a cache_call \<Rightarrow> 'a resolve_cache \<Rightarrow> 'a resolve_cache" where
  "cache_call_step (StoreName now u r) c = store_resolution now u (Some r) c"
| "cache_call_step (LoadName now name) c = fst (load_resolution now name c)"

text \<open>The last resolution stored under a name, and when the name last delegated.\<close>

definition last_stored :: "'a cache_call list \<Rightarrow> string \<Rightarrow> (instant \<times> 'a resolved_name) option" where
  "last_stored cs name = map_of (rev (List.map_filter (\<lambda>c. case c of
     StoreName now u r \<Rightarrow> if rn_server r \<noteq> [] then Some (rn_server r, (now, r)) else None | LoadName _ _ \<Rightarrow> None) cs)) name"

definition last_delegated :: "'a cache_call list \<Rightarrow> string \<Rightarrow> instant option" where
  "last_delegated cs name = map_of (rev (List.map_filter (\<lambda>c. case c of
     StoreName now u r \<Rightarrow> if rn_server r \<noteq> [] \<and> delegates r then Some (rn_server r, now) else None | LoadName _ _ \<Rightarrow> None) cs)) name"

lemma last_stored_snoc [simp]:
  "last_stored (cs @ [StoreName now u r]) name =
     (if rn_server r \<noteq> [] \<and> rn_server r = name then Some (now, r) else last_stored cs name)"
  "last_stored (cs @ [LoadName now x]) name = last_stored cs name"
  by (auto simp: last_stored_def map_filter_def)

lemma last_delegated_snoc [simp]:
  "last_delegated (cs @ [StoreName now u r]) name =
     (if rn_server r \<noteq> [] \<and> delegates r \<and> rn_server r = name then Some now else last_delegated cs name)"
  "last_delegated (cs @ [LoadName now x]) name = last_delegated cs name"
  by (auto simp: last_delegated_def map_filter_def)

text \<open>How long a resolution stored at \<open>t0\<close> may be trusted, before the jitter.\<close>

definition longest_ttl :: "'a cache_call list \<Rightarrow> instant \<Rightarrow> 'a resolved_name \<Rightarrow> duration" where
  "longest_ttl cs t0 r =
     (if delegates r then max_ttl
      else case last_delegated cs (rn_server r) of
        Some d \<Rightarrow> if d + remember_delegation > t0 then down_ttl else no_delegation_ttl
      | None \<Rightarrow> no_delegation_ttl)"

definition trusted :: "'a cache_call list \<Rightarrow> string \<Rightarrow> 'a resolved_name \<Rightarrow> bool" where
  "trusted cs name r' \<longleftrightarrow> (\<exists>t0 r. last_stored cs name = Some (t0, r) \<and> r' = r\<lparr>rn_expires := rn_expires r'\<rparr>
     \<and> rn_server r = name \<and> 10 * (rn_expires r' - t0) \<le> 11 * longest_ttl cs t0 r)"

definition cache_inv :: "'a cache_call list \<Rightarrow> 'a resolve_cache \<Rightarrow> bool" where
  "cache_inv cs c \<longleftrightarrow>
     (\<forall>name r'. rc_entries c name = Some r' \<longrightarrow> trusted cs name r')
     \<and> (\<forall>name t. rc_delegated_until c name = Some t \<longrightarrow> last_delegated cs name = Some (t - remember_delegation))
     \<and> (\<forall>name d. last_delegated cs name = Some d \<longrightarrow>
          rc_delegated_until c name = Some (d + remember_delegation)
          \<or> (\<exists>x \<in> set cs. d + remember_delegation \<le> call_time x))"

lemma cache_invD:
  assumes "cache_inv cs c"
  shows "rc_entries c name = Some r' \<Longrightarrow> trusted cs name r'"
    "rc_delegated_until c name = Some t \<Longrightarrow> last_delegated cs name = Some (t - remember_delegation)"
    "last_delegated cs name = Some d \<Longrightarrow> rc_delegated_until c name = Some (d + remember_delegation)
       \<or> (\<exists>x \<in> set cs. d + remember_delegation \<le> call_time x)"
  using assms by (simp_all add: cache_inv_def)

lemma cache_inv_sweep:
  assumes inv: "cache_inv cs c" and now: "\<exists>x \<in> set cs. call_time x = now"
  shows "cache_inv cs (sweep_locked now c)"
proof (cases "now - rc_last_sweep c < sweep_every")
  case True
  with inv show ?thesis by (simp add: sweep_locked_def)
next
  case False
  let ?c = "sweep_locked now c"
  have parts: "rc_entries ?c = (\<lambda>n. case rc_entries c n of None \<Rightarrow> None | Some r \<Rightarrow> if rn_expires r > now then Some r else None)"
    "rc_delegated_until ?c = (\<lambda>n. case rc_delegated_until c n of None \<Rightarrow> None | Some t \<Rightarrow> if t > now then Some t else None)"
    using False by (simp_all add: sweep_locked_def)
  have "trusted cs name r'" if "rc_entries ?c name = Some r'" for name r'
    using that cache_invD(1) [OF inv] by (simp add: parts split: option.splits if_splits)
  moreover have "last_delegated cs name = Some (t - remember_delegation)" if "rc_delegated_until ?c name = Some t" for name t
    using that cache_invD(2) [OF inv] by (simp add: parts split: option.splits if_splits)
  moreover have "rc_delegated_until ?c name = Some (d + remember_delegation)
       \<or> (\<exists>x \<in> set cs. d + remember_delegation \<le> call_time x)" if "last_delegated cs name = Some d" for name d
    using cache_invD(3) [OF inv that]
  proof
    assume "rc_delegated_until c name = Some (d + remember_delegation)"
    with now show ?thesis by (cases "d + remember_delegation > now") (auto simp: parts not_less)
  qed blast
  ultimately show ?thesis unfolding cache_inv_def by blast
qed

lemma ttl_bound:
  assumes inv: "cache_inv cs c" and times: "\<forall>x \<in> set cs. call_time x \<le> now" and name: "rn_server r \<noteq> []"
  shows "0 < resolution_ttl now r c \<and> resolution_ttl now r c \<le> longest_ttl (cs @ [StoreName now u r]) now r"
proof (cases "delegates r")
  case True
  then show ?thesis by (auto simp: resolution_ttl_def longest_ttl_def Let_def)
next
  case False
  define limit where "limit = (case rc_delegated_until c (rn_server r) of
     Some until \<Rightarrow> if until > now then down_ttl else no_delegation_ttl | None \<Rightarrow> no_delegation_ttl)"
  have long: "longest_ttl (cs @ [StoreName now u r]) now r = (case last_delegated cs (rn_server r) of
        Some d \<Rightarrow> if d + remember_delegation > now then down_ttl else no_delegation_ttl | None \<Rightarrow> no_delegation_ttl)"
    using False by (simp add: longest_ttl_def)
  have "limit \<le> longest_ttl (cs @ [StoreName now u r]) now r"
  proof (cases "last_delegated cs (rn_server r)")
    case None
    then show ?thesis unfolding long by (simp add: limit_def split: option.split)
  next
    case (Some d)
    show ?thesis
    proof (cases "d + remember_delegation > now")
      case True
      have "\<not> (\<exists>x \<in> set cs. d + remember_delegation \<le> call_time x)" using True times by force
      with cache_invD(3) [OF inv Some] have "rc_delegated_until c (rn_server r) = Some (d + remember_delegation)" by blast
      with True show ?thesis unfolding long by (simp add: limit_def Some)
    next
      case False
      then show ?thesis unfolding long by (simp add: limit_def Some split: option.split)
    qed
  qed
  moreover have "0 < limit" by (simp add: limit_def split: option.split)
  moreover have "resolution_ttl now r c = (if min (rn_expires r - now) limit \<le> 0 then limit else min (rn_expires r - now) limit)"
    using False by (simp add: resolution_ttl_def limit_def Let_def)
  ultimately show ?thesis by (simp add: min_def)
qed

lemma jittered:
  assumes "0 \<le> u" "u < 1" "0 < ttl"
  shows "10 * \<lfloor>of_int ttl * resolve_jitter u\<rfloor> \<le> 11 * ttl"
proof -
  have "resolve_jitter u \<le> 11 / 10" using assms(2) by (simp add: resolve_jitter_def)
  then have "of_int ttl * resolve_jitter u \<le> of_int ttl * (11 / 10)" using assms(3) by (intro mult_left_mono) simp_all
  then have "of_int (10 * \<lfloor>of_int ttl * resolve_jitter u\<rfloor>) \<le> (of_int (11 * ttl) :: rat)" by simp linarith
  then show ?thesis by (simp only: of_int_le_iff)
qed

fun draw_ok :: "'a cache_call \<Rightarrow> bool" where
  "draw_ok (StoreName now u r) \<longleftrightarrow> 0 \<le> u \<and> u < 1"
| "draw_ok (LoadName now name) \<longleftrightarrow> True"

lemma longest_ttl_other:
  "\<not> (rn_server r \<noteq> [] \<and> delegates r \<and> rn_server r = rn_server r0) \<Longrightarrow>
     longest_ttl (cs @ [StoreName now u r]) t0 r0 = longest_ttl cs t0 r0"
  by (auto simp: longest_ttl_def)

lemma cache_inv_step:
  assumes "cache_inv cs c" "\<forall>x \<in> set cs. call_time x \<le> call_time call" "draw_ok call"
  shows "cache_inv (cs @ [call]) (cache_call_step call c)"
proof (cases call)
  case (LoadName now name)
  have "trusted (cs @ [LoadName now name]) x r \<longleftrightarrow> trusted cs x r" for x r
    by (simp add: trusted_def longest_ttl_def)
  then show ?thesis
    using assms(1) by (auto simp: LoadName cache_inv_def load_resolution_def split: option.splits if_splits)
next
  case (StoreName now u r)
  show ?thesis
  proof (cases "rn_server r = []")
    case True
    have "trusted (cs @ [StoreName now u r]) x q \<longleftrightarrow> trusted cs x q" for x q
      by (simp add: trusted_def longest_ttl_def True)
    with True assms(1) show ?thesis by (auto simp: StoreName cache_inv_def store_resolution_def)
  next
    case False
    let ?cs = "cs @ [StoreName now u r]"
    define ttl where "ttl = resolution_ttl now r c"
    define stored where "stored = r\<lparr>rn_expires := now + \<lfloor>of_int ttl * resolve_jitter u\<rfloor>\<rparr>"
    define c1 where "c1 = (if delegates r
       then c\<lparr>rc_delegated_until := (rc_delegated_until c)(rn_server r \<mapsto> now + remember_delegation)\<rparr> else c)"
    have run: "cache_call_step call c = sweep_locked now (c1\<lparr>rc_entries := (rc_entries c1)(rn_server r \<mapsto> stored)\<rparr>)"
      using False by (simp add: StoreName store_resolution_def Let_def ttl_def stored_def c1_def)
    have ttl: "0 < ttl" "ttl \<le> longest_ttl ?cs now r"
      using ttl_bound [OF assms(1) _ False] assms(2) by (simp_all add: StoreName ttl_def)
    have "trusted ?cs (rn_server r) stored"
      using jittered [of u ttl] ttl assms(3) False by (auto simp: trusted_def stored_def StoreName)
    moreover have "trusted ?cs x q" if "rc_entries c x = Some q" "x \<noteq> rn_server r" for x q
    proof -
      have "trusted cs x q" using assms(1) that(1) by (simp add: cache_inv_def)
      then obtain t0 r0 where "last_stored cs x = Some (t0, r0)" "q = r0\<lparr>rn_expires := rn_expires q\<rparr>" "rn_server r0 = x"
        "10 * (rn_expires q - t0) \<le> 11 * longest_ttl cs t0 r0" unfolding trusted_def by blast
      with that(2) longest_ttl_other [of r r0 cs now u t0] show ?thesis unfolding trusted_def by force
    qed
    moreover have "rc_delegated_until c1 x = Some t \<Longrightarrow> last_delegated ?cs x = Some (t - remember_delegation)" for x t
      using assms(1) False by (auto simp: cache_inv_def c1_def split: if_splits)
    moreover have "last_delegated ?cs x = Some d \<Longrightarrow> rc_delegated_until c1 x = Some (d + remember_delegation)
          \<or> (\<exists>y \<in> set ?cs. d + remember_delegation \<le> call_time y)" for x d
      using assms(1) False by (auto simp: cache_inv_def c1_def split: if_splits)
    moreover have "rc_entries c1 = rc_entries c" by (simp add: c1_def)
    ultimately have "cache_inv ?cs (c1\<lparr>rc_entries := (rc_entries c1)(rn_server r \<mapsto> stored)\<rparr>)"
      unfolding cache_inv_def by (simp split: if_splits)
    then show ?thesis unfolding run by (simp only: StoreName) (rule cache_inv_sweep, simp_all)
  qed
qed

lemma cache_inv_run:
  assumes "sorted (map call_time cs)" "list_all draw_ok cs"
  shows "cache_inv cs (fold cache_call_step cs (new_resolve_cache z))"
  using assms
proof (induction cs rule: rev_induct)
  case Nil
  then show ?case by (simp add: cache_inv_def new_resolve_cache_def last_delegated_def List.map_filter_simps)
next
  case (snoc call cs)
  have "cache_inv cs (fold cache_call_step cs (new_resolve_cache z))"
    using snoc by (simp add: sorted_append)
  moreover have "\<forall>x \<in> set cs. call_time x \<le> call_time call" "draw_ok call"
    using snoc.prems by (simp_all add: sorted_append)
  ultimately show ?case using cache_inv_step by simp
qed

text \<open>
  C23. How long a resolution is trusted. Over any run of stores and loads with the clock going
  forwards, a cached answer is the resolution stored last for the name, unchanged but for its
  expiry, and it is given for at most 1.1 times: 48 hours when it came from a delegation; two
  minutes when it did not although the name delegated within the two hours before - its
  \<open>.well-known\<close> is probably down; one hour otherwise.
\<close>

theorem stale_resolutions_expire:
  assumes "sorted (map call_time cs)" "list_all draw_ok cs"
    "snd (load_resolution now name (fold cache_call_step cs (new_resolve_cache z))) = Some answer"
  shows "\<exists>t0 r. last_stored cs name = Some (t0, r) \<and> rn_server r = name
    \<and> answer = r\<lparr>rn_expires := rn_expires answer\<rparr> \<and> now < rn_expires answer
    \<and> 10 * (now - t0) < 11 * (if delegates r then max_ttl
         else case last_delegated cs name of
           Some d \<Rightarrow> if t0 < d + remember_delegation then down_ttl else no_delegation_ttl
         | None \<Rightarrow> no_delegation_ttl)"
proof -
  let ?c = "fold cache_call_step cs (new_resolve_cache z)"
  from assms(3) have hit: "rc_entries ?c name = Some answer" "now < rn_expires answer"
    by (auto simp: load_resolution_def split: option.splits if_splits)
  from cache_invD(1) [OF cache_inv_run [OF assms(1,2)] hit(1)]
  obtain t0 r where t: "last_stored cs name = Some (t0, r)" "answer = r\<lparr>rn_expires := rn_expires answer\<rparr>"
    "rn_server r = name" "10 * (rn_expires answer - t0) \<le> 11 * longest_ttl cs t0 r" unfolding trusted_def by blast
  have "10 * (now - t0) < 10 * (rn_expires answer - t0)" using hit(2) by simp
  from this t(4) have "10 * (now - t0) < 11 * longest_ttl cs t0 r" by (rule less_le_trans)
  with t hit show ?thesis by (intro exI [of _ t0] exI [of _ r]) (simp only: longest_ttl_def simp_thms)
qed

text \<open>A server that delegates, and an hour later does not.\<close>

definition sample_lookups :: "unit cache_call list" where
  "sample_lookups =
     [StoreName 0 (1/2) \<lparr>rn_server = ''a'', rn_host_header = ''b'', rn_expires = 0, rn_rest = ()\<rparr>,
      StoreName hour (1/2) \<lparr>rn_server = ''a'', rn_host_header = ''a'', rn_expires = 30 * hour, rn_rest = ()\<rparr>]"

theorem stale_resolutions_expire_witness:
  "\<exists>answer. snd (load_resolution (hour + minute) ''a'' (fold cache_call_step sample_lookups (new_resolve_cache 0))) = Some answer
     \<and> rn_host_header answer = ''a'' \<and> 10 * minute < 11 * down_ttl"
proof -
  have "rc_entries (fold cache_call_step sample_lookups (new_resolve_cache (0::instant))) ''a''
      = Some \<lparr>rn_server = ''a'', rn_host_header = ''a'', rn_expires = hour + 2 * minute, rn_rest = ()\<rparr>"
    by (simp add: sample_lookups_def store_resolution_def new_resolve_cache_def sweep_locked_def delegates_def
        resolution_ttl_def resolve_jitter_def Let_def)
  then have hit: "snd (load_resolution (hour + minute) ''a'' (fold cache_call_step sample_lookups (new_resolve_cache 0)))
      = Some \<lparr>rn_server = ''a'', rn_host_header = ''a'', rn_expires = hour + 2 * minute, rn_rest = ()\<rparr>"
    by (simp add: load_resolution_def)
  have "sorted (map call_time sample_lookups)" "list_all draw_ok sample_lookups" by (simp_all add: sample_lookups_def)
  from stale_resolutions_expire [OF this hit] hit show ?thesis
    by (auto simp: sample_lookups_def last_stored_def last_delegated_def delegates_def List.map_filter_simps)
qed

end
