(* ===== verification/Worker.thy ===== *)
theory Worker
  imports Retry Store Typing Rows Sink
begin

text \<open>
  \<open>cmd/gofederation-worker\<close>: what \<open>handler.go\<close> makes of replication rows, and what \<open>writer.go\<close>
  does to the database and to the backoff when a transaction has come to an end. A handler
  method answers the work it starts; whether it runs inline or in a goroutine of its own is
  the caller's business, as every piece of work is a definition of its component.
\<close>

section \<open>Rows to work\<close>

datatype work =
    NotifyNewEvents int
  | ToDeviceWork "string list"
  | DeviceListWork int
  | ReceiptWork "receipt_update list"
  | PresenceWork "(string \<times> string list) list"
  | TypingWork int "typing_row list"
  | KeyedEduWork string string raw_message
  | EduWork string string raw_message
  | InlinePresenceWork "string list" string

text \<open>The loop with the \<open>seen\<close> map.\<close>

fun remote_servers :: "gjson \<Rightarrow> string list \<Rightarrow> json list \<Rightarrow> string list" where
  "remote_servers g seen [] = []"
| "remote_servers g seen (r # rs) =
     (case parse_to_device_entity g r of
        Some (entity, True) \<Rightarrow>
          if entity \<in> set seen then remote_servers g seen rs
          else entity # remote_servers g (entity # seen) rs
      | _ \<Rightarrow> remote_servers g seen rs)"

definition work_to_device :: "gjson \<Rightarrow> json list \<Rightarrow> work list" where
  "work_to_device g rows = (let servers = remote_servers g [] rows in if servers = [] then [] else [ToDeviceWork servers])"

definition work_device_lists :: "gjson \<Rightarrow> int \<Rightarrow> json list \<Rightarrow> work list" where
  "work_device_lists g pos rows =
     (if list_ex (\<lambda>r. case parse_device_list_row g r of None \<Rightarrow> False | Some x \<Rightarrow> dl_hosts_calculated x) rows
      then [DeviceListWork pos] else [])"

definition receipt_update_of :: "receipt_row \<Rightarrow> receipt_update" where
  "receipt_update_of x =
     \<lparr>ru_room = rc_room x, ru_type = rc_type x, ru_user = rc_user x, ru_event = rc_event x,
      ru_thread = rc_thread x, ru_data = rc_data x\<rparr>"

definition work_receipts :: "gjson \<Rightarrow> json list \<Rightarrow> work list" where
  "work_receipts g rows =
     (let updates = List.map_filter (\<lambda>r. map_option receipt_update_of (parse_receipt_row g r)) rows
      in if updates = [] then [] else [ReceiptWork updates])"

text \<open>\<open>byDestination\<close>, in the order the destinations are met; Go walks it in any order.\<close>

definition add_user :: "string \<times> string \<Rightarrow> (string \<times> string list) list \<Rightarrow> (string \<times> string list) list" where
  "add_user p by_dest =
     AList.update (fst p) ((case map_of by_dest (fst p) of None \<Rightarrow> [] | Some us \<Rightarrow> us) @ [snd p]) by_dest"

definition work_presence :: "gjson \<Rightarrow> json list \<Rightarrow> work list" where
  "work_presence g rows =
     (let by_dest = fold add_user (List.map_filter (parse_presence_federation_row g) rows) []
      in if by_dest = [] then [] else [PresenceWork by_dest])"

definition work_typing :: "gjson \<Rightarrow> int \<Rightarrow> json list \<Rightarrow> work list" where
  "work_typing g pos rows =
     (let parsed = List.map_filter (\<lambda>r. map_option (\<lambda>(room, us). \<lparr>tr_room = room, tr_users = us\<rparr>) (parse_typing_row g r)) rows
      in if parsed = [] then [] else [TypingWork pos parsed])"

definition work_federation_row :: "gjson \<Rightarrow> json \<Rightarrow> work list" where
  "work_federation_row g r =
     (case parse_federation_row g r of
        None \<Rightarrow> []
      | Some x \<Rightarrow>
          if fr_kind x = ''k'' then
            (if fr_destination x = [] then []
             else [KeyedEduWork (fr_destination x) (fr_edu_type x @ ''|'' @ fr_key x) (fr_content x)])
          else if fr_kind x = ''e'' then
            (if fr_destination x = [] then [] else [EduWork (fr_destination x) (fr_edu_type x) (fr_content x)])
          else if fr_kind x = ''pd'' then
            (let user = get_str g (fr_presence_state x) ''user_id''
             in if user = [] \<or> fr_presence_destinations x = [] then []
                else [InlinePresenceWork (fr_presence_destinations x) user])
          else [])"

definition on_rows :: "gjson \<Rightarrow> string \<Rightarrow> int \<Rightarrow> json list \<Rightarrow> work list" where
  "on_rows g stream pos rows =
     (if stream = ''events'' then [NotifyNewEvents pos]
      else if stream = ''to_device'' then work_to_device g rows
      else if stream = ''device_lists'' then work_device_lists g pos rows
      else if stream = ''receipts'' then work_receipts g rows
      else if stream = ''presence_federation'' then work_presence g rows
      else if stream = ''typing'' then work_typing g pos rows
      else if stream = ''federation'' then concat (map (work_federation_row g) rows)
      else [])"

definition on_position :: "string \<Rightarrow> int \<Rightarrow> work list" where
  "on_position stream pos = (if stream = ''events'' then [NotifyNewEvents pos] else [])"

text \<open>\<open>OnRemoteServerUp\<close>: the limiter afterwards, its effects, and whether the queue is woken.\<close>

definition on_remote_server_up ::
  "(string \<Rightarrow> bool) \<Rightarrow> instant \<Rightarrow> instant \<Rightarrow> limiter \<Rightarrow> manager \<Rightarrow> string
   \<Rightarrow> limiter \<times> limiter_effect list \<times> manager \<times> bool" where
  "on_remote_server_up mine now now' l m server =
     (if \<not> mine server then (l, [], m, False)
      else case recovered l server of (l1, effs) \<Rightarrow>
           case due now now' l1 server of (l2, is_due) \<Rightarrow>
             if \<not> is_due then (l2, effs, m, False)
             else (case get_queue server m of (m', q) \<Rightarrow> (l2, effs, m', pending q \<noteq> (0, 0))))"

section \<open>What is handed over is well formed\<close>

fun work_ok :: "work \<Rightarrow> bool" where
  "work_ok (ToDeviceWork servers) \<longleftrightarrow>
     servers \<noteq> [] \<and> distinct servers \<and> (\<forall>s \<in> set servers. s \<noteq> [] \<and> hd s \<noteq> CHR ''@'')"
| "work_ok (ReceiptWork us) \<longleftrightarrow> us \<noteq> [] \<and> (\<forall>r \<in> set us. ru_room r \<noteq> [] \<and> ru_user r \<noteq> [])"
| "work_ok (PresenceWork by_dest) \<longleftrightarrow> by_dest \<noteq> [] \<and> distinct (map fst by_dest)
     \<and> (\<forall>(d, us) \<in> set by_dest. d \<noteq> [] \<and> us \<noteq> [] \<and> [] \<notin> set us)"
| "work_ok (TypingWork pos rows) \<longleftrightarrow> rows \<noteq> [] \<and> (\<forall>r \<in> set rows. tr_room r \<noteq> [] \<and> [] \<notin> set (tr_users r))"
| "work_ok (KeyedEduWork d key c) \<longleftrightarrow> d \<noteq> [] \<and> key \<noteq> []"
| "work_ok (EduWork d ty c) \<longleftrightarrow> d \<noteq> []"
| "work_ok (InlinePresenceWork ds u) \<longleftrightarrow> ds \<noteq> [] \<and> u \<noteq> []"
| "work_ok w \<longleftrightarrow> True"

lemma remote_servers_facts:
  "distinct (remote_servers g seen rs)
   \<and> set (remote_servers g seen rs) = {e. e \<notin> set seen \<and> (\<exists>r \<in> set rs. parse_to_device_entity g r = Some (e, True))}"
  by (induction g seen rs rule: remote_servers.induct) (auto split: option.splits bool.splits)

lemma mem_map_filter: "x \<in> set (List.map_filter f xs) \<longleftrightarrow> (\<exists>y \<in> set xs. f y = Some x)"
  by (induction xs) (auto simp: List.map_filter_simps split: option.splits)

definition users_for :: "string \<Rightarrow> (string \<times> string list) list \<Rightarrow> string list" where
  "users_for d by_dest = (case map_of by_dest d of None \<Rightarrow> [] | Some us \<Rightarrow> us)"

lemma add_users_facts:
  assumes "distinct (map fst m)" "\<forall>(d, us) \<in> set m. us \<noteq> []"
  shows "distinct (map fst (fold add_user ps m)) \<and> (\<forall>(d, us) \<in> set (fold add_user ps m). us \<noteq> [])
    \<and> (\<forall>d. users_for d (fold add_user ps m) = users_for d m @ map snd (filter (\<lambda>p. fst p = d) ps))"
  using assms
proof (induction ps arbitrary: m)
  case (Cons p ps)
  have "distinct (map fst (add_user p m))" using Cons.prems(1) by (simp add: add_user_def distinct_update)
  moreover have "\<forall>(d, us) \<in> set (add_user p m). us \<noteq> []"
  proof -
    have "set (add_user p m) \<subseteq> insert (fst p, (case map_of m (fst p) of None \<Rightarrow> [] | Some us \<Rightarrow> us) @ [snd p]) (set m)"
      unfolding add_user_def by (induction m) auto
    with Cons.prems(2) show ?thesis by fastforce
  qed
  moreover have "users_for d (add_user p m) = users_for d m @ (if fst p = d then [snd p] else [])" for d
    by (auto simp: users_for_def add_user_def update_conv' split: option.split)
  ultimately show ?case using Cons.IH [of "add_user p m"] by auto
qed simp

lemma users_for_mem: "distinct (map fst m) \<Longrightarrow> (d, us) \<in> set m \<Longrightarrow> users_for d m = us"
  by (simp add: users_for_def)

text \<open>The groups are the pairs, and there are none only when there is nothing to group.\<close>

lemma grouped_pairs:
  assumes m_def: "m = fold add_user pairs []"
  shows "m = [] \<longleftrightarrow> pairs = []"
    "users_for d m = map snd (filter (\<lambda>p. fst p = d) pairs)"
    "(\<exists>us. (d, us) \<in> set m \<and> u \<in> set us) \<longleftrightarrow> (d, u) \<in> set pairs"
proof -
  have F: "distinct (map fst m)" "users_for d m = map snd (filter (\<lambda>p. fst p = d) pairs)" for d
    using add_users_facts [of "[]" pairs] by (simp_all add: users_for_def m_def)
  show "users_for d m = map snd (filter (\<lambda>p. fst p = d) pairs)" by (rule F(2))
  have mem: "(\<exists>us. (d, us) \<in> set m \<and> u \<in> set us) \<longleftrightarrow> u \<in> set (users_for d m)" for d u
    using F(1) by (auto simp: users_for_def dest: map_of_SomeD split: option.splits)
  show "(\<exists>us. (d, us) \<in> set m \<and> u \<in> set us) \<longleftrightarrow> (d, u) \<in> set pairs"
    unfolding mem F(2) by force
  show "m = [] \<longleftrightarrow> pairs = []"
  proof
    assume "m = []"
    with mem have "u \<notin> set (users_for d m)" for d u by simp
    then have "(d, u) \<notin> set pairs" for d u unfolding F(2) by force
    then show "pairs = []" by (cases pairs) (auto intro: prod.exhaust)
  qed (simp add: m_def)
qed

lemma work_presence_ok:
  assumes "w \<in> set (work_presence g rows)"
  shows "work_ok w"
proof -
  let ?ps = "List.map_filter (parse_presence_federation_row g) rows"
  let ?m = "fold add_user ?ps []"
  have w: "w = PresenceWork ?m" "?m \<noteq> []" using assms by (auto simp: work_presence_def Let_def split: if_splits)
  have F: "distinct (map fst ?m)" "\<forall>(d, us) \<in> set ?m. us \<noteq> []"
    "\<forall>d. users_for d ?m = map snd (filter (\<lambda>p. fst p = d) ?ps)"
    using add_users_facts [of "[]" ?ps] by (simp_all add: users_for_def)
  have ps: "\<forall>(d, u) \<in> set ?ps. d \<noteq> [] \<and> u \<noteq> []"
    by (auto simp: mem_map_filter dest: presence_row_ok)
  have "d \<noteq> [] \<and> us \<noteq> [] \<and> [] \<notin> set us" if "(d, us) \<in> set ?m" for d us
  proof -
    have us: "us = map snd (filter (\<lambda>p. fst p = d) ?ps)" using users_for_mem [OF F(1) that] F(3) by simp
    have ne: "us \<noteq> []" using F(2) that by blast
    then obtain p where "p \<in> set ?ps" "fst p = d" unfolding us by (auto simp: filter_empty_conv)
    then have "d \<noteq> []" using ps by force
    moreover have "[] \<notin> set us" unfolding us using ps by force
    ultimately show ?thesis using ne by simp
  qed
  then show ?thesis using w F(1) by auto
qed

lemma work_federation_ok: "w \<in> set (work_federation_row g r) \<Longrightarrow> work_ok w"
  by (auto simp: work_federation_row_def Let_def split: option.splits if_splits)

text \<open>
  C26. What reaches the senders. Whatever rows arrive on whatever stream, the work started for
  them is well formed: remote servers once each and never a user id, receipts and typing with
  their room and users named, presence grouped by distinct named destinations, EDUs with a
  destination. And none is lost on the way: a remote server is handed over exactly when some row
  names it, and every pairing of a user with a destination is handed over, once for each row that
  makes it and in the order of the rows: one piece of presence work, whose users of a destination
  are exactly those the rows pair with it, or none when no row pairs anything. The receipts and the
  typing rows that parse are handed over too, each once and in their order.
\<close>

theorem work_is_well_formed:
  shows "(\<forall>w \<in> set (on_rows g stream pos rows). work_ok w)
    \<and> (stream = ''to_device'' \<longrightarrow>
         (\<forall>e. (\<exists>ss. ToDeviceWork ss \<in> set (on_rows g stream pos rows) \<and> e \<in> set ss)
            \<longleftrightarrow> (\<exists>r \<in> set rows. parse_to_device_entity g r = Some (e, True))))
    \<and> (stream = ''presence_federation'' \<longrightarrow>
         (let pairs = List.map_filter (parse_presence_federation_row g) rows
          in if pairs = [] then on_rows g stream pos rows = []
             else \<exists>m. on_rows g stream pos rows = [PresenceWork m]
               \<and> (\<forall>d. users_for d m = map snd (filter (\<lambda>p. fst p = d) pairs))
               \<and> (\<forall>d u. (\<exists>us. (d, us) \<in> set m \<and> u \<in> set us) \<longleftrightarrow> (d, u) \<in> set pairs)))
    \<and> (stream = ''receipts'' \<longrightarrow>
         concat (map (\<lambda>w. case w of ReceiptWork us \<Rightarrow> us | _ \<Rightarrow> []) (on_rows g stream pos rows))
           = List.map_filter (\<lambda>r. map_option receipt_update_of (parse_receipt_row g r)) rows)
    \<and> (stream = ''typing'' \<longrightarrow>
         concat (map (\<lambda>w. case w of TypingWork p rs \<Rightarrow> map (Pair p) rs | _ \<Rightarrow> []) (on_rows g stream pos rows))
           = List.map_filter (\<lambda>r. map_option (\<lambda>(room, us). (pos, \<lparr>tr_room = room, tr_users = us\<rparr>)) (parse_typing_row g r)) rows)"
proof (intro conjI impI allI ballI)
  fix w
  assume w: "w \<in> set (on_rows g stream pos rows)"
  have td: "w \<in> set (work_to_device g rows) \<Longrightarrow> work_ok w"
    using remote_servers_facts [of g "[]" rows]
    by (auto simp: work_to_device_def Let_def split: if_splits dest!: to_device_row_ok)
  have rc: "w \<in> set (work_receipts g rows) \<Longrightarrow> work_ok w"
    by (auto simp: work_receipts_def Let_def mem_map_filter receipt_update_of_def split: if_splits dest!: receipt_row_ok)
  have ty: "w \<in> set (work_typing g pos rows) \<Longrightarrow> work_ok w"
    by (auto simp: work_typing_def Let_def mem_map_filter split: if_splits dest!: typing_row_ok)
  have dl: "w \<in> set (work_device_lists g pos rows) \<Longrightarrow> work_ok w"
    by (auto simp: work_device_lists_def split: if_splits)
  show "work_ok w"
    using w td rc ty dl work_presence_ok work_federation_ok by (auto simp: on_rows_def split: if_splits)
next
  fix e
  assume "stream = ''to_device''"
  then show "(\<exists>ss. ToDeviceWork ss \<in> set (on_rows g stream pos rows) \<and> e \<in> set ss)
            \<longleftrightarrow> (\<exists>r \<in> set rows. parse_to_device_entity g r = Some (e, True))"
    using remote_servers_facts [of g "[]" rows] by (auto simp: on_rows_def work_to_device_def Let_def)
next
  assume "stream = ''presence_federation''"
  then show "let pairs = List.map_filter (parse_presence_federation_row g) rows
    in if pairs = [] then on_rows g stream pos rows = []
       else \<exists>m. on_rows g stream pos rows = [PresenceWork m]
         \<and> (\<forall>d. users_for d m = map snd (filter (\<lambda>p. fst p = d) pairs))
         \<and> (\<forall>d u. (\<exists>us. (d, us) \<in> set m \<and> u \<in> set us) \<longleftrightarrow> (d, u) \<in> set pairs)"
    using grouped_pairs [OF refl] by (auto simp: on_rows_def work_presence_def Let_def)
next
  assume "stream = ''receipts''"
  then show "concat (map (\<lambda>w. case w of ReceiptWork us \<Rightarrow> us | _ \<Rightarrow> []) (on_rows g stream pos rows))
    = List.map_filter (\<lambda>r. map_option receipt_update_of (parse_receipt_row g r)) rows"
    by (simp add: on_rows_def work_receipts_def Let_def)
next
  assume "stream = ''typing''"
  moreover have "map (Pair pos) (List.map_filter (\<lambda>r. map_option (\<lambda>(room, us). \<lparr>tr_room = room, tr_users = us\<rparr>) (parse_typing_row g r)) rows)
    = List.map_filter (\<lambda>r. map_option (\<lambda>(room, us). (pos, \<lparr>tr_room = room, tr_users = us\<rparr>)) (parse_typing_row g r)) rows"
    by (induction rows) (auto simp: List.map_filter_simps split: option.splits)
  ultimately show "concat (map (\<lambda>w. case w of TypingWork p rs \<Rightarrow> map (Pair p) rs | _ \<Rightarrow> []) (on_rows g stream pos rows))
    = List.map_filter (\<lambda>r. map_option (\<lambda>(room, us). (pos, \<lparr>tr_room = room, tr_users = us\<rparr>)) (parse_typing_row g r)) rows"
    by (auto simp: on_rows_def work_typing_def Let_def)
qed

text \<open>A user and two rows for one server.\<close>

definition sample_rows_json :: gjson where
  "sample_rows_json = table_gjson [] [(''r1'', [''@a:us'']), (''r2'', [''b'']), (''r3'', [''b''])] []"

theorem work_is_well_formed_witness:
  "on_rows sample_rows_json ''to_device'' 5 [''r1'', ''r2'', ''r3''] = [ToDeviceWork [''b'']]
     \<and> work_ok (ToDeviceWork [''b''])"
proof -
  have "on_rows sample_rows_json ''to_device'' 5 [''r1'', ''r2'', ''r3''] = [ToDeviceWork [''b'']]"
    by (simp add: on_rows_def work_to_device_def parse_to_device_entity_def row_items_def sample_rows_json_def gjson_eval)
  with work_is_well_formed [of sample_rows_json "''to_device''" 5 "[''r1'', ''r2'', ''r3'']"] show ?thesis by simp
qed

section \<open>Keyed EDUs of the federation stream\<close>

text \<open>The effect of a piece of EDU work on the queues.\<close>

definition edu_work_effects :: "ephemeral \<Rightarrow> work \<Rightarrow> edu_effect list" where
  "edu_work_effects e w = (case w of KeyedEduWork d key c \<Rightarrow> handle_typing e d key c | EduWork d ty c \<Rightarrow> handle_edu e d ty c | _ \<Rightarrow> [])"

text \<open>
  A keyed EDU loses its type. \<open>handleFederation\<close> keys the unit by type and key and hands it to
  \<open>HandleTyping\<close>, which queues every unit as \<open>m.typing\<close>: a keyed EDU of any other type goes out to
  its destination as a typing notification with the other type's content.
\<close>

theorem keyed_edu_becomes_typing:
  assumes "parse_federation_row g r = Some x" "fr_kind x = ''k''" "fr_destination x \<noteq> []"
    "eph_should_handle e (fr_destination x)" "fr_destination x \<noteq> eph_server e"
  shows "concat (map (edu_work_effects e) (on_rows g ''federation'' pos [r]))
    = [ToQueue (fr_destination x) (KeyedArrival (fr_edu_type x @ ''|'' @ fr_key x)
         \<lparr>edu_type = EDUTypeTyping, edu_content = Raw (fr_content x)\<rparr>), WakeUp (fr_destination x)]"
  using assms
  by (simp add: on_rows_def work_federation_row_def edu_work_effects_def handle_typing_def not_ours_to_send_def)

definition sample_keyed_json :: gjson where
  "sample_keyed_json = table_gjson
     [((''body'', ''edu''), ''e''), ((''body'', ''key''), ''k1''), ((''e'', ''edu_type''), ''m.other''),
      ((''e'', ''content''), ''c''), ((''e'', ''destination''), ''b'')]
     [(''row'', [''k'', ''body''])] []"

theorem keyed_edu_becomes_typing_witness:
  "concat (map (edu_work_effects sample_ephemeral) (on_rows sample_keyed_json ''federation'' 1 [''row'']))
    = [ToQueue ''b'' (KeyedArrival ''m.other|k1'' \<lparr>edu_type = EDUTypeTyping, edu_content = Raw ''c''\<rparr>), WakeUp ''b'']"
proof -
  let ?x = "\<lparr>fr_kind = ''k'', fr_key = ''k1'', fr_edu_type = ''m.other'', fr_content = ''c'', fr_destination = ''b'',
     fr_presence_state = [], fr_presence_destinations = []\<rparr>"
  have "parse_federation_row sample_keyed_json ''row'' = Some ?x"
    by (simp add: parse_federation_row_def row_items_def sample_keyed_json_def get_raw_def gjson_eval)
  from keyed_edu_becomes_typing [OF this, of sample_ephemeral 1] show ?thesis
    by (simp add: sample_ephemeral_def new_ephemeral_def)
qed

section \<open>The worker's writes\<close>

text \<open>\<open>wk_own\<close> is \<open>None\<close> for a nil cursor store; each write takes whether it succeeds.\<close>

record worker =
  wk_writer :: bool
  wk_primary :: bool
  wk_name :: string
  wk_db :: synapse_db
  wk_own :: "state_store option"

definition on_edus_delivered :: "bool \<Rightarrow> bool \<Rightarrow> string \<Rightarrow> int \<Rightarrow> int \<Rightarrow> worker \<Rightarrow> worker" where
  "on_edus_delivered delete_ok mark_ok d to_device_mark device_list_mark wk =
     (if \<not> wk_writer wk then wk
      else (let db1 = (if to_device_mark > 0 \<and> delete_ok then delete_device_msgs d to_device_mark (wk_db wk) else wk_db wk);
                db2 = (if device_list_mark > 0 \<and> mark_ok then mark_as_sent_devices d device_list_mark db1 else db1)
            in wk\<lparr>wk_db := db2\<rparr>))"

definition on_delivered :: "bool \<Rightarrow> string \<Rightarrow> int \<Rightarrow> worker \<Rightarrow> worker" where
  "on_delivered ok d so wk =
     (if \<not> wk_writer wk \<or> \<not> ok then wk else wk\<lparr>wk_db := set_destination_last_successful d so (wk_db wk)\<rparr>)"

text \<open>These two answer whether they returned without an error.\<close>

definition worker_record_routes :: "bool \<Rightarrow> string list \<Rightarrow> string \<Rightarrow> int \<Rightarrow> worker \<Rightarrow> worker \<times> bool" where
  "worker_record_routes ok ds room so wk =
     (if \<not> wk_writer wk then (wk, True)
      else if \<not> ok then (wk, False)
      else (wk\<lparr>wk_db := store_destination_rooms ds room so (wk_db wk)\<rparr>, True))"

definition worker_record_position :: "bool \<Rightarrow> int \<Rightarrow> worker \<Rightarrow> worker \<times> bool" where
  "worker_record_position ok sid wk =
     (if \<not> wk_writer wk then (wk, True)
      else if \<not> ok then (wk, False)
      else (wk\<lparr>wk_db := update_federation_out_pos ''events'' (wk_name wk) sid (wk_db wk)\<rparr>, True))"

definition write_synapse_timings :: "bool \<Rightarrow> string \<Rightarrow> timings \<Rightarrow> worker \<Rightarrow> worker" where
  "write_synapse_timings ok d t wk =
     (if \<not> wk_writer wk \<or> \<not> ok then wk
      else if retry_interval t = 0 \<and> retry_last_ts t = 0
      then wk\<lparr>wk_db := clear_destination_retry_timings d (wk_db wk)\<rparr>
      else wk\<lparr>wk_db := set_destination_retry_timings d t (wk_db wk)\<rparr>)"

definition persist_timings :: "bool \<Rightarrow> bool \<Rightarrow> string \<Rightarrow> timings \<Rightarrow> worker \<Rightarrow> worker \<times> bool" where
  "persist_timings own_ok synapse_ok d t wk =
     (if \<not> wk_writer wk then (wk, True)
      else case wk_own wk of
        None \<Rightarrow> (wk, True)
      | Some own \<Rightarrow>
          (let wk1 = (if own_ok then wk\<lparr>wk_own := Some (state_set_retry_timings d t own)\<rparr> else wk)
           in (write_synapse_timings synapse_ok d t wk1, own_ok)))"

definition load_timings :: "bool \<Rightarrow> bool \<Rightarrow> worker \<Rightarrow> loader" where
  "load_timings synapse_ok own_ok wk ds =
     (if \<not> synapse_ok then None
      else (let out = get_destination_retry_timings (wk_db wk) ds in
        case (wk_primary wk, wk_own wk) of
          (True, Some own) \<Rightarrow> if \<not> own_ok then None else Some (out ++ state_get_retry_timings own ds)
        | _ \<Rightarrow> Some out))"

section \<open>What the end of a transaction does to the backoff\<close>

text \<open>\<open>queue.send\<close>'s errors: building the request, the sink's, and a result that is no delivery.\<close>

datatype transaction_error = BuildFailed | SinkFailed send_error | NotDelivered

definition error_rate_limited :: "transaction_error \<Rightarrow> duration \<times> bool" where
  "error_rate_limited e = (case e of SinkFailed x \<Rightarrow> is_rate_limited x | _ \<Rightarrow> (0, False))"

definition error_answered :: "transaction_error \<Rightarrow> bool" where
  "error_answered e = (case e of SinkFailed x \<Rightarrow> answered x | _ \<Rightarrow> False)"

definition on_send_outcome ::
  "instant \<Rightarrow> rat \<Rightarrow> string \<Rightarrow> transaction_error option \<Rightarrow> limiter \<Rightarrow> limiter \<times> limiter_effect list" where
  "on_send_outcome now u d err l =
     (case err of
        None \<Rightarrow> success l d
      | Some e \<Rightarrow> (case (if error_answered e then refused now u l d else failure now u l d) of (l', _, effs) \<Rightarrow> (l', effs)))"

text \<open>\<open>Destination.reportOutcome\<close> with the worker's hooks; \<open>Some wait\<close> for a rate limit.\<close>

definition report_outcome ::
  "instant \<Rightarrow> rat \<Rightarrow> string \<Rightarrow> transaction_error option \<Rightarrow> limiter \<Rightarrow> limiter \<times> limiter_effect list \<times> duration option" where
  "report_outcome now u d err l =
     (case err of
        Some e \<Rightarrow>
          (case error_rate_limited e of (after, limited) \<Rightarrow>
             if limited then (case rate_limited now l d after of (l', wait) \<Rightarrow> (l', [], Some wait))
             else (case on_send_outcome now u d err l of (l', effs) \<Rightarrow> (l', effs, None)))
      | None \<Rightarrow> (case on_send_outcome now u d err l of (l', effs) \<Rightarrow> (l', effs, None)))"

text \<open>
  C24. What an answer does to the backoff. For a transaction sent over HTTP: a 429 leaves every
  destination's backoff alone, writes nothing and makes the queue wait the cooldown for the
  remote's hint; any other status is recorded as a refusal and any missing answer as a failure of
  this destination alone; a delivery clears it.
\<close>

theorem answer_decides_backoff:
  assumes "http_send g entries h w = (evs, r)" "r \<noteq> Inl ContextDone"
    "err = (case r of Inr _ \<Rightarrow> None | Inl e \<Rightarrow> Some (SinkFailed e))"
    "report_outcome now u d err l = (l', effs, wait)"
  shows "case aw_network (w (tries evs - 1)) of
      Answer resp \<Rightarrow>
        if hr_code resp = 200 then (l', effs) = success l d \<and> wait = None
        else if hr_code resp = 429
        then lim_state l' = lim_state l \<and> lim_refused l' = lim_refused l \<and> effs = []
          \<and> wait = Some (rate_limit_wait l d (retry_after g resp))
        else (l', effs) = (fst (refused now u l d), snd (snd (refused now u l d))) \<and> wait = None
    | _ \<Rightarrow> (l', effs) = (fst (failure now u l d), snd (snd (failure now u l d))) \<and> wait = None"
proof (cases r)
  case (Inr res)
  with send_last(1) [OF assms(1)] have "attempt g entries (aw_network (w (tries evs - 1))) = Inr res" by simp
  then obtain resp where "aw_network (w (tries evs - 1)) = Answer resp" "hr_code resp = 200"
    by (auto simp: attempt_def Let_def split: network.splits if_splits)
  with assms(3,4) Inr show ?thesis by (auto simp: report_outcome_def on_send_outcome_def split: prod.splits)
next
  case (Inl e)
  with send_last(2) [OF assms(1)] assms(2) obtain a where
    a: "wrapped e = Some a" "error_at (attempt g entries) w (tries evs - 1) = Some a" by blast
  have err: "err = Some (SinkFailed e)" using assms(3) Inl by simp
  note defs = report_outcome_def on_send_outcome_def error_rate_limited_def error_answered_def is_rate_limited_def answered_def
    attempt_rate_limited_def error_at_def attempt_def
  from a(2) have "case aw_network (w (tries evs - 1)) of
      Answer resp \<Rightarrow> hr_code resp \<noteq> 200 \<and> a = (if hr_code resp = 429 then RateLimitedStatus (retry_after g resp) else Status (hr_code resp))
    | _ \<Rightarrow> a \<in> {BadRequest, NotReached, ReadFailed}"
    by (cases "aw_network (w (tries evs - 1))") (auto simp: error_at_def attempt_def Let_def split: if_splits)
  with assms(4) show ?thesis
    by (cases "aw_network (w (tries evs - 1))")
      (auto simp: err defs a(1) rate_limited_def Let_def split: prod.splits)
qed

definition sample_limiter :: limiter where
  "sample_limiter = new_limiter \<lparr>min_interval = 10 * minute, multiplier = 2, max_interval = 24 * hour\<rparr> None True"

theorem answer_decides_backoff_witness:
  "\<exists>evs e l' effs. http_send (table_gjson [] [] []) (\<lambda>_. []) (new_http 10 0) sample_network = (evs, Inl e)
     \<and> report_outcome 5 0 ''b'' (Some (SinkFailed e)) sample_limiter = (l', effs, Some (3 * second))
     \<and> effs = [] \<and> lim_state l' ''b'' = None"
proof -
  let ?g = "table_gjson [] [] []"
  have after: "retry_after ?g \<lparr>hr_code = 429, hr_body = [], hr_retry_after = ''3''\<rparr> = 3 * second"
    by (simp add: retry_after_def gjson_eval parse_int64_def digit_value_def Let_def wrap64_def cap_retry_after_def)
  obtain evs r where run: "http_send ?g (\<lambda>_. []) (new_http 10 0) sample_network = (evs, r)" by force
  from run have "\<exists>e. r = Inl e \<and> e \<noteq> ContextDone"
    by (auto simp: http_send_def new_http_def eval_nat_numeral attempt_def after Let_def rate_limit_delay_def
        attempt_rate_limited_def sample_network_def)
  then obtain e where e: "r = Inl e" "e \<noteq> ContextDone" by blast
  obtain l' effs wait where out: "report_outcome 5 0 ''b'' (Some (SinkFailed e)) sample_limiter = (l', effs, wait)"
    by (cases "report_outcome 5 0 ''b'' (Some (SinkFailed e)) sample_limiter")
  have "lim_state l' = lim_state sample_limiter \<and> effs = [] \<and> wait = Some (rate_limit_wait sample_limiter ''b'' (3 * second))"
    using answer_decides_backoff [OF run _ _ out] e by (simp add: sample_network_def after)
  with run e out show ?thesis
    by (auto simp: sample_limiter_def new_limiter_def rate_limit_wait_def Let_def)
qed

section \<open>Two tables as one\<close>

text \<open>A primary with its own retry table, and the backoff its two tables stand for.\<close>

definition primary_ok :: "worker \<Rightarrow> bool" where
  "primary_ok wk \<longleftrightarrow> wk_writer wk \<and> wk_primary wk
     \<and> (case wk_own wk of None \<Rightarrow> False | Some own \<Rightarrow> st_retry own \<noteq> None)"

definition backoff_table :: "worker \<Rightarrow> (string \<rightharpoonup> timings)" where
  "backoff_table wk =
     (\<lambda>d. get_destination_retry_timings (wk_db wk) [d] d)
     ++ (\<lambda>d. case wk_own wk of None \<Rightarrow> None | Some own \<Rightarrow> state_get_retry_timings own [d] d)"

lemma load_is_read: "primary_ok wk \<Longrightarrow> load_timings True True wk = read_rows (backoff_table wk)"
  by (auto simp: primary_ok_def load_timings_def read_rows_def backoff_table_def get_destination_retry_timings_def
      state_get_retry_timings_def map_add_def restrict_map_def fun_eq_iff split: option.splits)

lemma retry_row_other:
  "d' \<noteq> d \<Longrightarrow> get_destination_retry_timings (set_destination_retry_timings d t db) [d'] d' = get_destination_retry_timings db [d'] d'"
  by (simp add: get_destination_retry_timings_def set_destination_retry_timings_def Let_def split: option.split)

lemma synapse_timings_frame:
  "wk_own (write_synapse_timings ok d t wk) = wk_own wk" "wk_writer (write_synapse_timings ok d t wk) = wk_writer wk"
  "wk_primary (write_synapse_timings ok d t wk) = wk_primary wk"
  "d' \<noteq> d \<Longrightarrow> get_destination_retry_timings (wk_db (write_synapse_timings ok d t wk)) [d'] d' = get_destination_retry_timings (wk_db wk) [d'] d'"
  by (simp_all add: write_synapse_timings_def clear_destination_retry_timings_def retry_row_other)

lemma persist_refines:
  assumes "primary_ok wk"
  shows "primary_ok (fst (persist_timings True ok d t wk)) \<and> snd (persist_timings True ok d t wk)
    \<and> backoff_table (fst (persist_timings True ok d t wk)) = (backoff_table wk)(d \<mapsto> t)"
proof -
  obtain own tab where own: "wk_own wk = Some own" "st_retry own = Some tab" "wk_writer wk" "wk_primary wk"
    using assms by (auto simp: primary_ok_def split: option.splits)
  let ?wk1 = "wk\<lparr>wk_own := Some (state_set_retry_timings d t own)\<rparr>"
  have run: "persist_timings True ok d t wk = (write_synapse_timings ok d t ?wk1, True)"
    by (simp add: persist_timings_def own)
  have "backoff_table (write_synapse_timings ok d t ?wk1) d' = ((backoff_table wk)(d \<mapsto> t)) d'" for d'
    by (cases "d' = d") (simp_all add: backoff_table_def synapse_timings_frame state_get_retry_timings_def
        state_set_retry_timings_def own map_add_def split: option.split)
  then show ?thesis using own
    by (auto simp: run primary_ok_def synapse_timings_frame state_set_retry_timings_def)
qed

text \<open>
  The limiter's writes carried out. \<open>own_ok\<close> and \<open>synapse_ok\<close> say whether the write to our own
  table and the one to Synapse's succeed; the limiter does not look at the error.
\<close>

fun worker_effects :: "bool \<Rightarrow> bool \<Rightarrow> limiter_effect list \<Rightarrow> worker \<Rightarrow> worker" where
  "worker_effects own_ok synapse_ok [] wk = wk"
| "worker_effects own_ok synapse_ok (Persist d t # es) wk =
     worker_effects own_ok synapse_ok es (fst (persist_timings own_ok synapse_ok d t wk))"
| "worker_effects own_ok synapse_ok (OnUp d # es) wk = worker_effects own_ok synapse_ok es wk"

lemma worker_effects_refine:
  "primary_ok wk \<Longrightarrow> primary_ok (worker_effects True ok es wk)
     \<and> backoff_table (worker_effects True ok es wk) = apply_effects es (backoff_table wk)"
proof (induction "True" ok es wk rule: worker_effects.induct)
  case (2 ok d t es wk)
  from persist_refines [OF "2.prems", of ok d t] "2.hyps" show ?case by (simp add: fun_upd_def)
qed simp_all

text \<open>Whatever fails, a write leaves the other destinations alone.\<close>

lemma persist_frame:
  assumes "primary_ok wk"
  shows "primary_ok (fst (persist_timings own_ok ok d t wk))
    \<and> (d' \<noteq> d \<longrightarrow> backoff_table (fst (persist_timings own_ok ok d t wk)) d' = backoff_table wk d')"
proof (cases own_ok)
  case True
  with persist_refines [OF assms] show ?thesis by simp
next
  case False
  obtain own where own: "wk_own wk = Some own" "wk_writer wk" using assms by (auto simp: primary_ok_def split: option.splits)
  have "persist_timings own_ok ok d t wk = (write_synapse_timings ok d t wk, False)"
    using False by (simp add: persist_timings_def own)
  with assms show ?thesis by (auto simp: primary_ok_def backoff_table_def synapse_timings_frame map_add_def split: option.splits)
qed

lemma worker_effects_frame:
  "primary_ok wk \<Longrightarrow> \<forall>d' t. Persist d' t \<in> set es \<longrightarrow> d' = d \<Longrightarrow>
     primary_ok (worker_effects own_ok ok es wk)
     \<and> (\<forall>d'. d' \<noteq> d \<longrightarrow> backoff_table (worker_effects own_ok ok es wk) d' = backoff_table wk d')"
proof (induction own_ok ok es wk rule: worker_effects.induct)
  case (2 own_ok ok d1 t es wk)
  have d: "d1 = d" "\<forall>d' t. Persist d' t \<in> set es \<longrightarrow> d' = d" using "2.prems"(2) by auto
  have P: "primary_ok (fst (persist_timings own_ok ok d1 t wk))"
    "\<And>d'. d' \<noteq> d \<Longrightarrow> backoff_table (fst (persist_timings own_ok ok d1 t wk)) d' = backoff_table wk d'"
    using persist_frame [OF "2.prems"(1), of own_ok ok d1 t] d(1) by simp_all
  from "2.IH" [OF P(1) d(2)] P(2) show ?case by simp
qed simp_all

text \<open>
  One call of the limiter in a worker, and what of its reads and writes succeeded. The ghost
  \<open>doubtful\<close> holds the destinations whose backoff in memory the tables may not have: those whose
  last write to our table failed, whose first read failed, or which were recorded as delivered
  before they were ever asked about. A write that succeeds clears its destination.
\<close>

record call_io =
  io_read_synapse :: bool
  io_read_own :: bool
  io_write_own :: bool
  io_write_synapse :: bool

fun call_effects :: "limiter_call \<Rightarrow> limiter \<Rightarrow> limiter_effect list" where
  "call_effects (Succeeded d) l = snd (success l d)"
| "call_effects (Failed d now u r) l = snd (snd (fail_with now u l d r))"
| "call_effects (limiter_call.ServerUp d) l = snd (recovered l d)"
| "call_effects _ l = []"

fun call_limiter :: "limiter_call \<Rightarrow> limiter \<Rightarrow> limiter" where
  "call_limiter (Ask d now now' slack) l = fst (due_within now now' l d slack)"
| "call_limiter (Succeeded d) l = fst (success l d)"
| "call_limiter (Failed d now u r) l = fst (fail_with now u l d r)"
| "call_limiter (Limited d now after) l = fst (rate_limited now l d after)"
| "call_limiter (limiter_call.ServerUp d) l = fst (recovered l d)"

definition with_load :: "call_io \<Rightarrow> worker \<Rightarrow> limiter \<Rightarrow> limiter" where
  "with_load io wk l = l\<lparr>lim_load := Some (load_timings (io_read_synapse io) (io_read_own io) wk)\<rparr>"

definition worker_call_step :: "limiter_call \<times> call_io \<Rightarrow> worker \<times> limiter \<Rightarrow> worker \<times> limiter" where
  "worker_call_step c w =
     (let l = with_load (snd c) (fst w) (snd w)
      in (worker_effects (io_write_own (snd c)) (io_write_synapse (snd c)) (call_effects (fst c) l) (fst w), call_limiter (fst c) l))"

definition still_doubtful :: "limiter_call \<times> call_io \<Rightarrow> limiter \<Rightarrow> string set \<Rightarrow> string set" where
  "still_doubtful c l doubtful =
     (let d = call_dest (fst c); io = snd c
      in if \<exists>t. Persist d t \<in> set (call_effects (fst c) l)
         then (if io_write_own io then doubtful - {d} else insert d doubtful)
         else case fst c of
             Ask _ _ _ _ \<Rightarrow> if d \<notin> lim_loaded l \<and> \<not> (io_read_synapse io \<and> io_read_own io) then insert d doubtful else doubtful
           | Succeeded _ \<Rightarrow> if d \<notin> lim_loaded l then insert d doubtful else doubtful
           | _ \<Rightarrow> doubtful)"

fun worker_run :: "(limiter_call \<times> call_io) list \<Rightarrow> worker \<times> limiter \<Rightarrow> string set \<Rightarrow> (worker \<times> limiter) \<times> string set" where
  "worker_run [] w doubtful = (w, doubtful)"
| "worker_run (c # cs) w doubtful = worker_run cs (worker_call_step c w) (still_doubtful c (snd w) doubtful)"

definition kept :: "worker \<times> limiter \<Rightarrow> string set \<Rightarrow> bool" where
  "kept w doubtful \<longleftrightarrow> primary_ok (fst w) \<and> lim_persists (snd w) \<and> dom (lim_state (snd w)) = lim_loaded (snd w)
     \<and> (\<forall>d \<in> lim_loaded (snd w) - doubtful. same_backoff (row (backoff_table (fst w)) d) (state_of (snd w) d))"

lemma same_backoff_trans: "same_backoff a b \<Longrightarrow> same_backoff b c \<Longrightarrow> same_backoff a c"
  by (auto simp: same_backoff_def)

text \<open>What a call that records something does, to its own destination and to no other.\<close>

lemma recording_call:
  assumes c: "c = Succeeded d \<or> (\<exists>now u r. c = Failed d now u r) \<or> c = limiter_call.ServerUp d" and p: "lim_persists l"
    and dom: "dom (lim_state l) = lim_loaded l"
  defines "l' \<equiv> call_limiter c l" and "es \<equiv> call_effects c l"
  shows "call_dest c = d" "lim_persists l'" "dom (lim_state l') = lim_loaded l'" "lim_loaded l' \<subseteq> insert d (lim_loaded l)"
    "d' \<noteq> d \<Longrightarrow> lim_state l' d' = lim_state l d'"
    "(\<exists>t us. es = Persist d t # us \<and> lim_state l' d = Some t \<and> (\<forall>d' t'. Persist d' t' \<notin> set us))
      \<or> (\<forall>d' t'. Persist d' t' \<notin> set es) \<and> same_backoff (state_of l d) (state_of l' d)
        \<and> (d \<in> lim_loaded l \<or> c = Succeeded d \<or> d \<notin> lim_loaded l')"
proof -
  consider "c = Succeeded d" | now u r where "c = Failed d now u r" | "c = limiter_call.ServerUp d" using c by blast
  then have "call_dest c = d \<and> lim_persists l' \<and> dom (lim_state l') = lim_loaded l' \<and> lim_loaded l' \<subseteq> insert d (lim_loaded l)
    \<and> (d' \<noteq> d \<longrightarrow> lim_state l' d' = lim_state l d')
    \<and> ((\<exists>t us. es = Persist d t # us \<and> lim_state l' d = Some t \<and> (\<forall>d' t'. Persist d' t' \<notin> set us))
      \<or> (\<forall>d' t'. Persist d' t' \<notin> set es) \<and> same_backoff (state_of l d) (state_of l' d)
        \<and> (d \<in> lim_loaded l \<or> c = Succeeded d \<or> d \<notin> lim_loaded l'))"
    by cases (use p dom in \<open>auto simp: l'_def es_def success_def fail_with_def recovered_def Let_def same_backoff_def split: option.splits\<close>)
  then show "call_dest c = d" "lim_persists l'" "dom (lim_state l') = lim_loaded l'" "lim_loaded l' \<subseteq> insert d (lim_loaded l)"
    "d' \<noteq> d \<Longrightarrow> lim_state l' d' = lim_state l d'"
    "(\<exists>t us. es = Persist d t # us \<and> lim_state l' d = Some t \<and> (\<forall>d' t'. Persist d' t' \<notin> set us))
      \<or> (\<forall>d' t'. Persist d' t' \<notin> set es) \<and> same_backoff (state_of l d) (state_of l' d)
        \<and> (d \<in> lim_loaded l \<or> c = Succeeded d \<or> d \<notin> lim_loaded l')" by blast+
qed

lemma worker_effects_quiet: "(\<forall>d' t'. Persist d' t' \<notin> set es) \<Longrightarrow> worker_effects own_ok ok es wk = wk"
  by (induction own_ok ok es wk rule: worker_effects.induct) auto

lemma call_with_load [simp]: "call_effects c (with_load io wk l) = call_effects c l"
  by (cases c) (simp_all add: with_load_def success_def fail_with_def recovered_def Let_def)

lemma with_load_frame [simp]:
  "lim_state (with_load io wk l) = lim_state l" "lim_loaded (with_load io wk l) = lim_loaded l" "lim_persists (with_load io wk l) = lim_persists l" "lim_cfg (with_load io wk l) = lim_cfg l"
  by (simp_all add: with_load_def)

lemma kept_record:
  assumes k: "kept (wk, l) doubtful" and c: "c = Succeeded d \<or> (\<exists>now u r. c = Failed d now u r) \<or> c = limiter_call.ServerUp d"
  shows "kept (worker_call_step (c, io) (wk, l)) (still_doubtful (c, io) l doubtful)"
proof -
  let ?l = "with_load io wk l"
  let ?l' = "call_limiter c ?l" and ?es = "call_effects c l"
  let ?wk' = "worker_effects (io_write_own io) (io_write_synapse io) ?es wk"
  have ok: "primary_ok wk" and p: "lim_persists ?l" and dom: "dom (lim_state ?l) = lim_loaded ?l" using k by (simp_all add: kept_def)
  note R = recording_call [OF c p dom, unfolded call_with_load]
  have only: "d' = d" if "Persist d' t' \<in> set ?es" for d' t' using that R(6) by auto
  have F: "primary_ok ?wk'" "\<And>d'. d' \<noteq> d \<Longrightarrow> backoff_table ?wk' d' = backoff_table wk d'"
    using worker_effects_frame [of wk ?es d "io_write_own io" "io_write_synapse io"] ok only by simp_all
  have step: "worker_call_step (c, io) (wk, l) = (?wk', ?l')" by (simp add: worker_call_step_def Let_def)
  have other: "same_backoff (row (backoff_table ?wk') x) (state_of ?l' x)" if "x \<in> lim_loaded ?l'" "x \<noteq> d" "x \<notin> doubtful" for x
  proof -
    have "x \<in> lim_loaded l" using that R(4) by auto
    moreover have "row (backoff_table ?wk') x = row (backoff_table wk) x" "lim_state ?l' x = lim_state l x"
      using F that(2) R(5) [of x] by (simp_all add: row_def)
    ultimately show ?thesis using k that(3) by (simp add: kept_def)
  qed
  have subset: "doubtful - {d} \<subseteq> still_doubtful (c, io) l doubtful" using R(1) by (auto simp: still_doubtful_def Let_def split: limiter_call.splits)
  have own: "same_backoff (row (backoff_table ?wk') d) (state_of ?l' d)" if "d \<in> lim_loaded ?l'" "d \<notin> still_doubtful (c, io) l doubtful"
  proof (cases "\<exists>t us. ?es = Persist d t # us \<and> lim_state ?l' d = Some t \<and> (\<forall>d' t'. Persist d' t' \<notin> set us)")
    case True
    then obtain t us where es: "?es = Persist d t # us" "lim_state ?l' d = Some t" "\<forall>d' t'. Persist d' t' \<notin> set us" by blast
    then have w: "io_write_own io" using that(2) R(1) by (auto simp: still_doubtful_def Let_def split: if_splits)
    with es persist_refines [OF ok, of "io_write_synapse io" d t] show ?thesis by (simp add: worker_effects_quiet row_def)
  next
    case False
    then have none: "\<forall>d' t'. Persist d' t' \<notin> set ?es" "same_backoff (state_of l d) (state_of ?l' d)"
      and seen: "d \<in> lim_loaded l \<or> c = Succeeded d" using R(6) that(1) by auto
    then have "d \<in> lim_loaded l \<and> d \<notin> doubtful" using that(2) R(1) by (auto simp: still_doubtful_def Let_def split: limiter_call.splits if_splits)
    then have "same_backoff (row (backoff_table wk) d) (state_of l d)" using k by (simp add: kept_def)
    from same_backoff_trans [OF this none(2)] none(1) show ?thesis by (simp add: worker_effects_quiet)
  qed
  have "same_backoff (row (backoff_table ?wk') x) (state_of ?l' x)" if "x \<in> lim_loaded ?l'" "x \<notin> still_doubtful (c, io) l doubtful" for x
    using own other [of x] that subset by (cases "x = d") auto
  then show ?thesis using F R(2,3) by (simp add: kept_def step)
qed

lemma load_read: "primary_ok wk \<Longrightarrow> io_read_synapse io \<Longrightarrow> io_read_own io \<Longrightarrow> lim_load (with_load io wk l) = Some (read_rows (backoff_table wk))"
  by (simp add: with_load_def load_is_read)

lemma kept_step:
  assumes k: "kept (wk, l) doubtful"
  shows "kept (worker_call_step (c, io) (wk, l)) (still_doubtful (c, io) l doubtful)"
proof (cases c)
  case (Ask d now now' slack)
  let ?l = "with_load io wk l"
  have st: "lim_state (fst (seed ?l d)) = (lim_state l)(d \<mapsto> snd (seed ?l d))"
    "lim_loaded (fst (seed ?l d)) = insert d (lim_loaded l)" "lim_persists (fst (seed ?l d)) = lim_persists l"
    by (simp_all add: seed_def Let_def)
  have known: "fst (due_within now now' ?l d slack) = ?l" if "d \<in> lim_loaded l" using that by (simp add: due_within_def Let_def)
  have new: "fst (due_within now now' ?l d slack) = fst (seed ?l d)" if "d \<notin> lim_loaded l"
    using that by (simp add: due_within_def Let_def split: prod.split)
  show ?thesis
  proof (cases "d \<in> lim_loaded l")
    case True
    with k known show ?thesis by (simp add: kept_def worker_call_step_def still_doubtful_def Let_def Ask)
  next
    case False
    then have "lim_state l d = None" using k by (auto simp: kept_def)
    then have "same_backoff (row (backoff_table wk) d) (snd (seed ?l d))" if "io_read_synapse io" "io_read_own io"
      using seed_value [OF load_read [OF _ that], of wk l d] k by (simp add: kept_def)
    with False k new show ?thesis
      by (auto simp: kept_def worker_call_step_def still_doubtful_def Let_def Ask st)
  qed
next
  case (Limited d now after)
  with k show ?thesis by (simp add: kept_def worker_call_step_def still_doubtful_def rate_limited_def Let_def)
qed (use kept_record [OF k] in blast)+

lemma kept_run:
  "kept w doubtful \<Longrightarrow> worker_run cs w doubtful = (w', doubtful') \<Longrightarrow> kept w' doubtful'"
proof (induction cs w doubtful rule: worker_run.induct)
  case (2 c cs w doubtful)
  obtain wk l call io where w: "w = (wk, l)" "c = (call, io)" by (metis prod.exhaust)
  from 2 kept_step [of wk l doubtful call io] show ?case by (simp add: w)
qed simp

text \<open>Why a destination is in doubt.\<close>

fun is_ask :: "string \<Rightarrow> limiter_call \<Rightarrow> bool" where
  "is_ask d (Ask d' _ _ _) \<longleftrightarrow> d' = d"
| "is_ask d _ \<longleftrightarrow> False"

definition doubt_reason :: "(limiter_call \<times> call_io) list \<Rightarrow> string \<Rightarrow> bool" where
  "doubt_reason cs d \<longleftrightarrow>
     (\<exists>xs c io ys. cs = xs @ (c, io) # ys \<and> call_dest c = d
        \<and> (is_ask d c \<and> \<not> (io_read_synapse io \<and> io_read_own io) \<or> \<not> io_write_own io
           \<or> c = Succeeded d \<and> (\<forall>x \<in> set xs. \<not> is_ask d (fst x))))"

lemma worker_run_snoc:
  "worker_run (cs @ [c]) w doubtful = (case worker_run cs w doubtful of (w', doubtful') \<Rightarrow> (worker_call_step c w', still_doubtful c (snd w') doubtful'))"
  by (induction cs w doubtful rule: worker_run.induct) simp_all

lemma call_keeps_loaded:
  "lim_loaded l \<subseteq> lim_loaded (call_limiter c (with_load io wk l))" "is_ask d c \<Longrightarrow> d \<in> lim_loaded (call_limiter c (with_load io wk l))"
  by (cases c; auto simp: success_def fail_with_def recovered_def rate_limited_def due_within_def seed_def Let_def split: prod.splits)+

lemma doubt_has_reason:
  "worker_run cs w {} = (w', doubtful) \<Longrightarrow>
     (\<forall>d \<in> doubtful. doubt_reason cs d) \<and> (\<forall>d. (\<exists>x \<in> set cs. is_ask d (fst x)) \<longrightarrow> d \<in> lim_loaded (snd w'))"
proof (induction cs arbitrary: w' doubtful rule: rev_induct)
  case (snoc x cs)
  obtain c io where x: "x = (c, io)" by (cases x)
  obtain wk l doubt where run: "worker_run cs w {} = ((wk, l), doubt)" by (metis prod.exhaust)
  have now: "w' = worker_call_step x (wk, l)" "doubtful = still_doubtful x l doubt"
    using snoc.prems by (simp_all add: worker_run_snoc run)
  note IH = snoc.IH [OF run]
  have old: "doubt_reason (cs @ [x]) d" if "doubt_reason cs d" for d
    using that unfolding doubt_reason_def by (metis append.assoc append_Cons)
  have new: "doubt_reason (cs @ [x]) (call_dest c)"
    if "is_ask (call_dest c) c \<and> \<not> (io_read_synapse io \<and> io_read_own io) \<or> \<not> io_write_own io \<or> c = Succeeded (call_dest c) \<and> call_dest c \<notin> lim_loaded l"
  proof -
    have "\<not> (\<exists>x \<in> set cs. is_ask (call_dest c) (fst x))" if "call_dest c \<notin> lim_loaded l" using IH that by auto
    with that x show ?thesis unfolding doubt_reason_def by (intro exI [of _ cs] exI [of _ c] exI [of _ io] exI [of _ "[]"]) auto
  qed
  have "doubt_reason (cs @ [x]) d" if "d \<in> doubtful" for d
  proof (cases "d \<in> doubt")
    case True
    then show ?thesis using IH old by blast
  next
    case False
    then have "d = call_dest c \<and> (is_ask (call_dest c) c \<and> \<not> (io_read_synapse io \<and> io_read_own io) \<or> \<not> io_write_own io
        \<or> c = Succeeded (call_dest c) \<and> call_dest c \<notin> lim_loaded l)"
      using that by (auto simp: now(2) x still_doubtful_def Let_def split: if_splits limiter_call.splits)
    then show ?thesis using new by blast
  qed
  moreover have "d \<in> lim_loaded (snd w')" if "\<exists>y \<in> set (cs @ [x]). is_ask d (fst y)" for d
    using that IH subsetD [OF call_keeps_loaded(1)] call_keeps_loaded(2)
    by (auto simp: now(1) x worker_call_step_def Let_def)
  ultimately show ?case by blast
qed (simp add: doubt_reason_def)


text \<open>A primary over an empty database, with an empty retry table of its own.\<close>

definition sample_worker :: worker where
  "sample_worker = \<lparr>wk_writer = True, wk_primary = True, wk_name = ''w'', wk_db = empty_db,
     wk_own = Some (sample_state_store\<lparr>st_retry := Some Map.empty\<rparr>)\<rparr>"

lemma sample_worker_ok [simp]: "primary_ok sample_worker"
  by (simp add: primary_ok_def sample_worker_def sample_state_store_def)

definition own_only :: call_io where
  "own_only = \<lparr>io_read_synapse = True, io_read_own = True, io_write_own = True, io_write_synapse = False\<rparr>"

definition mirror_only :: call_io where
  "mirror_only = own_only\<lparr>io_write_own := False\<rparr>"

lemma asking_again: "d \<in> lim_loaded l \<Longrightarrow> fst (due_within now now' l d slack) = l"
  by (simp add: due_within_def Let_def)


text \<open>
  A shutdown is recorded as a failure. When the context ends while a transaction waits for its
  retry, the error goes the way of every other: a destination that never failed is put into the
  backoff as if it had not answered, the row is written, and the next process does not try it
  until the minimum interval has passed.
\<close>

theorem shutdown_backs_off:
  assumes "http_send g entries h w = (evs, Inl e)" "e = ContextDone" "state_of l d = zero_timings" "lim_persists l"
    "0 < unix_milli now" "primary_ok wk"
  shows "\<exists>l' t. report_outcome now u d (Some (SinkFailed e)) l = (l', [Persist d t], None)
    \<and> (let wk' = worker_effects True ok [Persist d t] wk in
        load_timings True True wk' [d] = Some [d \<mapsto> t]
        \<and> (\<forall>m. m < unix_milli now + milliseconds (min_interval (lim_cfg l)) \<longrightarrow>
             \<not> timings_due (snd (seed (new_limiter cfg (Some (load_timings True True wk')) True) d)) m))"
proof -
  let ?t = "failed_timings (lim_cfg l) u (unix_milli now) zero_timings"
  let ?wk = "worker_effects True ok [Persist d ?t] wk"
  have R: "primary_ok ?wk" "backoff_table ?wk = (backoff_table wk)(d \<mapsto> ?t)"
    using worker_effects_refine [OF assms(6), of ok "[Persist d ?t]"] by simp_all
  have "snd (report_outcome now u d (Some (SinkFailed e)) l) = ([Persist d ?t], None)"
    using assms(2-4) by (simp add: report_outcome_def on_send_outcome_def error_rate_limited_def error_answered_def
        is_rate_limited_def answered_def wrapped_def failure_def fail_with_def Let_def)
  then obtain l' where out: "report_outcome now u d (Some (SinkFailed e)) l = (l', [Persist d ?t], None)"
    by (metis prod.collapse)
  have load: "load_timings True True ?wk = read_rows ((backoff_table wk)(d \<mapsto> ?t))"
    using load_is_read [OF R(1)] R(2) by simp
  have seed: "snd (seed (new_limiter cfg (Some (load_timings True True ?wk)) True) d) = ?t"
    using seed_value [of "new_limiter cfg (Some (load_timings True True ?wk)) True" "(backoff_table wk)(d \<mapsto> ?t)" d] load
    by (simp add: new_limiter_def row_def)
  have "\<not> timings_due ?t m" if "m < unix_milli now + milliseconds (min_interval (lim_cfg l))" for m
    using that assms(5) by (simp add: timings_due_def failed_timings_def)
  with out load seed show ?thesis
    by (intro exI [of _ l'] exI [of _ ?t]) (simp add: read_rows_def Let_def restrict_map_def fun_eq_iff)
qed

text \<open>No answer to the first attempt, and the context ends before the second.\<close>

definition ending_world :: "nat \<Rightarrow> attempt_world" where
  "ending_world i = \<lparr>aw_draw = 1/2, aw_cancel_wait = True, aw_network = NoAnswer, aw_cancelled = False\<rparr>"

theorem shutdown_backs_off_witness:
  "\<exists>evs l' t. http_send (table_gjson [] [] []) (\<lambda>_. []) (new_http 10 0) ending_world = (evs, Inl ContextDone)
     \<and> report_outcome (5 * second) 0 ''b'' (Some (SinkFailed ContextDone)) sample_limiter = (l', [Persist ''b'' t], None)"
proof -
  obtain evs where run: "http_send (table_gjson [] [] []) (\<lambda>_. []) (new_http 10 0) ending_world = (evs, Inl ContextDone)"
    by (auto simp: http_send_def new_http_def eval_nat_numeral attempt_def Let_def rate_limit_delay_def
        attempt_rate_limited_def ending_world_def)
  have l: "state_of sample_limiter ''b'' = zero_timings" "lim_persists sample_limiter" "0 < unix_milli (5 * second)"
    by (simp_all add: sample_limiter_def new_limiter_def unix_milli_def)
  from shutdown_backs_off [OF run refl l sample_worker_ok, of 0] run show ?thesis by blast
qed

end
