(* ===== verification/Txn.thy ===== *)
theory Txn
  imports Sink
begin

text \<open>
  \<open>internal/txn/txn.go\<close>: transaction ids, and the assembly of a signed request. The canonical JSON
  encoder and the signing key come from \<open>mautrix-go\<close>: they are arguments. What they are given is
  the tree the struct tags describe, of type \<open>json_tree\<close>; \<open>RawJson\<close> is a \<open>json.RawMessage\<close>.
  \<open>url.PathEscape\<close> is written out.
\<close>

section \<open>Transaction ids\<close>

record id_generator =
  ig_prefix :: string
  ig_next :: int

abbreviation default_id_prefix :: string where "default_id_prefix \<equiv> ''gofed-''"

definition new_id_generator :: "instant \<Rightarrow> string \<Rightarrow> id_generator" where
  "new_id_generator now prefix = \<lparr>ig_prefix = prefix, ig_next = unix_milli now\<rparr>"

text \<open>\<open>Add(1)-1\<close> on an \<open>int64\<close>.\<close>

definition next_id :: "id_generator \<Rightarrow> id_generator \<times> string" where
  "next_id g = (let n = wrap64 (ig_next g + 1) in (g\<lparr>ig_next := n\<rparr>, ig_prefix g @ format_int (wrap64 (n - 1))))"

section \<open>The body\<close>

datatype json_tree =
    JsonObject "(string \<times> json_tree) list"
  | JsonArray "json_tree list"
  | JsonString string
  | JsonInt int
  | JsonNull
  | RawJson json

record transaction =
  tx_origin :: string
  tx_origin_server_ts :: int
  tx_pdus :: "json list option"
  tx_edus :: "(string \<times> json) list"

text \<open>A nil slice is encoded as \<open>null\<close>; \<open>edus\<close> is left out when empty.\<close>

definition transaction_tree :: "transaction \<Rightarrow> json_tree" where
  "transaction_tree t =
     JsonObject ([(''origin'', JsonString (tx_origin t)), (''origin_server_ts'', JsonInt (tx_origin_server_ts t)),
        (''pdus'', case tx_pdus t of None \<Rightarrow> JsonNull | Some ps \<Rightarrow> JsonArray (map RawJson ps))]
      @ (if tx_edus t = [] then []
         else [(''edus'', JsonArray (map (\<lambda>(ty, c). JsonObject [(''edu_type'', JsonString ty), (''content'', RawJson c)]) (tx_edus t)))]))"

section \<open>The path\<close>

definition should_escape :: "char \<Rightarrow> bool" where
  "should_escape c \<longleftrightarrow>
     (let n = (of_char c :: nat) in
      \<not> (97 \<le> n \<and> n \<le> 122 \<or> 65 \<le> n \<and> n \<le> 90 \<or> 48 \<le> n \<and> n \<le> 57
         \<or> c \<in> set ''-_.~'' \<or> c \<in> set ''$&+:=@''))"

definition hex_char :: "nat \<Rightarrow> char" where
  "hex_char n = (if n < 10 then char_of (48 + n) else char_of (55 + n))"

definition escape_char :: "char \<Rightarrow> string" where
  "escape_char c = (if should_escape c then [CHR ''%'', hex_char (of_char c div 16), hex_char (of_char c mod 16)] else [c])"

definition path_escape :: "string \<Rightarrow> string" where
  "path_escape s = concat (map escape_char s)"

abbreviation send_path_prefix :: string where "send_path_prefix \<equiv> ''/_matrix/federation/v1/send/''"

section \<open>Building a request\<close>

record signer =
  sg_server_name :: string
  sg_key_id :: string
  sg_sign :: "json_tree \<Rightarrow> string option"

record request =
  rq_transaction_id :: string
  rq_destination :: string
  rq_path :: string
  rq_body :: json
  rq_auth_header :: string

definition auth_object :: "string \<Rightarrow> string \<Rightarrow> string \<Rightarrow> json \<Rightarrow> json_tree" where
  "auth_object path origin dest body =
     JsonObject [(''method'', JsonString ''PUT''), (''uri'', JsonString path), (''origin'', JsonString origin),
       (''destination'', JsonString dest), (''content'', RawJson body)]"

definition auth_header :: "string \<Rightarrow> string \<Rightarrow> string \<Rightarrow> string \<Rightarrow> string" where
  "auth_header origin key sig dest =
     ''X-Matrix origin=\"'' @ origin @ ''\",key=\"'' @ key @ ''\",sig=\"'' @ sig @ ''\",destination=\"'' @ dest @ ''\"''"

text \<open>\<open>canon\<close> is \<open>canonicaljson.Marshal\<close>; either step may fail.\<close>

definition build_request ::
  "(json_tree \<Rightarrow> json option) \<Rightarrow> signer \<Rightarrow> string \<Rightarrow> string \<Rightarrow> transaction \<Rightarrow> request option" where
  "build_request canon s txn_id dest t0 =
     (let t = t0\<lparr>tx_origin := sg_server_name s, tx_pdus := Some (case tx_pdus t0 of None \<Rightarrow> [] | Some ps \<Rightarrow> ps)\<rparr>
      in case canon (transaction_tree t) of
           None \<Rightarrow> None
         | Some body \<Rightarrow>
             (let path = send_path_prefix @ path_escape txn_id
              in case sg_sign s (auth_object path (sg_server_name s) dest body) of
                   None \<Rightarrow> None
                 | Some sig \<Rightarrow>
                     Some \<lparr>rq_transaction_id = txn_id, rq_destination = dest, rq_path = path, rq_body = body,
                       rq_auth_header = auth_header (sg_server_name s) (sg_key_id s) sig dest\<rparr>))"

text \<open>The beginning of \<open>Destination.send\<close>: the transaction of a batch.\<close>

definition batch_transaction :: "int \<Rightarrow> json list \<Rightarrow> (string \<times> json) list \<Rightarrow> transaction" where
  "batch_transaction now_ms pdus edus =
     \<lparr>tx_origin = [], tx_origin_server_ts = now_ms, tx_pdus = (if pdus = [] then None else Some pdus), tx_edus = edus\<rparr>"

section \<open>Ids never repeat\<close>

fun run_ids :: "nat \<Rightarrow> id_generator \<Rightarrow> string list" where
  "run_ids 0 g = []"
| "run_ids (Suc n) g = (case next_id g of (g', i) \<Rightarrow> i # run_ids n g')"

lemma format_int_inj:
  assumes "0 \<le> v" "v < 2 ^ 63" "0 \<le> w" "w < 2 ^ 63" "format_int v = format_int w"
  shows "v = w"
proof -
  have "- (2 ^ 63) \<le> v" "- (2 ^ 63) \<le> w"
    by (rule order_trans [OF _ assms(1)], simp) (rule order_trans [OF _ assms(3)], simp)
  then have "Some v = Some w" using parse_format_int [of v] parse_format_int [of w] assms(2,4,5) by metis
  then show ?thesis by simp
qed

lemma next_id_eq:
  assumes "0 \<le> ig_next g" "ig_next g + 1 < 2 ^ 63"
  shows "next_id g = (g\<lparr>ig_next := ig_next g + 1\<rparr>, ig_prefix g @ format_int (ig_next g))"
  using assms by (simp add: next_id_def Let_def wrap64_small)

lemma run_ids_eq:
  "0 \<le> ig_next g \<Longrightarrow> ig_next g + int n < 2 ^ 63 \<Longrightarrow>
     run_ids n g = map (\<lambda>k. ig_prefix g @ format_int (ig_next g + int k)) [0..<n]"
proof (induction n arbitrary: g)
  case (Suc n)
  let ?g = "g\<lparr>ig_next := ig_next g + 1\<rparr>"
  have "run_ids n ?g = map (\<lambda>k. ig_prefix g @ format_int (ig_next g + 1 + int k)) [0..<n]"
    using Suc.IH [of ?g] Suc.prems by simp
  moreover have "[0..<Suc n] = 0 # map Suc [0..<n]" by (simp only: map_Suc_upt upt_conv_Cons)
  ultimately show ?case using Suc.prems by (simp add: next_id_eq algebra_simps del: upt_Suc)
qed simp

lemma format_nat_digit: "c \<in> set (format_nat n) \<Longrightarrow> digit_value c \<noteq> None"
  using format_nat_digits digit_value_char by fastforce

text \<open>Process starts, each with the number of transactions it builds before the next one.\<close>

fun starts_ok :: "(instant \<times> nat) list \<Rightarrow> bool" where
  "starts_ok [] = True"
| "starts_ok ((now, n) # rs) \<longleftrightarrow>
     0 \<le> unix_milli now \<and> unix_milli now + int n < 2 ^ 63
     \<and> (case rs of [] \<Rightarrow> True | (next_start, _) # _ \<Rightarrow> unix_milli now + int n \<le> unix_milli next_start) \<and> starts_ok rs"

lemma starts_later: "starts_ok ((now, n) # rs) \<Longrightarrow> (t, m) \<in> set rs \<Longrightarrow> unix_milli now + int n \<le> unix_milli t"
proof (induction rs arbitrary: now n)
  case (Cons r rs)
  then show ?case by (cases r) fastforce
qed simp

text \<open>
  C27. A transaction id is used once. Across restarts and whatever the destinations, as long as a
  process builds no more transactions than it runs milliseconds, all ids ever handed out differ;
  and with a prefix that is not all digits none of them is an id Synapse's own counter can
  produce, so the receiver's deduplication never takes one sender's transaction for another's.
\<close>

theorem ids_never_repeat:
  assumes "starts_ok runs"
  shows "distinct (concat (map (\<lambda>(now, n). run_ids n (new_id_generator now p)) runs))
    \<and> ((\<exists>c \<in> set p. digit_value c = None) \<longrightarrow>
        (\<forall>v \<ge> 0. format_int v \<notin> set (concat (map (\<lambda>(now, n). run_ids n (new_id_generator now p)) runs))))"
proof -
  have ids: "run_ids n (new_id_generator now p) = map (\<lambda>k. p @ format_int (unix_milli now + int k)) [0..<n]"
    if "0 \<le> unix_milli now" "unix_milli now + int n < 2 ^ 63" for now n
    using run_ids_eq [of "new_id_generator now p" n] that by (simp add: new_id_generator_def)
  have ok: "0 \<le> unix_milli now \<and> unix_milli now + int n < 2 ^ 63" if "(now, n) \<in> set rs" "starts_ok rs" for now n rs
    using that by (induction rs rule: starts_ok.induct) auto
  have "distinct (concat (map (\<lambda>(now, n). run_ids n (new_id_generator now p)) runs))"
    using assms
  proof (induction runs rule: starts_ok.induct)
    case (2 now n rs)
    note here = ok [of now n "(now, n) # rs"]
    have "distinct (run_ids n (new_id_generator now p))"
    proof -
      have b: "0 \<le> unix_milli now" "unix_milli now + int n < 2 ^ 63" using here "2.prems" by simp_all
      have "j = k" if "j < n" "k < n" "format_int (unix_milli now + int j) = format_int (unix_milli now + int k)" for j k
        using format_int_inj [of "unix_milli now + int j" "unix_milli now + int k"] that b by linarith
      then show ?thesis unfolding ids [OF b] by (simp add: distinct_map inj_on_def)
    qed
    moreover have "x \<notin> set (run_ids m (new_id_generator t p))"
      if x: "x \<in> set (run_ids n (new_id_generator now p))" and t: "(t, m) \<in> set rs" for x t m
    proof
      assume y: "x \<in> set (run_ids m (new_id_generator t p))"
      have b: "0 \<le> unix_milli now" "unix_milli now + int n < 2 ^ 63" "0 \<le> unix_milli t" "unix_milli t + int m < 2 ^ 63"
        using here "2.prems" ok [OF t] by auto
      from x y obtain j k where "j < n" "k < m"
        "format_int (unix_milli now + int j) = format_int (unix_milli t + int k)" by (auto simp: ids [OF b(1,2)] ids [OF b(3,4)])
      with format_int_inj [of "unix_milli now + int j" "unix_milli t + int k"] b
      have "unix_milli now + int j = unix_milli t + int k" by linarith
      with \<open>j < n\<close> starts_later [OF "2.prems" t] show False by linarith
    qed
    ultimately show ?case using "2.IH" "2.prems" by fastforce
  qed simp
  moreover have "format_int v \<notin> set (concat (map (\<lambda>(now, n). run_ids n (new_id_generator now p)) runs))"
    if "0 \<le> v" "c \<in> set p" "digit_value c = None" for v c
  proof
    assume "format_int v \<in> set (concat (map (\<lambda>(now, n). run_ids n (new_id_generator now p)) runs))"
    then obtain now n where r: "(now, n) \<in> set runs" "format_int v \<in> set (run_ids n (new_id_generator now p))" by auto
    with ok [OF r(1) assms] obtain k where "format_int v = p @ format_int (unix_milli now + int k)" by (auto simp: ids)
    with \<open>c \<in> set p\<close> have "c \<in> set (format_int v)" by simp
    with \<open>0 \<le> v\<close> have "c \<in> set (format_nat (nat v))" by (simp add: format_int_def)
    with format_nat_digit that(3) show False by blast
  qed
  ultimately show ?thesis by blast
qed

theorem ids_never_repeat_witness:
  "distinct (run_ids 2 (new_id_generator (5 * second) default_id_prefix) @ run_ids 3 (new_id_generator (6 * second) default_id_prefix))
     \<and> format_int 5001 \<notin> set (run_ids 2 (new_id_generator (5 * second) default_id_prefix))"
proof -
  have "starts_ok [(5 * second, 2), (6 * second, 3)]" by (simp add: unix_milli_def)
  moreover have "\<exists>c \<in> set default_id_prefix. digit_value c = None" by (simp add: digit_value_def)
  ultimately show ?thesis
    using ids_never_repeat [of "[(5 * second, 2), (6 * second, 3)]" default_id_prefix] by auto
qed

section \<open>What the receiver reads\<close>

text \<open>
  The receiving side, from the specification: percent-decoding of a path segment, and the
  \<open>X-Matrix\<close> header as comma-separated \<open>name="value"\<close> pairs.
\<close>

definition hex_value :: "char \<Rightarrow> nat option" where
  "hex_value c = (let n = of_char c in
     if 48 \<le> n \<and> n \<le> 57 then Some (n - 48) else if 65 \<le> n \<and> n \<le> 70 then Some (n - 55)
     else if 97 \<le> n \<and> n \<le> 102 then Some (n - 87) else None)"

fun percent_decode :: "string \<Rightarrow> string option" where
  "percent_decode [] = Some []"
| "percent_decode (c # cs) =
     (if c = CHR ''%'' then
        (case cs of
           a # b # rest \<Rightarrow>
             (case (hex_value a, hex_value b) of
                (Some x, Some y) \<Rightarrow> map_option ((#) (char_of (16 * x + y))) (percent_decode rest)
              | _ \<Rightarrow> None)
         | _ \<Rightarrow> None)
      else map_option ((#) c) (percent_decode cs))"

lemma hex_code: "n < 16 \<Longrightarrow> of_char (hex_char n) = (if n < 10 then 48 + n else 55 + n)"
  by (simp add: hex_char_def of_char_of)

lemma hex_value_char: "n < 16 \<Longrightarrow> hex_value (hex_char n) = Some n"
  by (simp add: hex_value_def hex_code Let_def)

lemma decode_escape_char: "percent_decode (escape_char c @ s) = map_option ((#) c) (percent_decode s)"
proof (cases "should_escape c")
  case True
  have n: "(of_char c :: nat) < 256" by simp
  have "16 * (of_char c div 16) + of_char c mod 16 = (of_char c :: nat)" by simp
  then have "(char_of (16 * (of_char c div 16) + of_char c mod 16 :: nat) :: char) = c" by (simp only: char_of_char)
  moreover have "(of_char c div 16 :: nat) < 16" using n by (simp add: less_mult_imp_div_less)
  ultimately show ?thesis using True by (simp add: escape_char_def hex_value_char)
next
  case False
  then have "c \<noteq> CHR ''%''" by (auto simp: should_escape_def)
  with False show ?thesis by (simp add: escape_char_def)
qed

lemma percent_decode_escape: "percent_decode (path_escape s) = Some s"
  by (induction s) (simp_all add: path_escape_def decode_escape_char)

lemma escape_char_plain: "x \<in> set (escape_char c) \<Longrightarrow> x \<notin> set ''/?#;, ''"
proof -
  assume x: "x \<in> set (escape_char c)"
  have hex: "hex_char n \<notin> set ''/?#;, ''" if "n < 16" for n
  proof -
    have "(of_char (hex_char n) :: nat) \<notin> {47, 63, 35, 59, 44, 32}" using that by (simp add: hex_code)
    then show ?thesis by auto
  qed
  have "(of_char c :: nat) < 256" by simp
  then have "(of_char c div 16 :: nat) < 16" by (simp add: less_mult_imp_div_less)
  with x hex show ?thesis by (auto simp: escape_char_def should_escape_def split: if_splits)
qed

text \<open>One pair, and the rest after its comma.\<close>

definition auth_pair :: "string \<Rightarrow> (string \<times> string) \<times> string" where
  "auth_pair s =
     (case strings_cut (CHR ''='') s of (name, rest, _) \<Rightarrow>
      case strings_cut (CHR 0x22) (drop 1 rest) of (val, after, _) \<Rightarrow> ((name, val), drop 1 after))"

fun auth_pairs :: "nat \<Rightarrow> string \<Rightarrow> (string \<times> string) list" where
  "auth_pairs 0 s = []"
| "auth_pairs (Suc n) s = (if s = [] then [] else case auth_pair s of (p, rest) \<Rightarrow> p # auth_pairs n rest)"

definition read_auth_header :: "string \<Rightarrow> string \<Rightarrow> string option" where
  "read_auth_header h = map_of (auth_pairs (length h) (drop (length ''X-Matrix '') h))"

lemma auth_pair_eq:
  assumes "CHR ''='' \<notin> set name" "CHR 0x22 \<notin> set val"
  shows "auth_pair (name @ CHR ''='' # CHR 0x22 # val @ CHR 0x22 # rest) = ((name, val), drop 1 rest)"
  using assms by (simp add: auth_pair_def strings_cut_found)

lemma auth_pairs_header:
  assumes "CHR 0x22 \<notin> set origin" "CHR 0x22 \<notin> set key" "CHR 0x22 \<notin> set sig" "CHR 0x22 \<notin> set dest"
  shows "auth_pairs (length (auth_header origin key sig dest)) (drop (length ''X-Matrix '') (auth_header origin key sig dest))
    = [(''origin'', origin), (''key'', key), (''sig'', sig), (''destination'', dest)]"
proof -
  obtain n where n: "length (auth_header origin key sig dest) = Suc (Suc (Suc (Suc (Suc n))))"
    by (auto simp: auth_header_def)
  note pair = auth_pair_eq [of "''origin''" origin "CHR '','' # r" for r, simplified] auth_pair_eq [of "''key''" key "CHR '','' # r" for r, simplified]
    auth_pair_eq [of "''sig''" sig "CHR '','' # r" for r, simplified] auth_pair_eq [of "''destination''" dest "[]", simplified]
  show ?thesis unfolding n using assms by (simp add: auth_header_def pair)
qed

text \<open>
  C28. The receiver reads back what was signed. The path of a request is one segment behind the
  prefix that decodes to the transaction id; the header's fields are the origin, key and
  destination; and the object the receiver puts together from the path, these fields and the body
  it was sent is the one whose signature the header carries, so that it verifies. The body is the
  canonical encoding of the batch under this server's name.
\<close>

theorem request_reads_back:
  assumes "build_request canon s txn_id dest t = Some r"
    and "\<And>v sig. sg_sign s v = Some sig \<Longrightarrow> verify v sig \<and> CHR 0x22 \<notin> set sig"
    and "CHR 0x22 \<notin> set (sg_server_name s)" "CHR 0x22 \<notin> set (sg_key_id s)" "CHR 0x22 \<notin> set dest"
  shows "(\<exists>seg. rq_path r = send_path_prefix @ seg \<and> set seg \<inter> set ''/?#;, '' = {} \<and> percent_decode seg = Some txn_id)
    \<and> (let field = read_auth_header (rq_auth_header r) in
        field ''origin'' = Some (sg_server_name s) \<and> field ''key'' = Some (sg_key_id s) \<and> field ''destination'' = Some dest
        \<and> (\<exists>sig. field ''sig'' = Some sig
             \<and> verify (auth_object (rq_path r) (the (field ''origin'')) (the (field ''destination'')) (rq_body r)) sig))
    \<and> (\<exists>pdus. canon (transaction_tree (t\<lparr>tx_origin := sg_server_name s, tx_pdus := Some pdus\<rparr>)) = Some (rq_body r)
         \<and> (tx_pdus t = Some pdus \<or> tx_pdus t = None \<and> pdus = []))"
proof -
  let ?pdus = "case tx_pdus t of None \<Rightarrow> [] | Some ps \<Rightarrow> ps"
  let ?path = "send_path_prefix @ path_escape txn_id"
  obtain body sig where b: "canon (transaction_tree (t\<lparr>tx_origin := sg_server_name s, tx_pdus := Some ?pdus\<rparr>)) = Some body"
    "sg_sign s (auth_object ?path (sg_server_name s) dest body) = Some sig"
    and r: "rq_path r = ?path" "rq_body r = body" "rq_auth_header r = auth_header (sg_server_name s) (sg_key_id s) sig dest"
    using assms(1) by (auto simp: build_request_def Let_def split: option.splits)
  have v: "verify (auth_object ?path (sg_server_name s) dest body) sig" "CHR 0x22 \<notin> set sig" using assms(2) [OF b(2)] by simp_all
  have "read_auth_header (rq_auth_header r) = map_of [(''origin'', sg_server_name s), (''key'', sg_key_id s), (''sig'', sig), (''destination'', dest)]"
    unfolding read_auth_header_def r(3) using auth_pairs_header [OF assms(3,4) v(2) assms(5)] by simp
  moreover have "set (path_escape txn_id) \<inter> set ''/?#;, '' = {}"
    using escape_char_plain by (auto simp: path_escape_def)
  ultimately show ?thesis using b(1) v(1) percent_decode_escape [of txn_id]
    by (auto simp: r Let_def split: option.splits)
qed

text \<open>A signer for the witness, with an id that needs escaping.\<close>

definition sample_signer :: signer where
  "sample_signer = \<lparr>sg_server_name = ''us'', sg_key_id = ''ed25519:a'', sg_sign = (\<lambda>v. Some ''c2ln'')\<rparr>"

theorem request_reads_back_witness:
  "\<exists>r seg. build_request (\<lambda>_. Some ''{}'') sample_signer ''a/b 7'' ''b:8448'' (batch_transaction 5 [] []) = Some r
     \<and> rq_path r = send_path_prefix @ seg \<and> percent_decode seg = Some ''a/b 7''
     \<and> read_auth_header (rq_auth_header r) ''destination'' = Some ''b:8448''"
proof -
  obtain r where r: "build_request (\<lambda>_. Some ''{}'') sample_signer ''a/b 7'' ''b:8448'' (batch_transaction 5 [] []) = Some r"
    by (auto simp: build_request_def Let_def sample_signer_def)
  have "(\<exists>seg. rq_path r = send_path_prefix @ seg \<and> percent_decode seg = Some ''a/b 7'')
      \<and> read_auth_header (rq_auth_header r) ''destination'' = Some ''b:8448''"
    using request_reads_back [OF r, of "\<lambda>_ _. True"] by (auto simp: sample_signer_def Let_def)
  with r show ?thesis by blast
qed

end
