(* ===== verification/SynapseCfg.thy ===== *)
theory SynapseCfg
  imports Retry Replication Sink
begin

text \<open>
  \<open>internal/synapsecfg\<close>: what is read out of Synapse's \<open>homeserver.yaml\<close>. The YAML decoder is a
  library; the decoded document is the record \<open>raw_settings\<close>, with the fields of the struct \<open>raw\<close>,
  where a \<open>nil\<close> pointer or slice is \<open>None\<close> and an untyped value a \<open>yaml_value\<close>. The file system is a
  function from paths. \<open>float64\<close> is idealised as \<open>rat\<close>, and \<open>strconv.ParseFloat\<close> is an argument.
  Strings are the bytes of valid UTF-8. Errors keep what went wrong, not their wording.
\<close>

section \<open>The document\<close>

datatype yaml_value =
    YamlNil
  | YamlBool bool
  | YamlInt int
  | YamlFloat rat
  | YamlString string
  | YamlList "yaml_value list"
  | YamlMap

record raw_location =
  rl_path :: string
  rl_host :: string
  rl_port :: yaml_value
  rl_tls :: bool

record raw_redis =
  rr_enabled :: "bool option"
  rr_path :: string
  rr_host :: string
  rr_port :: yaml_value
  rr_password :: string
  rr_dbid :: yaml_value

record raw_database =
  rd_name :: string
  rd_user :: string
  rd_password :: string
  rd_database :: string
  rd_dbname :: string
  rd_host :: string
  rd_port :: yaml_value
  rd_sslmode :: string

record raw_federation =
  rf_min_interval :: yaml_value
  rf_multiplier :: rat
  rf_max_interval :: yaml_value
  rf_client_timeout :: yaml_value
  rf_max_long_retries :: "int option"
  rf_max_long_retry_delay :: yaml_value

record raw_settings =
  raw_server_name :: string
  raw_signing_key_path :: string
  raw_signing_key :: string
  raw_sender_instances :: yaml_value
  raw_send_federation :: "bool option"
  raw_instance_map :: "(string \<times> raw_location) list"
  raw_redis_block :: raw_redis
  raw_database_block :: raw_database
  raw_federation_block :: raw_federation
  raw_presence_enabled :: yaml_value
  raw_use_presence :: yaml_value
  raw_domain_whitelist :: "string list option"
  raw_device_name_lookup :: "bool option"

datatype settings_error =
    CannotReadConfig
  | NotYaml
  | NoServerName
  | BadInstanceList
  | BadNumber string
  | NoAddressFor string
  | BadDuration string
  | KeyUnreadable
  | BadKeyLine nat
  | NoKeys
  | UnsupportedDatabase string
  | NoDatabaseName

section \<open>Untyped values\<close>

fun yaml_strings :: "yaml_value list \<Rightarrow> string list option" where
  "yaml_strings [] = Some []"
| "yaml_strings (YamlString s # vs) = map_option ((#) s) (yaml_strings vs)"
| "yaml_strings (v # vs) = None"

definition instance_list :: "yaml_value \<Rightarrow> string list option" where
  "instance_list v =
     (case v of
        YamlNil \<Rightarrow> Some []
      | YamlString s \<Rightarrow> Some [s]
      | YamlList vs \<Rightarrow> yaml_strings vs
      | _ \<Rightarrow> None)"

abbreviation main_process_instance_name :: string where "main_process_instance_name \<equiv> ''master''"

definition sender_instances :: "raw_settings \<Rightarrow> settings_error + string list" where
  "sender_instances r =
     (case instance_list (raw_sender_instances r) of
        None \<Rightarrow> Inl BadInstanceList
      | Some names \<Rightarrow>
          if raw_sender_instances r \<noteq> YamlNil then Inr names
          else if raw_send_federation r = None \<or> raw_send_federation r = Some True
          then Inr [main_process_instance_name] else Inr [])"

definition parse_int :: "yaml_value \<Rightarrow> string \<Rightarrow> settings_error + int" where
  "parse_int v what =
     (case v of
        YamlNil \<Rightarrow> Inr 0
      | YamlInt n \<Rightarrow> Inr n
      | YamlFloat x \<Rightarrow> Inr (go_trunc x)
      | YamlString t \<Rightarrow>
          (let s = trim_space t
           in if s = [] then Inr 0
              else case parse_int64 s of None \<Rightarrow> Inl (BadNumber what) | Some n \<Rightarrow> Inr n)
      | _ \<Rightarrow> Inl (BadNumber what))"

definition duration_unit :: "char \<Rightarrow> duration option" where
  "duration_unit c =
     map_of [(CHR ''s'', second), (CHR ''m'', minute), (CHR ''h'', hour), (CHR ''d'', 24 * hour),
       (CHR ''w'', 7 * 24 * hour), (CHR ''y'', 365 * 24 * hour)] c"

text \<open>The value and whether there was one.\<close>

definition parse_duration ::
  "(string \<Rightarrow> rat option) \<Rightarrow> yaml_value \<Rightarrow> string \<Rightarrow> settings_error + duration option" where
  "parse_duration parse_float v what =
     (case v of
        YamlNil \<Rightarrow> Inr None
      | YamlInt n \<Rightarrow> Inr (Some (wrap64 (n * millisecond)))
      | YamlFloat x \<Rightarrow> Inr (Some (wrap64 (go_trunc x * millisecond)))
      | YamlString t \<Rightarrow>
          (let s = trim_space t
           in if s = [] then Inr None
              else (let (unit_of, body) = (case duration_unit (last s) of
                          Some u \<Rightarrow> (u, butlast s) | None \<Rightarrow> (millisecond, s))
                    in case parse_float (trim_space body) of
                         None \<Rightarrow> Inl (BadDuration what)
                       | Some n \<Rightarrow> Inr (Some (go_trunc (n * of_int unit_of)))))
      | _ \<Rightarrow> Inl (BadDuration what))"

definition track_presence :: "raw_settings \<Rightarrow> bool" where
  "track_presence r =
     (case (if raw_presence_enabled r = YamlNil then raw_use_presence r else raw_presence_enabled r) of
        YamlNil \<Rightarrow> True
      | YamlBool b \<Rightarrow> b
      | YamlString s \<Rightarrow> if s = ''untracked'' then False else s \<noteq> []
      | YamlInt n \<Rightarrow> n \<noteq> 0
      | YamlFloat x \<Rightarrow> x \<noteq> 0
      | _ \<Rightarrow> True)"

section \<open>Instances\<close>

record instance_address =
  ia_name :: string
  ia_socket :: string
  ia_url :: string

text \<open>The loop over the map, in the order Go walks it.\<close>

fun instance_map :: "(string \<times> raw_location) list \<Rightarrow> settings_error + (string \<rightharpoonup> instance_address)" where
  "instance_map [] = Inr Map.empty"
| "instance_map ((name0, loc) # rest) =
     (let name = (if name0 = ''main'' then main_process_instance_name else name0)
      in case parse_int (rl_port loc) (''instance_map.'' @ name @ ''.port'') of
           Inl e \<Rightarrow> Inl e
         | Inr port \<Rightarrow>
             (if rl_path loc = [] \<and> (rl_host loc = [] \<or> port = 0) then Inl (NoAddressFor name)
              else (let inst = (if rl_path loc \<noteq> [] then \<lparr>ia_name = name, ia_socket = rl_path loc, ia_url = []\<rparr>
                                else \<lparr>ia_name = name, ia_socket = [],
                                       ia_url = (if rl_tls loc then ''https'' else ''http'') @ ''://'' @ rl_host loc @ '':'' @ format_int port\<rparr>)
                    in case instance_map rest of
                         Inl e \<Rightarrow> Inl e
                       | Inr out \<Rightarrow> Inr ([name \<mapsto> inst] ++ out))))"

section \<open>Signing keys\<close>

text \<open>
  \<open>base64.RawStdEncoding\<close>: the standard alphabet without padding. Decoding looks at whole groups;
  the unused low bits of a last short group are not checked.
\<close>

definition b64_value :: "char \<Rightarrow> nat option" where
  "b64_value c = (let n = of_char c in
     if 65 \<le> n \<and> n \<le> 90 then Some (n - 65) else if 97 \<le> n \<and> n \<le> 122 then Some (n - 71)
     else if 48 \<le> n \<and> n \<le> 57 then Some (n + 4) else if n = 43 then Some 62 else if n = 47 then Some 63 else None)"

definition b64_char :: "nat \<Rightarrow> char" where
  "b64_char n = char_of (if n < 26 then n + 65 else if n < 52 then n + 71 else if n < 62 then n - 4
     else if n = 62 then 43 else 47)"

fun b64_decode_values :: "nat list \<Rightarrow> string option" where
  "b64_decode_values [] = Some []"
| "b64_decode_values [a] = None"
| "b64_decode_values [a, b] = Some [char_of (4 * a + b div 16)]"
| "b64_decode_values [a, b, c] = Some [char_of (4 * a + b div 16), char_of (16 * (b mod 16) + c div 4)]"
| "b64_decode_values (a # b # c # d # rest) =
     map_option (\<lambda>s. char_of (4 * a + b div 16) # char_of (16 * (b mod 16) + c div 4) # char_of (64 * (c mod 4) + d) # s)
       (b64_decode_values rest)"

definition raw_b64_decode :: "string \<Rightarrow> string option" where
  "raw_b64_decode s = Option.bind (those (map b64_value s)) b64_decode_values"

fun b64_encode_values :: "nat list \<Rightarrow> nat list" where
  "b64_encode_values [] = []"
| "b64_encode_values [x] = [x div 4, 16 * (x mod 4)]"
| "b64_encode_values [x, y] = [x div 4, 16 * (x mod 4) + y div 16, 4 * (y mod 16)]"
| "b64_encode_values (x # y # z # rest) =
     (x div 4) # (16 * (x mod 4) + y div 16) # (4 * (y mod 16) + z div 64) # (z mod 64) # b64_encode_values rest"

text \<open>\<open>encodeSeed\<close> of \<open>cmd/gofederation-worker\<close>.\<close>

definition encode_seed :: "string \<Rightarrow> string" where
  "encode_seed bytes = map b64_char (b64_encode_values (map of_char bytes))"

record server_signing_key =
  sk_algorithm :: string
  sk_version :: string
  sk_seed :: string

definition key_id :: "server_signing_key \<Rightarrow> string" where
  "key_id k = sk_algorithm k @ '':'' @ sk_version k"

fun parse_key_lines :: "nat \<Rightarrow> string list \<Rightarrow> settings_error + server_signing_key list" where
  "parse_key_lines i [] = Inr []"
| "parse_key_lines i (line0 # rest) =
     (let line = trim_space line0
      in if line = [] \<or> has_prefix line ''#'' then parse_key_lines (Suc i) rest
         else case split_fields line of
           [algorithm, version, encoded] \<Rightarrow>
             if algorithm \<noteq> ''ed25519'' then Inl (BadKeyLine (Suc i))
             else (case raw_b64_decode encoded of
                     None \<Rightarrow> Inl (BadKeyLine (Suc i))
                   | Some bytes \<Rightarrow>
                       if length bytes \<noteq> 32 then Inl (BadKeyLine (Suc i))
                       else (case parse_key_lines (Suc i) rest of
                               Inl e \<Rightarrow> Inl e
                             | Inr ks \<Rightarrow> Inr (\<lparr>sk_algorithm = algorithm, sk_version = version, sk_seed = bytes\<rparr> # ks)))
         | _ \<Rightarrow> Inl (BadKeyLine (Suc i)))"

definition parse_signing_keys :: "string \<Rightarrow> settings_error + server_signing_key list" where
  "parse_signing_keys body =
     (case parse_key_lines 0 (split_on (CHR 0x0A) body) of
        Inl e \<Rightarrow> Inl e
      | Inr ks \<Rightarrow> if ks = [] then Inl NoKeys else Inr ks)"

section \<open>The key file\<close>

datatype file_read = FileBytes string | FileMissing | FileError

text \<open>\<open>path/filepath\<close> on Unix: \<open>Clean\<close> on the components, kept reversed.\<close>

fun clean_components :: "bool \<Rightarrow> string list \<Rightarrow> string list \<Rightarrow> string list" where
  "clean_components rooted out [] = rev out"
| "clean_components rooted out (c # cs) =
     (if c = [] \<or> c = ''.'' then clean_components rooted out cs
      else if c = ''..'' then
        (case out of
           [] \<Rightarrow> clean_components rooted (if rooted then [] else [c]) cs
         | prev # below \<Rightarrow> clean_components rooted (if prev = ''..'' then c # out else below) cs)
      else clean_components rooted (c # out) cs)"

fun join_slash :: "string list \<Rightarrow> string" where
  "join_slash [] = []"
| "join_slash [c] = c"
| "join_slash (c # cs) = c @ ''/'' @ join_slash cs"

definition is_abs :: "string \<Rightarrow> bool" where
  "is_abs p \<longleftrightarrow> has_prefix p ''/''"

definition clean_path :: "string \<Rightarrow> string" where
  "clean_path p =
     (let s = join_slash (clean_components (is_abs p) [] (split_on (CHR ''/'') p))
      in if is_abs p then ''/'' @ s else if s = [] then ''.'' else s)"

definition path_dir :: "string \<Rightarrow> string" where
  "path_dir p = clean_path (rev (dropWhile (\<lambda>c. c \<noteq> CHR ''/'') (rev p)))"

definition path_base :: "string \<Rightarrow> string" where
  "path_base p =
     (if p = [] then ''.''
      else let s = rev (takeWhile (\<lambda>c. c \<noteq> CHR ''/'') (dropWhile (\<lambda>c. c = CHR ''/'') (rev p)))
           in if s = [] then ''/'' else s)"

definition path_join :: "string \<Rightarrow> string \<Rightarrow> string" where
  "path_join dir p =
     (if dir = [] \<and> p = [] then [] else if dir = [] then clean_path p else clean_path (dir @ ''/'' @ p))"

definition read_signing_key_file :: "(string \<Rightarrow> file_read) \<Rightarrow> string \<Rightarrow> string \<Rightarrow> string option" where
  "read_signing_key_file files p cfg_path =
     (let dir = path_dir cfg_path;
          resolved = (if is_abs p then p else path_join dir p)
      in case files resolved of
           FileBytes b \<Rightarrow> Some b
         | FileError \<Rightarrow> None
         | FileMissing \<Rightarrow>
             if \<not> is_abs p then None
             else let beside = path_join dir (path_base p)
                  in if beside = resolved then None
                     else (case files beside of FileBytes b \<Rightarrow> Some b | _ \<Rightarrow> None))"

definition load_signing_keys ::
  "(string \<Rightarrow> file_read) \<Rightarrow> raw_settings \<Rightarrow> string \<Rightarrow> string \<Rightarrow> settings_error + server_signing_key list" where
  "load_signing_keys files r cfg_path override =
     (let body =
        (if override \<noteq> [] then (case files override of FileBytes b \<Rightarrow> Some b | _ \<Rightarrow> None)
         else if raw_signing_key r \<noteq> [] then Some (raw_signing_key r)
         else read_signing_key_file files
           (if raw_signing_key_path r = [] then raw_server_name r @ ''.signing.key'' else raw_signing_key_path r) cfg_path)
      in case body of None \<Rightarrow> Inl KeyUnreadable | Some b \<Rightarrow> parse_signing_keys b)"

section \<open>The database\<close>

record database_settings =
  ds_present :: bool
  ds_user :: string
  ds_password :: string
  ds_dbname :: string
  ds_host :: string
  ds_port :: int
  ds_sslmode :: string

definition no_database :: database_settings where
  "no_database = \<lparr>ds_present = False, ds_user = [], ds_password = [], ds_dbname = [], ds_host = [], ds_port = 0, ds_sslmode = []\<rparr>"

definition database_of :: "raw_database \<Rightarrow> settings_error + database_settings" where
  "database_of r =
     (if rd_name r = [] \<and> rd_host r = [] \<and> rd_database r = [] \<and> rd_dbname r = [] then Inr no_database
      else if rd_name r \<noteq> [] \<and> rd_name r \<noteq> ''psycopg2'' then Inl (UnsupportedDatabase (rd_name r))
      else case parse_int (rd_port r) ''database.args.port'' of
        Inl e \<Rightarrow> Inl e
      | Inr port \<Rightarrow>
          (let name = (if rd_database r = [] then rd_dbname r else rd_database r)
           in if name = [] then Inl NoDatabaseName
              else Inr \<lparr>ds_present = True, ds_user = rd_user r, ds_password = rd_password r, ds_dbname = name,
                ds_host = rd_host r, ds_port = port, ds_sslmode = rd_sslmode r\<rparr>))"

definition needs_quotes :: "char \<Rightarrow> bool" where
  "needs_quotes c \<longleftrightarrow> c \<in> {CHR '' '', CHR 0x09, CHR 0x0A, CHR 0x0D, CHR 0x27, CHR 0x5C}"

definition quote_dsn_char :: "char \<Rightarrow> string" where
  "quote_dsn_char c = (if c = CHR 0x27 \<or> c = CHR 0x5C then [CHR 0x5C, c] else [c])"

definition quote_dsn_value :: "string \<Rightarrow> string" where
  "quote_dsn_value v =
     (if \<not> list_ex needs_quotes v then v
      else CHR 0x27 # concat (map quote_dsn_char v) @ [CHR 0x27])"

text \<open>The closure \<open>add\<close>, on what has been written so far.\<close>

definition dsn_add :: "string \<Rightarrow> string \<Rightarrow> string \<Rightarrow> string" where
  "dsn_add k v b = (if v = [] then b else b @ (if b = [] then [] else '' '') @ k @ ''='' @ quote_dsn_value v)"

definition database_dsn :: "database_settings \<Rightarrow> string" where
  "database_dsn d =
     (if \<not> ds_present d then []
      else let b = dsn_add ''host'' (ds_host d) [];
               b = (if ds_port d \<noteq> 0 then dsn_add ''port'' (format_int (ds_port d)) b else b);
               b = dsn_add ''user'' (ds_user d) b;
               b = dsn_add ''password'' (ds_password d) b;
               b = dsn_add ''dbname'' (ds_dbname d) b
           in dsn_add ''sslmode'' (ds_sslmode d) b)"

definition database_redacted :: "database_settings \<Rightarrow> string" where
  "database_redacted d = database_dsn (if ds_password d \<noteq> [] then d\<lparr>ds_password := ''xxxxx''\<rparr> else d)"

section \<open>Loading\<close>

record redis_settings =
  rs_enabled :: bool
  rs_socket :: string
  rs_addr :: string
  rs_password :: string
  rs_dbid :: int

record synapse_config =
  sc_path :: string
  sc_server_name :: string
  sc_sender_instances :: "string list"
  sc_signing_keys :: "server_signing_key list"
  sc_instance_map :: "string \<rightharpoonup> instance_address"
  sc_redis :: redis_settings
  sc_retry :: retry_config
  sc_database :: database_settings
  sc_client_timeout :: duration
  sc_max_long_retries :: int
  sc_max_long_retry_delay :: duration
  sc_track_presence :: bool
  sc_device_name_lookup :: bool
  sc_domain_whitelist :: "string set option"

definition config_signing_key :: "synapse_config \<Rightarrow> server_signing_key option" where
  "config_signing_key c = (case sc_signing_keys c of [] \<Rightarrow> None | k # _ \<Rightarrow> Some k)"

definition bind_result :: "settings_error + 'a \<Rightarrow> ('a \<Rightarrow> settings_error + 'b) \<Rightarrow> settings_error + 'b" where
  "bind_result x f = (case x of Inl e \<Rightarrow> Inl e | Inr a \<Rightarrow> f a)"

definition redis_of :: "raw_redis \<Rightarrow> settings_error + redis_settings" where
  "redis_of r =
     bind_result (parse_int (rr_dbid r) ''redis.dbid'') (\<lambda>dbid.
       let out = \<lparr>rs_enabled = (rr_enabled r = Some True), rs_socket = rr_path r, rs_addr = [],
                  rs_password = rr_password r, rs_dbid = dbid\<rparr>
       in if rr_path r = [] \<and> rr_host r \<noteq> []
          then bind_result (parse_int (rr_port r) ''redis.port'') (\<lambda>port.
                 Inr (out\<lparr>rs_addr := rr_host r @ '':'' @ format_int (if port = 0 then 6379 else port)\<rparr>))
          else Inr out)"

definition or_default :: "'a option \<Rightarrow> 'a \<Rightarrow> 'a" where
  "or_default x d = (case x of None \<Rightarrow> d | Some y \<Rightarrow> y)"

definition resolve_settings ::
  "(string \<Rightarrow> rat option) \<Rightarrow> (string \<Rightarrow> file_read) \<Rightarrow> string \<Rightarrow> string \<Rightarrow> raw_settings \<Rightarrow> settings_error + synapse_config" where
  "resolve_settings parse_float files path override r =
     (if raw_server_name r = [] then Inl NoServerName
      else
        bind_result (sender_instances r) (\<lambda>senders.
        bind_result (instance_map (raw_instance_map r)) (\<lambda>instances.
        bind_result (load_signing_keys files r path override) (\<lambda>ks.
        bind_result (database_of (raw_database_block r)) (\<lambda>db.
        bind_result (redis_of (raw_redis_block r)) (\<lambda>redis.
        let f = raw_federation_block r; dur = parse_duration parse_float in
        bind_result (dur (rf_min_interval f) ''federation.destination_min_retry_interval'') (\<lambda>lo.
        bind_result (dur (rf_max_interval f) ''federation.destination_max_retry_interval'') (\<lambda>hi.
        bind_result (dur (rf_client_timeout f) ''federation.client_timeout'') (\<lambda>timeout.
        bind_result (dur (rf_max_long_retry_delay f) ''federation.max_long_retry_delay'') (\<lambda>delay.
          Inr \<lparr>sc_path = path, sc_server_name = raw_server_name r, sc_sender_instances = senders, sc_signing_keys = ks,
            sc_instance_map = instances, sc_redis = redis,
            sc_retry = \<lparr>min_interval = or_default lo (10 * minute),
              multiplier = (if rf_multiplier f \<noteq> 0 then rf_multiplier f else 2),
              max_interval = or_default hi (7 * 24 * hour)\<rparr>,
            sc_database = db, sc_client_timeout = or_default timeout (60 * second),
            sc_max_long_retries = or_default (rf_max_long_retries f) 10,
            sc_max_long_retry_delay = or_default delay (60 * second),
            sc_track_presence = track_presence r,
            sc_device_name_lookup = (raw_device_name_lookup r = Some True),
            sc_domain_whitelist = map_option set (raw_domain_whitelist r)\<rparr>))))))))))"

definition load_with_options ::
  "(string \<Rightarrow> rat option) \<Rightarrow> (string \<Rightarrow> raw_settings option) \<Rightarrow> (string \<Rightarrow> file_read) \<Rightarrow> string \<Rightarrow> string
   \<Rightarrow> settings_error + synapse_config" where
  "load_with_options parse_float unmarshal files path override =
     (case files path of
        FileBytes b \<Rightarrow> (case unmarshal b of None \<Rightarrow> Inl NotYaml | Some r \<Rightarrow> resolve_settings parse_float files path override r)
      | _ \<Rightarrow> Inl CannotReadConfig)"

section \<open>The connection string reads back\<close>

text \<open>
  A reader of keyword/value connection strings, from PostgreSQL's documentation: white space
  separates the settings and may surround the equals sign, a value in single quotes may hold
  anything, and a backslash takes the next character as it is.
\<close>

fun read_quoted :: "string \<Rightarrow> (string \<times> string) option" where
  "read_quoted [] = None"
| "read_quoted (c # cs) =
     (if c = CHR 0x27 then Some ([], cs)
      else if c = CHR 0x5C then (case cs of [] \<Rightarrow> None | d # ds \<Rightarrow> map_option (apfst ((#) d)) (read_quoted ds))
      else map_option (apfst ((#) c)) (read_quoted cs))"

fun read_plain :: "string \<Rightarrow> (string \<times> string) option" where
  "read_plain [] = Some ([], [])"
| "read_plain (c # cs) =
     (if white c then Some ([], c # cs)
      else if c = CHR 0x5C then (case cs of [] \<Rightarrow> None | d # ds \<Rightarrow> map_option (apfst ((#) d)) (read_plain ds))
      else map_option (apfst ((#) c)) (read_plain cs))"

definition read_setting :: "string \<Rightarrow> (string \<times> string) option" where
  "read_setting s = (case s of c # cs \<Rightarrow> if c = CHR 0x27 then read_quoted cs else read_plain s | [] \<Rightarrow> Some ([], []))"

fun read_conninfo :: "nat \<Rightarrow> string \<Rightarrow> (string \<times> string) list option" where
  "read_conninfo 0 s = None"
| "read_conninfo (Suc n) s =
     (if dropWhile white s = [] then Some []
      else case strings_cut (CHR ''='') (dropWhile white s) of (k, rest, found) \<Rightarrow>
        if \<not> found then None
        else case read_setting (dropWhile white rest) of
          None \<Rightarrow> None
        | Some (v, rest') \<Rightarrow> map_option ((#) (takeWhile (\<lambda>c. \<not> white c) k, v)) (read_conninfo n rest'))"

definition conninfo :: "string \<Rightarrow> (string \<times> string) list option" where
  "conninfo s = read_conninfo (Suc (length s)) s"

text \<open>No vertical tab and no form feed: the two white space characters that do not make a value quoted.\<close>

definition plain_white :: "string \<Rightarrow> bool" where
  "plain_white v \<longleftrightarrow> CHR 0x0B \<notin> set v \<and> CHR 0x0C \<notin> set v"

lemma read_quoted_escaped: "read_quoted (concat (map quote_dsn_char v) @ CHR 0x27 # rest) = Some (v, rest)"
  by (induction v) (auto simp: quote_dsn_char_def)

lemma read_plain_word:
  "\<forall>c \<in> set v. \<not> white c \<and> c \<noteq> CHR 0x5C \<Longrightarrow> rest = [] \<or> white (hd rest) \<Longrightarrow> read_plain (v @ rest) = Some (v, rest)"
  by (induction v) (cases rest; auto)+

lemma white_needs_quotes: "plain_white v \<Longrightarrow> c \<in> set v \<Longrightarrow> white c \<Longrightarrow> needs_quotes c"
  by (auto simp: plain_white_def white_def needs_quotes_def)

lemma read_setting_quoted:
  assumes "v \<noteq> []" "plain_white v" "rest = [] \<or> white (hd rest)"
  shows "read_setting (dropWhile white (quote_dsn_value v @ rest)) = Some (v, rest)"
proof (cases "list_ex needs_quotes v")
  case True
  then show ?thesis by (simp add: quote_dsn_value_def read_setting_def read_quoted_escaped white_def)
next
  case False
  then have no: "\<forall>c \<in> set v. \<not> needs_quotes c" by (simp add: list_ex_iff)
  then have w: "\<forall>c \<in> set v. \<not> white c \<and> c \<noteq> CHR 0x5C \<and> c \<noteq> CHR 0x27"
    using white_needs_quotes [OF assms(2)] by (fastforce simp: needs_quotes_def)
  obtain c cs where v: "v = c # cs" using assms(1) by (cases v) auto
  have "quote_dsn_value v = v" using False by (simp add: quote_dsn_value_def)
  moreover have "dropWhile white (v @ rest) = v @ rest" using w by (simp add: v)
  moreover have "read_setting (v @ rest) = read_plain (v @ rest)" using w by (simp add: v read_setting_def)
  ultimately show ?thesis using read_plain_word [of v rest] w assms(3) by simp
qed

definition setting_text :: "string \<times> string \<Rightarrow> string" where
  "setting_text p = fst p @ ''='' @ quote_dsn_value (snd p)"

definition key_ok :: "string \<Rightarrow> bool" where
  "key_ok k \<longleftrightarrow> word_ok k \<and> CHR ''='' \<notin> set k"

lemma read_conninfo_space: "read_conninfo (Suc n) (CHR '' '' # s) = read_conninfo (Suc n) s"
proof -
  have "white (CHR '' '')" by (simp add: white_def)
  then have "dropWhile white (CHR '' '' # s) = dropWhile white s" by simp
  then show ?thesis by (simp only: read_conninfo.simps)
qed

lemma read_conninfo_settings:
  assumes "\<forall>p \<in> set (p # ps). key_ok (fst p) \<and> snd p \<noteq> [] \<and> plain_white (snd p)"
  shows "length ps < n \<Longrightarrow> read_conninfo (Suc n) (setting_text p @ concat (map (\<lambda>p. CHR '' '' # setting_text p) ps)) = Some (p # ps)"
  using assms
proof (induction ps arbitrary: p n)
  case Nil
  obtain m where n: "n = Suc m" using Nil.prems(1) by (cases n) auto
  have k: "key_ok (fst p)" "snd p \<noteq> []" "plain_white (snd p)" using Nil.prems(2) by simp_all
  then have "dropWhile white (setting_text p) = setting_text p" "setting_text p \<noteq> []"
    by (cases "fst p"; simp add: key_ok_def word_ok_def setting_text_def)+
  moreover have "strings_cut (CHR ''='') (setting_text p) = (fst p, quote_dsn_value (snd p), True)"
    using k strings_cut_found [of "CHR ''=''" "fst p" "quote_dsn_value (snd p)"] by (simp add: setting_text_def key_ok_def)
  moreover have "takeWhile (\<lambda>c. \<not> white c) (fst p) = fst p" using k by (simp add: key_ok_def word_ok_def)
  ultimately show ?case using read_setting_quoted [OF k(2,3), of "[]"] by (simp add: n del: takeWhile_eq_all_conv)
next
  case (Cons q qs)
  obtain m where n: "n = Suc m" "length qs < m" using Cons.prems(1) by (cases n) auto
  have k: "key_ok (fst p)" "snd p \<noteq> []" "plain_white (snd p)" using Cons.prems(2) by simp_all
  let ?rest = "CHR '' '' # setting_text q @ concat (map (\<lambda>p. CHR '' '' # setting_text p) qs)"
  have "dropWhile white (setting_text p @ ?rest) = setting_text p @ ?rest" "setting_text p @ ?rest \<noteq> []"
    using k(1) by (cases "fst p"; simp add: key_ok_def word_ok_def setting_text_def)+
  moreover have "strings_cut (CHR ''='') (setting_text p @ ?rest) = (fst p, quote_dsn_value (snd p) @ ?rest, True)"
    using k strings_cut_found [of "CHR ''=''" "fst p" "quote_dsn_value (snd p) @ ?rest"] by (simp add: setting_text_def key_ok_def)
  moreover have "takeWhile (\<lambda>c. \<not> white c) (fst p) = fst p" using k by (simp add: key_ok_def word_ok_def)
  moreover have "read_conninfo (Suc m) ?rest = Some (q # qs)"
    unfolding read_conninfo_space by (rule Cons.IH) (use n(2) Cons.prems(2) in simp_all)
  ultimately show ?case using read_setting_quoted [OF k(2,3), of ?rest]
    by (simp add: n white_def del: takeWhile_eq_all_conv)
qed

definition dsn_settings :: "database_settings \<Rightarrow> (string \<times> string) list" where
  "dsn_settings d =
     [(''host'', ds_host d), (''port'', if ds_port d = 0 then [] else format_int (ds_port d)), (''user'', ds_user d),
      (''password'', ds_password d), (''dbname'', ds_dbname d), (''sslmode'', ds_sslmode d)]"

abbreviation given :: "(string \<times> string) list \<Rightarrow> (string \<times> string) list" where
  "given ps \<equiv> filter (\<lambda>p. snd p \<noteq> []) ps"

lemma dsn_fold_on:
  "b \<noteq> [] \<Longrightarrow> fold (\<lambda>p. dsn_add (fst p) (snd p)) ps b = b @ concat (map (\<lambda>p. CHR '' '' # setting_text p) (given ps))"
  by (induction ps arbitrary: b) (auto simp: dsn_add_def setting_text_def)

lemma dsn_fold:
  "fold (\<lambda>p. dsn_add (fst p) (snd p)) ps [] =
     (case given ps of [] \<Rightarrow> [] | p # qs \<Rightarrow> setting_text p @ concat (map (\<lambda>p. CHR '' '' # setting_text p) qs))"
proof (induction ps)
  case (Cons p ps)
  show ?case
  proof (cases "snd p = []")
    case True
    with Cons show ?thesis by (simp add: dsn_add_def)
  next
    case False
    then have "dsn_add (fst p) (snd p) [] = setting_text p" by (simp add: dsn_add_def setting_text_def)
    moreover have "setting_text p \<noteq> []" by (simp add: setting_text_def)
    ultimately show ?thesis using False dsn_fold_on by simp
  qed
qed simp

lemma database_dsn_fold: "ds_present d \<Longrightarrow> database_dsn d = fold (\<lambda>p. dsn_add (fst p) (snd p)) (dsn_settings d) []"
  by (simp add: database_dsn_def dsn_settings_def Let_def) (simp add: dsn_add_def)

lemma settings_length: "length qs \<le> length (concat (map (\<lambda>p. CHR '' '' # setting_text p) qs))"
  by (induction qs) simp_all

lemma format_int_plain: "plain_white (format_int n)"
  using format_int_facts(2) [of n] by (auto simp: plain_white_def white_def)

text \<open>
  The connection string says what Synapse's file says. Whatever quotes, backslashes, spaces
  and line ends the values hold, a reader of keyword/value strings gets back exactly the settings
  that are given, each under its name; and the form for the log is the same for every password.
  A vertical tab or a form feed alone does not make a value quoted and is excluded.
\<close>

theorem dsn_reads_back:
  assumes "ds_present d" "\<forall>p \<in> set (dsn_settings d). plain_white (snd p)"
  shows "conninfo (database_dsn d) = Some (given (dsn_settings d))
    \<and> (\<forall>w. w \<noteq> [] \<longrightarrow> ds_password d \<noteq> [] \<longrightarrow> database_redacted (d\<lparr>ds_password := w\<rparr>) = database_redacted d)"
proof
  have dsn: "database_dsn d = (case given (dsn_settings d) of [] \<Rightarrow> []
      | p # qs \<Rightarrow> setting_text p @ concat (map (\<lambda>p. CHR '' '' # setting_text p) qs))"
    using database_dsn_fold [OF assms(1)] dsn_fold by simp
  show "conninfo (database_dsn d) = Some (given (dsn_settings d))"
  proof (cases "given (dsn_settings d)")
    case Nil
    then show ?thesis unfolding dsn by (simp add: conninfo_def)
  next
    case (Cons p qs)
    have keys: "\<forall>p \<in> set (dsn_settings d). key_ok (fst p)"
      by (simp add: dsn_settings_def key_ok_def word_ok_def white_def)
    have "set (p # qs) \<subseteq> set (dsn_settings d)" "\<forall>p \<in> set (p # qs). snd p \<noteq> []"
      using arg_cong [OF Cons, of set] by auto
    with keys assms(2) have ok: "\<forall>p \<in> set (p # qs). key_ok (fst p) \<and> snd p \<noteq> [] \<and> plain_white (snd p)" by blast
    have "length qs < length (database_dsn d)"
      using settings_length [of qs] unfolding dsn Cons by (simp add: setting_text_def)
    from read_conninfo_settings [OF ok this] show ?thesis unfolding conninfo_def by (simp add: dsn Cons)
  qed
  show "\<forall>w. w \<noteq> [] \<longrightarrow> ds_password d \<noteq> [] \<longrightarrow> database_redacted (d\<lparr>ds_password := w\<rparr>) = database_redacted d"
    by (simp add: database_redacted_def)
qed

theorem dsn_reads_back_witness:
  "\<exists>d. ds_password d = ''a b'' @ [CHR 0x27, CHR 0x5C] \<and> conninfo (database_dsn d)
     = Some [(''host'', ''/run''), (''port'', ''5432''), (''password'', ''a b'' @ [CHR 0x27, CHR 0x5C]), (''dbname'', ''s'')]"
proof -
  let ?d = "\<lparr>ds_present = True, ds_user = [], ds_password = ''a b'' @ [CHR 0x27, CHR 0x5C], ds_dbname = ''s'',
    ds_host = ''/run'', ds_port = 5432, ds_sslmode = []\<rparr>"
  have "format_nat n = (if n < 10 then [digit_char n] else format_nat (n div 10) @ [digit_char (n mod 10)])" for n
    by (rule format_nat.simps)
  then have "format_int 5432 = ''5432''" by (simp add: format_int_def digit_char_def char_of_eq_iff)
  with dsn_reads_back [of ?d] have "conninfo (database_dsn ?d)
     = Some [(''host'', ''/run''), (''port'', ''5432''), (''password'', ''a b'' @ [CHR 0x27, CHR 0x5C]), (''dbname'', ''s'')]"
    by (simp add: dsn_settings_def plain_white_def)
  then show ?thesis by (intro exI [of _ ?d]) simp
qed

section \<open>The key file reads back\<close>

lemma b64_value_char: "n < 64 \<Longrightarrow> b64_value (b64_char n) = Some n"
  by (simp add: b64_value_def b64_char_def of_char_of Let_def) arith

lemma b64_values: "\<forall>n \<in> set ns. n < 64 \<Longrightarrow> those (map b64_value (map b64_char ns)) = Some ns"
  by (induction ns) (simp_all add: b64_value_char)

lemma b64_encode_small: "\<forall>x \<in> set xs. x < 256 \<Longrightarrow> \<forall>n \<in> set (b64_encode_values xs). n < 64"
  by (induction xs rule: b64_encode_values.induct) auto

lemma sextets:
  assumes "x < (256::nat)" "y < 256" "z < 256"
  shows "4 * (x div 4) + (16 * (x mod 4) + y div 16) div 16 = x"
    "16 * ((16 * (x mod 4) + y div 16) mod 16) + (4 * (y mod 16) + z div 64) div 4 = y"
    "64 * ((4 * (y mod 16) + z div 64) mod 4) + z mod 64 = z"
proof -
  have y: "y div 16 < 16" and z: "z div 64 < 4" using assms by (simp_all add: less_mult_imp_div_less)
  then have "(16 * (x mod 4) + y div 16) div 16 = x mod 4" "(16 * (x mod 4) + y div 16) mod 16 = y div 16"
    "(4 * (y mod 16) + z div 64) div 4 = y mod 16" "(4 * (y mod 16) + z div 64) mod 4 = z div 64"
    by simp_all
  then show "4 * (x div 4) + (16 * (x mod 4) + y div 16) div 16 = x"
    "16 * ((16 * (x mod 4) + y div 16) mod 16) + (4 * (y mod 16) + z div 64) div 4 = y"
    "64 * ((4 * (y mod 16) + z div 64) mod 4) + z mod 64 = z"
    by (simp_all only: mult_div_mod_eq)
qed

lemma b64_decode_encode: "\<forall>x \<in> set xs. x < 256 \<Longrightarrow> b64_decode_values (b64_encode_values xs) = Some (map char_of xs)"
proof (induction xs rule: b64_encode_values.induct)
  case (2 x)
  then show ?case using sextets [of x 0 0] by simp
next
  case (3 x y)
  then show ?case using sextets [of x y 0] by simp
next
  case (4 x y z rest)
  from 4 sextets [of x y z] show ?case by simp
qed simp

lemma seed_round_trip: "raw_b64_decode (encode_seed bytes) = Some bytes"
proof -
  have small: "\<forall>x \<in> set (map of_char bytes). x < (256::nat)" by auto
  then show ?thesis
    using b64_decode_encode [OF small] b64_values [OF b64_encode_small [OF small]]
    by (simp add: raw_b64_decode_def encode_seed_def comp_def)
qed

lemma encode_seed_chars:
  assumes "c \<in> set (encode_seed bytes)"
  shows "\<not> white c"
proof -
  have "\<forall>x \<in> set (map of_char bytes). x < (256::nat)" by auto
  from b64_encode_small [OF this] assms obtain n where "n < 64" "c = b64_char n" by (auto simp: encode_seed_def)
  then have "(of_char c :: nat) > 32" by (simp add: b64_char_def of_char_of) arith
  then show ?thesis by (auto simp: white_def)
qed

lemma encode_seed_ne: "bytes \<noteq> [] \<Longrightarrow> encode_seed bytes \<noteq> []"
  by (cases bytes rule: remdups_adj.cases; cases "tl (tl bytes)") (auto simp: encode_seed_def)

lemma trim_both: "s \<noteq> [] \<Longrightarrow> \<not> white (hd s) \<Longrightarrow> \<not> white (last s) \<Longrightarrow> trim_space s = s"
proof -
  assume s: "s \<noteq> []" "\<not> white (hd s)" "\<not> white (last s)"
  have "dropWhile white s = s" using s by (cases s) simp_all
  moreover have "dropWhile white (rev s) = rev s" using s by (cases s rule: rev_cases) simp_all
  ultimately show ?thesis by (simp add: trim_space_def)
qed

lemma trim_starts: "\<not> white c \<Longrightarrow> \<exists>t. trim_space (c # cs) = c # t"
  by (rule exI [of _ "rev (dropWhile white (rev cs))"]) (auto simp: trim_space_def dropWhile_append)

text \<open>A key file as signedjson writes one, with comments and blank lines between the keys.\<close>

datatype key_line = KeyComment string | KeyBlank | KeyEntry string string

fun key_line_text :: "key_line \<Rightarrow> string" where
  "key_line_text (KeyComment c) = CHR ''#'' # c"
| "key_line_text KeyBlank = []"
| "key_line_text (KeyEntry v bytes) = ''ed25519'' @ CHR '' '' # v @ CHR '' '' # encode_seed bytes"

fun key_line_ok :: "key_line \<Rightarrow> bool" where
  "key_line_ok (KeyComment c) \<longleftrightarrow> CHR 0x0A \<notin> set c"
| "key_line_ok KeyBlank \<longleftrightarrow> True"
| "key_line_ok (KeyEntry v bytes) \<longleftrightarrow> word_ok v \<and> length bytes = 32"

fun key_line_keys :: "key_line \<Rightarrow> server_signing_key list" where
  "key_line_keys (KeyEntry v bytes) = [\<lparr>sk_algorithm = ''ed25519'', sk_version = v, sk_seed = bytes\<rparr>]"
| "key_line_keys _ = []"

lemma parse_key_entry:
  assumes "word_ok v" "length bytes = 32"
  shows "parse_key_lines i (key_line_text (KeyEntry v bytes) # rest) =
    bind_result (parse_key_lines (Suc i) rest) (\<lambda>ks. Inr (\<lparr>sk_algorithm = ''ed25519'', sk_version = v, sk_seed = bytes\<rparr> # ks))"
proof -
  let ?t = "key_line_text (KeyEntry v bytes)"
  have enc: "word_ok (encode_seed bytes)"
  proof -
    have "bytes \<noteq> []" using assms(2) by auto
    then show ?thesis using encode_seed_ne encode_seed_chars by (simp add: word_ok_def)
  qed
  have alg: "word_ok ''ed25519''" by (simp add: word_ok_def white_def)
  have "last ?t = last (encode_seed bytes)" using enc by (simp add: word_ok_def)
  then have "\<not> white (last ?t)" using enc by (simp add: word_ok_def)
  then have trim: "trim_space ?t = ?t" by (intro trim_both) (simp_all add: white_def)
  have fields: "split_fields ?t = [''ed25519'', v, encode_seed bytes]"
    unfolding key_line_text.simps
    by (simp only: split_fields_word(1) [OF alg] split_fields_word(1) [OF assms(1)] split_fields_word(2) [OF enc])
  have "\<not> has_prefix ?t ''#''" "?t \<noteq> []" by (simp_all add: has_prefix_def)
  then show ?thesis using assms(2)
    by (simp add: trim fields seed_round_trip bind_result_def Let_def del: key_line_text.simps)
qed

lemma parse_key_file:
  "\<forall>l \<in> set ls. key_line_ok l \<Longrightarrow> parse_key_lines i (map key_line_text ls @ [[]]) = Inr (concat (map key_line_keys ls))"
proof (induction ls arbitrary: i)
  case Nil
  show ?case by (simp add: trim_space_def)
next
  case (Cons l ls)
  show ?case
  proof (cases l)
    case (KeyComment c)
    obtain t where "trim_space (CHR ''#'' # c) = CHR ''#'' # t" using trim_starts [of "CHR ''#''" c] by (auto simp: white_def)
    with Cons KeyComment show ?thesis by (simp add: has_prefix_def)
  next
    case KeyBlank
    with Cons show ?thesis by (simp add: trim_space_def)
  next
    case (KeyEntry v bytes)
    with Cons parse_key_entry [of v bytes i "map key_line_text ls @ [[]]"] show ?thesis
      by (simp add: bind_result_def del: key_line_text.simps)
  qed
qed

text \<open>
  The key Synapse signs with. From a key file in signedjson's form - comments, blank lines
  and any number of keys - the loader reads exactly the keys, in file order, each with its version
  and its 32 bytes; the key it signs with is the first, and handing that key on as a line of
  the same form, as the worker does to build its signer, loses nothing.
\<close>

theorem keys_read_back:
  assumes "\<forall>l \<in> set ls. key_line_ok l" "concat (map key_line_keys ls) = k # ks"
  shows "parse_signing_keys (concat (map (\<lambda>l. key_line_text l @ [CHR 0x0A]) ls)) = Inr (k # ks)
    \<and> (sc_signing_keys cfg = k # ks \<longrightarrow> config_signing_key cfg = Some k)
    \<and> parse_signing_keys (sk_algorithm k @ '' '' @ sk_version k @ '' '' @ encode_seed (sk_seed k)) = Inr [k]"
proof -
  have nl: "CHR 0x0A \<notin> set (key_line_text l)" if "key_line_ok l" for l
    using that encode_seed_chars by (cases l) (auto simp: word_ok_def white_def)
  have whole: "parse_signing_keys (concat (map (\<lambda>l. key_line_text l @ [CHR 0x0A]) ls)) = Inr (k # ks)"
  proof -
    have "split_on (CHR 0x0A) (concat (map (\<lambda>l. key_line_text l @ [CHR 0x0A]) ls)) = map key_line_text ls @ [[]]"
      using split_on_lines [of "map key_line_text ls" "CHR 0x0A"] assms(1) nl by (auto simp: comp_def)
    then show ?thesis using parse_key_file [OF assms(1), of 0] assms(2) by (simp add: parse_signing_keys_def)
  qed
  have "k \<in> set (concat (map key_line_keys ls))" using assms(2) by simp
  then obtain l where l: "l \<in> set ls" "k \<in> set (key_line_keys l)" by auto
  then have "key_line_ok l" using assms(1) by blast
  with l(2) obtain v bytes where k: "k = \<lparr>sk_algorithm = ''ed25519'', sk_version = v, sk_seed = bytes\<rparr>"
    "key_line_ok (KeyEntry v bytes)" by (cases l) auto
  have one: "split_on c s = [s]" if "c \<notin> set s" for c s using that by (induction s) auto
  have "parse_signing_keys (key_line_text (KeyEntry v bytes)) = Inr [k]"
    using parse_key_entry [of v bytes 0 "[]"] k one [OF nl [OF k(2)]]
    by (simp add: parse_signing_keys_def bind_result_def del: key_line_text.simps)
  then show ?thesis using whole by (simp add: k(1) config_signing_key_def)
qed

theorem keys_read_back_witness:
  "\<exists>k. parse_signing_keys (concat (map (\<lambda>l. key_line_text l @ [CHR 0x0A])
      [KeyComment '' old'', KeyEntry ''a_1'' (replicate 32 (CHR ''x'')), KeyBlank, KeyEntry ''b'' (replicate 32 (CHR ''y''))]))
     = Inr [k, \<lparr>sk_algorithm = ''ed25519'', sk_version = ''b'', sk_seed = replicate 32 (CHR ''y'')\<rparr>] \<and> key_id k = ''ed25519:a_1''"
proof -
  let ?ls = "[KeyComment '' old'', KeyEntry ''a_1'' (replicate 32 (CHR ''x'')), KeyBlank, KeyEntry ''b'' (replicate 32 (CHR ''y''))]"
  have ok: "\<forall>l \<in> set ?ls. key_line_ok l" by (simp add: word_ok_def white_def)
  have ks: "concat (map key_line_keys ?ls) = \<lparr>sk_algorithm = ''ed25519'', sk_version = ''a_1'', sk_seed = replicate 32 (CHR ''x'')\<rparr>
      # [\<lparr>sk_algorithm = ''ed25519'', sk_version = ''b'', sk_seed = replicate 32 (CHR ''y'')\<rparr>]" by simp
  from keys_read_back [OF ok ks] show ?thesis by (auto simp: key_id_def)
qed

end
