(* ===== verification/Config.thy ===== *)
theory Config
  imports SynapseCfg Sharding Worker
begin

text \<open>
  \<open>internal/config\<close>: the worker's own configuration, its validation (\<open>config.go\<close>) and its merge
  with Synapse's (\<open>resolve.go\<close>); and from \<open>cmd/gofederation-worker/main.go\<close> what \<open>newWorker\<close> makes of
  it: where a transaction goes, and which tables may be written. The YAML decoder, which fills a
  struct that already holds the defaults, is an argument. Errors keep the failed check.
\<close>

section \<open>The file\<close>

record shadow_config =
  sh_enabled :: "bool option"
  sh_instance :: string
  sh_difflog_dir :: string
  sh_capture_destinations :: "string list"
  sh_capture_file :: string
  sh_send_only_to :: "string list"
  sh_send_to_all :: bool

record database_config =
  dc_dsn :: string
  dc_max_conns :: int
  dc_connect_timeout :: int
  dc_require_read_only :: bool
  dc_write_dsn :: string

record state_config =
  stc_dsn :: string
  stc_table :: string
  stc_routes_table :: string
  stc_retry_table :: string

record replication_config =
  rc_enabled :: "bool option"
  rc_address :: string
  rc_password :: string
  rc_db :: int
  rc_channel :: string

record queue_config =
  qc_max_concurrent :: int
  qc_max_pdus :: int
  qc_max_edus :: int
  qc_event_batch_limit :: int
  qc_presence_states :: int
  qc_presence_wait_seconds :: int
  qc_id_prefix :: "string option"

record worker_config =
  wc_worker_name :: string
  wc_mode :: string
  wc_synapse_config :: string
  wc_signing_key_path :: string
  wc_shadow :: shadow_config
  wc_host_cache_entries :: int
  wc_database :: database_config
  wc_state :: state_config
  wc_replication :: replication_config
  wc_queue :: queue_config
  wc_metrics_addr :: string
  wc_log_level :: string
  wc_log_pretty :: bool

abbreviation mode_shadow :: string where "mode_shadow \<equiv> ''shadow''"
abbreviation mode_primary :: string where "mode_primary \<equiv> ''primary''"

definition default_config :: worker_config where
  "default_config =
     \<lparr>wc_worker_name = [], wc_mode = [], wc_synapse_config = [], wc_signing_key_path = [],
      wc_shadow = \<lparr>sh_enabled = None, sh_instance = [], sh_difflog_dir = [], sh_capture_destinations = [],
        sh_capture_file = [], sh_send_only_to = [], sh_send_to_all = False\<rparr>,
      wc_host_cache_entries = 4096,
      wc_database = \<lparr>dc_dsn = [], dc_max_conns = 16, dc_connect_timeout = 10, dc_require_read_only = False, dc_write_dsn = []\<rparr>,
      wc_state = \<lparr>stc_dsn = [], stc_table = ''gofederation.stream_positions'',
        stc_routes_table = ''gofederation.destination_rooms'', stc_retry_table = ''gofederation.destination_retry''\<rparr>,
      wc_replication = \<lparr>rc_enabled = None, rc_address = [], rc_password = [], rc_db = 0, rc_channel = []\<rparr>,
      wc_queue = \<lparr>qc_max_concurrent = 2000, qc_max_pdus = 50, qc_max_edus = 100, qc_event_batch_limit = 100,
        qc_presence_states = 50, qc_presence_wait_seconds = 30, qc_id_prefix = None\<rparr>,
      wc_metrics_addr = '':9202'', wc_log_level = ''info'', wc_log_pretty = False\<rparr>"

definition shadow_enabled :: "worker_config \<Rightarrow> bool" where
  "shadow_enabled c \<longleftrightarrow> sh_enabled (wc_shadow c) \<noteq> Some False"

definition replication_enabled :: "worker_config \<Rightarrow> bool" where
  "replication_enabled c \<longleftrightarrow> rc_enabled (wc_replication c) \<noteq> Some False"

definition transaction_id_prefix :: "worker_config \<Rightarrow> string" where
  "transaction_id_prefix c = (case qc_id_prefix (wc_queue c) of None \<Rightarrow> ''gofed-'' | Some p \<Rightarrow> p)"

definition presence_batch_max_wait :: "worker_config \<Rightarrow> duration" where
  "presence_batch_max_wait c = wrap64 (qc_presence_wait_seconds (wc_queue c) * second)"

definition connect_timeout :: "worker_config \<Rightarrow> duration" where
  "connect_timeout c = wrap64 (dc_connect_timeout (wc_database c) * second)"

section \<open>Validation\<close>

datatype config_error =
    BadDocument
  | BadMode
  | PrimaryReadOnly
  | PrimaryShadowing
  | ShadowWrites
  | NoWorkerName
  | NoSynapseConfig
  | NoShadowInstance
  | BadMaxConns
  | NoStateTable
  | BadHostCache
  | BadMaxConcurrent
  | BadLimit string
  | BadPresenceBatch
  | UnclearSending
  | ContradictorySending
  | NoCaptureFile
  | NoDifflogDir
  | BadLogLevel
  | ShadowIsSender
  | OwnsNothing
  | NoRedisAddress
  | NoSigningKeys
  | NothingToConnectTo
  | ReadOnlyOverSynapse
  | NothingToWriteTo

text \<open>The checks in the order they are made; the first that fails is the answer.\<close>

definition limits_error :: "queue_config \<Rightarrow> config_error option" where
  "limits_error q =
     first_some (\<lambda>(name, v). if v < 1 then Some (BadLimit name) else None)
       [(''queue.max_pdus_per_transaction'', qc_max_pdus q), (''queue.max_edus_per_transaction'', qc_max_edus q),
        (''queue.event_batch_limit'', qc_event_batch_limit q)]"

definition config_checks :: "worker_config \<Rightarrow> config_error option list" where
  "config_checks c =
     (let check = (\<lambda>bad e. if bad then Some e else None); sh = wc_shadow c; db = wc_database c; q = wc_queue c;
          primary = (wc_mode c = mode_primary); shadow = (wc_mode c = mode_shadow)
      in [check (primary \<and> dc_require_read_only db) PrimaryReadOnly,
          check (primary \<and> shadow_enabled c) PrimaryShadowing,
          check (shadow \<and> dc_write_dsn db \<noteq> []) ShadowWrites,
          check (wc_worker_name c = []) NoWorkerName,
          check (wc_synapse_config c = []) NoSynapseConfig,
          check (shadow \<and> sh_instance sh = []) NoShadowInstance,
          check (dc_max_conns db < 1) BadMaxConns,
          check (stc_table (wc_state c) = []) NoStateTable,
          check (wc_host_cache_entries c < 1) BadHostCache,
          check (qc_max_concurrent q < 1) BadMaxConcurrent,
          limits_error q,
          check (qc_presence_states q < 0 \<or> qc_presence_wait_seconds q < 0) BadPresenceBatch,
          check (\<not> shadow_enabled c \<and> \<not> sh_send_to_all sh \<and> sh_send_only_to sh = []) UnclearSending,
          check (\<not> shadow_enabled c \<and> sh_send_to_all sh \<and> sh_send_only_to sh \<noteq> []) ContradictorySending,
          check (sh_capture_destinations sh \<noteq> [] \<and> sh_capture_file sh = []) NoCaptureFile,
          check (shadow \<and> shadow_enabled c \<and> sh_difflog_dir sh = []) NoDifflogDir,
          check (wc_log_level c \<notin> set [''trace'', ''debug'', ''info'', ''warn'', ''error'', ''fatal'', ''panic'', []]) BadLogLevel])"

definition validate_config :: "worker_config \<Rightarrow> config_error + worker_config" where
  "validate_config c0 =
     (if wc_mode c0 \<notin> set [[], mode_shadow, mode_primary] then Inl BadMode
      else let c = c0\<lparr>wc_mode := (if wc_mode c0 = mode_primary then mode_primary else mode_shadow)\<rparr>
           in case first_some id (config_checks c) of Some e \<Rightarrow> Inl e | None \<Rightarrow> Inr c)"

definition parse_config :: "(string \<Rightarrow> worker_config \<Rightarrow> worker_config option) \<Rightarrow> string \<Rightarrow> config_error + worker_config" where
  "parse_config decode doc =
     (case decode doc default_config of None \<Rightarrow> Inl BadDocument | Some c \<Rightarrow> validate_config c)"

section \<open>Merging with Synapse's\<close>

record resolved =
  re_config :: worker_config
  re_synapse :: synapse_config
  re_server_name :: string
  re_worker_name :: string
  re_shard_instance :: string
  re_shard :: shard_config
  re_redis_address :: string
  re_redis_channel :: string
  re_database_dsn :: string
  re_state_dsn :: string
  re_write_dsn :: string
  re_database_from_synapse :: bool

definition resolve_databases :: "resolved \<Rightarrow> config_error + resolved" where
  "resolve_databases r =
     (let c = re_config r; db = wc_database c; derived = database_dsn (sc_database (re_synapse r));
          from_synapse = (dc_dsn db = []); dsn = (if from_synapse then derived else dc_dsn db)
      in if from_synapse \<and> derived = [] then Inl NothingToConnectTo
         else if from_synapse \<and> dc_require_read_only db then Inl ReadOnlyOverSynapse
         else let state = (if stc_dsn (wc_state c) = [] then dsn else stc_dsn (wc_state c));
                  out = r\<lparr>re_database_dsn := dsn, re_database_from_synapse := from_synapse, re_state_dsn := state\<rparr>
              in if wc_mode c \<noteq> mode_primary then Inr out
                 else if dc_write_dsn db \<noteq> [] then Inr (out\<lparr>re_write_dsn := dc_write_dsn db\<rparr>)
                 else if derived = [] then Inl NothingToWriteTo
                 else Inr (out\<lparr>re_write_dsn := derived\<rparr>))"

definition resolve_config :: "worker_config \<Rightarrow> synapse_config \<Rightarrow> config_error + resolved" where
  "resolve_config c s =
     (let senders = sc_sender_instances s;
          shard = (if wc_mode c = mode_primary then wc_worker_name c else sh_instance (wc_shadow c));
          redis = (if rc_address (wc_replication c) \<noteq> [] then rc_address (wc_replication c)
                   else if rs_socket (sc_redis s) \<noteq> [] then rs_socket (sc_redis s) else rs_addr (sc_redis s));
          channel = (if rc_channel (wc_replication c) = [] then sc_server_name s else rc_channel (wc_replication c))
      in if wc_mode c \<noteq> mode_primary \<and> wc_worker_name c \<in> set senders then Inl ShadowIsSender
         else if shard \<notin> set senders then Inl OwnsNothing
         else if replication_enabled c \<and> redis = [] then Inl NoRedisAddress
         else if sc_signing_keys s = [] then Inl NoSigningKeys
         else resolve_databases
           \<lparr>re_config = c, re_synapse = s, re_server_name = sc_server_name s, re_worker_name = wc_worker_name c,
            re_shard_instance = shard, re_shard = new_shards senders, re_redis_address = redis, re_redis_channel = channel,
            re_database_dsn = [], re_state_dsn = [], re_write_dsn = [], re_database_from_synapse = False\<rparr>)"

definition resolved_should_handle :: "resolved \<Rightarrow> string \<Rightarrow> bool" where
  "resolved_should_handle r d = should_handle (re_shard r) (re_shard_instance r) d"

definition resolved_is_mine :: "resolved \<Rightarrow> string \<Rightarrow> bool" where
  "resolved_is_mine r i = (case strings_cut (CHR '':'') i of (_, domain, ok) \<Rightarrow> ok \<and> domain = re_server_name r)"

section \<open>What the worker is built from\<close>

text \<open>The sink of \<open>newWorker\<close>: the HTTP sender exists outside shadow mode only, behind the allowlist.\<close>

definition worker_router :: "resolved \<Rightarrow> router option" where
  "worker_router r =
     (let c = re_config r in
      if shadow_enabled c then None else Some (new_router (sh_send_only_to (wc_shadow c)) (sh_send_to_all (wc_shadow c))))"

definition worker_sink :: "resolved \<Rightarrow> string \<Rightarrow> sink_used" where
  "worker_sink r d = (case worker_router r of None \<Rightarrow> DrySink | Some rt \<Rightarrow> router_send rt d)"

definition worker_http :: "resolved \<Rightarrow> http_sink" where
  "worker_http r = new_http (sc_max_long_retries (re_synapse r)) (sc_max_long_retry_delay (re_synapse r))"

text \<open>The writable handle is opened in primary mode only.\<close>

definition worker_tables :: "resolved \<Rightarrow> synapse_db \<Rightarrow> state_store \<Rightarrow> worker" where
  "worker_tables r db own =
     \<lparr>wk_writer = (wc_mode (re_config r) = mode_primary), wk_primary = (wc_mode (re_config r) = mode_primary),
      wk_name = re_worker_name r, wk_db = db, wk_own = Some own\<rparr>"

section \<open>What an accepted configuration allows\<close>

lemma first_some_None: "first_some g xs = None \<longleftrightarrow> (\<forall>x \<in> set xs. g x = None)"
  by (induction xs) (auto split: option.splits)

lemma limits_ok: "limits_error q = None \<longleftrightarrow> 1 \<le> qc_max_pdus q \<and> 1 \<le> qc_max_edus q \<and> 1 \<le> qc_event_batch_limit q"
  by (auto simp: limits_error_def)

lemma parsed_checks:
  assumes "parse_config decode doc = Inr c"
  shows "wc_mode c \<in> {mode_shadow, mode_primary}" "\<forall>x \<in> set (config_checks c). x = None"
proof -
  from assms obtain c0 where "validate_config c0 = Inr c" by (auto simp: parse_config_def split: option.splits)
  then have "wc_mode c \<in> {mode_shadow, mode_primary} \<and> first_some id (config_checks c) = None"
    by (auto simp: validate_config_def Let_def split: if_splits option.splits)
  then show "wc_mode c \<in> {mode_shadow, mode_primary}" "\<forall>x \<in> set (config_checks c). x = None"
    by (auto simp: first_some_None)
qed

lemma resolved_databases:
  assumes "resolve_databases r0 = Inr r"
  shows "re_config r = re_config r0 \<and> re_synapse r = re_synapse r0 \<and> re_server_name r = re_server_name r0
      \<and> re_shard r = re_shard r0 \<and> re_shard_instance r = re_shard_instance r0 \<and> re_worker_name r = re_worker_name r0
      \<and> re_redis_address r = re_redis_address r0"
    "re_write_dsn r = (if wc_mode (re_config r0) \<noteq> mode_primary then re_write_dsn r0
       else if dc_write_dsn (wc_database (re_config r0)) \<noteq> [] then dc_write_dsn (wc_database (re_config r0))
       else database_dsn (sc_database (re_synapse r0)))"
    "wc_mode (re_config r0) = mode_primary \<longrightarrow> re_write_dsn r \<noteq> []"
    "re_database_dsn r \<noteq> []" "re_state_dsn r \<noteq> []"
    "re_database_from_synapse r \<longrightarrow> \<not> dc_require_read_only (wc_database (re_config r0))"
  using assms unfolding resolve_databases_def Let_def
  by (simp_all split: if_splits) (clarsimp split: if_splits)+

lemma resolved_shape:
  assumes "resolve_config c s = Inr r"
  obtains r0 where "resolve_databases r0 = Inr r" "re_config r0 = c" "re_synapse r0 = s" "re_server_name r0 = sc_server_name s"
    "re_shard r0 = new_shards (sc_sender_instances s)" "re_worker_name r0 = wc_worker_name c" "re_write_dsn r0 = []"
    "re_shard_instance r0 = (if wc_mode c = mode_primary then wc_worker_name c else sh_instance (wc_shadow c))"
    "re_shard_instance r0 \<in> set (sc_sender_instances s)"
    "wc_mode c \<noteq> mode_primary \<longrightarrow> wc_worker_name c \<notin> set (sc_sender_instances s)"
    "replication_enabled c \<longrightarrow> re_redis_address r0 \<noteq> []" "sc_signing_keys s \<noteq> []"
proof -
  let ?shard = "if wc_mode c = mode_primary then wc_worker_name c else sh_instance (wc_shadow c)"
  let ?redis = "if rc_address (wc_replication c) \<noteq> [] then rc_address (wc_replication c)
                   else if rs_socket (sc_redis s) \<noteq> [] then rs_socket (sc_redis s) else rs_addr (sc_redis s)"
  let ?channel = "if rc_channel (wc_replication c) = [] then sc_server_name s else rc_channel (wc_replication c)"
  let ?r0 = "\<lparr>re_config = c, re_synapse = s, re_server_name = sc_server_name s, re_worker_name = wc_worker_name c,
            re_shard_instance = ?shard, re_shard = new_shards (sc_sender_instances s), re_redis_address = ?redis,
            re_redis_channel = ?channel, re_database_dsn = [], re_state_dsn = [], re_write_dsn = [], re_database_from_synapse = False\<rparr>"
  define shard redis where "shard = ?shard" and "redis = ?redis"
  have run: "(if wc_mode c \<noteq> mode_primary \<and> wc_worker_name c \<in> set (sc_sender_instances s) then Inl ShadowIsSender
      else if shard \<notin> set (sc_sender_instances s) then Inl OwnsNothing
      else if replication_enabled c \<and> redis = [] then Inl NoRedisAddress
      else if sc_signing_keys s = [] then Inl NoSigningKeys
      else resolve_databases ?r0) = Inr r"
    using assms by (simp only: resolve_config_def Let_def shard_def redis_def)
  then have "\<not> (wc_mode c \<noteq> mode_primary \<and> wc_worker_name c \<in> set (sc_sender_instances s))" "shard \<in> set (sc_sender_instances s)"
    "\<not> (replication_enabled c \<and> redis = [])" "sc_signing_keys s \<noteq> []" "resolve_databases ?r0 = Inr r"
    by (simp_all only: sum.distinct split: if_splits) simp_all
  then show thesis unfolding shard_def redis_def by (intro that [of ?r0]) auto
qed

text \<open>
  C29. What an accepted configuration allows. A shadow has no writable connection and a name of
  its own; a primary is one of Synapse's senders under its own name, has a writable connection and
  does not shadow. Either way the shard taken belongs to a configured sender, so that with
  distinct senders the worker handles exactly the destinations the partition gives that one.
  Nothing reaches the network in shadow mode, and outside it exactly one of the two options says
  where: everywhere, or to the listed destinations alone.
\<close>

theorem accepted_config:
  assumes "parse_config decode doc = Inr c" "resolve_config c s = Inr r"
  shows "(wc_mode c = mode_shadow \<longrightarrow> re_write_dsn r = [] \<and> dc_write_dsn (wc_database c) = []
        \<and> re_worker_name r \<notin> set (sc_sender_instances s) \<and> \<not> wk_writer (worker_tables r db own))
    \<and> (wc_mode c \<noteq> mode_shadow \<longrightarrow> wc_mode c = mode_primary \<and> re_write_dsn r \<noteq> [] \<and> re_shard_instance r = re_worker_name r
        \<and> \<not> shadow_enabled c \<and> \<not> dc_require_read_only (wc_database c))
    \<and> re_shard_instance r \<in> set (sc_sender_instances s)
    \<and> (resolved_should_handle r d \<longleftrightarrow> synapse_instance (sc_sender_instances s) d = re_shard_instance r)
    \<and> (worker_sink r d = LiveSink \<longleftrightarrow> \<not> shadow_enabled c
        \<and> (sh_send_to_all (wc_shadow c) \<or> d \<in> trim_space ` set (sh_send_only_to (wc_shadow c))))
    \<and> (\<not> shadow_enabled c \<longrightarrow> sh_send_to_all (wc_shadow c) \<longleftrightarrow> sh_send_only_to (wc_shadow c) = [])
    \<and> 1 \<le> qc_max_pdus (wc_queue c) \<and> 1 \<le> qc_max_edus (wc_queue c) \<and> 1 \<le> qc_event_batch_limit (wc_queue c)
    \<and> re_database_dsn r \<noteq> [] \<and> re_state_dsn r \<noteq> [] \<and> config_signing_key s \<noteq> None"
proof -
  note P = parsed_checks [OF assms(1)]
  obtain r0 where r0: "resolve_databases r0 = Inr r" "re_config r0 = c" "re_synapse r0 = s"
    "re_shard r0 = new_shards (sc_sender_instances s)" "re_worker_name r0 = wc_worker_name c" "re_write_dsn r0 = []"
    "re_shard_instance r0 = (if wc_mode c = mode_primary then wc_worker_name c else sh_instance (wc_shadow c))"
    "re_shard_instance r0 \<in> set (sc_sender_instances s)"
    "wc_mode c \<noteq> mode_primary \<longrightarrow> wc_worker_name c \<notin> set (sc_sender_instances s)" "sc_signing_keys s \<noteq> []"
    by (rule resolved_shape [OF assms(2)])
  note D = resolved_databases [OF r0(1), unfolded r0(2)]
  have R: "re_config r = c" "re_shard r = new_shards (sc_sender_instances s)" "re_worker_name r = wc_worker_name c"
    "re_shard_instance r = (if wc_mode c = mode_primary then wc_worker_name c else sh_instance (wc_shadow c))"
    "re_shard_instance r \<in> set (sc_sender_instances s)" "wc_mode c \<noteq> mode_primary \<longrightarrow> re_write_dsn r = []"
    using D(1,2) r0 by simp_all
  have checks: "wc_mode c = mode_primary \<longrightarrow> \<not> dc_require_read_only (wc_database c)" "wc_mode c = mode_primary \<longrightarrow> \<not> shadow_enabled c"
    "wc_mode c = mode_shadow \<longrightarrow> dc_write_dsn (wc_database c) = []" "limits_error (wc_queue c) = None"
    "\<not> shadow_enabled c \<longrightarrow> sh_send_to_all (wc_shadow c) \<longleftrightarrow> sh_send_only_to (wc_shadow c) = []"
    using P(2) by (auto simp: config_checks_def Let_def split: if_splits)
  have ne: "sc_sender_instances s \<noteq> []" using R(5) by auto
  have "resolved_should_handle r d \<longleftrightarrow> synapse_instance (sc_sender_instances s) d = re_shard_instance r"
    using get_instance_eq [OF ne, of d] ne by (simp add: resolved_should_handle_def R(2) should_handle_def new_shards_def)
  moreover have "worker_sink r d = LiveSink \<longleftrightarrow> \<not> shadow_enabled c
      \<and> (sh_send_to_all (wc_shadow c) \<or> d \<in> trim_space ` set (sh_send_only_to (wc_shadow c)))"
    by (auto simp: worker_sink_def worker_router_def R(1) Let_def router_send_def router_sends_def new_router_def)
  moreover have "config_signing_key s \<noteq> None" using r0(10) by (simp add: config_signing_key_def split: list.split)
  ultimately show ?thesis using P(1) R r0(9) checks limits_ok [of "wc_queue c"] D(3,4,5)
    by (auto simp: worker_tables_def)
qed

text \<open>A shadow of one of two senders, and Synapse's configuration for it.\<close>

definition sample_config :: worker_config where
  "sample_config = default_config\<lparr>wc_worker_name := ''w'', wc_mode := mode_shadow, wc_synapse_config := ''/h.yaml'',
     wc_shadow := (wc_shadow default_config)\<lparr>sh_instance := ''s2'', sh_difflog_dir := ''/d''\<rparr>\<rparr>"

definition sample_synapse_config :: synapse_config where
  "sample_synapse_config =
     \<lparr>sc_path = ''/h.yaml'', sc_server_name = ''us'', sc_sender_instances = [''s1'', ''s2''],
      sc_signing_keys = [\<lparr>sk_algorithm = ''ed25519'', sk_version = ''a'', sk_seed = replicate 32 (CHR ''x'')\<rparr>],
      sc_instance_map = Map.empty,
      sc_redis = \<lparr>rs_enabled = True, rs_socket = ''/r'', rs_addr = [], rs_password = [], rs_dbid = 0\<rparr>,
      sc_retry = \<lparr>min_interval = 10 * minute, multiplier = 2, max_interval = 24 * hour\<rparr>,
      sc_database = no_database\<lparr>ds_present := True, ds_dbname := ''synapse''\<rparr>,
      sc_client_timeout = 60 * second, sc_max_long_retries = 10, sc_max_long_retry_delay = 60 * second,
      sc_track_presence = True, sc_device_name_lookup = False, sc_domain_whitelist = None\<rparr>"

lemmas sample_config_eval = sample_config_def sample_synapse_config_def default_config_def parse_config_def validate_config_def
  config_checks_def limits_error_def shadow_enabled_def replication_enabled_def resolve_config_def resolve_databases_def
  database_dsn_def dsn_add_def no_database_def Let_def

theorem accepted_config_witness:
  "\<exists>r. parse_config (\<lambda>_ _. Some sample_config) ''doc'' = Inr sample_config
     \<and> resolve_config sample_config sample_synapse_config = Inr r \<and> re_write_dsn r = [] \<and> worker_sink r ''b'' = DrySink"
proof -
  have c: "parse_config (\<lambda>_ _. Some sample_config) ''doc'' = Inr sample_config" by (simp add: sample_config_eval)
  obtain r where r: "resolve_config sample_config sample_synapse_config = Inr r" by (simp add: sample_config_eval)
  have "wc_mode sample_config = mode_shadow" "shadow_enabled sample_config" by (simp_all add: sample_config_eval)
  then have "re_write_dsn r = []" "worker_sink r ''b'' \<noteq> LiveSink"
    using accepted_config [OF c r, of empty_db sample_state_store "''b''"] by simp_all
  then show ?thesis using c r by (cases "worker_sink r ''b''") auto
qed

text \<open>
  A primary with an allowlist loses what it does not send. Validation accepts a primary that
  sends to listed destinations only, although it is the homeserver's only sender. A transaction to
  any other destination ends in the dry run, which reports a delivery; the bookkeeping of a
  delivered transaction then deletes the to-device messages that were never sent.
\<close>

theorem primary_allowlist_drops:
  assumes "parse_config decode doc = Inr c" "resolve_config c s = Inr r" "wc_mode c = mode_primary"
    and "\<not> sh_send_to_all (wc_shadow c)" "d \<notin> trim_space ` set (sh_send_only_to (wc_shadow c))" "0 < mark"
  shows "worker_sink r d = DrySink \<and> sr_delivered (snd (dry_run_send g body st))
    \<and> db_outbox (wk_db (on_edus_delivered True True d mark 0 (worker_tables r db own)))
        = filter (\<lambda>m. \<not> (td_destination m = d \<and> td_stream_id m \<le> mark)) (db_outbox db)"
proof -
  have "re_config r = c"
    by (rule resolved_shape [OF assms(2)]) (simp add: resolved_databases(1))
  then have "worker_sink r d = DrySink" "wk_writer (worker_tables r db own)" "wk_db (worker_tables r db own) = db"
    using assms(3-5)
    by (auto simp: worker_sink_def worker_router_def Let_def router_send_def router_sends_def new_router_def worker_tables_def)
  with assms(6) show ?thesis
    by (auto simp: dry_run_send_def on_edus_delivered_def delete_device_msgs_def Let_def split: prod.split)
qed

text \<open>A primary that sends to \<open>a\<close> only; a message to \<open>b\<close> is deleted.\<close>

definition sample_primary :: worker_config where
  "sample_primary = sample_config\<lparr>wc_worker_name := ''s1'', wc_mode := mode_primary,
     wc_shadow := (wc_shadow default_config)\<lparr>sh_enabled := Some False, sh_send_only_to := [''a'']\<rparr>\<rparr>"

theorem primary_allowlist_drops_witness:
  "\<exists>r. parse_config (\<lambda>_ _. Some sample_primary) ''doc'' = Inr sample_primary
     \<and> resolve_config sample_primary sample_synapse_config = Inr r \<and> worker_sink r ''b'' = DrySink
     \<and> db_outbox (wk_db (on_edus_delivered True True ''b'' 5 0
         (worker_tables r (empty_db\<lparr>db_outbox := sample_outbox\<rparr>) sample_state_store)))
       = [\<lparr>td_destination = ''c'', td_stream_id = 4, td_messages = ''{}''\<rparr>, \<lparr>td_destination = ''b'', td_stream_id = 8, td_messages = ''{}''\<rparr>]"
proof -
  have c: "parse_config (\<lambda>_ _. Some sample_primary) ''doc'' = Inr sample_primary"
    by (simp add: sample_primary_def sample_config_eval)
  obtain r where r: "resolve_config sample_primary sample_synapse_config = Inr r"
    by (simp add: sample_primary_def sample_config_eval)
  have "wc_mode sample_primary = mode_primary" "\<not> sh_send_to_all (wc_shadow sample_primary)"
    "''b'' \<notin> trim_space ` set (sh_send_only_to (wc_shadow sample_primary))" "(0::int) < 5"
    by (simp_all add: sample_primary_def sample_config_def default_config_def trim_space_def white_def)
  from primary_allowlist_drops [OF c r this] c r show ?thesis by (simp add: sample_outbox_def)
qed

end
