(* ===== verification/RouteCompare.thy ===== *)
theory RouteCompare
  imports Prelude "HOL-Library.Product_Lexorder"
begin

text \<open>
  \<open>internal/compare\<close>: this worker's routing against Synapse's own \<open>destination_rooms\<close>. Both tables
  hold one mark per pair of destination and room, the stream ordering of the newest event routed.
  A Go map of marks is an association list with distinct keys, in the order the map is walked;
  what the comparison answers does not depend on it. Orderings do not come near \<open>int64\<close>'s ends.
\<close>

section \<open>Data\<close>

type_synonym route_key = "string \<times> string"
type_synonym routes = "(route_key \<times> int) list"

datatype kind = KindMissing | KindExtra | KindAhead

record disagreement =
  dg_key :: route_key
  dg_synapse :: int
  dg_ours :: int
  dg_kind :: kind

record report =
  rp_horizon :: int
  rp_floor :: int
  rp_skipped :: nat
  rp_unsettled :: nat
  rp_pairs :: nat
  rp_agreed :: nat
  rp_disagreements :: "disagreement list"
  rp_counts :: "kind \<Rightarrow> nat"

definition empty_report :: "int \<Rightarrow> int \<Rightarrow> report" where
  "empty_report horizon floor_at =
     \<lparr>rp_horizon = horizon, rp_floor = floor_at, rp_skipped = 0, rp_unsettled = 0, rp_pairs = 0, rp_agreed = 0,
      rp_disagreements = [], rp_counts = (\<lambda>_. 0)\<rparr>"

definition agreement_rate :: "report \<Rightarrow> rat" where
  "agreement_rate r = (if rp_pairs r = 0 then 1 else of_nat (rp_agreed r) / of_nat (rp_pairs r))"

definition comparer_settle :: "int \<Rightarrow> int" where
  "comparer_settle settle = (if settle \<le> 0 then 5000 else settle)"

section \<open>The comparison\<close>

definition add_disagreement :: "disagreement \<Rightarrow> report \<Rightarrow> report" where
  "add_disagreement d r =
     r\<lparr>rp_disagreements := rp_disagreements r @ [d], rp_counts := (rp_counts r)(dg_kind d := Suc (rp_counts r (dg_kind d)))\<rparr>"

definition classify :: "route_key \<Rightarrow> int \<Rightarrow> int \<Rightarrow> int \<Rightarrow> int \<Rightarrow> report \<Rightarrow> report" where
  "classify k synapse ours floor_at horizon r =
     (if synapse < floor_at \<and> ours < floor_at then r\<lparr>rp_skipped := Suc (rp_skipped r)\<rparr>
      else if synapse > horizon \<or> ours > horizon then r\<lparr>rp_unsettled := Suc (rp_unsettled r)\<rparr>
      else let r = r\<lparr>rp_pairs := Suc (rp_pairs r)\<rparr>
           in if ours = synapse then r\<lparr>rp_agreed := Suc (rp_agreed r)\<rparr>
              else add_disagreement \<lparr>dg_key = k, dg_synapse = synapse, dg_ours = ours,
                dg_kind = (if ours < synapse then KindMissing else KindExtra)\<rparr> r)"

fun kind_rank :: "kind \<Rightarrow> nat" where
  "kind_rank KindMissing = 0"
| "kind_rank KindExtra = 1"
| "kind_rank KindAhead = 2"

text \<open>A missing key reads as zero.\<close>

definition mark_of :: "routes \<Rightarrow> route_key \<Rightarrow> int" where
  "mark_of rs k = (case map_of rs k of None \<Rightarrow> 0 | Some v \<Rightarrow> v)"

definition compare_routes :: "int \<Rightarrow> int \<Rightarrow> int \<Rightarrow> routes \<Rightarrow> routes \<Rightarrow> report" where
  "compare_routes settle floor_at newest synapse ours =
     (let horizon = newest - settle
      in if horizon \<le> 0 \<or> horizon < floor_at then empty_report 0 floor_at
         else let r1 = fold (\<lambda>(k, s) r. classify k s (mark_of ours k) floor_at horizon r) synapse (empty_report horizon floor_at);
                  r2 = fold (\<lambda>(k, o') r. if k \<in> fst ` set synapse then r else classify k 0 o' floor_at horizon r) ours r1
              in r2\<lparr>rp_disagreements := sort_key (\<lambda>d. (kind_rank (dg_kind d), dg_key d)) (rp_disagreements r2)\<rparr>)"

section \<open>The two records\<close>

text \<open>\<open>should_own\<close> is the shard filter; rows of other instances are not ours.\<close>

definition synapse_routes :: "(string \<Rightarrow> bool) \<Rightarrow> routes \<Rightarrow> routes" where
  "synapse_routes should_own rows = filter (\<lambda>((d, room), so). should_own d) rows"

definition our_routes :: "string \<Rightarrow> ((string \<times> route_key) \<times> int) list \<Rightarrow> routes" where
  "our_routes inst rows = map (\<lambda>((i, k), so). (k, so)) (filter (\<lambda>((i, k), so). i = inst) rows)"

section \<open>What the report says\<close>

definition pair_skipped :: "int \<Rightarrow> int \<Rightarrow> int \<Rightarrow> bool" where
  "pair_skipped floor_at s ours \<longleftrightarrow> s < floor_at \<and> ours < floor_at"

definition pair_unsettled :: "int \<Rightarrow> int \<Rightarrow> int \<Rightarrow> int \<Rightarrow> bool" where
  "pair_unsettled floor_at horizon s ours \<longleftrightarrow> \<not> pair_skipped floor_at s ours \<and> (s > horizon \<or> ours > horizon)"

definition pair_settled :: "int \<Rightarrow> int \<Rightarrow> int \<Rightarrow> int \<Rightarrow> bool" where
  "pair_settled floor_at horizon s ours \<longleftrightarrow> \<not> pair_skipped floor_at s ours \<and> s \<le> horizon \<and> ours \<le> horizon"

definition disagreement_at :: "routes \<Rightarrow> routes \<Rightarrow> route_key \<Rightarrow> disagreement" where
  "disagreement_at synapse ours k =
     \<lparr>dg_key = k, dg_synapse = mark_of synapse k, dg_ours = mark_of ours k,
      dg_kind = (if mark_of ours k < mark_of synapse k then KindMissing else KindExtra)\<rparr>"

definition compared_keys :: "routes \<Rightarrow> routes \<Rightarrow> route_key list" where
  "compared_keys synapse ours = map fst synapse @ filter (\<lambda>k. k \<notin> fst ` set synapse) (map fst ours)"

lemma compared_keys_facts:
  assumes "distinct (map fst synapse)" "distinct (map fst ours)"
  shows "distinct (compared_keys synapse ours)" "set (compared_keys synapse ours) = fst ` set synapse \<union> fst ` set ours"
  using assms by (auto simp: compared_keys_def)

lemma mark_of_mem: "distinct (map fst rs) \<Longrightarrow> (k, v) \<in> set rs \<Longrightarrow> mark_of rs k = v"
  by (simp add: mark_of_def)

lemma mark_of_missing: "k \<notin> fst ` set rs \<Longrightarrow> mark_of rs k = 0"
  by (simp add: mark_of_def map_of_eq_None_iff [THEN iffD2])

lemma fold_classify:
  assumes "distinct (map fst synapse)" "distinct (map fst ours)"
  shows "fold (\<lambda>(k, o') r. if k \<in> fst ` set synapse then r else classify k 0 o' f h r) ours
      (fold (\<lambda>(k, s) r. classify k s (mark_of ours k) f h r) synapse r0)
    = fold (\<lambda>k. classify k (mark_of synapse k) (mark_of ours k) f h) (compared_keys synapse ours) r0"
proof -
  have left: "fold (\<lambda>(k, s) r. classify k s (mark_of ours k) f h r) xs r
      = fold (\<lambda>k. classify k (mark_of synapse k) (mark_of ours k) f h) (map fst xs) r" if "set xs \<subseteq> set synapse" for xs r
    using that by (induction xs arbitrary: r) (auto simp: mark_of_mem [OF assms(1)])
  have right: "fold (\<lambda>(k, o') r. if k \<in> K then r else classify k 0 o' f h r) xs r
      = fold (\<lambda>k. classify k (mark_of synapse k) (mark_of ours k) f h) (filter (\<lambda>k. k \<notin> K) (map fst xs)) r"
    if "set xs \<subseteq> set ours" "\<forall>k. k \<notin> K \<longrightarrow> mark_of synapse k = 0" for K xs r
    using that by (induction xs arbitrary: r) (auto simp: mark_of_mem [OF assms(2)])
  have "\<forall>k. k \<notin> fst ` set synapse \<longrightarrow> mark_of synapse k = 0" using mark_of_missing by blast
  note right = right [OF subset_refl this]
  show ?thesis by (simp add: left right compared_keys_def)
qed

lemma classify_keys:
  fixes f h :: int and synapse ours :: routes
  defines "bad \<equiv> \<lambda>k. pair_settled f h (mark_of synapse k) (mark_of ours k) \<and> mark_of ours k \<noteq> mark_of synapse k"
  shows "fold (\<lambda>k. classify k (mark_of synapse k) (mark_of ours k) f h) ks r
    = r\<lparr>rp_skipped := rp_skipped r + length (filter (\<lambda>k. pair_skipped f (mark_of synapse k) (mark_of ours k)) ks),
        rp_unsettled := rp_unsettled r + length (filter (\<lambda>k. pair_unsettled f h (mark_of synapse k) (mark_of ours k)) ks),
        rp_pairs := rp_pairs r + length (filter (\<lambda>k. pair_settled f h (mark_of synapse k) (mark_of ours k)) ks),
        rp_agreed := rp_agreed r
          + length (filter (\<lambda>k. pair_settled f h (mark_of synapse k) (mark_of ours k) \<and> mark_of ours k = mark_of synapse k) ks),
        rp_disagreements := rp_disagreements r @ map (disagreement_at synapse ours) (filter bad ks),
        rp_counts := (\<lambda>x. rp_counts r x + length (filter (\<lambda>d. dg_kind d = x) (map (disagreement_at synapse ours) (filter bad ks))))\<rparr>"
proof (induction ks arbitrary: r)
  case (Cons k ks)
  let ?s = "mark_of synapse k" and ?o = "mark_of ours k"
  note defs = pair_skipped_def pair_unsettled_def pair_settled_def
  consider "pair_skipped f ?s ?o" | "pair_unsettled f h ?s ?o" | "pair_settled f h ?s ?o" "?o = ?s" | "bad k"
    unfolding defs bad_def not_less [symmetric] by blast
  then show ?case
  proof cases
    case 1
    then have "classify k ?s ?o f h r = r\<lparr>rp_skipped := Suc (rp_skipped r)\<rparr>" "\<not> pair_unsettled f h ?s ?o" "\<not> pair_settled f h ?s ?o"
      by (simp_all add: classify_def defs)
    with 1 show ?thesis by (simp add: Cons.IH bad_def)
  next
    case 2
    then have "classify k ?s ?o f h r = r\<lparr>rp_unsettled := Suc (rp_unsettled r)\<rparr>" "\<not> pair_skipped f ?s ?o" "\<not> pair_settled f h ?s ?o"
      unfolding classify_def defs by (simp_all add: not_le)
    with 2 show ?thesis by (simp add: Cons.IH bad_def)
  next
    case 3
    then have "classify k ?s ?o f h r = r\<lparr>rp_pairs := Suc (rp_pairs r), rp_agreed := Suc (rp_agreed r)\<rparr>"
      "\<not> pair_skipped f ?s ?o" "\<not> pair_unsettled f h ?s ?o"
      unfolding classify_def defs Let_def by (simp_all add: not_le)
    with 3 show ?thesis by (simp add: Cons.IH bad_def)
  next
    case 4
    then have 5: "\<not> (?s < f \<and> ?o < f)" "\<not> (?s > h \<or> ?o > h)" "?o \<noteq> ?s"
      "\<not> pair_skipped f ?s ?o" "\<not> pair_unsettled f h ?s ?o" "pair_settled f h ?s ?o"
      by (auto simp: bad_def defs)
    then have "classify k ?s ?o f h r = add_disagreement (disagreement_at synapse ours k) (r\<lparr>rp_pairs := Suc (rp_pairs r)\<rparr>)"
      by (simp only: classify_def disagreement_at_def Let_def if_False)
    note 5 = 5(3-6) this
    with 4 5 show ?thesis by (simp add: Cons.IH add_disagreement_def fun_eq_iff)
  qed
qed simp

lemma compare_routes_eq:
  fixes synapse ours :: routes
  assumes "distinct (map fst synapse)" "distinct (map fst ours)" "0 < newest - settle" "floor_at \<le> newest - settle"
  defines "h \<equiv> newest - settle" and "ks \<equiv> compared_keys synapse ours"
    and "bad \<equiv> \<lambda>k. pair_settled floor_at (newest - settle) (mark_of synapse k) (mark_of ours k) \<and> mark_of ours k \<noteq> mark_of synapse k"
  shows "compare_routes settle floor_at newest synapse ours =
    \<lparr>rp_horizon = h, rp_floor = floor_at,
     rp_skipped = length (filter (\<lambda>k. pair_skipped floor_at (mark_of synapse k) (mark_of ours k)) ks),
     rp_unsettled = length (filter (\<lambda>k. pair_unsettled floor_at h (mark_of synapse k) (mark_of ours k)) ks),
     rp_pairs = length (filter (\<lambda>k. pair_settled floor_at h (mark_of synapse k) (mark_of ours k)) ks),
     rp_agreed = length (filter (\<lambda>k. pair_settled floor_at h (mark_of synapse k) (mark_of ours k) \<and> mark_of ours k = mark_of synapse k) ks),
     rp_disagreements = sort_key (\<lambda>d. (kind_rank (dg_kind d), dg_key d)) (map (disagreement_at synapse ours) (filter bad ks)),
     rp_counts = (\<lambda>x. length (filter (\<lambda>d. dg_kind d = x) (map (disagreement_at synapse ours) (filter bad ks))))\<rparr>"
proof -
  have "\<not> (newest - settle \<le> 0 \<or> newest - settle < floor_at)" using assms(3,4) by simp
  then show ?thesis
    unfolding compare_routes_def Let_def fold_classify [OF assms(1,2)] classify_keys
    by (simp only: if_False) (simp add: empty_report_def h_def ks_def bad_def)
qed

lemma length_filter_split:
  "(\<And>x. x \<in> set xs \<Longrightarrow> (if P x then 1 else 0) + (if Q x then 1 else 0) + (if R x then 1 else 0) = (1::nat))
   \<Longrightarrow> length (filter P xs) + length (filter Q xs) + length (filter R xs) = length xs"
proof (induction xs)
  case (Cons a xs)
  from Cons.prems [of a] Cons.IH [OF Cons.prems] show ?case by (simp split: if_splits)
qed simp

text \<open>
  The report accounts for every pair. Whatever order the two tables are walked in, each pair
  of either is counted once: skipped when neither mark reaches the floor, unsettled when one is
  past the horizon, compared otherwise. Of the compared ones those with equal marks agree and
  every other is listed, once, as missing when our mark is behind and extra when it is ahead,
  the missing first; \<open>ahead\<close>, though declared, is never reported.
\<close>

theorem report_accounts:
  assumes "distinct (map fst synapse)" "distinct (map fst ours)" "0 < newest - settle" "floor_at \<le> newest - settle"
    and r: "r = compare_routes settle floor_at newest synapse ours"
    and ks: "keys = fst ` set synapse \<union> fst ` set ours"
  shows "rp_skipped r + rp_unsettled r + rp_pairs r = card keys
    \<and> rp_agreed r + length (rp_disagreements r) = rp_pairs r
    \<and> rp_pairs r = card {k \<in> keys. pair_settled floor_at (rp_horizon r) (mark_of synapse k) (mark_of ours k)}
    \<and> set (rp_disagreements r) = disagreement_at synapse ours ` {k \<in> keys.
          pair_settled floor_at (rp_horizon r) (mark_of synapse k) (mark_of ours k) \<and> mark_of synapse k \<noteq> mark_of ours k}
    \<and> distinct (map dg_key (rp_disagreements r))
    \<and> sorted (map (\<lambda>d. (kind_rank (dg_kind d), dg_key d)) (rp_disagreements r))
    \<and> rp_counts r KindMissing + rp_counts r KindExtra = length (rp_disagreements r) \<and> rp_counts r KindAhead = 0"
proof -
  define h where "h = newest - settle"
  define xs where "xs = compared_keys synapse ours"
  define bad where "bad = (\<lambda>k. pair_settled floor_at h (mark_of synapse k) (mark_of ours k) \<and> mark_of ours k \<noteq> mark_of synapse k)"
  note eq = compare_routes_eq [OF assms(1-4), folded h_def xs_def, folded bad_def]
  have xs: "distinct xs" "set xs = keys" using compared_keys_facts [OF assms(1,2)] by (simp_all add: xs_def ks)
  have card: "length (filter P xs) = card {k \<in> keys. P k}" for P
    using distinct_card [OF distinct_filter [OF xs(1), of P]] by (simp add: xs(2))
  have len: "length xs = card keys" using distinct_card [OF xs(1)] by (simp add: xs(2))
  let ?ds = "map (disagreement_at synapse ours) (filter bad xs)"
  have "length (filter (\<lambda>k. pair_skipped floor_at (mark_of synapse k) (mark_of ours k)) xs)
      + length (filter (\<lambda>k. pair_unsettled floor_at h (mark_of synapse k) (mark_of ours k)) xs)
      + length (filter (\<lambda>k. pair_settled floor_at h (mark_of synapse k) (mark_of ours k)) xs) = length xs"
    by (rule length_filter_split) (auto simp: pair_unsettled_def pair_settled_def)
  moreover have "length (filter (\<lambda>k. pair_settled floor_at h (mark_of synapse k) (mark_of ours k) \<and> mark_of ours k = mark_of synapse k) xs)
      + length (filter bad xs) = length (filter (\<lambda>k. pair_settled floor_at h (mark_of synapse k) (mark_of ours k)) xs)"
    by (induction xs) (auto simp: bad_def)
  moreover have "length (filter (\<lambda>d. dg_kind d = KindMissing) ?ds) + length (filter (\<lambda>d. dg_kind d = KindExtra) ?ds) = length ?ds"
    "filter (\<lambda>d. dg_kind d = KindAhead) ?ds = []"
    by (induction xs) (auto simp: disagreement_at_def)
  ultimately have counts: "rp_skipped r + rp_unsettled r + rp_pairs r = card keys"
    "rp_agreed r + length (rp_disagreements r) = rp_pairs r"
    "rp_counts r KindMissing + rp_counts r KindExtra = length (rp_disagreements r)" "rp_counts r KindAhead = 0"
    by (simp_all only: r eq report.simps len length_sort length_map list.size(3))
  have listed: "rp_disagreements r = sort_key (\<lambda>d. (kind_rank (dg_kind d), dg_key d)) ?ds" "rp_horizon r = h"
    "rp_pairs r = card {k \<in> keys. pair_settled floor_at h (mark_of synapse k) (mark_of ours k)}"
    by (simp_all only: r eq report.simps card)
  have "map dg_key ?ds = filter bad xs"
    by (induction xs) (simp_all add: disagreement_at_def)
  then have "distinct (map dg_key ?ds)" using distinct_filter [OF xs(1), of bad] by (simp only:)
  then have "distinct (map dg_key (rp_disagreements r))"
    unfolding listed(1) by (simp only: distinct_map distinct_sort set_sort)
  moreover have "set (filter bad xs) = {k \<in> keys. pair_settled floor_at h (mark_of synapse k) (mark_of ours k) \<and> mark_of synapse k \<noteq> mark_of ours k}"
    by (auto simp: bad_def xs(2))
  then have "set (rp_disagreements r) = disagreement_at synapse ours ` {k \<in> keys.
      pair_settled floor_at (rp_horizon r) (mark_of synapse k) (mark_of ours k) \<and> mark_of synapse k \<noteq> mark_of ours k}"
    unfolding listed(1,2) by (simp only: set_sort set_map)
  moreover have "sorted (map (\<lambda>d. (kind_rank (dg_kind d), dg_key d)) (rp_disagreements r))" by (simp add: listed(1))
  ultimately show ?thesis using counts listed(2,3) by blast
qed

theorem report_accounts_witness:
  "let r = compare_routes 10 50 110 [((''b'', ''!r''), 60), ((''c'', ''!r''), 20)] [((''b'', ''!r''), 55), ((''d'', ''!r''), 70)]
   in rp_skipped r = 1 \<and> map dg_kind (rp_disagreements r) = [KindMissing, KindExtra] \<and> rp_counts r KindAhead = 0"
proof -
  let ?s = "[((''b'', ''!r''), 60), ((''c'', ''!r''), 20)]" and ?o = "[((''b'', ''!r''), 55), ((''d'', ''!r''), 70)]"
  note T = report_accounts [of ?s ?o 110 10 50, OF _ _ _ _ refl refl]
  have "rp_counts (compare_routes 10 50 110 ?s ?o) KindAhead = 0" using T by simp
  moreover have "rp_skipped (compare_routes 10 50 110 ?s ?o) = 1"
    "map dg_kind (rp_disagreements (compare_routes 10 50 110 ?s ?o)) = [KindMissing, KindExtra]"
    by (simp_all add: compare_routes_def classify_def mark_of_def empty_report_def add_disagreement_def Let_def)
  ultimately show ?thesis by (simp only: Let_def)
qed

section \<open>Senders that route alike\<close>

text \<open>The newest of a list of routing decisions for a pair within bounds, zero for none.\<close>

definition newest_mark :: "(int \<times> route_key) list \<Rightarrow> int \<Rightarrow> int \<Rightarrow> route_key \<Rightarrow> int" where
  "newest_mark ds lo hi k = fold (\<lambda>(so, k') m. if k' = k \<and> lo \<le> so \<and> so \<le> hi then max so m else m) ds 0"

lemma newest_fold:
  fixes ds :: "(int \<times> route_key) list" and lo hi :: int and k :: route_key
  defines "run \<equiv> fold (\<lambda>(so, k') m. if k' = k \<and> lo \<le> so \<and> so \<le> hi then max so m else m)"
  shows "m \<le> run ds m \<and> (\<forall>so. (so, k) \<in> set ds \<longrightarrow> lo \<le> so \<longrightarrow> so \<le> hi \<longrightarrow> so \<le> run ds m)
    \<and> (run ds m = m \<or> (run ds m, k) \<in> set ds \<and> lo \<le> run ds m \<and> run ds m \<le> hi)"
proof (induction ds arbitrary: m)
  case (Cons d ds)
  obtain so' k' where d: "d = (so', k')" by (cases d)
  let ?m = "if k' = k \<and> lo \<le> so' \<and> so' \<le> hi then max so' m else m"
  have "run (d # ds) m = run ds ?m" by (simp add: run_def d)
  moreover have "m \<le> ?m" "k' = k \<Longrightarrow> lo \<le> so' \<Longrightarrow> so' \<le> hi \<Longrightarrow> so' \<le> ?m" "?m = m \<or> ?m = so' \<and> k' = k \<and> lo \<le> so' \<and> so' \<le> hi"
    by (auto simp: max_def)
  ultimately show ?case using Cons.IH [of ?m] unfolding d by (smt (verit) list.set_intros set_ConsD prod.inject)
qed (simp add: run_def)

lemma newest_mark_facts:
  "(so, k) \<in> set ds \<Longrightarrow> lo \<le> so \<Longrightarrow> so \<le> hi \<Longrightarrow> so \<le> newest_mark ds lo hi k"
  "newest_mark ds lo hi k = 0 \<or> (newest_mark ds lo hi k, k) \<in> set ds \<and> lo \<le> newest_mark ds lo hi k \<and> newest_mark ds lo hi k \<le> hi"
  using newest_fold [where k = k and lo = lo and hi = hi and ds = ds and m = 0] by (simp_all add: newest_mark_def)

text \<open>
  C30. No false alarm. Take one stream of routing decisions. Synapse has recorded it up to some
  position, since long before this worker existed; this worker has recorded the same decisions
  from the floor on, up to a position of its own. As long as both have passed the horizon, the
  report lists no disagreement: every pair compared agrees, wherever the two senders stand.
\<close>

theorem no_false_alarm:
  assumes "distinct (map fst synapse)" "distinct (map fst ours)" "0 < floor_at" "floor_at \<le> newest - settle"
    and "\<forall>(so, k) \<in> set stream. 0 < so"
    and "\<forall>k. mark_of synapse k = newest_mark stream 1 synapse_pos k" "\<forall>k. mark_of ours k = newest_mark stream floor_at our_pos k"
    and "newest - settle \<le> synapse_pos" "newest - settle \<le> our_pos"
  shows "rp_disagreements (compare_routes settle floor_at newest synapse ours) = []
    \<and> agreement_rate (compare_routes settle floor_at newest synapse ours) = 1"
proof -
  let ?h = "newest - settle" and ?r = "compare_routes settle floor_at newest synapse ours"
  have same: "mark_of ours k = mark_of synapse k" if k: "pair_settled floor_at ?h (mark_of synapse k) (mark_of ours k)" for k
  proof -
    let ?s = "mark_of synapse k" and ?o = "mark_of ours k"
    have s: "newest_mark stream 1 synapse_pos k = ?s" and o: "newest_mark stream floor_at our_pos k = ?o" using assms(6) assms(7) by metis+
    note S = newest_mark_facts(1) [of _ k stream 1 synapse_pos, unfolded s] newest_mark_facts(2) [of stream 1 synapse_pos k, unfolded s]
    note O = newest_mark_facts(1) [of _ k stream floor_at our_pos, unfolded o] newest_mark_facts(2) [of stream floor_at our_pos k, unfolded o]
    have b: "?s \<le> ?h" "?o \<le> ?h" "floor_at \<le> ?s \<or> floor_at \<le> ?o" using k by (auto simp: pair_settled_def pair_skipped_def)
    have os: "?o \<le> ?s" if "floor_at \<le> ?o"
    proof -
      have "(?o, k) \<in> set stream" using O(2) assms(3) that by auto
      then show ?thesis by (rule S(1)) (use that assms(3,8) b in linarith)+
    qed
    have so: "?s \<le> ?o" if "floor_at \<le> ?s"
    proof -
      have "(?s, k) \<in> set stream" using S(2) assms(3) that by auto
      then show ?thesis by (rule O(1)) (use that assms(9) b in linarith)+
    qed
    from os so b(3) show ?thesis by linarith
  qed
  have pos: "0 < newest - settle" using assms(3,4) by linarith
  note A = report_accounts [OF assms(1,2) pos assms(4) refl refl]
  have h: "rp_horizon ?r = ?h" using compare_routes_eq [OF assms(1,2) pos assms(4)] by simp
  have "\<not> (pair_settled floor_at ?h (mark_of synapse k) (mark_of ours k) \<and> mark_of synapse k \<noteq> mark_of ours k)" for k
    using same [of k] by argo
  then have "set (rp_disagreements ?r) = {}" using A [unfolded h] by simp
  then have none: "rp_disagreements ?r = []" by simp
  with A have "rp_agreed ?r = rp_pairs ?r" by simp
  with none show ?thesis by (simp add: agreement_rate_def)
qed

theorem no_false_alarm_witness:
  "rp_disagreements (compare_routes 10 50 110 [((''b'', ''!r''), 60), ((''c'', ''!r''), 20)] [((''b'', ''!r''), 60)]) = []"
proof -
  let ?st = "[(20, (''c'', ''!r'')), (55, (''b'', ''!r'')), (60, (''b'', ''!r''))]"
  have s: "\<forall>k. mark_of [((''b'', ''!r''), 60), ((''c'', ''!r''), 20)] k = newest_mark ?st 1 105 k"
    and o: "\<forall>k. mark_of [((''b'', ''!r''), 60)] k = newest_mark ?st 50 100 k"
    by (auto simp: mark_of_def newest_mark_def)
  from no_false_alarm [OF _ _ _ _ _ s o, of 110 10] show ?thesis by simp
qed

end
