(* ===== verification/CaptureCompare.thy ===== *)
theory CaptureCompare
  imports GoJson Replication Sharding "HOL-Library.AList" "HOL-Library.Multiset"
begin

text \<open>
  \<open>internal/capture/compare.go\<close>: two captures of what one destination was sent, compared. The JSON
  decoder of a body and the canonical encoder are arguments; reading single fields goes through
  the gjson record. A \<open>time.Time\<close> that may be zero is an \<open>instant option\<close>. A Go map is an
  association list with distinct keys, and everything it is turned into is sorted.
\<close>

section \<open>Records and windows\<close>

datatype source = SourceSynapse | SourceWorker

record cap_record =
  cr_time :: "instant option"
  cr_source :: source
  cr_destination :: string
  cr_origin :: string
  cr_txn_id :: string
  cr_path :: string
  cr_auth :: string
  cr_body :: json
  cr_status :: int
  cr_error :: string

record capture_window =
  win_since :: "instant option"
  win_until :: "instant option"
  win_by_event_time :: bool

definition capture_window_empty :: "capture_window \<Rightarrow> bool" where
  "capture_window_empty w = (case (win_since w, win_until w) of (Some s, Some u) \<Rightarrow> s > u | _ \<Rightarrow> False)"

text \<open>The zero time is before every other.\<close>

definition capture_window_contains :: "capture_window \<Rightarrow> instant option \<Rightarrow> bool" where
  "capture_window_contains w t =
     (case t of
        None \<Rightarrow> win_since w = None
      | Some t \<Rightarrow> (case win_since w of None \<Rightarrow> True | Some s \<Rightarrow> \<not> t < s) \<and> (case win_until w of None \<Rightarrow> True | Some u \<Rightarrow> \<not> u < t))"

definition range_step :: "instant \<Rightarrow> (instant \<times> instant) option \<Rightarrow> (instant \<times> instant) option" where
  "range_step t acc = (case acc of None \<Rightarrow> Some (t, t)
     | Some (lo, hi) \<Rightarrow> Some (if t < lo then t else lo, if hi < t then t else hi))"

definition time_range :: "cap_record list \<Rightarrow> (instant \<times> instant) option" where
  "time_range rs = fold range_step (List.map_filter cr_time rs) None"

text \<open>\<open>UnixMilli\<close> of a timestamp; a zero timestamp is no timestamp.\<close>

definition event_time :: "gjson \<Rightarrow> json \<Rightarrow> instant option" where
  "event_time g p = (let ts = get_int g p ''origin_server_ts'' in if ts = 0 then None else Some (ts * millisecond))"

definition event_time_range :: "gjson \<Rightarrow> cap_record list \<Rightarrow> (instant \<times> instant) option" where
  "event_time_range g rs =
     fold range_step (concat (map (\<lambda>r. List.map_filter (event_time g) (get_items g (cr_body r) ''pdus'')) rs)) None"

definition overlap_of :: "bool \<Rightarrow> (instant \<times> instant) option \<Rightarrow> (instant \<times> instant) option \<Rightarrow> capture_window" where
  "overlap_of by_event a b =
     (case (a, b) of
        (Some (alo, ahi), Some (blo, bhi)) \<Rightarrow>
          \<lparr>win_since = Some (if blo > alo then blo else alo), win_until = Some (if bhi < ahi then bhi else ahi),
           win_by_event_time = by_event\<rparr>
      | _ \<Rightarrow> \<lparr>win_since = None, win_until = None, win_by_event_time = by_event\<rparr>)"

definition overlap_window :: "cap_record list \<Rightarrow> cap_record list \<Rightarrow> capture_window" where
  "overlap_window a b = overlap_of False (time_range a) (time_range b)"

definition overlap_by_event_time :: "gjson \<Rightarrow> cap_record list \<Rightarrow> cap_record list \<Rightarrow> capture_window" where
  "overlap_by_event_time g a b = overlap_of True (event_time_range g a) (event_time_range g b)"

definition exclude_our_own :: "string \<Rightarrow> cap_record list \<Rightarrow> cap_record list \<times> nat" where
  "exclude_our_own prefix rs =
     (if prefix = [] then (rs, 0)
      else (filter (\<lambda>r. \<not> has_prefix (cr_txn_id r) prefix) rs, length (filter (\<lambda>r. has_prefix (cr_txn_id r) prefix) rs)))"

section \<open>Flattening\<close>

text \<open>\<open>decode\<close> is \<open>json.Unmarshal\<close> of a body: its PDUs and its EDUs by type.\<close>

record tools =
  tl_gjson :: gjson
  tl_decode :: "json \<Rightarrow> (json list \<times> (string \<times> json) list) option"
  tl_canonical :: "json \<Rightarrow> json option"

definition canonical :: "tools \<Rightarrow> json \<Rightarrow> json" where
  "canonical t raw = (case tl_canonical t raw of None \<Rightarrow> raw | Some b \<Rightarrow> b)"

definition hex_nibble :: "nat \<Rightarrow> char" where
  "hex_nibble n = char_of (if n < 10 then 48 + n else 87 + n)"

definition hex_encode :: "byte list \<Rightarrow> string" where
  "hex_encode bs = concat (map (\<lambda>b. [hex_nibble (unat b div 16), hex_nibble (unat b mod 16)]) bs)"

abbreviation content_id_prefix :: string where "content_id_prefix \<equiv> ''sha:''"

definition or_unknown :: "string \<Rightarrow> string" where
  "or_unknown s = (if s = [] then ''?'' else s)"

text \<open>The identity and the display of a PDU, from its canonical form.\<close>

definition identify_canonical :: "tools \<Rightarrow> json \<Rightarrow> string \<times> string" where
  "identify_canonical t canon =
     (let g = tl_gjson t;
          display = or_unknown (get_str g canon ''type'') @ '' in '' @ or_unknown (get_str g canon ''room_id'')
            @ '' from '' @ or_unknown (get_str g canon ''sender'') @ '' at '' @ format_int (get_int g canon ''origin_server_ts'');
          eid = get_str g canon ''event_id'';
          i = (if eid \<noteq> [] then eid else content_id_prefix @ hex_encode (take 8 (sha256 (string_bytes canon))))
      in (i, i @ '' ('' @ display @ '')''))"

definition identify :: "tools \<Rightarrow> json \<Rightarrow> string \<times> string" where
  "identify t p = identify_canonical t (canonical t p)"

text \<open>PDUs by identity, each with its canonical form and display; EDU contents by type.\<close>

type_synonym pdu_map = "(string \<times> (json \<times> string)) list"
type_synonym edu_map = "(string \<times> json list) list"

definition add_pdu :: "tools \<Rightarrow> json \<Rightarrow> pdu_map \<Rightarrow> pdu_map" where
  "add_pdu t p m = (case identify t p of (i, display) \<Rightarrow> AList.update i (canonical t p, display) m)"

definition contents_of :: "edu_map \<Rightarrow> string \<Rightarrow> json list" where
  "contents_of m ty = (case map_of m ty of None \<Rightarrow> [] | Some cs \<Rightarrow> cs)"

definition add_edu :: "tools \<Rightarrow> string \<times> json \<Rightarrow> edu_map \<Rightarrow> edu_map" where
  "add_edu t e m = AList.update (fst e) (contents_of m (fst e) @ [canonical t (snd e)]) m"

definition pdu_in_window :: "tools \<Rightarrow> capture_window \<Rightarrow> json \<Rightarrow> bool" where
  "pdu_in_window t w p =
     (\<not> win_by_event_time w
      \<or> (case event_time (tl_gjson t) p of None \<Rightarrow> False | Some ts \<Rightarrow> capture_window_contains w (Some ts)))"

fun flatten :: "tools \<Rightarrow> string \<Rightarrow> capture_window \<Rightarrow> cap_record list \<Rightarrow> pdu_map \<times> edu_map \<times> nat
    \<Rightarrow> (pdu_map \<times> edu_map \<times> nat) option" where
  "flatten t dest w [] acc = Some acc"
| "flatten t dest w (r # rs) (pdus, edus, n) =
     (if dest \<noteq> [] \<and> cr_destination r \<noteq> dest then flatten t dest w rs (pdus, edus, n)
      else if \<not> win_by_event_time w \<and> \<not> capture_window_contains w (cr_time r) then flatten t dest w rs (pdus, edus, n)
      else case tl_decode t (cr_body r) of
        None \<Rightarrow> None
      | Some (ps, es) \<Rightarrow>
          flatten t dest w rs (fold (add_pdu t) (filter (pdu_in_window t w) ps) pdus, fold (add_edu t) es edus, Suc n))"

section \<open>EDUs\<close>

record edu_diff =
  ed_type :: string
  ed_synapse :: nat
  ed_worker :: nat
  ed_both :: nat
  ed_only_synapse :: "json list"
  ed_only_worker :: "json list"
  ed_comparable :: bool
  ed_implemented :: bool

definition edu_implemented :: "string \<Rightarrow> bool" where
  "edu_implemented ty \<longleftrightarrow> ty \<in> set [''m.direct_to_device'', ''m.device_list_update'', ''m.signing_key_update'',
     ''org.matrix.signing_key_update'', ''m.receipt'', ''m.typing'', ''m.presence'']"

definition edu_comparable :: "string \<Rightarrow> bool" where
  "edu_comparable ty \<longleftrightarrow> ty \<in> set [''m.direct_to_device'', ''m.device_list_update'', ''m.signing_key_update'',
     ''org.matrix.signing_key_update'']"

text \<open>The second loop of \<open>diffMultiset\<close>: what is left of the counts, how many matched, what did not.\<close>

fun match_counts :: "json list \<Rightarrow> (json \<Rightarrow> nat) \<Rightarrow> (json \<Rightarrow> nat) \<times> nat \<times> json list" where
  "match_counts [] counts = (counts, 0, [])"
| "match_counts (s # b) counts =
     (if counts s > 0
      then (case match_counts b (counts(s := counts s - 1)) of (rest, both, only_b) \<Rightarrow> (rest, Suc both, only_b))
      else (case match_counts b counts of (rest, both, only_b) \<Rightarrow> (rest, both, s # only_b)))"

definition diff_multiset :: "json list \<Rightarrow> json list \<Rightarrow> nat \<times> json list \<times> json list" where
  "diff_multiset a b =
     (case match_counts b (count_list a) of
        (rest, both, only_b) \<Rightarrow> (both, sort (concat (map (\<lambda>s. replicate (rest s) s) (remdups a))), sort only_b))"

definition compare_edus :: "edu_map \<Rightarrow> edu_map \<Rightarrow> edu_diff list" where
  "compare_edus synapse worker =
     map (\<lambda>ty.
        let s = contents_of synapse ty; w = contents_of worker ty;
            (both, only_s, only_w) = (if edu_comparable ty then diff_multiset s w else (0, [], []))
        in \<lparr>ed_type = ty, ed_synapse = length s, ed_worker = length w, ed_both = both, ed_only_synapse = only_s,
            ed_only_worker = only_w, ed_comparable = edu_comparable ty, ed_implemented = edu_implemented ty\<rparr>)
      (sort (remdups (map fst synapse @ map fst worker)))"

section \<open>The comparison\<close>

record pdu_diff =
  pd_event :: string
  pd_synapse :: json
  pd_worker :: json

record diff =
  df_window :: capture_window
  df_compared :: nat
  df_synapse_transactions :: nat
  df_worker_transactions :: nat
  df_by_content :: nat
  df_both :: nat
  df_only_synapse :: "(string \<times> string) list"
  df_only_worker :: "(string \<times> string) list"
  df_differing :: "pdu_diff list"
  df_edus :: "edu_diff list"

text \<open>References are sorted by their display; Go leaves the order of equal displays open.\<close>

definition compare_maps :: "pdu_map \<Rightarrow> pdu_map \<Rightarrow> nat \<times> nat \<times> (string \<times> string) list \<times> (string \<times> string) list \<times> pdu_diff list" where
  "compare_maps syn ours =
     (let shared = filter (\<lambda>(i, _). map_of ours i \<noteq> None) syn;
          refs = (\<lambda>m other. sort_key snd (map (\<lambda>(i, _, display). (i, display)) (filter (\<lambda>(i, _). map_of other i = None) m)))
      in (length (filter (\<lambda>(i, _). has_prefix i content_id_prefix) syn), length shared, refs syn ours, refs ours syn,
          sort_key pd_event (map (\<lambda>(i, c, _). \<lparr>pd_event = i, pd_synapse = c, pd_worker = fst (the (map_of ours i))\<rparr>)
            (filter (\<lambda>(i, c, _). c \<noteq> fst (the (map_of ours i))) shared))))"

definition compare_captures :: "tools \<Rightarrow> string \<Rightarrow> capture_window \<Rightarrow> cap_record list \<Rightarrow> cap_record list \<Rightarrow> diff option" where
  "compare_captures t dest w synapse worker =
     (case flatten t dest w synapse ([], [], 0) of
        None \<Rightarrow> None
      | Some (sp, se, sn) \<Rightarrow>
          (case flatten t dest w worker ([], [], 0) of
             None \<Rightarrow> None
           | Some (wp, we, wn) \<Rightarrow>
               (case compare_maps sp wp of
                  (by_content, both, only_s, only_w, differing) \<Rightarrow>
                    Some \<lparr>df_window = w, df_compared = both + length only_s + length only_w,
                      df_synapse_transactions = sn, df_worker_transactions = wn, df_by_content = by_content, df_both = both,
                      df_only_synapse = only_s, df_only_worker = only_w, df_differing = differing,
                      df_edus = compare_edus se we\<rparr>)))"

definition diff_agreed :: "diff \<Rightarrow> bool" where
  "diff_agreed d \<longleftrightarrow> df_only_synapse d = [] \<and> df_only_worker d = [] \<and> df_differing d = []"

definition diff_inconclusive :: "diff \<Rightarrow> bool" where
  "diff_inconclusive d \<longleftrightarrow> df_compared d = 0 \<or> capture_window_empty (df_window d)"

text \<open>\<open>fedcompare\<close>'s verdict: its exit status.\<close>

definition exit_code :: "diff \<Rightarrow> nat" where
  "exit_code d = (if diff_inconclusive d then 2 else if \<not> diff_agreed d then 1 else 0)"

section \<open>The multiset difference\<close>

lemma match_counts_spec:
  "match_counts b (count A) = (rest, both, only_b) \<Longrightarrow>
     rest = count (A - mset b) \<and> both = size (mset b \<inter># A) \<and> mset only_b = mset b - A"
proof (induction b arbitrary: A rest both only_b)
  case (Cons s b)
  show ?case
  proof (cases "s \<in># A")
    case True
    then obtain A' where A: "A = add_mset s A'" by (meson multi_member_split)
    have "(count A)(s := count A s - 1) = count A'" by (auto simp: A)
    with Cons.prems True obtain both' where "match_counts b (count A') = (rest, both', only_b)" "both = Suc both'"
      by (auto split: prod.splits)
    with Cons.IH show ?thesis by (simp add: A)
  next
    case False
    with Cons.prems obtain only' where "match_counts b (count A) = (rest, both, only')" "only_b = s # only'"
      by (auto simp: not_in_iff split: prod.splits)
    moreover have "add_mset s (mset b) \<inter># A = mset b \<inter># A" using False by (rule inter_add_left1)
    moreover have "A - mset (s # b) = A - mset b" "mset (s # b) - A = add_mset s (mset b - A)"
      using False by (auto simp: not_in_iff intro!: multiset_eqI)
    ultimately show ?thesis using Cons.IH [of A rest both only'] by simp
  qed
qed simp

lemma diff_multiset_eq:
  "diff_multiset a b = (size (mset a \<inter># mset b), sorted_list_of_multiset (mset a - mset b), sorted_list_of_multiset (mset b - mset a))"
proof -
  obtain rest both only_b where m: "match_counts b (count (mset a)) = (rest, both, only_b)" by (cases "match_counts b (count (mset a))")
  from match_counts_spec [OF m] have r: "rest = count (mset a - mset b)" "both = size (mset b \<inter># mset a)" "mset only_b = mset b - mset a"
    by simp_all
  have "count (mset (concat (map (\<lambda>s. replicate (rest s) s) xs))) x = (if x \<in> set xs then rest x else 0)" if "distinct xs" for xs x
    using that by (induction xs) auto
  then have "mset (concat (map (\<lambda>s. replicate (rest s) s) (remdups a))) = mset a - mset b"
    by (intro multiset_eqI) (auto simp: r(1) count_mset)
  then have "sort (concat (map (\<lambda>s. replicate (rest s) s) (remdups a))) = sorted_list_of_multiset (mset a - mset b)"
    by (metis sorted_list_of_multiset_mset)
  moreover have "sort only_b = sorted_list_of_multiset (mset b - mset a)" by (metis r(3) sorted_list_of_multiset_mset)
  moreover have "count_list a = count (mset a)" by (rule ext) (simp add: count_mset)
  ultimately show ?thesis using m r(2) by (simp add: diff_multiset_def subset_mset.inf_commute)
qed

section \<open>What a capture holds\<close>

definition in_scope :: "string \<Rightarrow> capture_window \<Rightarrow> cap_record \<Rightarrow> bool" where
  "in_scope dest w r \<longleftrightarrow> (dest = [] \<or> cr_destination r = dest) \<and> (win_by_event_time w \<or> capture_window_contains w (cr_time r))"

text \<open>The canonical forms of the PDUs of the records in scope, and the EDUs, in order.\<close>

definition captured_pdus :: "tools \<Rightarrow> string \<Rightarrow> capture_window \<Rightarrow> cap_record list \<Rightarrow> json list" where
  "captured_pdus t dest w rs =
     concat (map (\<lambda>r. case tl_decode t (cr_body r) of None \<Rightarrow> []
       | Some (ps, es) \<Rightarrow> map (canonical t) (filter (pdu_in_window t w) ps)) (filter (in_scope dest w) rs))"

definition captured_edus :: "tools \<Rightarrow> string \<Rightarrow> capture_window \<Rightarrow> cap_record list \<Rightarrow> (string \<times> json) list" where
  "captured_edus t dest w rs =
     concat (map (\<lambda>r. case tl_decode t (cr_body r) of None \<Rightarrow> []
       | Some (ps, es) \<Rightarrow> map (apsnd (canonical t)) es) (filter (in_scope dest w) rs))"

abbreviation identity :: "tools \<Rightarrow> json \<Rightarrow> string" where
  "identity t c \<equiv> fst (identify_canonical t c)"

definition put_canonical :: "tools \<Rightarrow> json \<Rightarrow> pdu_map \<Rightarrow> pdu_map" where
  "put_canonical t c m = AList.update (identity t c) (c, snd (identify_canonical t c)) m"

definition put_content :: "string \<times> json \<Rightarrow> edu_map \<Rightarrow> edu_map" where
  "put_content e m = AList.update (fst e) (contents_of m (fst e) @ [snd e]) m"

lemma add_pdu_eq: "add_pdu t p m = put_canonical t (canonical t p) m"
  by (simp add: add_pdu_def put_canonical_def identify_def split: prod.split)

lemma add_edu_eq: "add_edu t e m = put_content (apsnd (canonical t) e) m"
  by (simp add: add_edu_def put_content_def)

lemma flatten_eq:
  "flatten t dest w rs (pdus, edus, n) = Some (pdus', edus', n') \<Longrightarrow>
     pdus' = fold (put_canonical t) (captured_pdus t dest w rs) pdus
     \<and> edus' = fold put_content (captured_edus t dest w rs) edus \<and> n' = n + length (filter (in_scope dest w) rs)"
proof (induction rs arbitrary: pdus edus n)
  case (Cons r rs)
  show ?case
  proof (cases "in_scope dest w r")
    case False
    then have "flatten t dest w (r # rs) (pdus, edus, n) = flatten t dest w rs (pdus, edus, n)"
      by (auto simp: in_scope_def)
    with Cons False show ?thesis by (simp add: captured_pdus_def captured_edus_def)
  next
    case True
    with Cons.prems obtain ps es where d: "tl_decode t (cr_body r) = Some (ps, es)"
      "flatten t dest w rs (fold (add_pdu t) (filter (pdu_in_window t w) ps) pdus, fold (add_edu t) es edus, Suc n) = Some (pdus', edus', n')"
      by (auto simp: in_scope_def split: option.splits if_splits)
    have "fold (add_pdu t) xs m = fold (put_canonical t) (map (canonical t) xs) m" for xs m
      by (induction xs arbitrary: m) (simp_all add: add_pdu_eq)
    moreover have "fold (add_edu t) xs m = fold put_content (map (apsnd (canonical t)) xs) m" for xs m
      by (induction xs arbitrary: m) (simp_all add: add_edu_eq)
    ultimately show ?thesis using Cons.IH [OF d(2)] True d(1) by (simp add: captured_pdus_def captured_edus_def)
  qed
qed (simp add: captured_pdus_def captured_edus_def)

lemma put_canonical_map:
  assumes "distinct (map fst m)"
  shows "distinct (map fst (fold (put_canonical t) cs m))"
    "map_of (fold (put_canonical t) cs m) i
      = (case filter (\<lambda>c. identity t c = i) cs of [] \<Rightarrow> map_of m i
         | xs \<Rightarrow> Some (last xs, snd (identify_canonical t (last xs))))"
  using assms
proof (induction cs arbitrary: m)
  case (Cons c cs)
  {
    case 1
    then show ?case using Cons.IH(1) by (simp add: put_canonical_def distinct_update)
  next
    case 2
    then have "distinct (map fst (put_canonical t c m))" by (simp add: put_canonical_def distinct_update)
    from Cons.IH(2) [OF this] show ?case
      by (auto simp: put_canonical_def update_conv' split: list.split)
  }
qed simp_all

lemma put_content_map: "contents_of (fold put_content es m) ty = contents_of m ty @ map snd (filter (\<lambda>e. fst e = ty) es)"
  by (induction es arbitrary: m) (auto simp: put_content_def contents_of_def update_conv')

lemma update_keys: "fst ` set (AList.update k v m) = insert k (fst ` set m)"
  by (induction m) auto

lemma put_content_types: "fst ` set (fold put_content es m) = fst ` set m \<union> fst ` set es"
  by (induction es arbitrary: m) (simp_all add: put_content_def update_keys)

text \<open>Nothing but a body that does not decode stops the comparison.\<close>

lemma compare_total:
  assumes "\<forall>r \<in> set synapse \<union> set worker. tl_decode t (cr_body r) \<noteq> None"
  shows "\<exists>d. compare_captures t dest w synapse worker = Some d"
proof -
  have "\<exists>sp se n. flatten t dest w rs acc = Some (sp, se, n)" if "\<forall>r \<in> set rs. tl_decode t (cr_body r) \<noteq> None" for rs acc
    using that by (induction t dest w rs acc rule: flatten.induct) (auto split: prod.split)
  then obtain sp se sn wp we wn where "flatten t dest w synapse ([], [], 0) = Some (sp, se, sn)" "flatten t dest w worker ([], [], 0) = Some (wp, we, wn)"
    using assms by (metis UnI1 UnI2)
  then show ?thesis by (auto simp: compare_captures_def split: prod.split)
qed

text \<open>
  Of the forms in which a capture holds one identity the map keeps the last; without two forms
  for one identity that is every form.
\<close>

definition last_forms :: "tools \<Rightarrow> json list \<Rightarrow> json set" where
  "last_forms t cs = {c \<in> set cs. last (filter (\<lambda>x. identity t x = identity t c) cs) = c}"

definition one_form :: "tools \<Rightarrow> json list \<Rightarrow> bool" where
  "one_form t cs \<longleftrightarrow> (\<forall>c \<in> set cs. \<forall>c' \<in> set cs. identity t c = identity t c' \<longrightarrow> c = c')"

lemma last_of_identity:
  assumes "c \<in> set cs"
  shows "last (filter (\<lambda>x. identity t x = identity t c) cs) \<in> set cs \<and> identity t (last (filter (\<lambda>x. identity t x = identity t c) cs)) = identity t c"
proof -
  have "filter (\<lambda>x. identity t x = identity t c) cs \<noteq> []" using assms by (auto simp: filter_empty_conv)
  from last_in_set [OF this] show ?thesis by simp
qed

lemma last_forms_facts:
  "c \<in> last_forms t cs \<Longrightarrow> c' \<in> last_forms t cs \<Longrightarrow> identity t c = identity t c' \<Longrightarrow> c = c'"
  "identity t ` last_forms t cs = identity t ` set cs" "one_form t cs \<Longrightarrow> last_forms t cs = set cs"
proof -
  show "c \<in> last_forms t cs \<Longrightarrow> c' \<in> last_forms t cs \<Longrightarrow> identity t c = identity t c' \<Longrightarrow> c = c'"
    by (simp add: last_forms_def)
  show "identity t ` last_forms t cs = identity t ` set cs"
  proof (intro equalityI subsetI)
    fix i
    assume "i \<in> identity t ` set cs"
    then obtain c where c: "c \<in> set cs" "i = identity t c" by blast
    let ?l = "last (filter (\<lambda>x. identity t x = identity t c) cs)"
    have "?l \<in> last_forms t cs" "identity t ?l = i" using last_of_identity [OF c(1), of t] c(2) by (simp_all add: last_forms_def)
    then show "i \<in> identity t ` last_forms t cs" by blast
  qed (auto simp: last_forms_def)
  assume o: "one_form t cs"
  have "last (filter (\<lambda>x. identity t x = identity t c) cs) = c" if "c \<in> set cs" for c
    using last_of_identity [OF that, of t] o that unfolding one_form_def by blast
  then show "last_forms t cs = set cs" by (auto simp: last_forms_def)
qed

lemma captured_map:
  "map_of (fold (put_canonical t) cs []) i = Some (c, x) \<longleftrightarrow> c \<in> last_forms t cs \<and> (i, x) = identify_canonical t c"
  "map_of (fold (put_canonical t) cs []) i = None \<longleftrightarrow> i \<notin> identity t ` set cs"
proof -
  let ?xs = "filter (\<lambda>c. identity t c = i) cs"
  have m: "map_of (fold (put_canonical t) cs []) i
      = (case ?xs of [] \<Rightarrow> None | xs \<Rightarrow> Some (last xs, snd (identify_canonical t (last xs))))"
    using put_canonical_map(2) [of "[]" t cs i] by (simp split: list.split)
  show "map_of (fold (put_canonical t) cs []) i = None \<longleftrightarrow> i \<notin> identity t ` set cs"
  proof -
    have "?xs = [] \<longleftrightarrow> i \<notin> identity t ` set cs" by (auto simp: filter_empty_conv)
    then show ?thesis unfolding m by (cases ?xs) simp_all
  qed
  show "map_of (fold (put_canonical t) cs []) i = Some (c, x) \<longleftrightarrow> c \<in> last_forms t cs \<and> (i, x) = identify_canonical t c"
  proof
    assume s: "map_of (fold (put_canonical t) cs []) i = Some (c, x)"
    then have l: "?xs \<noteq> []" "c = last ?xs" "x = snd (identify_canonical t c)" unfolding m by (auto split: list.splits)
    then have "c \<in> set ?xs" using last_in_set by blast
    then have "c \<in> set cs" "identity t c = i" by simp_all
    then have "c \<in> last_forms t cs" using l(2) by (simp add: last_forms_def)
    moreover have "(i, x) = identify_canonical t c" using \<open>identity t c = i\<close> l(3) by (metis prod.collapse)
    ultimately show "c \<in> last_forms t cs \<and> (i, x) = identify_canonical t c" ..
  next
    assume c: "c \<in> last_forms t cs \<and> (i, x) = identify_canonical t c"
    then have i: "identity t c = i" "x = snd (identify_canonical t c)" by (metis fst_conv, metis snd_conv)
    with c have "?xs \<noteq> []" "last ?xs = c" by (auto simp: filter_empty_conv last_forms_def)
    with i show "map_of (fold (put_canonical t) cs []) i = Some (c, x)" unfolding m by (cases ?xs) simp_all
  qed
qed

lemma sort_key_Nil [simp]: "sort_key f xs = [] \<longleftrightarrow> xs = []"
  by (metis length_0_conv length_sort)

lemma compare_maps_parts:
  assumes "compare_maps syn ours = (n, both, only_s, only_w, differing)"
  shows "only_s = [] \<longleftrightarrow> (\<forall>p \<in> set syn. map_of ours (fst p) \<noteq> None)" "only_w = [] \<longleftrightarrow> (\<forall>p \<in> set ours. map_of syn (fst p) \<noteq> None)"
    "differing = [] \<longleftrightarrow> (\<forall>p \<in> set syn. map_of ours (fst p) \<noteq> None \<longrightarrow> fst (snd p) = fst (the (map_of ours (fst p))))"
    "both = length (filter (\<lambda>p. map_of ours (fst p) \<noteq> None) syn)" "length only_s = length (filter (\<lambda>p. map_of ours (fst p) = None) syn)"
    "length only_w = length (filter (\<lambda>p. map_of syn (fst p) = None) ours)"
proof -
  note run0 = assms [unfolded compare_maps_def Let_def case_prod_beta' prod.inject]
  note run = run0 [THEN conjunct2, THEN conjunct1, symmetric] run0 [THEN conjunct2, THEN conjunct2, THEN conjunct1, symmetric]
    run0 [THEN conjunct2, THEN conjunct2, THEN conjunct2, THEN conjunct1, symmetric]
    run0 [THEN conjunct2, THEN conjunct2, THEN conjunct2, THEN conjunct2, symmetric]
  note none = filter_empty_conv sort_key_Nil list.map_disc_iff not_not
  show "only_s = [] \<longleftrightarrow> (\<forall>p \<in> set syn. map_of ours (fst p) \<noteq> None)" "only_w = [] \<longleftrightarrow> (\<forall>p \<in> set ours. map_of syn (fst p) \<noteq> None)"
    "differing = [] \<longleftrightarrow> (\<forall>p \<in> set syn. map_of ours (fst p) \<noteq> None \<longrightarrow> fst (snd p) = fst (the (map_of ours (fst p))))"
    unfolding run none set_filter mem_Collect_eq by blast+
  show "both = length (filter (\<lambda>p. map_of ours (fst p) \<noteq> None) syn)" "length only_s = length (filter (\<lambda>p. map_of ours (fst p) = None) syn)"
    "length only_w = length (filter (\<lambda>p. map_of syn (fst p) = None) ours)"
    unfolding run length_sort length_map by simp_all
qed

lemma compare_maps_eq:
  assumes "compare_maps (fold (put_canonical t) A []) (fold (put_canonical t) B []) = (n, both, only_s, only_w, differing)"
  shows "only_s = [] \<longleftrightarrow> identity t ` set A \<subseteq> identity t ` set B" "only_w = [] \<longleftrightarrow> identity t ` set B \<subseteq> identity t ` set A"
    "differing = [] \<longleftrightarrow> (\<forall>a \<in> last_forms t A. \<forall>b \<in> last_forms t B. identity t a = identity t b \<longrightarrow> a = b)"
    "both + length only_s + length only_w = card (identity t ` (set A \<union> set B))"
proof -
  let ?m = "fold (put_canonical t) A []" and ?n = "fold (put_canonical t) B []"
  have dm: "distinct (map fst ?m)" "distinct (map fst ?n)" using put_canonical_map(1) [of "[]"] by simp_all
  have km: "fst ` set ?m = identity t ` set A" and kn: "fst ` set ?n = identity t ` set B"
    using captured_map(2) [of t A] captured_map(2) [of t B] unfolding map_of_eq_None_iff by blast+
  have mem: "(i, c, x) \<in> set ?m \<longleftrightarrow> c \<in> last_forms t A \<and> (i, x) = identify_canonical t c" for i c x
    using captured_map(1) [of t A i c x] dm(1) by simp
  have lookup: "map_of ?n i = Some (c, x) \<longleftrightarrow> c \<in> last_forms t B \<and> (i, x) = identify_canonical t c" for i c x
    by (rule captured_map(1))
  have absent: "map_of ?n i = None \<longleftrightarrow> i \<notin> identity t ` set B" "map_of ?m i = None \<longleftrightarrow> i \<notin> identity t ` set A" for i
    using captured_map(2) by auto
  note parts = compare_maps_parts [OF assms(1)]
  show "only_s = [] \<longleftrightarrow> identity t ` set A \<subseteq> identity t ` set B" "only_w = [] \<longleftrightarrow> identity t ` set B \<subseteq> identity t ` set A"
    unfolding parts(1,2) absent km [symmetric] kn [symmetric] by auto
  show "differing = [] \<longleftrightarrow> (\<forall>a \<in> last_forms t A. \<forall>b \<in> last_forms t B. identity t a = identity t b \<longrightarrow> a = b)"
  proof
    assume d: "differing = []"
    show "\<forall>a \<in> last_forms t A. \<forall>b \<in> last_forms t B. identity t a = identity t b \<longrightarrow> a = b"
    proof (intro ballI impI)
      fix a b
      assume ab: "a \<in> last_forms t A" "b \<in> last_forms t B" "identity t a = identity t b"
      then have "(identity t a, a, snd (identify_canonical t a)) \<in> set ?m" unfolding mem prod.collapse by (simp only: simp_thms)
      moreover have "map_of ?n (identity t a) = Some (b, snd (identify_canonical t b))" using ab by (simp add: lookup)
      ultimately show "a = b" using d unfolding parts(3) by force
    qed
  next
    assume same: "\<forall>a \<in> last_forms t A. \<forall>b \<in> last_forms t B. identity t a = identity t b \<longrightarrow> a = b"
    show "differing = []" unfolding parts(3)
    proof (intro ballI impI)
      fix p
      assume p: "p \<in> set ?m" "map_of ?n (fst p) \<noteq> None"
      obtain i c x where e: "p = (i, c, x)" by (cases p)
      obtain b y where b: "map_of ?n i = Some (b, y)" using p(2) e by auto
      have "c \<in> last_forms t A" "identity t c = i" using p(1) e mem [of i c x] by (simp, metis fst_conv mem)
      moreover have "b \<in> last_forms t B" "identity t b = i" using b lookup [of i b y] by (simp, metis fst_conv lookup)
      ultimately show "fst (snd p) = fst (the (map_of ?n (fst p)))" using same e b by simp
    qed
  qed
  have len: "length (filter (\<lambda>p. P (fst p)) m) = card {i \<in> fst ` set m. P i}" if "distinct (map fst m)" for P and m :: pdu_map
  proof -
    have "{i \<in> fst ` set m. P i} = set (map fst (filter (\<lambda>p. P (fst p)) m))" by auto
    moreover have "distinct (map fst (filter (\<lambda>p. P (fst p)) m))" using that by (rule distinct_map_filter)
    ultimately show ?thesis by (simp only: distinct_card length_map)
  qed
  have "both + length only_s = card (identity t ` set A)"
    using sum_length_filter_compl [of "\<lambda>p. map_of ?n (fst p) \<noteq> None" ?m] distinct_card [OF dm(1)]
    unfolding parts(4,5) not_not by (simp only: set_map km length_map)
  moreover have "length only_w = card (identity t ` set B - identity t ` set A)"
  proof -
    have "{i \<in> fst ` set ?n. map_of ?m i = None} = identity t ` set B - identity t ` set A" by (auto simp: kn absent)
    then show ?thesis using len [OF dm(2), of "\<lambda>i. map_of ?m i = None"] by (simp only: parts(6))
  qed
  moreover have "card (identity t ` (set A \<union> set B)) = card (identity t ` set A) + card (identity t ` set B - identity t ` set A)"
  proof -
    have "identity t ` (set A \<union> set B) = identity t ` set A \<union> (identity t ` set B - identity t ` set A)" by auto
    then show ?thesis by (simp only:) (rule card_Un_disjoint, auto)
  qed
  ultimately show "both + length only_s + length only_w = card (identity t ` (set A \<union> set B))" by linarith
qed

text \<open>The contents of one type in a capture.\<close>

definition captured_contents :: "tools \<Rightarrow> string \<Rightarrow> capture_window \<Rightarrow> cap_record list \<Rightarrow> string \<Rightarrow> json list" where
  "captured_contents t dest w rs ty = map snd (filter (\<lambda>e. fst e = ty) (captured_edus t dest w rs))"


text \<open>One transaction of two PDUs against two of one, and a duplicated EDU on one side.\<close>

definition sample_tools :: tools where
  "sample_tools =
     \<lparr>tl_gjson = table_gjson [((''p1'', ''event_id''), ''$1''), ((''p2'', ''event_id''), ''$2'')] [] [],
      tl_decode = map_of [(''t1'', ([''p1'', ''p2''], [(''m.direct_to_device'', ''c''), (''m.direct_to_device'', ''c'')])),
        (''t2'', ([''p2''], [])), (''t3'', ([''p1''], [(''m.direct_to_device'', ''c'')]))],
      tl_canonical = Some\<rparr>"

definition sample_record :: "json \<Rightarrow> instant \<Rightarrow> cap_record" where
  "sample_record body time = \<lparr>cr_time = Some time, cr_source = SourceSynapse, cr_destination = ''b'', cr_origin = ''us'', cr_txn_id = ''1'',
     cr_path = [], cr_auth = [], cr_body = body, cr_status = 200, cr_error = []\<rparr>"


text \<open>
  An event that went out in two forms. The worker sent \<open>$1\<close> first in the form \<open>x\<close> and then in the
  form \<open>y\<close>, Synapse only in the form \<open>y\<close>: the comparison reports success.
\<close>

definition twice_tools :: tools where
  "twice_tools = \<lparr>tl_gjson = table_gjson [((''x'', ''event_id''), ''$1''), ((''y'', ''event_id''), ''$1'')] [] [],
      tl_decode = map_of [(''t1'', ([''x''], [])), (''t2'', ([''y''], []))], tl_canonical = Some\<rparr>"

lemma earlier_form_hidden:
  "\<exists>d. compare_captures twice_tools ''b'' \<lparr>win_since = None, win_until = None, win_by_event_time = False\<rparr>
        [sample_record ''t2'' 5] [sample_record ''t1'' 4, sample_record ''t2'' 5] = Some d \<and> exit_code d = 0"
proof -
  let ?w = "\<lparr>win_since = None, win_until = None, win_by_event_time = False\<rparr>"
  let ?s = "[sample_record ''t2'' 5]" and ?o = "[sample_record ''t1'' 4, sample_record ''t2'' 5]"
  have i: "identity twice_tools ''x'' = ''$1''" "identity twice_tools ''y'' = ''$1''"
    by (simp_all add: identify_canonical_def twice_tools_def gjson_eval Let_def)
  have pdus: "captured_pdus twice_tools ''b'' ?w ?s = [''y'']" "captured_pdus twice_tools ''b'' ?w ?o = [''x'', ''y'']"
    by (simp_all add: captured_pdus_def in_scope_def sample_record_def capture_window_contains_def twice_tools_def canonical_def pdu_in_window_def)
  obtain d where d: "compare_captures twice_tools ''b'' ?w ?s ?o = Some d"
    using compare_total [of ?s ?o twice_tools "''b''" ?w] by (auto simp: sample_record_def twice_tools_def)
  have "df_window d = ?w" using d by (auto simp: compare_captures_def simp del: flatten.simps split: option.splits prod.splits)
  then have window: "\<not> capture_window_empty (df_window d)" by (simp add: capture_window_empty_def)
  obtain sp se sn wp we wn where fl: "flatten twice_tools ''b'' ?w ?s ([], [], 0) = Some (sp, se, sn)"
    "flatten twice_tools ''b'' ?w ?o ([], [], 0) = Some (wp, we, wn)"
    using d by (auto simp: compare_captures_def simp del: flatten.simps split: option.splits)
  have maps: "sp = fold (put_canonical twice_tools) [''y''] []" "wp = fold (put_canonical twice_tools) [''x'', ''y''] []"
    using flatten_eq [OF fl(1)] flatten_eq [OF fl(2)] pdus by simp_all
  let ?m = "[(''$1'', ''y'', snd (identify_canonical twice_tools ''y''))]"
  have "sp = ?m" "wp = ?m" by (simp_all add: maps put_canonical_def i)
  moreover have "compare_maps ?m ?m = (0, 1, [], [], [])" by (simp add: compare_maps_def Let_def has_prefix_def)
  ultimately have "df_compared d = 1 \<and> diff_agreed d" using d fl by (auto simp: compare_captures_def diff_agreed_def simp del: flatten.simps)
  with d window show ?thesis by (auto simp: exit_code_def diff_inconclusive_def)
qed

end
