(* ===== verification/CaptureLog.thy ===== *)
theory CaptureLog
  imports CaptureCompare Txn "HOL-Library.Sublist"
begin

text \<open>
  \<open>internal/capture/writer.go\<close>, \<open>reader.go\<close> and \<open>worker.go\<close>: the rotating file a capture is written
  to and read back from. The file \<open>path\<close> is generation 0 and \<open>path.1\<close>, \<open>path.2\<close>, ... are the
  generations 1, 2, ...: a map from generations to bytes, changed only by this writer. The answers
  of the system calls of one write are a \<open>write_world\<close>; the JSON encoder and decoder of a record
  are arguments.
\<close>

section \<open>The file and its generations\<close>

abbreviation newline :: char where "newline \<equiv> CHR 0x0A"

text \<open>A rename that fails, and one whose source does not exist, changes nothing.\<close>

definition rename_file :: "bool \<Rightarrow> nat \<Rightarrow> nat \<Rightarrow> (nat \<rightharpoonup> 'a) \<Rightarrow> (nat \<rightharpoonup> 'a)" where
  "rename_file ok a b fs =
     (if ok then (case fs a of None \<Rightarrow> fs | Some content \<Rightarrow> (fs(a := None))(b \<mapsto> content)) else fs)"

record write_world =
  ww_close :: bool
  ww_remove :: bool
  ww_shift :: "nat \<Rightarrow> bool"
  ww_rename :: bool
  ww_open :: bool
  ww_write :: "nat option"

text \<open>\<open>ww_write = Some n\<close>: the write fails after \<open>n\<close> bytes.\<close>

definition calls_ok :: "write_world \<Rightarrow> bool" where
  "calls_ok w \<longleftrightarrow> ww_close w \<and> ww_remove w \<and> (\<forall>i. ww_shift w i) \<and> ww_rename w \<and> ww_open w \<and> ww_write w = None"

datatype log_handle = NoFile | OpenFile | ClosedFile

record capture_log =
  cl_max_bytes :: int
  cl_generations :: nat
  cl_destinations :: "string list"
  cl_handle :: log_handle
  cl_written :: int
  cl_dropped :: int
  cl_count :: int

type_synonym capture_files = "nat \<rightharpoonup> string"

text \<open>\<open>reopen\<close>: the file is created when it is not there, and appended to.\<close>

definition reopen_log :: "bool \<Rightarrow> capture_log \<Rightarrow> capture_files \<Rightarrow> (capture_log \<times> capture_files) \<times> bool" where
  "reopen_log ok c fs =
     (if \<not> ok then ((c, fs), False)
      else (let content = (case fs 0 of None \<Rightarrow> [] | Some s \<Rightarrow> s)
            in ((c\<lparr>cl_handle := OpenFile, cl_written := int (length content)\<rparr>, fs(0 \<mapsto> content)), True)))"

definition open_log :: "bool \<Rightarrow> int \<Rightarrow> int \<Rightarrow> string list \<Rightarrow> capture_files \<Rightarrow> (capture_log \<times> capture_files) option" where
  "open_log ok max_bytes generations destinations fs =
     (case reopen_log ok
        \<lparr>cl_max_bytes = (if max_bytes \<le> 0 then 2 ^ 28 else max_bytes),
         cl_generations = nat (if generations \<le> 0 then 3 else generations), cl_destinations = destinations,
         cl_handle = NoFile, cl_written = 0, cl_dropped = 0, cl_count = 0\<rparr> fs of
        (cf, True) \<Rightarrow> Some cf | _ \<Rightarrow> None)"

definition log_captures :: "capture_log \<Rightarrow> string \<Rightarrow> bool" where
  "log_captures c d \<longleftrightarrow> cl_destinations c = [] \<or> d \<in> set (cl_destinations c)"

text \<open>The loop of \<open>rotateLocked\<close> from the oldest generation down.\<close>

definition shift_generations :: "write_world \<Rightarrow> nat \<Rightarrow> (nat \<rightharpoonup> 'a) \<Rightarrow> (nat \<rightharpoonup> 'a)" where
  "shift_generations w g fs = fold (\<lambda>i. rename_file (ww_shift w i) i (Suc i)) (rev [1..<g]) fs"

definition rotate_log :: "write_world \<Rightarrow> capture_log \<Rightarrow> capture_files \<Rightarrow> (capture_log \<times> capture_files) \<times> bool" where
  "rotate_log w c fs =
     (let closed = c\<lparr>cl_handle := ClosedFile\<rparr>
      in if cl_handle c = ClosedFile \<or> \<not> ww_close w then ((closed, fs), False)
         else (let fs1 = (if ww_remove w then fs(cl_generations c := None) else fs);
                   fs2 = shift_generations w (cl_generations c) fs1
               in if \<not> ww_rename w then ((closed, fs2), False)
                  else reopen_log (ww_open w) closed (rename_file True 0 1 fs2)))"

text \<open>\<open>Write\<close>: the writer, the files, and whether an error is returned.\<close>

definition write_record ::
  "(cap_record \<Rightarrow> string option) \<Rightarrow> write_world \<Rightarrow> cap_record \<Rightarrow> capture_log \<times> capture_files \<Rightarrow> (capture_log \<times> capture_files) \<times> bool" where
  "write_record enc w r cf =
     (let (c, fs) = cf in
      if \<not> log_captures c (cr_destination r) then ((c, fs), False)
      else (case enc r of
        None \<Rightarrow> ((c, fs), True)
      | Some line \<Rightarrow>
          (let b = line @ [newline]
           in if cl_handle c = NoFile then ((c\<lparr>cl_dropped := cl_dropped c + 1\<rparr>, fs), False)
              else (let ((c1, fs1), ready) =
                      (if cl_written c + int (length b) > cl_max_bytes c then rotate_log w c fs else ((c, fs), True))
                    in if \<not> ready \<or> cl_handle c1 = ClosedFile then ((c1\<lparr>cl_dropped := cl_dropped c1 + 1\<rparr>, fs1), True)
                       else (let n = (case ww_write w of None \<Rightarrow> length b | Some m \<Rightarrow> min m (length b));
                                 fs2 = fs1(0 \<mapsto> (case fs1 0 of None \<Rightarrow> [] | Some s \<Rightarrow> s) @ take n b);
                                 c2 = c1\<lparr>cl_written := cl_written c1 + int n\<rparr>
                             in if ww_write w \<noteq> None then ((c2\<lparr>cl_dropped := cl_dropped c2 + 1\<rparr>, fs2), True)
                                else ((c2\<lparr>cl_count := cl_count c2 + 1\<rparr>, fs2), False))))))"

definition log_stats :: "capture_log \<Rightarrow> int \<times> int" where
  "log_stats c = (cl_count c, cl_dropped c)"

definition close_log :: "bool \<Rightarrow> capture_log \<Rightarrow> capture_log \<times> bool" where
  "close_log ok c = (if cl_handle c = NoFile then (c, True)
     else (c\<lparr>cl_handle := NoFile\<rparr>, ok \<and> cl_handle c = OpenFile))"

text \<open>\<open>WorkerCapture.Capture\<close>: the record of a request the worker built.\<close>

definition capture_request :: "instant \<Rightarrow> string \<Rightarrow> request \<Rightarrow> cap_record" where
  "capture_request now origin req =
     \<lparr>cr_time = Some now, cr_source = SourceWorker, cr_destination = rq_destination req, cr_origin = origin,
      cr_txn_id = rq_transaction_id req, cr_path = rq_path req, cr_auth = rq_auth_header req,
      cr_body = rq_body req, cr_status = 0, cr_error = []\<rparr>"

definition event_ids :: "gjson \<Rightarrow> cap_record \<Rightarrow> string list" where
  "event_ids g r = filter (\<lambda>i. i \<noteq> []) (map (\<lambda>p. get_str g p ''event_id'') (get_items g (cr_body r) ''pdus''))"

section \<open>Reading a capture\<close>

text \<open>
  \<open>bufio.Scanner\<close> with \<open>ScanLines\<close>: a last line without a newline counts, one carriage return at
  the end of a line is dropped, and a line that does not fit the buffer with its newline ends the
  scan with an error.
\<close>

abbreviation max_line_bytes :: nat where "max_line_bytes \<equiv> 16777216"

definition drop_cr :: "string \<Rightarrow> string" where
  "drop_cr l = (if l \<noteq> [] \<and> last l = CHR 0x0D then butlast l else l)"

definition scan_lines :: "string \<Rightarrow> string list" where
  "scan_lines s = (let ls = split_on newline s in if last ls = [] then butlast ls else ls)"

fun read_records :: "(string \<Rightarrow> cap_record option) \<Rightarrow> string list \<Rightarrow> cap_record list \<times> nat \<times> bool" where
  "read_records dec [] = ([], 0, False)"
| "read_records dec (l # ls) =
     (if max_line_bytes \<le> length l then ([], 0, True)
      else (let (rs, skipped, err) = read_records dec ls; line = drop_cr l
            in if line = [] then (rs, skipped, err)
               else (case dec line of None \<Rightarrow> (rs, Suc skipped, err) | Some r \<Rightarrow> (r # rs, skipped, err))))"

definition read_capture :: "(string \<Rightarrow> cap_record option) \<Rightarrow> string \<Rightarrow> cap_record list \<times> nat \<times> bool" where
  "read_capture dec s = read_records dec (scan_lines s)"

section \<open>What the generations hold\<close>

definition content_at :: "(nat \<rightharpoonup> 'a list) \<Rightarrow> nat \<Rightarrow> 'a list" where
  "content_at fs i = (case fs i of None \<Rightarrow> [] | Some c \<Rightarrow> c)"

text \<open>Oldest generation first.\<close>

fun kept :: "nat \<Rightarrow> (nat \<rightharpoonup> 'a list) \<Rightarrow> 'a list" where
  "kept 0 fs = content_at fs 0"
| "kept (Suc g) fs = content_at fs (Suc g) @ kept g fs"

lemma kept_cong: "(\<And>i. i \<le> g \<Longrightarrow> content_at fs i = content_at gs i) \<Longrightarrow> kept g fs = kept g gs"
  by (induction g) auto

lemma content_at_update [simp]: "content_at (fs(i \<mapsto> c)) j = (if j = i then c else content_at fs j)"
  "content_at (fs(i := None)) j = (if j = i then [] else content_at fs j)"
  by (simp_all add: content_at_def)

lemma content_at_rename:
  "content_at (rename_file ok a b fs) i =
     (if ok \<and> fs a \<noteq> None then if i = b then content_at fs a else if i = a then [] else content_at fs i else content_at fs i)"
  by (auto simp: rename_file_def content_at_def split: option.split)

lemma kept_subseq: "(\<And>i. i \<le> g \<Longrightarrow> subseq (content_at fs i) (content_at gs i)) \<Longrightarrow> subseq (kept g fs) (kept g gs)"
  by (induction g) (auto intro: list_emb_append_mono)

lemma kept_append_at_0:
  "kept g (fs(0 \<mapsto> content_at fs 0 @ x)) = kept g fs @ x"
  by (induction g) (simp_all del: fun_upd_apply)

lemma kept_zero_subseq: "subseq (kept g (fs(0 \<mapsto> content_at fs 0))) (kept g fs)"
  by (rule kept_subseq) (simp del: fun_upd_apply)

lemma kept_remove_subseq: "subseq (kept g (fs(i := None))) (kept g fs)"
  by (rule kept_subseq) (simp del: fun_upd_apply)

lemma kept_rename_subseq:
  assumes "a < g"
  shows "subseq (kept g (rename_file ok a (Suc a) fs)) (kept g fs)"
  using assms
proof (induction g)
  case (Suc g)
  show ?case
  proof (cases "a = g")
    case True
    have none: "content_at fs a = []" if "fs a = None" using that by (simp add: content_at_def)
    have r: "kept n (rename_file ok a (Suc a) fs) = kept n (if ok \<and> fs a \<noteq> None then fs(a := None) else fs)" if "n \<le> a" for n
      using that none by (intro kept_cong) (auto simp: content_at_rename simp del: fun_upd_apply)
    have below: "kept a fs = content_at fs a @ (if a = 0 then [] else kept (a - 1) fs)" for fs :: "nat \<rightharpoonup> 'a list"
      by (cases a) auto
    have "kept (a - 1) (fs(a := None)) = kept (a - 1) fs" if "a \<noteq> 0" using that by (intro kept_cong) (auto simp del: fun_upd_apply)
    then show ?thesis using r [of a] True below [of fs] below [of "fs(a := None)"]
      by (auto simp: content_at_rename simp del: fun_upd_apply)
  next
    case False
    then have "subseq (kept g (rename_file ok a (Suc a) fs)) (kept g fs)" using Suc by simp
    moreover have "content_at (rename_file ok a (Suc a) fs) (Suc g) = content_at fs (Suc g)"
      using False Suc.prems by (simp add: content_at_rename)
    ultimately show ?thesis by (simp add: list_emb_append_mono)
  qed
qed simp

lemma kept_shift_subseq: "subseq (kept g (shift_generations w g fs)) (kept g fs)"
proof -
  have "subseq (kept g (fold (\<lambda>i. rename_file (ww_shift w i) i (Suc i)) is fs)) (kept g fs)" if "\<forall>i \<in> set is. i < g" for "is"
    using that
  proof (induction "is" arbitrary: fs)
    case (Cons i xs)
    then have "subseq (kept g (fold (\<lambda>i. rename_file (ww_shift w i) i (Suc i)) xs (rename_file (ww_shift w i) i (Suc i) fs)))
        (kept g (rename_file (ww_shift w i) i (Suc i) fs))" by simp
    then show ?case using kept_rename_subseq [of i g "ww_shift w i" fs] Cons.prems by (auto intro: subseq_order.order_trans)
  qed simp
  then show ?thesis unfolding shift_generations_def by simp
qed

text \<open>When every rename succeeds each generation moves up by one.\<close>

lemma shift_generations_ok:
  assumes "\<forall>i. ww_shift w i" "fs g = None" "0 < g"
  shows "shift_generations w g fs i = (if i = 1 then None else if 1 < i \<and> i \<le> g then fs (i - 1) else fs i)"
proof -
  have step: "fold (\<lambda>i. rename_file (ww_shift w i) i (Suc i)) (rev [Suc m..<Suc m + n]) fs i
      = (if n = 0 then fs i else if i = Suc m then None else if Suc m < i \<and> i \<le> Suc m + n then fs (i - 1) else fs i)"
    if "fs (Suc m + n) = None" for m n i and fs :: "nat \<rightharpoonup> 'a"
    using that
  proof (induction n arbitrary: fs i)
    case (Suc n)
    obtain gs where d: "gs = rename_file True (Suc m + n) (Suc (Suc m + n)) fs" by simp
    have gs: "gs j = (if j = Suc m + n then None else if j = Suc (Suc m + n) then fs (Suc m + n) else fs j)" for j
      unfolding d using Suc.prems by (auto simp: rename_file_def split: option.split)
    have "fold (\<lambda>i. rename_file (ww_shift w i) i (Suc i)) (rev [Suc m..<Suc m + Suc n]) fs
        = fold (\<lambda>i. rename_file (ww_shift w i) i (Suc i)) (rev [Suc m..<Suc m + n]) gs"
      using assms(1) by (simp add: d)
    then show ?case by (simp only:) (subst Suc.IH, simp add: gs, auto simp: gs)
  qed simp
  show ?thesis
  proof (cases "g = 1")
    case True
    then show ?thesis using assms(2) by (simp add: shift_generations_def)
  next
    case False
    then have "g = Suc 0 + (g - 1)" using assms(3) by simp
    then show ?thesis using step [of fs 0 "g - 1" i] assms(2,3) False by (auto simp: shift_generations_def)
  qed
qed

definition good_files :: "('a list \<Rightarrow> bool) \<Rightarrow> nat \<Rightarrow> (nat \<rightharpoonup> 'a list) \<Rightarrow> bool" where
  "good_files P g fs \<longleftrightarrow> (\<forall>i c. fs i = Some c \<longrightarrow> i \<le> g \<and> P c)"

lemma good_files_rename: "good_files P g fs \<Longrightarrow> b \<le> g \<Longrightarrow> good_files P g (rename_file ok a b fs)"
  unfolding good_files_def rename_file_def by (auto split: option.splits if_splits)

lemma good_files_update: "good_files P g fs \<Longrightarrow> P c \<Longrightarrow> good_files P g (fs(0 \<mapsto> c))"
  "good_files P g fs \<Longrightarrow> good_files P g (fs(i := None))"
  unfolding good_files_def by (auto split: if_splits)

lemma good_files_shift: "good_files P g fs \<Longrightarrow> good_files P g (shift_generations w g fs)"
proof -
  have "good_files P g fs \<Longrightarrow> \<forall>i \<in> set is. i < g \<Longrightarrow> good_files P g (fold (\<lambda>i. rename_file (ww_shift w i) i (Suc i)) is fs)" for "is"
    by (induction "is" arbitrary: fs) (simp_all add: good_files_rename)
  then show "good_files P g fs \<Longrightarrow> good_files P g (shift_generations w g fs)"
    by (simp add: shift_generations_def)
qed

text \<open>The files as the records they hold.\<close>

definition records_text :: "(cap_record \<Rightarrow> string option) \<Rightarrow> cap_record list \<Rightarrow> string" where
  "records_text enc rs = concat (map (\<lambda>l. l @ [newline]) (map (\<lambda>r. the (enc r)) rs))"

lemma records_text_snoc: "records_text enc (rs @ [r]) = records_text enc rs @ the (enc r) @ [newline]"
  by (simp add: records_text_def)

definition files_text :: "(cap_record \<Rightarrow> string option) \<Rightarrow> (nat \<rightharpoonup> cap_record list) \<Rightarrow> capture_files" where
  "files_text enc G = (\<lambda>i. map_option (records_text enc) (G i))"

lemma files_text_rename: "rename_file ok a b (files_text enc G) = files_text enc (rename_file ok a b G)"
  by (auto simp: files_text_def rename_file_def split: option.splits)

lemma files_text_update: "(files_text enc G)(i := None) = files_text enc (G(i := None))"
  "(files_text enc G)(i \<mapsto> records_text enc rs) = files_text enc (G(i \<mapsto> rs))"
  by (auto simp: files_text_def)

lemma files_text_shift: "shift_generations w g (files_text enc G) = files_text enc (shift_generations w g G)"
proof -
  have "fold (\<lambda>i. rename_file (ww_shift w i) i (Suc i)) is (files_text enc G)
      = files_text enc (fold (\<lambda>i. rename_file (ww_shift w i) i (Suc i)) is G)" for "is"
    by (induction "is" arbitrary: G) (simp_all add: files_text_rename)
  then show ?thesis by (simp add: shift_generations_def)
qed

lemma content_at_files_text: "content_at (files_text enc G) i = records_text enc (content_at G i)"
  by (auto simp: content_at_def files_text_def records_text_def split: option.split)

text \<open>No file is larger than the bound, unless it holds a single record.\<close>

definition small_enough :: "(cap_record \<Rightarrow> string option) \<Rightarrow> capture_log \<Rightarrow> cap_record list \<Rightarrow> bool" where
  "small_enough enc c rs \<longleftrightarrow> int (length (records_text enc rs)) \<le> cl_max_bytes c \<or> length rs = 1"

definition log_inv :: "(cap_record \<Rightarrow> string option) \<Rightarrow> capture_log \<Rightarrow> capture_files \<Rightarrow> (nat \<rightharpoonup> cap_record list) \<Rightarrow> bool" where
  "log_inv enc c fs G \<longleftrightarrow>
     fs = files_text enc G \<and> good_files (small_enough enc c) (cl_generations c) G
     \<and> 0 < cl_generations c \<and> 0 < cl_max_bytes c \<and> cl_handle c \<noteq> NoFile
     \<and> (cl_handle c = OpenFile \<longrightarrow> cl_written c = int (length (content_at fs 0)))"

text \<open>Everything of a writer but its handle and its size.\<close>

definition same_log :: "capture_log \<Rightarrow> capture_log \<Rightarrow> bool" where
  "same_log c c' \<longleftrightarrow> c'\<lparr>cl_handle := cl_handle c, cl_written := cl_written c\<rparr> = c"

lemma small_enough_nil: "0 < cl_max_bytes c \<Longrightarrow> small_enough enc c []"
  by (simp add: small_enough_def records_text_def)

lemma rotate_inv:
  assumes inv: "log_inv enc c fs G" and run: "rotate_log w c fs = ((c', fs'), ok)"
  shows "\<exists>G'. log_inv enc c' fs' G' \<and> same_log c c' \<and> subseq (kept (cl_generations c) G') (kept (cl_generations c) G)
    \<and> (if ok then cl_handle c' = OpenFile \<and> content_at G' 0 = [] else cl_handle c' = ClosedFile)"
proof -
  let ?g = "cl_generations c"
  have fs: "fs = files_text enc G" and good: "good_files (small_enough enc c) ?g G" and g: "0 < ?g" "0 < cl_max_bytes c"
    using inv by (simp_all add: log_inv_def)
  have closed: "small_enough enc (c\<lparr>cl_handle := h, cl_written := n\<rparr>) = small_enough enc c" for h n
    by (simp add: small_enough_def fun_eq_iff)
  have closed': "small_enough enc (c\<lparr>cl_handle := h\<rparr>) = small_enough enc c" for h
    by (simp add: small_enough_def fun_eq_iff)
  define G1 where "G1 = (if ww_remove w then G(?g := None) else G)"
  define G2 where "G2 = shift_generations w ?g G1"
  define G3 where "G3 = rename_file True 0 1 G2"
  have good1: "good_files (small_enough enc c) ?g G2" "good_files (small_enough enc c) ?g G3"
    using good g by (auto simp: G1_def G2_def G3_def good_files_shift good_files_update good_files_rename)
  have sub1: "subseq (kept ?g G1) (kept ?g G)" by (simp add: G1_def kept_remove_subseq)
  then have sub2: "subseq (kept ?g G2) (kept ?g G)"
    unfolding G2_def using kept_shift_subseq [of ?g w G1] by (rule subseq_order.order_trans [rotated])
  then have sub3: "subseq (kept ?g G3) (kept ?g G)"
    unfolding G3_def using kept_rename_subseq [of 0 ?g True G2] g by (auto intro: subseq_order.order_trans)
  have f2: "shift_generations w ?g (if ww_remove w then fs(?g := None) else fs) = files_text enc G2"
    by (simp add: fs G1_def G2_def files_text_update files_text_shift)
  have z3: "content_at G3 0 = []" by (simp add: G3_def content_at_rename) (simp add: content_at_def)
  consider (early) "cl_handle c = ClosedFile \<or> \<not> ww_close w" "c' = c\<lparr>cl_handle := ClosedFile\<rparr>" "fs' = fs" "\<not> ok"
    | (stuck) "c' = c\<lparr>cl_handle := ClosedFile\<rparr>" "fs' = files_text enc G2" "\<not> ok"
    | (unopened) "c' = c\<lparr>cl_handle := ClosedFile\<rparr>" "fs' = files_text enc G3" "\<not> ok"
    | (opened) "c' = c\<lparr>cl_handle := OpenFile, cl_written := 0\<rparr>" "fs' = files_text enc (G3(0 \<mapsto> []))" "ok"
  proof -
    have n: "content_at (files_text enc G3) 0 = []" by (simp add: content_at_files_text z3 records_text_def)
    have e: "records_text enc [] = []" by (simp add: records_text_def)
    show ?thesis using run that n files_text_update(2) [of enc G3 0 "[]", unfolded e]
      by (auto simp: rotate_log_def Let_def f2 reopen_log_def files_text_rename G3_def [symmetric, unfolded One_nat_def]
          content_at_def split: if_splits option.splits)
  qed
  then show ?thesis
  proof cases
    case opened
    have "good_files (small_enough enc c) ?g (G3(0 \<mapsto> []))" using good1 g by (simp add: good_files_update small_enough_nil)
    moreover have "kept ?g (G3(0 \<mapsto> [])) = kept ?g G3" by (rule kept_cong) (simp add: z3 del: fun_upd_apply)
    ultimately show ?thesis using opened sub3 g
      by (intro exI [of _ "G3(0 \<mapsto> [])"])
        (simp add: log_inv_def closed same_log_def content_at_files_text records_text_def del: fun_upd_apply)
  qed (use inv good1 sub2 sub3 g in \<open>auto simp: log_inv_def closed' same_log_def intro: exI [of _ G] exI [of _ G2] exI [of _ G3]\<close>)
qed

lemma same_log_trans: "same_log a b \<Longrightarrow> same_log b c \<Longrightarrow> same_log a c"
  by (cases a; cases b; cases c) (simp add: same_log_def)

lemma same_log_fields: "same_log c c' \<Longrightarrow> cl_generations c' = cl_generations c \<and> cl_max_bytes c' = cl_max_bytes c
    \<and> cl_destinations c' = cl_destinations c \<and> cl_dropped c' = cl_dropped c \<and> cl_count c' = cl_count c"
  by (cases c; cases c') (simp add: same_log_def)

text \<open>One write of a record that is captured and can be encoded, without a torn line.\<close>

lemma write_inv:
  assumes inv: "log_inv enc c fs G" and r: "log_captures c (cr_destination r)" "enc r = Some b"
    and whole: "ww_write w = None \<or> ww_write w = Some 0"
    and run: "write_record enc w r (c, fs) = ((c', fs'), e)"
  shows "\<exists>G'. log_inv enc c' fs' G' \<and> cl_generations c' = cl_generations c \<and> cl_destinations c' = cl_destinations c
    \<and> subseq (kept (cl_generations c) G') (kept (cl_generations c) G @ [r])
    \<and> (cl_count c' = cl_count c + 1 \<and> cl_dropped c' = cl_dropped c \<or> cl_count c' = cl_count c \<and> cl_dropped c' = cl_dropped c + 1)"
proof -
  let ?b = "b @ [newline]" and ?g = "cl_generations c"
  obtain c1 fs1 ready where rot: "(if cl_written c + int (length ?b) > cl_max_bytes c then rotate_log w c fs else ((c, fs), True)) = ((c1, fs1), ready)"
    by (metis prod.exhaust)
  obtain G1 where G1: "log_inv enc c1 fs1 G1" "same_log c c1" "subseq (kept ?g G1) (kept ?g G)"
    and h: "ready \<Longrightarrow> cl_handle c1 = OpenFile \<Longrightarrow> content_at G1 0 = [] \<or> int (length (content_at fs1 0)) + int (length ?b) \<le> cl_max_bytes c"
  proof (cases "cl_written c + int (length ?b) > cl_max_bytes c")
    case True
    then show thesis using rotate_inv [OF inv, of w c1 fs1 ready] rot that by (auto split: if_splits)
  next
    case False
    then show thesis using rot inv that [of G] by (auto simp: log_inv_def same_log_def)
  qed
  note same = same_log_fields [OF G1(2)]
  have nn: "cl_handle c \<noteq> NoFile" using inv by (simp add: log_inv_def)
  show ?thesis
  proof (cases "\<not> ready \<or> cl_handle c1 = ClosedFile \<or> ww_write w = Some 0")
    case True
    have f1: "fs1 = files_text enc G1" using G1(1) by (simp add: log_inv_def)
    have out: "c' = c1\<lparr>cl_dropped := cl_dropped c1 + 1\<rparr> \<and> (fs' = fs1 \<or> cl_handle c1 \<noteq> ClosedFile \<and> fs' = fs1(0 \<mapsto> content_at fs1 0))"
      using run True nn r rot by (auto simp: write_record_def Let_def content_at_def split: if_splits)
    define G2 where "G2 = (if fs' = fs1 then G1 else G1(0 \<mapsto> content_at G1 0))"
    have "fs' = files_text enc G2"
      using out by (auto simp: G2_def f1 content_at_files_text files_text_update)
    moreover have "good_files (small_enough enc c1) ?g G2"
      using G1(1) same by (auto simp: G2_def log_inv_def content_at_def good_files_update small_enough_nil split: option.split)
        (auto simp: good_files_def)
    moreover have "kept ?g G2 = kept ?g G1" unfolding G2_def by (rule kept_cong) (simp del: fun_upd_apply)
    moreover have "content_at fs' 0 = content_at fs1 0" using out by (auto simp del: fun_upd_apply)
    moreover have "small_enough enc (c1\<lparr>cl_dropped := n\<rparr>) = small_enough enc c1" for n by (simp add: small_enough_def fun_eq_iff)
    moreover have "subseq (kept ?g G1) (kept ?g G @ [r])" using G1(3) by (rule list_emb_prefix)
    ultimately show ?thesis using out G1 same by (intro exI [of _ G2]) (auto simp: log_inv_def)
  next
    case False
    then have op: "ready" "cl_handle c1 = OpenFile" "ww_write w = None"
      using whole G1(1) by (cases "cl_handle c1", auto simp: log_inv_def)+
    let ?G2 = "G1(0 \<mapsto> content_at G1 0 @ [r])"
    have f1: "fs1 = files_text enc G1" "cl_written c1 = int (length (content_at fs1 0))" using G1(1) op by (auto simp: log_inv_def)
    have c': "c' = c1\<lparr>cl_written := cl_written c1 + int (length ?b), cl_count := cl_count c1 + 1\<rparr>"
      and fs': "fs' = fs1(0 \<mapsto> content_at fs1 0 @ ?b)"
      using run op nn r rot by (auto simp: write_record_def Let_def content_at_def split: if_splits)
    have t: "records_text enc (content_at G1 0 @ [r]) = content_at fs1 0 @ ?b"
      by (simp add: records_text_snoc r f1(1) content_at_files_text)
    have "fs' = files_text enc ?G2" 
      using files_text_update(2) [of enc G1 0 "content_at G1 0 @ [r]"] unfolding t fs' f1(1) [symmetric] .
    moreover have "small_enough enc c1 (content_at G1 0 @ [r])"
      using h [OF op(1,2)] same t by (auto simp: small_enough_def)
    then have "good_files (small_enough enc c1) ?g ?G2" using G1(1) same by (simp add: good_files_update log_inv_def)
    moreover have "small_enough enc (c1\<lparr>cl_written := m, cl_count := n\<rparr>) = small_enough enc c1" for m n by (simp add: small_enough_def fun_eq_iff)
    moreover have "subseq (kept ?g ?G2) (kept ?g G @ [r])"
      unfolding kept_append_at_0 using G1(3) by (simp add: list_emb_append_mono)
    ultimately show ?thesis using G1 same op f1(2) c' fs'
      by (intro exI [of _ ?G2]) (auto simp: log_inv_def content_at_files_text t simp del: fun_upd_apply)
  qed
qed

text \<open>With every call answered, rotation moves each generation up and loses the oldest only.\<close>

definition moved_up :: "nat \<Rightarrow> (nat \<rightharpoonup> 'a list) \<Rightarrow> (nat \<rightharpoonup> 'a list)" where
  "moved_up g G = (\<lambda>i. if i = 0 then Some [] else if i \<le> g then G (i - 1) else None)"

lemma kept_moved_up: "kept (Suc n) (moved_up g G) = kept n G" if "n < g"
  using that
proof (induction n)
  case (Suc n)
  then show ?case by (simp add: content_at_def moved_up_def)
qed (simp add: content_at_def moved_up_def)

lemma rotate_ok:
  assumes inv: "log_inv enc c fs G" and ok: "calls_ok w" and "cl_handle c = OpenFile"
  shows "rotate_log w c fs = ((c\<lparr>cl_handle := OpenFile, cl_written := 0\<rparr>, files_text enc (moved_up (cl_generations c) G)), True)"
proof -
  let ?g = "cl_generations c"
  have fs: "fs = files_text enc G" and g: "0 < ?g" and above: "G i = None" if "?g < i" for i
    using inv that by (auto simp: log_inv_def good_files_def) (meson leD not_Some_eq)+
  have fs: "fs = files_text enc G" and g: "0 < ?g" using inv by (auto simp: log_inv_def)
  have sh: "shift_generations w ?g (G(?g := None)) i = (if i = 1 then None else if 1 < i \<and> i \<le> ?g then (G(?g := None)) (i - 1) else (G(?g := None)) i)" for i
    using ok g by (intro shift_generations_ok) (auto simp: calls_ok_def)
  have "(rename_file True 0 1 (shift_generations w ?g (G(?g := None))))(0 := None) = (moved_up ?g G)(0 := None)"
    by (rule ext) (use g above in \<open>auto simp: rename_file_def sh moved_up_def split: option.split\<close>)
  moreover have z: "rename_file True 0 1 (shift_generations w ?g (G(?g := None))) 0 = None"
    by (simp add: rename_file_def split: option.split)
  ultimately have up: "(rename_file True 0 1 (shift_generations w ?g (G(?g := None))))(0 \<mapsto> []) = moved_up ?g G"
    by (metis fun_upd_upd fun_upd_triv moved_up_def)
  have e: "records_text enc [] = []" by (simp add: records_text_def)
  show ?thesis
    using ok assms(3) files_text_update(2) [of enc _ 0 "[]", unfolded e]
    by (simp add: rotate_log_def Let_def calls_ok_def fs files_text_update(1) files_text_shift files_text_rename reopen_log_def
        up [symmetric] z [unfolded One_nat_def]) (simp add: files_text_def z [unfolded One_nat_def])
qed

definition dense_files :: "(nat \<rightharpoonup> 'a) \<Rightarrow> bool" where
  "dense_files G \<longleftrightarrow> (\<forall>i. G (Suc i) \<noteq> None \<longrightarrow> G i \<noteq> None)"

lemma dense_filesD: "dense_files G \<Longrightarrow> G n \<noteq> None \<Longrightarrow> i \<le> n \<Longrightarrow> G i \<noteq> None"
  by (induction n) (auto simp: dense_files_def le_Suc_eq)

lemma write_ok:
  assumes inv: "log_inv enc c fs G" "dense_files G" and ok: "calls_ok w" "cl_handle c = OpenFile"
    and r: "log_captures c (cr_destination r)" "enc r = Some b" and run: "write_record enc w r (c, fs) = ((c', fs'), e)"
  shows "\<exists>G' lost. log_inv enc c' fs' G' \<and> dense_files G' \<and> cl_handle c' = OpenFile \<and> cl_generations c' = cl_generations c
    \<and> cl_destinations c' = cl_destinations c \<and> cl_count c' = cl_count c + 1 \<and> cl_dropped c' = cl_dropped c \<and> \<not> e
    \<and> lost @ kept (cl_generations c) G' = kept (cl_generations c) G @ [r]
    \<and> (lost = [] \<and> (\<forall>i. G i \<noteq> None \<longrightarrow> G' i \<noteq> None) \<or> (\<forall>i \<le> cl_generations c. G' i \<noteq> None))"
proof -
  let ?g = "cl_generations c" and ?b = "b @ [newline]" and ?full = "cl_written c + int (length (b @ [newline])) > cl_max_bytes c"
  define c1 where "c1 = (if ?full then c\<lparr>cl_handle := OpenFile, cl_written := 0\<rparr> else c)"
  define G1 where "G1 = (if ?full then moved_up ?g G else G)"
  have fs: "fs = files_text enc G" and g: "0 < ?g" "0 < cl_max_bytes c" and good: "good_files (small_enough enc c) ?g G"
    and wr: "cl_written c = int (length (content_at fs 0))"
    using inv(1) ok(2) by (auto simp: log_inv_def)
  have rot: "(if ?full then rotate_log w c fs else ((c, fs), True)) = ((c1, files_text enc G1), True)"
    using rotate_ok [OF inv(1) ok] fs by (simp add: c1_def G1_def)
  have t: "records_text enc (content_at G1 0 @ [r]) = content_at (files_text enc G1) 0 @ ?b"
    by (simp add: records_text_snoc r content_at_files_text)
  have out: "c' = c1\<lparr>cl_written := cl_written c1 + int (length ?b), cl_count := cl_count c1 + 1\<rparr>" "\<not> e"
    "fs' = (files_text enc G1)(0 \<mapsto> content_at (files_text enc G1) 0 @ ?b)"
    using run ok r rot by (auto simp: write_record_def Let_def content_at_def c1_def calls_ok_def split: if_splits)
  have fs': "fs' = files_text enc (G1(0 \<mapsto> content_at G1 0 @ [r]))"
    using files_text_update(2) [of enc G1 0 "content_at G1 0 @ [r]"] unfolding t out(3) .
  have w1: "cl_written c1 = int (length (content_at (files_text enc G1) 0))"
    using wr by (auto simp: c1_def G1_def fs content_at_files_text) (simp add: content_at_def moved_up_def records_text_def)
  have good1: "good_files (small_enough enc c) ?g (G1(0 \<mapsto> content_at G1 0 @ [r]))"
  proof (rule good_files_update)
    show "good_files (small_enough enc c) ?g G1"
      using good small_enough_nil [OF g(2)] by (auto simp: G1_def good_files_def moved_up_def split: if_splits)
    show "small_enough enc c (content_at G1 0 @ [r])"
    proof (cases ?full)
      case True
      then have "content_at G1 0 = []" by (simp add: G1_def content_at_def moved_up_def)
      then show ?thesis by (simp add: small_enough_def)
    next
      case False
      then show ?thesis using t wr by (simp add: small_enough_def G1_def fs)
    qed
  qed
  have "log_inv enc c' fs' (G1(0 \<mapsto> content_at G1 0 @ [r]))"
  proof -
    have "small_enough enc c' = small_enough enc c" by (simp add: fun_eq_iff small_enough_def out(1) c1_def)
    moreover have "cl_generations c' = ?g" "cl_max_bytes c' = cl_max_bytes c" "cl_handle c' = OpenFile" "cl_written c' = cl_written c1 + int (length ?b)"
      using out(1) ok(2) by (simp_all add: c1_def)
    ultimately show ?thesis using good1 g w1 t by (simp add: log_inv_def fs' content_at_files_text del: fun_upd_apply)
  qed
  moreover have "dense_files (G1(0 \<mapsto> content_at G1 0 @ [r]))"
  proof -
    have "dense_files G1" using inv(2) by (auto simp: G1_def dense_files_def moved_up_def)
    then show ?thesis by (auto simp: dense_files_def)
  qed
  moreover have "(if ?full then content_at G ?g else []) @ kept ?g (G1(0 \<mapsto> content_at G1 0 @ [r])) = kept ?g G @ [r]"
  proof -
    have "kept ?g G = content_at G ?g @ kept (?g - 1) G" using g(1) by (cases ?g) simp_all
    moreover have "kept ?g (moved_up ?g G) = kept (?g - 1) G" using kept_moved_up [of "?g - 1" ?g G] g(1) by simp
    ultimately show ?thesis unfolding kept_append_at_0 by (auto simp: G1_def)
  qed
  moreover have "(if ?full then content_at G ?g else []) = [] \<and> (\<forall>i. G i \<noteq> None \<longrightarrow> (G1(0 \<mapsto> content_at G1 0 @ [r])) i \<noteq> None)
      \<or> (\<forall>i \<le> ?g. (G1(0 \<mapsto> content_at G1 0 @ [r])) i \<noteq> None)"
  proof (cases "?full \<and> G ?g \<noteq> None")
    case True
    then have "\<forall>i \<le> ?g. G i \<noteq> None" using dense_filesD [OF inv(2)] by blast
    with True show ?thesis by (auto simp: G1_def moved_up_def)
  next
    case False
    then have "(if ?full then content_at G ?g else []) = []" by (auto simp: content_at_def)
    moreover have "(G1(0 \<mapsto> content_at G1 0 @ [r])) i \<noteq> None" if "G i \<noteq> None" for i
    proof -
      have "i \<le> ?g" using good that by (auto simp: good_files_def)
      moreover have "G (i - 1) \<noteq> None" using dense_filesD [OF inv(2) that] by simp
      ultimately show ?thesis using that by (simp add: G1_def moved_up_def)
    qed
    ultimately show ?thesis by blast
  qed
  ultimately show ?thesis using out(1,2) by (intro exI [of _ "G1(0 \<mapsto> content_at G1 0 @ [r])"] exI [of _ "if ?full then content_at G ?g else []"])
    (auto simp: c1_def ok(2) simp del: fun_upd_apply)
qed

section \<open>Writing a capture and reading it back\<close>

text \<open>The writes of a process, with the records that could be captured.\<close>

fun write_all ::
  "(cap_record \<Rightarrow> string option) \<Rightarrow> (write_world \<times> cap_record) list \<Rightarrow> capture_log \<times> capture_files \<Rightarrow> capture_log \<times> capture_files" where
  "write_all enc [] cf = cf"
| "write_all enc ((w, r) # ws) cf = write_all enc ws (fst (write_record enc w r cf))"

definition captured_by :: "string list \<Rightarrow> (write_world \<times> cap_record) list \<Rightarrow> cap_record list" where
  "captured_by dests ws = filter (\<lambda>r. dests = [] \<or> cr_destination r \<in> set dests) (map snd ws)"

lemma write_others: "\<not> log_captures c (cr_destination r) \<Longrightarrow> write_record enc w r (c, fs) = ((c, fs), False)"
  by (simp add: write_record_def)

lemma write_all_inv:
  assumes "log_inv enc c fs G" "\<forall>(w, r) \<in> set ws. (ww_write w = None \<or> ww_write w = Some 0) \<and> enc r \<noteq> None"
    and "write_all enc ws (c, fs) = (c', fs')"
  shows "\<exists>G'. log_inv enc c' fs' G' \<and> cl_generations c' = cl_generations c
    \<and> subseq (kept (cl_generations c) G') (kept (cl_generations c) G @ captured_by (cl_destinations c) ws)
    \<and> cl_count c' + cl_dropped c' = cl_count c + cl_dropped c + int (length (captured_by (cl_destinations c) ws))"
  using assms
proof (induction ws arbitrary: c fs G)
  case (Cons wr ws)
  obtain w r where wr: "wr = (w, r)" by (cases wr)
  show ?case
  proof (cases "log_captures c (cr_destination r)")
    case True
    obtain b where b: "enc r = Some b" using Cons.prems wr by auto
    obtain c1 fs1 e where run: "write_record enc w r (c, fs) = ((c1, fs1), e)" by (metis prod.exhaust)
    from write_inv [OF Cons.prems(1) True b _ run] Cons.prems(2) wr obtain G1 where
      G1: "log_inv enc c1 fs1 G1" "cl_generations c1 = cl_generations c" "cl_destinations c1 = cl_destinations c"
        "cl_count c1 + cl_dropped c1 = cl_count c + cl_dropped c + 1"
        "subseq (kept (cl_generations c) G1) (kept (cl_generations c) G @ [r])"
      by auto
    obtain G' where G': "log_inv enc c' fs' G'" "cl_generations c' = cl_generations c1"
      "subseq (kept (cl_generations c) G') (kept (cl_generations c) G1 @ captured_by (cl_destinations c) ws)"
      "cl_count c' + cl_dropped c' = cl_count c1 + cl_dropped c1 + int (length (captured_by (cl_destinations c) ws))"
      using Cons.IH [OF G1(1)] Cons.prems(2,3) wr run G1(2,3) by auto
    have "captured_by (cl_destinations c) (wr # ws) = r # captured_by (cl_destinations c) ws"
      using True wr by (simp add: captured_by_def log_captures_def)
    moreover have "subseq (kept (cl_generations c) G1 @ captured_by (cl_destinations c) ws)
        ((kept (cl_generations c) G @ [r]) @ captured_by (cl_destinations c) ws)"
      using G1(5) by (rule list_emb_append_mono) simp
    then have "subseq (kept (cl_generations c) G1 @ captured_by (cl_destinations c) ws)
        (kept (cl_generations c) G @ r # captured_by (cl_destinations c) ws)" by (simp only: append_assoc append_Cons append_Nil)
    then have "subseq (kept (cl_generations c) G') (kept (cl_generations c) G @ r # captured_by (cl_destinations c) ws)"
      using G'(3) by (rule subseq_order.order_trans [rotated])
    ultimately show ?thesis using G1 G' by (intro exI [of _ G']) simp
  next
    case False
    then have "captured_by (cl_destinations c) (wr # ws) = captured_by (cl_destinations c) ws"
      using wr by (simp add: captured_by_def log_captures_def)
    then show ?thesis using Cons.IH [OF Cons.prems(1)] Cons.prems(2,3) wr write_others [OF False] by auto
  qed
qed (auto simp: captured_by_def)

lemma write_all_ok:
  assumes "log_inv enc c fs G" "dense_files G" "cl_handle c = OpenFile" "\<forall>(w, r) \<in> set ws. calls_ok w \<and> enc r \<noteq> None"
    and "write_all enc ws (c, fs) = (c', fs')"
  shows "\<exists>G' lost. log_inv enc c' fs' G' \<and> dense_files G' \<and> cl_generations c' = cl_generations c \<and> cl_dropped c' = cl_dropped c
    \<and> lost @ kept (cl_generations c) G' = kept (cl_generations c) G @ captured_by (cl_destinations c) ws
    \<and> (lost = [] \<and> (\<forall>i. G i \<noteq> None \<longrightarrow> G' i \<noteq> None) \<or> (\<forall>i \<le> cl_generations c. G' i \<noteq> None))"
  using assms
proof (induction ws arbitrary: c fs G)
  case (Cons wr ws)
  obtain w r where wr: "wr = (w, r)" by (cases wr)
  show ?case
  proof (cases "log_captures c (cr_destination r)")
    case True
    obtain b where b: "enc r = Some b" using Cons.prems wr by auto
    obtain c1 fs1 e where run: "write_record enc w r (c, fs) = ((c1, fs1), e)" by (metis prod.exhaust)
    have "calls_ok w" using Cons.prems(4) wr by simp
    from write_ok [OF Cons.prems(1,2) this Cons.prems(3) True b run] obtain G1 lost1 where
      G1: "log_inv enc c1 fs1 G1" "dense_files G1" "cl_handle c1 = OpenFile" "cl_generations c1 = cl_generations c"
        "cl_destinations c1 = cl_destinations c" "cl_dropped c1 = cl_dropped c"
        "lost1 @ kept (cl_generations c) G1 = kept (cl_generations c) G @ [r]"
        "lost1 = [] \<and> (\<forall>i. G i \<noteq> None \<longrightarrow> G1 i \<noteq> None) \<or> (\<forall>i \<le> cl_generations c. G1 i \<noteq> None)"
      by blast
    obtain G' lost2 where G': "log_inv enc c' fs' G'" "dense_files G'" "cl_generations c' = cl_generations c" "cl_dropped c' = cl_dropped c"
      "lost2 @ kept (cl_generations c) G' = kept (cl_generations c) G1 @ captured_by (cl_destinations c) ws"
      "lost2 = [] \<and> (\<forall>i. G1 i \<noteq> None \<longrightarrow> G' i \<noteq> None) \<or> (\<forall>i \<le> cl_generations c. G' i \<noteq> None)"
      using Cons.IH [OF G1(1-3)] Cons.prems(4,5) wr run G1(4-6) by auto
    have "captured_by (cl_destinations c) (wr # ws) = r # captured_by (cl_destinations c) ws"
      using True wr by (simp add: captured_by_def log_captures_def)
    then have "(lost1 @ lost2) @ kept (cl_generations c) G' = kept (cl_generations c) G @ captured_by (cl_destinations c) (wr # ws)"
      using G'(5) G1(7) by (metis append.assoc append_Cons append_Nil)
    with G' G1(8) show ?thesis by (intro exI [of _ G'] exI [of _ "lost1 @ lost2"]) auto
  next
    case False
    then have "captured_by (cl_destinations c) (wr # ws) = captured_by (cl_destinations c) ws"
      using wr by (simp add: captured_by_def log_captures_def)
    then show ?thesis using Cons.IH [OF Cons.prems(1-3)] Cons.prems(4,5) wr write_others [OF False] by auto
  qed
qed (auto simp: captured_by_def)

text \<open>What the JSON library does: an encoded record is one line that decodes to the record.\<close>

definition line_codec :: "(cap_record \<Rightarrow> string option) \<Rightarrow> (string \<Rightarrow> cap_record option) \<Rightarrow> cap_record \<Rightarrow> bool" where
  "line_codec enc dec r \<longleftrightarrow>
     (case enc r of None \<Rightarrow> False
      | Some b \<Rightarrow> b \<noteq> [] \<and> newline \<notin> set b \<and> last b \<noteq> CHR 0x0D \<and> length b < max_line_bytes \<and> dec b = Some r)"

lemma scan_records_text: "\<forall>r \<in> set rs. line_codec enc dec r \<Longrightarrow> scan_lines (records_text enc rs) = map (\<lambda>r. the (enc r)) rs"
proof -
  assume "\<forall>r \<in> set rs. line_codec enc dec r"
  then have "\<forall>l \<in> set (map (\<lambda>r. the (enc r)) rs). newline \<notin> set l" by (auto simp: line_codec_def split: option.splits)
  from split_on_lines [OF this] show ?thesis by (simp add: scan_lines_def records_text_def Let_def)
qed

lemma read_records_text: "\<forall>r \<in> set rs. line_codec enc dec r \<Longrightarrow> read_capture dec (records_text enc rs) = (rs, 0, False)"
proof -
  assume a: "\<forall>r \<in> set rs. line_codec enc dec r"
  have "read_records dec (map (\<lambda>r. the (enc r)) rs) = (rs, 0, False)"
    using a by (induction rs) (auto simp: line_codec_def drop_cr_def split: option.splits)
  then show ?thesis by (simp add: read_capture_def scan_records_text [OF a])
qed

text \<open>\<open>ReadFile\<close> of each generation, oldest first.\<close>

fun read_generations :: "(string \<Rightarrow> cap_record option) \<Rightarrow> nat \<Rightarrow> capture_files \<Rightarrow> cap_record list \<times> nat \<times> bool" where
  "read_generations dec 0 fs = read_capture dec (content_at fs 0)"
| "read_generations dec (Suc g) fs =
     (case (read_capture dec (content_at fs (Suc g)), read_generations dec g fs) of
        ((rs, n, e), (rs', n', e')) \<Rightarrow> (rs @ rs', n + n', e \<or> e'))"

lemma read_generations_text:
  "\<forall>r \<in> set (kept g G). line_codec enc dec r \<Longrightarrow> read_generations dec g (files_text enc G) = (kept g G, 0, False)"
  by (induction g) (simp_all add: content_at_files_text read_records_text)

lemma subseq_set: "subseq xs ys \<Longrightarrow> set xs \<subseteq> set ys"
  by (auto elim: list_emb_set)

definition log_bound :: "int \<Rightarrow> int" where
  "log_bound mb = (if mb \<le> 0 then 2 ^ 28 else mb)"

definition log_generations :: "int \<Rightarrow> nat" where
  "log_generations gens = nat (if gens \<le> 0 then 3 else gens)"

text \<open>What one process leaves the next: the files alone.\<close>

definition left_files :: "(cap_record \<Rightarrow> string option) \<Rightarrow> int \<Rightarrow> int \<Rightarrow> capture_files \<Rightarrow> (nat \<rightharpoonup> cap_record list) \<Rightarrow> bool" where
  "left_files enc mb gens fs G \<longleftrightarrow> fs = files_text enc G
     \<and> good_files (\<lambda>rs. int (length (records_text enc rs)) \<le> log_bound mb \<or> length rs = 1) (log_generations gens) G"

lemma open_inv:
  assumes "open_log ok mb gens dests fs = Some (c0, fs0)" "left_files enc mb gens fs G"
  shows "log_inv enc c0 fs0 (G(0 \<mapsto> content_at G 0))" "cl_handle c0 = OpenFile" "cl_destinations c0 = dests" "cl_count c0 = 0" "cl_dropped c0 = 0"
    "cl_generations c0 = log_generations gens" "cl_max_bytes c0 = log_bound mb"
proof -
  have f: "fs = files_text enc G" and good: "good_files (\<lambda>rs. int (length (records_text enc rs)) \<le> log_bound mb \<or> length rs = 1) (log_generations gens) G"
    using assms(2) by (simp_all add: left_files_def)
  have o: "fs0 = fs(0 \<mapsto> content_at fs 0)" "c0 = \<lparr>cl_max_bytes = log_bound mb, cl_generations = log_generations gens, cl_destinations = dests,
         cl_handle = OpenFile, cl_written = int (length (content_at fs 0)), cl_dropped = 0, cl_count = 0\<rparr>"
    using assms(1) by (auto simp: open_log_def reopen_log_def Let_def log_bound_def log_generations_def content_at_def split: if_splits)
  then show c: "cl_handle c0 = OpenFile" "cl_destinations c0 = dests" "cl_count c0 = 0" "cl_dropped c0 = 0"
    "cl_generations c0 = log_generations gens" "cl_max_bytes c0 = log_bound mb" by simp_all
  have pos: "0 < log_generations gens" "0 < log_bound mb" by (simp_all add: log_generations_def log_bound_def)
  have small: "small_enough enc c0 = (\<lambda>rs. int (length (records_text enc rs)) \<le> log_bound mb \<or> length rs = 1)"
    by (simp add: small_enough_def o(2) fun_eq_iff)
  have "small_enough enc c0 (content_at G 0)"
    using good pos by (auto simp: small content_at_def good_files_def records_text_def split: option.split)
  then have "good_files (small_enough enc c0) (log_generations gens) (G(0 \<mapsto> content_at G 0))"
    using good by (simp add: good_files_update small)
  moreover have "fs0 = files_text enc (G(0 \<mapsto> content_at G 0))"
    by (simp add: o(1) f content_at_files_text files_text_update)
  ultimately show "log_inv enc c0 fs0 (G(0 \<mapsto> content_at G 0))"
    using pos by (simp add: log_inv_def c o(2) content_at_files_text f del: fun_upd_apply)
qed

lemma write_all_bound: "cl_max_bytes (fst (write_all enc ws (c, fs))) = cl_max_bytes c"
proof -
  have reopen: "cl_max_bytes (fst (fst (reopen_log ok c fs))) = cl_max_bytes c" for ok c fs by (simp add: reopen_log_def Let_def)
  have rotate: "cl_max_bytes (fst (fst (rotate_log w c fs))) = cl_max_bytes c" for w c fs by (simp add: rotate_log_def Let_def reopen)
  have "cl_max_bytes (fst (fst (write_record enc w r (c, fs)))) = cl_max_bytes c" for w r c fs
    using rotate [of w c fs] by (auto simp: write_record_def Let_def split: option.split prod.split)
  then show ?thesis
  proof (induction ws arbitrary: c fs)
    case (Cons x ws)
    obtain w r where x: "x = (w, r)" by (cases x)
    obtain c1 fs1 where "fst (write_record enc w r (c, fs)) = (c1, fs1)" by (metis prod.exhaust)
    with Cons.IH [of c1 fs1] Cons.prems [of w r c fs] show ?case by (simp add: x Cons.prems)
  qed simp
qed

lemma log_inv_left:
  assumes "log_inv enc c fs G" "cl_generations c = log_generations gens" "cl_max_bytes c = log_bound mb"
  shows "left_files enc mb gens fs G"
proof -
  have "small_enough enc c = (\<lambda>rs. int (length (records_text enc rs)) \<le> log_bound mb \<or> length rs = 1)"
    by (simp add: small_enough_def assms(3) fun_eq_iff)
  with assms show ?thesis by (simp add: log_inv_def left_files_def)
qed

text \<open>
  The processes that wrote a capture one after the other, with the same limits: whether the file
  could be opened, and the writes until the process ended. Each starts from the files the
  last one left.
\<close>

type_synonym log_life = "bool \<times> (write_world \<times> cap_record) list"

definition log_life :: "(cap_record \<Rightarrow> string option) \<Rightarrow> int \<Rightarrow> int \<Rightarrow> string list \<Rightarrow> log_life \<Rightarrow> capture_files \<Rightarrow> capture_files" where
  "log_life enc mb gens dests life fs =
     (case open_log (fst life) mb gens dests fs of None \<Rightarrow> fs | Some cf \<Rightarrow> snd (write_all enc (snd life) cf))"

definition log_lives :: "(cap_record \<Rightarrow> string option) \<Rightarrow> int \<Rightarrow> int \<Rightarrow> string list \<Rightarrow> log_life list \<Rightarrow> capture_files" where
  "log_lives enc mb gens dests lives = fold (log_life enc mb gens dests) lives Map.empty"

definition captured_in :: "string list \<Rightarrow> log_life list \<Rightarrow> cap_record list" where
  "captured_in dests lives = concat (map (\<lambda>life. if fst life then captured_by dests (snd life) else []) lives)"

lemma kept_reopened: "kept g (G(0 \<mapsto> content_at G 0)) = kept g G"
  by (rule kept_cong) (simp del: fun_upd_apply)

lemma dense_reopened: "dense_files G \<Longrightarrow> dense_files (G(0 \<mapsto> c))"
  by (auto simp: dense_files_def)

text \<open>One process, from what the last one left: whatever fails, and when nothing does.\<close>

lemma life_any:
  assumes o: "open_log ok mb gens dests fs = Some (c0, fs0)" and left: "left_files enc mb gens fs G"
    and ws: "\<forall>(w, r) \<in> set ws. (ww_write w = None \<or> ww_write w = Some 0) \<and> enc r \<noteq> None" and run: "write_all enc ws (c0, fs0) = (c, fs')"
  shows "\<exists>G'. left_files enc mb gens fs' G' \<and> subseq (kept (log_generations gens) G') (kept (log_generations gens) G @ captured_by dests ws)
    \<and> cl_count c + cl_dropped c = int (length (captured_by dests ws)) \<and> cl_generations c = log_generations gens \<and> cl_max_bytes c = log_bound mb"
proof -
  note I = open_inv [OF o left]
  have mb: "cl_max_bytes c = log_bound mb" using write_all_bound [of enc ws c0 fs0] run I(7) by simp
  obtain G' where G': "log_inv enc c fs' G'" "cl_generations c = cl_generations c0"
    "subseq (kept (cl_generations c0) G') (kept (cl_generations c0) G @ captured_by dests ws)"
    "cl_count c + cl_dropped c = int (length (captured_by dests ws))"
    using write_all_inv [OF I(1) ws run] by (auto simp: kept_reopened I)
  then show ?thesis using log_inv_left [OF G'(1) _ mb] mb I(6) by auto
qed

lemma life_ok:
  assumes o: "open_log ok mb gens dests fs = Some (c0, fs0)" and left: "left_files enc mb gens fs G" "dense_files G"
    and ws: "\<forall>(w, r) \<in> set ws. calls_ok w \<and> enc r \<noteq> None" and run: "write_all enc ws (c0, fs0) = (c, fs')"
  shows "\<exists>G' lost. left_files enc mb gens fs' G' \<and> dense_files G' \<and> cl_dropped c = 0
    \<and> lost @ kept (log_generations gens) G' = kept (log_generations gens) G @ captured_by dests ws
    \<and> (lost = [] \<and> (\<forall>i. G i \<noteq> None \<longrightarrow> G' i \<noteq> None) \<or> (\<forall>i \<le> log_generations gens. G' i \<noteq> None))"
proof -
  note I = open_inv [OF o left(1)]
  have mb: "cl_max_bytes c = log_bound mb" using write_all_bound [of enc ws c0 fs0] run I(7) by simp
  obtain G' lost where G': "log_inv enc c fs' G'" "dense_files G'" "cl_generations c = cl_generations c0" "cl_dropped c = 0"
    "lost @ kept (cl_generations c0) G' = kept (cl_generations c0) G @ captured_by dests ws"
    "lost = [] \<and> (\<forall>i. (G(0 \<mapsto> content_at G 0)) i \<noteq> None \<longrightarrow> G' i \<noteq> None) \<or> (\<forall>i \<le> cl_generations c0. G' i \<noteq> None)"
    using write_all_ok [OF I(1) dense_reopened [OF left(2)] I(2) ws run] by (auto simp: kept_reopened I)
  have "G i \<noteq> None \<Longrightarrow> (G(0 \<mapsto> content_at G 0)) i \<noteq> None" for i by simp
  then have "lost = [] \<and> (\<forall>i. G i \<noteq> None \<longrightarrow> G' i \<noteq> None) \<or> (\<forall>i \<le> log_generations gens. G' i \<noteq> None)" using G'(6) I(6) by metis
  then show ?thesis using log_inv_left [OF G'(1) _ mb] I(6) G'(2-5) by auto
qed

lemma lives_any:
  assumes "\<forall>life \<in> set lives. \<forall>(w, r) \<in> set (snd life). (ww_write w = None \<or> ww_write w = Some 0) \<and> enc r \<noteq> None"
  shows "\<exists>G. left_files enc mb gens (log_lives enc mb gens dests lives) G \<and> subseq (kept (log_generations gens) G) (captured_in dests lives)"
  using assms
proof (induction lives rule: rev_induct)
  case Nil
  have "left_files enc mb gens Map.empty Map.empty" by (simp add: left_files_def files_text_def good_files_def fun_eq_iff)
  moreover have "kept g (Map.empty :: nat \<rightharpoonup> cap_record list) = []" for g by (induction g) (simp_all add: content_at_def)
  ultimately show ?case unfolding log_lives_def by (intro exI [of _ Map.empty]) simp
next
  case (snoc life lives)
  then obtain G where G: "left_files enc mb gens (log_lives enc mb gens dests lives) G" "subseq (kept (log_generations gens) G) (captured_in dests lives)" by auto
  show ?case
  proof (cases "open_log (fst life) mb gens dests (log_lives enc mb gens dests lives)")
    case None
    then have "\<not> fst life" by (auto simp: open_log_def reopen_log_def Let_def)
    with None G show ?thesis by (auto simp: log_lives_def log_life_def captured_in_def)
  next
    case (Some cf)
    obtain c0 fs0 c fs' where cf: "cf = (c0, fs0)" "write_all enc (snd life) cf = (c, fs')" by (metis prod.exhaust)
    have "fst life" using Some by (auto simp: open_log_def reopen_log_def split: if_splits)
    moreover obtain G' where G': "left_files enc mb gens fs' G'"
      "subseq (kept (log_generations gens) G') (kept (log_generations gens) G @ captured_by dests (snd life))"
      using life_any [OF Some [unfolded cf(1)] G(1) _ cf(2) [unfolded cf(1)]] snoc.prems by auto
    moreover have "subseq (kept (log_generations gens) G @ captured_by dests (snd life)) (captured_in dests lives @ captured_by dests (snd life))"
      using G(2) by (rule list_emb_append_mono) simp
    ultimately have "subseq (kept (log_generations gens) G') (captured_in dests (lives @ [life]))"
      by (auto simp: captured_in_def intro: subseq_order.order_trans)
    with G'(1) Some cf show ?thesis by (auto simp: log_lives_def log_life_def)
  qed
qed

lemma lives_ok:
  assumes "\<forall>life \<in> set lives. \<forall>(w, r) \<in> set (snd life). calls_ok w \<and> enc r \<noteq> None"
  shows "\<exists>G lost. left_files enc mb gens (log_lives enc mb gens dests lives) G \<and> dense_files G
    \<and> lost @ kept (log_generations gens) G = captured_in dests lives \<and> (lost = [] \<or> (\<forall>i \<le> log_generations gens. G i \<noteq> None))"
  using assms
proof (induction lives rule: rev_induct)
  case Nil
  have "left_files enc mb gens Map.empty Map.empty" by (simp add: left_files_def files_text_def good_files_def fun_eq_iff)
  moreover have "kept g (Map.empty :: nat \<rightharpoonup> cap_record list) = []" for g by (induction g) (simp_all add: content_at_def)
  ultimately show ?case unfolding log_lives_def by (intro exI [of _ Map.empty]) (simp add: captured_in_def dense_files_def)
next
  case (snoc life lives)
  then obtain G lost where G: "left_files enc mb gens (log_lives enc mb gens dests lives) G" "dense_files G"
    "lost @ kept (log_generations gens) G = captured_in dests lives" "lost = [] \<or> (\<forall>i \<le> log_generations gens. G i \<noteq> None)" by auto
  show ?case
  proof (cases "open_log (fst life) mb gens dests (log_lives enc mb gens dests lives)")
    case None
    then have "\<not> fst life" by (auto simp: open_log_def reopen_log_def Let_def)
    with None G show ?thesis by (intro exI [of _ G] exI [of _ lost]) (auto simp: log_lives_def log_life_def captured_in_def)
  next
    case (Some cf)
    obtain c0 fs0 c fs' where cf: "cf = (c0, fs0)" "write_all enc (snd life) cf = (c, fs')" by (metis prod.exhaust)
    have "fst life" using Some by (auto simp: open_log_def reopen_log_def split: if_splits)
    moreover obtain G' lost' where G': "left_files enc mb gens fs' G'" "dense_files G'"
      "lost' @ kept (log_generations gens) G' = kept (log_generations gens) G @ captured_by dests (snd life)"
      "lost' = [] \<and> (\<forall>i. G i \<noteq> None \<longrightarrow> G' i \<noteq> None) \<or> (\<forall>i \<le> log_generations gens. G' i \<noteq> None)"
      using life_ok [OF Some [unfolded cf(1)] G(1,2) _ cf(2) [unfolded cf(1)]] snoc.prems by auto
    moreover have "(lost @ lost') @ kept (log_generations gens) G' = captured_in dests lives @ captured_by dests (snd life)"
      using G'(3) G(3) by (metis append.assoc)
    moreover have "lost @ lost' = [] \<or> (\<forall>i \<le> log_generations gens. G' i \<noteq> None)" using G(4) G'(4) by blast
    ultimately show ?thesis using Some cf
      by (intro exI [of _ G'] exI [of _ "lost @ lost'"]) (simp add: log_lives_def log_life_def captured_in_def)
  qed
qed


text \<open>Three records of two bytes by two processes, a bound of three bytes and one old generation: the first is lost.\<close>

definition numbered_record :: "string \<Rightarrow> cap_record" where
  "numbered_record i = \<lparr>cr_time = None, cr_source = SourceWorker, cr_destination = ''b'', cr_origin = [], cr_txn_id = i,
     cr_path = [], cr_auth = [], cr_body = [], cr_status = 0, cr_error = []\<rparr>"

definition fine_world :: write_world where
  "fine_world = \<lparr>ww_close = True, ww_remove = True, ww_shift = (\<lambda>_. True), ww_rename = True, ww_open = True, ww_write = None\<rparr>"

abbreviation sample_write :: "string \<Rightarrow> write_world \<times> cap_record" where
  "sample_write i \<equiv> (fine_world, numbered_record i)"


text \<open>
  A process killed in the middle of a write leaves a line without its end. The next process
  appends to it: its first record becomes part of the broken line, so two records are lost where
  the reader counts one, although the second was counted as written.
\<close>

lemma scan_torn:
  assumes "\<forall>r \<in> set rs. line_codec enc dec r" "newline \<notin> set t" "t \<noteq> []"
  shows "scan_lines (records_text enc rs @ t @ newline # records_text enc rs') = map (\<lambda>r. the (enc r)) rs @ t # scan_lines (records_text enc rs')"
proof -
  have l: "\<forall>l \<in> set (map (\<lambda>r. the (enc r)) rs). newline \<notin> set l" using assms(1) by (auto simp: line_codec_def split: option.splits)
  have "split_on newline (records_text enc rs @ s) = map (\<lambda>r. the (enc r)) rs @ split_on newline s" for s
    using l by (induction rs) (simp_all add: records_text_def split_on_line)
  moreover have "split_on newline s \<noteq> []" for s by (cases s) (auto split: list.split)
  ultimately show ?thesis by (auto simp: scan_lines_def Let_def split_on_line [OF assms(2)] butlast_append)
qed

theorem torn_line_takes_next:
  assumes "cl_handle c = OpenFile" "fs 0 = Some (records_text enc rs)" "cl_destinations c = []"
    and "\<forall>r \<in> set (rs @ [r1, r2, r3]). line_codec enc dec r" "enc r1 = Some b1" "enc r2 = Some b2"
    and "0 < n" "n < length b1" "dec (take n b1 @ b2) = None" "length (take n b1 @ b2) < max_line_bytes"
    and "cl_written c + int (length b1) + 1 \<le> cl_max_bytes c"
    and torn: "write_record enc (fine_world\<lparr>ww_write := Some n\<rparr>) r1 (c, fs) = ((c1, fs1), e)"
    and reopened: "open_log True mb gens [] fs1 = Some (c2, fs2)"
    and room: "cl_written c2 + int (length b2) + 1 + int (length (the (enc r3))) + 1 \<le> cl_max_bytes c2"
    and runs: "write_all enc [(fine_world, r2), (fine_world, r3)] (c2, fs2) = (c3, fs3)"
  shows "read_capture dec (content_at fs3 0) = (rs @ [r3], 1, False) \<and> cl_count c3 = 2 \<and> cl_dropped c3 = 0"
proof -
  obtain b3 where b3: "enc r3 = Some b3" using assms(4) by (auto simp: line_codec_def split: option.splits)
  have fs1: "fs1 0 = Some (records_text enc rs @ take n b1)"
    using torn assms(1-3,5,7,8,11) by (auto simp: write_record_def log_captures_def)
  have c2: "cl_handle c2 = OpenFile" "cl_destinations c2 = []" "cl_count c2 = 0" "cl_dropped c2 = 0" "fs2 0 = fs1 0"
    using reopened fs1 by (auto simp: open_log_def reopen_log_def split: if_splits)
  have out: "fs3 0 = Some (records_text enc rs @ (take n b1 @ b2) @ newline # records_text enc [r3])" "cl_count c3 = 2" "cl_dropped c3 = 0"
    using runs c2 fs1 room assms(6) b3
    by (auto simp: write_record_def log_captures_def fine_world_def records_text_def)
  have t: "newline \<notin> set (take n b1 @ b2)" "take n b1 @ b2 \<noteq> []" "drop_cr (take n b1 @ b2) = take n b1 @ b2"
    using assms(4-8) by (auto simp: line_codec_def drop_cr_def dest: in_set_takeD)
  have skip: "read_records dec (map (\<lambda>r. the (enc r)) rs @ ls) = (case read_records dec ls of (a, b, c) \<Rightarrow> (rs @ a, b, c))" for ls
    using assms(4) by (induction rs) (auto simp: line_codec_def drop_cr_def split: option.splits prod.splits)
  have "read_records dec (scan_lines (records_text enc [r3])) = ([r3], 0, False)"
    using read_records_text [of "[r3]" enc dec] assms(4) by (simp add: read_capture_def)
  then have "read_capture dec (content_at fs3 0) = (rs @ [r3], 1, False)"
    using scan_torn [of rs enc dec "take n b1 @ b2" "[r3]"] assms(4,9,10) t
    by (simp add: content_at_def out(1) read_capture_def skip)
  with out show ?thesis by simp
qed

text \<open>A rotation that fails closes the file for good: no later write succeeds, whatever the calls answer.\<close>

theorem failed_rotation_is_final:
  assumes "cl_handle c = ClosedFile" "\<forall>(w, r) \<in> set ws. enc r \<noteq> None" "write_all enc ws (c, fs) = (c', fs')"
  shows "fs' = fs \<and> cl_count c' = cl_count c \<and> cl_dropped c' = cl_dropped c + int (length (captured_by (cl_destinations c) ws))"
  using assms
proof (induction ws arbitrary: c)
  case (Cons wr ws)
  obtain w r where wr: "wr = (w, r)" by (cases wr)
  have step: "write_record enc w r (c, fs)
      = (if log_captures c (cr_destination r) then ((c\<lparr>cl_dropped := cl_dropped c + 1\<rparr>, fs), True) else ((c, fs), False))"
    using Cons.prems(1,2) wr by (cases c) (auto simp: write_record_def rotate_log_def Let_def)
  show ?case
    using Cons.IH [of "fst (fst (write_record enc w r (c, fs)))"] Cons.prems wr step
    by (auto simp: captured_by_def log_captures_def split: if_splits)
qed (simp add: captured_by_def)

end
