(* ===== verification/Recorder.thy ===== *)
theory Recorder
  imports CaptureLog
begin

text \<open>
  \<open>cmd/fedrecorder/main.go\<close>: the proxy in front of a test homeserver that records the transactions
  it forwards. An incoming request is what \<open>net/http\<close> hands the handler, its path already
  percent-decoded; the homeserver behind the proxy answers with the status codes it writes.
\<close>

section \<open>Requests and answers\<close>

record http_request =
  hr_method :: string
  hr_path :: string
  hr_query :: string
  hr_host :: string
  hr_forwarded_host :: string
  hr_auth :: string
  hr_body :: "string option"
  hr_length :: int

text \<open>\<open>hr_body = None\<close>: the client does not send the body to its end.\<close>

abbreviation max_body_bytes :: nat where "max_body_bytes \<equiv> 33554432"

definition read_body :: "http_request \<Rightarrow> string option" where
  "read_body r = (case hr_body r of None \<Rightarrow> None | Some b \<Rightarrow> if length b \<le> max_body_bytes then Some b else None)"

text \<open>\<open>statusWriter\<close>: the first code that is written; 200 when none is.\<close>

fun recorded_status :: "int list \<Rightarrow> int" where
  "recorded_status [] = 200"
| "recorded_status (code # _) = code"

text \<open>\<open>net.SplitHostPort\<close>, its host.\<close>

definition split_host_port :: "string \<Rightarrow> string option" where
  "split_host_port s =
     (if CHR '':'' \<notin> set s then None
      else (let port = rev (takeWhile (\<lambda>c. c \<noteq> CHR '':'') (rev s)); before = take (length s - length port - 1) s
            in if has_prefix s ''['' then
                 (case strings_cut (CHR '']'') s of (_, rest, found) \<Rightarrow>
                    if \<not> found \<or> rest \<noteq> CHR '':'' # port then None
                    else (let host = tl (butlast before)
                          in if CHR ''['' \<in> set (tl s) \<or> CHR '']'' \<in> set rest then None else Some host))
               else if CHR '':'' \<in> set before then None
               else if CHR ''['' \<in> set s \<or> CHR '']'' \<in> set s then None
               else Some before))"

definition host_of :: "http_request \<Rightarrow> string" where
  "host_of r =
     (if hr_forwarded_host r \<noteq> [] then hr_forwarded_host r
      else case split_host_port (hr_host r) of Some host \<Rightarrow> host | None \<Rightarrow> hr_host r)"

section \<open>The handler\<close>

definition should_record :: "gjson \<Rightarrow> string \<Rightarrow> string \<Rightarrow> bool" where
  "should_record g origin_only body \<longleftrightarrow> origin_only = [] \<or> get_str g body ''origin'' = origin_only"

definition recorded :: "gjson \<Rightarrow> instant \<Rightarrow> http_request \<Rightarrow> string \<Rightarrow> int \<Rightarrow> cap_record" where
  "recorded g now r body status =
     (let segment = drop (length send_path_prefix) (hr_path r)
      in \<lparr>cr_time = Some now, cr_source = SourceSynapse, cr_destination = host_of r, cr_origin = get_str g body ''origin'',
          cr_txn_id = (case percent_decode segment of Some i \<Rightarrow> i | None \<Rightarrow> segment),
          cr_path = hr_path r @ (if hr_query r = [] then [] else ''?'' @ hr_query r), cr_auth = hr_auth r,
          cr_body = body, cr_status = status, cr_error = []\<rparr>)"

datatype recorder_answer = AnswerBadRequest | AnswerUpstream "int list"

text \<open>
  \<open>ServeHTTP\<close>: what is forwarded, what the sender is answered, and what is written to the capture.
  \<open>upstream\<close> is the proxy with the homeserver behind it.
\<close>

definition serve_http ::
  "gjson \<Rightarrow> string \<Rightarrow> (http_request \<Rightarrow> int list) \<Rightarrow> instant \<Rightarrow> http_request \<Rightarrow> http_request option \<times> recorder_answer \<times> cap_record option" where
  "serve_http g origin_only upstream now r =
     (if hr_method r \<noteq> ''PUT'' \<or> \<not> has_prefix (hr_path r) send_path_prefix then (Some r, AnswerUpstream (upstream r), None)
      else (case read_body r of
        None \<Rightarrow> (None, AnswerBadRequest, None)
      | Some body \<Rightarrow>
          (let r1 = r\<lparr>hr_body := Some body, hr_length := int (length body)\<rparr>; codes = upstream r1
           in (Some r1, AnswerUpstream codes,
               if should_record g origin_only body then Some (recorded g now r1 body (recorded_status codes)) else None))))"

text \<open>Requests in turn, each record appended to the capture; the error of a write is logged only.\<close>

fun serve_all ::
  "(cap_record \<Rightarrow> string option) \<Rightarrow> gjson \<Rightarrow> string \<Rightarrow> (http_request \<Rightarrow> int list) \<Rightarrow> (instant \<times> write_world \<times> http_request) list
     \<Rightarrow> capture_log \<times> capture_files \<Rightarrow> (http_request option \<times> recorder_answer) list \<times> capture_log \<times> capture_files" where
  "serve_all enc g origin_only upstream [] cf = ([], cf)"
| "serve_all enc g origin_only upstream ((now, w, r) # rs) cf =
     (case serve_http g origin_only upstream now r of
        (fwd, answer, rec) \<Rightarrow>
          (case serve_all enc g origin_only upstream rs (case rec of None \<Rightarrow> cf | Some c \<Rightarrow> fst (write_record enc w c cf)) of
             (outs, cf') \<Rightarrow> ((fwd, answer) # outs, cf')))"

section \<open>What a recording shows\<close>

text \<open>The request of the worker as it arrives at the recorder.\<close>

definition arriving :: "string \<Rightarrow> string \<Rightarrow> request \<Rightarrow> http_request" where
  "arriving host forwarded q =
     \<lparr>hr_method = ''PUT'', hr_path = (case percent_decode (rq_path q) of Some p \<Rightarrow> p | None \<Rightarrow> rq_path q), hr_query = [],
      hr_host = host, hr_forwarded_host = forwarded, hr_auth = rq_auth_header q, hr_body = Some (rq_body q),
      hr_length = int (length (rq_body q))\<rparr>"

lemma percent_decode_plain: "CHR ''%'' \<notin> set s \<Longrightarrow> percent_decode s = Some s"
  by (induction s) auto

lemma percent_decode_append_plain: "CHR ''%'' \<notin> set p \<Longrightarrow> percent_decode (p @ s) = map_option ((@) p) (percent_decode s)"
  by (cases "percent_decode s"; induction p) auto

text \<open>What the sender and the homeserver see does not depend on the recording.\<close>

lemma serve_all_transparent:
  "serve_all enc g origin_only upstream rs cf = (outs, cf') \<Longrightarrow>
     outs = map (\<lambda>(now, w, r). case serve_http g [] upstream now r of (fwd, answer, _) \<Rightarrow> (fwd, answer)) rs"
proof (induction rs arbitrary: cf outs cf')
  case (Cons x rs)
  obtain now w r where x: "x = (now, w, r)" by (cases x)
  have "(case serve_http g origin_only upstream now r of (fwd, answer, _) \<Rightarrow> (fwd, answer))
      = (case serve_http g [] upstream now r of (fwd, answer, _) \<Rightarrow> (fwd, answer))"
    by (auto simp: serve_http_def Let_def split: option.split)
  then show ?case using Cons by (auto simp: x split: prod.splits)
qed simp

lemma serve_http_cases:
  assumes "serve_http g origin_only upstream now r = (fwd, answer, rec)"
  shows "fwd = None \<and> answer = AnswerBadRequest \<and> rec = None
    \<or> fwd = Some r \<and> answer = AnswerUpstream (upstream r) \<and> rec = None
    \<or> (\<exists>body. hr_body r = Some body \<and> fwd = Some (r\<lparr>hr_length := int (length body)\<rparr>)
        \<and> answer = AnswerUpstream (upstream (r\<lparr>hr_length := int (length body)\<rparr>))
        \<and> (\<forall>c. rec = Some c \<longrightarrow> cr_body c = body \<and> cr_auth c = hr_auth r))"
proof -
  have same: "r\<lparr>hr_body := Some body, hr_length := n\<rparr> = r\<lparr>hr_length := n\<rparr>" if "hr_body r = Some body" for body n
    using that by (cases r) simp
  show ?thesis
    using assms by (auto simp: serve_http_def read_body_def recorded_def Let_def same split: if_splits option.splits)
qed

lemma recorded_request:
  assumes q: "build_request canon s txn_id dest t = Some q" and plain: "CHR ''%'' \<notin> set txn_id"
    and host: "host_of (arriving host fwd q) = dest" and origin: "get_str g (rq_body q) ''origin'' = sg_server_name s"
    and size: "length (rq_body q) \<le> max_body_bytes" and filt: "origin_only = [] \<or> origin_only = sg_server_name s"
  shows "serve_http g origin_only upstream now (arriving host fwd q)
    = (Some (arriving host fwd q), AnswerUpstream (upstream (arriving host fwd q)),
       Some ((capture_request now (sg_server_name s) q)\<lparr>cr_source := SourceSynapse, cr_path := send_path_prefix @ txn_id,
          cr_status := recorded_status (upstream (arriving host fwd q))\<rparr>))"
proof -
  have r: "rq_path q = send_path_prefix @ path_escape txn_id" "rq_transaction_id q = txn_id" "rq_destination q = dest"
    using q by (auto simp: build_request_def Let_def split: option.splits)
  have "percent_decode (rq_path q) = Some (send_path_prefix @ txn_id)"
    using percent_decode_append_plain [of send_path_prefix "path_escape txn_id"] by (simp add: r(1) percent_decode_escape)
  then have p: "hr_path (arriving host fwd q) = send_path_prefix @ txn_id" by (simp add: arriving_def)
  have same: "(arriving host fwd q)\<lparr>hr_body := Some (rq_body q), hr_length := int (length (rq_body q))\<rparr> = arriving host fwd q"
    by (simp add: arriving_def)
  have "has_prefix (send_path_prefix @ txn_id) send_path_prefix" by (simp add: has_prefix_def)
  moreover have "read_body (arriving host fwd q) = Some (rq_body q)" using size by (simp add: read_body_def arriving_def)
  moreover have "should_record g origin_only (rq_body q)" using filt origin by (auto simp: should_record_def)
  moreover have "hr_method (arriving host fwd q) = ''PUT''" "hr_query (arriving host fwd q) = []" "hr_auth (arriving host fwd q) = rq_auth_header q"
    by (simp_all add: arriving_def)
  ultimately show ?thesis
    using plain by (simp add: serve_http_def p same Let_def recorded_def host origin capture_request_def r(2,3) percent_decode_plain)
qed

lemma flatten_cong:
  assumes "list_all2 (\<lambda>a b. cr_destination a = cr_destination b \<and> cr_body a = cr_body b) as bs"
  shows "flatten t dest \<lparr>win_since = None, win_until = None, win_by_event_time = False\<rparr> as acc
    = flatten t dest \<lparr>win_since = None, win_until = None, win_by_event_time = False\<rparr> bs acc"
proof -
  have c: "capture_window_contains \<lparr>win_since = None, win_until = None, win_by_event_time = False\<rparr> x" for x
    by (simp add: capture_window_contains_def split: option.split)
  show ?thesis using assms
    by (induction arbitrary: acc rule: list_all2_induct) (auto simp: c pdu_in_window_def split: option.split prod.split)
qed

lemma same_maps_agree:
  assumes "distinct (map fst m)" "compare_maps m m = (n, both, only_s, only_w, differing)"
  shows "only_s = []" "only_w = []" "differing = []" "both = length m"
proof -
  note parts = compare_maps_parts [OF assms(2)]
  have look: "map_of m (fst p) = Some (snd p)" if "p \<in> set m" for p using assms(1) that by simp
  show "only_s = []" "only_w = []" unfolding parts(1,2) using look by auto
  show "differing = []" unfolding parts(3) using look by auto
  have "filter (\<lambda>p. map_of m (fst p) \<noteq> None) m = m" using look by (auto simp: filter_id_conv)
  then show "both = length m" unfolding parts(4) by simp
qed

text \<open>
  The recorder sees what the worker sends. The sender and the homeserver cannot tell whether
  it records: what is forwarded and answered is what a plain proxy forwards and answers, with the
  bytes and the signature of the request. For requests the worker built, with ids that need no
  escaping, to the server name the recorder is reached under, each record has the destination, the
  transaction id, the body and the header of the worker's own capture of the request; so over an
  open window the comparison of the two captures agrees and finds every PDU on both sides.
\<close>

theorem recorded_as_sent:
  assumes built: "\<forall>q \<in> set qs. \<exists>txn_id tx. build_request canon s txn_id dest tx = Some q \<and> CHR ''%'' \<notin> set txn_id"
    and reached: "\<forall>q \<in> set qs. host_of (arriving host fwd q) = dest"
    and body: "\<forall>q \<in> set qs. get_str g (rq_body q) ''origin'' = sg_server_name s \<and> length (rq_body q) \<le> max_body_bytes"
    and filt: "origin_only = [] \<or> origin_only = sg_server_name s"
    and window: "w = \<lparr>win_since = None, win_until = None, win_by_event_time = False\<rparr>"
  shows "(\<forall>rs enc cf outs cf'. serve_all enc g origin_only upstream rs cf = (outs, cf') \<longrightarrow>
       outs = map (\<lambda>(now, w, r). case serve_http g [] upstream now r of (fwd, answer, _) \<Rightarrow> (fwd, answer)) rs)
    \<and> (\<forall>now. \<forall>q \<in> set qs. \<exists>c. serve_http g origin_only upstream now (arriving host fwd q)
          = (Some (arriving host fwd q), AnswerUpstream (upstream (arriving host fwd q)), Some c)
        \<and> cr_destination c = rq_destination q \<and> cr_txn_id c = rq_transaction_id q \<and> cr_body c = rq_body q \<and> cr_auth c = rq_auth_header q
        \<and> cr_origin c = sg_server_name s)
    \<and> (\<forall>seen_at sent_at d. compare_captures t dest w
          (map (\<lambda>q. the (snd (snd (serve_http g origin_only upstream (seen_at q) (arriving host fwd q))))) qs)
          (map (\<lambda>q. capture_request (sent_at q) (sg_server_name s) q) qs) = Some d
        \<longrightarrow> diff_agreed d \<and> df_compared d = df_both d)"
proof (intro conjI allI impI ballI)
  fix rs enc cf outs cf'
  assume "serve_all enc g origin_only upstream rs cf = (outs, cf')"
  then show "outs = map (\<lambda>(now, w, r). case serve_http g [] upstream now r of (fwd, answer, _) \<Rightarrow> (fwd, answer)) rs"
    by (rule serve_all_transparent)
next
  fix now q
  assume q: "q \<in> set qs"
  then obtain i tx where b: "build_request canon s i dest tx = Some q" "CHR ''%'' \<notin> set i" using built by blast
  have d: "rq_destination q = dest" "rq_transaction_id q = i" using b(1) by (auto simp: build_request_def Let_def split: option.splits)
  show "\<exists>c. serve_http g origin_only upstream now (arriving host fwd q)
          = (Some (arriving host fwd q), AnswerUpstream (upstream (arriving host fwd q)), Some c)
        \<and> cr_destination c = rq_destination q \<and> cr_txn_id c = rq_transaction_id q \<and> cr_body c = rq_body q \<and> cr_auth c = rq_auth_header q
        \<and> cr_origin c = sg_server_name s"
    using recorded_request [OF b, of host fwd g origin_only upstream now] q reached body filt by (simp add: capture_request_def)
next
  fix seen_at sent_at :: "request \<Rightarrow> instant" and d
  let ?seen = "map (\<lambda>q. the (snd (snd (serve_http g origin_only upstream (seen_at q) (arriving host fwd q))))) qs"
  let ?sent = "map (\<lambda>q. capture_request (sent_at q) (sg_server_name s) q) qs"
  assume cmp: "compare_captures t dest w ?seen ?sent = Some d"
  have "cr_destination (the (snd (snd (serve_http g origin_only upstream (seen_at q) (arriving host fwd q))))) = cr_destination (capture_request (sent_at q) (sg_server_name s) q)
      \<and> cr_body (the (snd (snd (serve_http g origin_only upstream (seen_at q) (arriving host fwd q))))) = cr_body (capture_request (sent_at q) (sg_server_name s) q)"
    if q: "q \<in> set qs" for q
  proof -
    obtain i tx where b: "build_request canon s i dest tx = Some q" "CHR ''%'' \<notin> set i" using built q by blast
    show ?thesis using recorded_request [OF b, of host fwd g origin_only upstream "seen_at q"] q reached body filt by (simp add: capture_request_def)
  qed
  then have "list_all2 (\<lambda>a b. cr_destination a = cr_destination b \<and> cr_body a = cr_body b) ?seen ?sent"
    by (auto simp: list_all2_map1 list_all2_map2 list_all2_same)
  then have same: "flatten t dest w ?seen acc = flatten t dest w ?sent acc" for acc unfolding window by (rule flatten_cong)
  obtain p e n where fl: "flatten t dest w ?sent ([], [], 0) = Some (p, e, n)"
    using cmp by (auto simp: compare_captures_def split: option.splits)
  obtain k both only_s only_w differing where m: "compare_maps p p = (k, both, only_s, only_w, differing)" by (cases "compare_maps p p")
  have "distinct (map fst p)" using flatten_eq [OF fl] put_canonical_map(1) [of "[]"] by simp
  note agree = same_maps_agree [OF this m]
  show "diff_agreed d" "df_compared d = df_both d"
    using cmp same fl m agree by (auto simp: compare_captures_def diff_agreed_def)
qed

text \<open>One transaction, over a proxy that answers 200.\<close>

theorem recorded_as_sent_witness:
  "\<exists>q. build_request (\<lambda>_. Some ''{}'') sample_signer ''gofed-7'' ''b'' (batch_transaction 5 [] []) = Some q
     \<and> (\<exists>c. serve_http (table_gjson [((''{}'', ''origin''), ''us'')] [] []) ''us'' (\<lambda>_. [200]) 0 (arriving ''b:8448'' [] q)
          = (Some (arriving ''b:8448'' [] q), AnswerUpstream [200], Some c)
        \<and> cr_destination c = ''b'' \<and> cr_txn_id c = ''gofed-7'' \<and> cr_body c = ''{}'')"
proof -
  let ?g = "table_gjson [((''{}'', ''origin''), ''us'')] [] []"
  obtain q where q: "build_request (\<lambda>_. Some ''{}'') sample_signer ''gofed-7'' ''b'' (batch_transaction 5 [] []) = Some q"
    by (auto simp: build_request_def Let_def sample_signer_def)
  have f: "rq_destination q = ''b''" "rq_transaction_id q = ''gofed-7''" "rq_body q = ''{}''"
    using q by (auto simp: build_request_def Let_def sample_signer_def)
  have "split_host_port ''b:8448'' = Some ''b''" by (simp add: split_host_port_def has_prefix_def)
  then have h: "host_of (arriving ''b:8448'' [] q) = ''b''" by (simp add: host_of_def arriving_def)
  have o: "get_str ?g ''{}'' ''origin'' = sg_server_name sample_signer" by (simp add: gjson_eval sample_signer_def)
  have "\<forall>q' \<in> set [q]. \<exists>txn_id tx. build_request (\<lambda>_. Some ''{}'') sample_signer txn_id ''b'' tx = Some q' \<and> CHR ''%'' \<notin> set txn_id"
    using q by (auto intro: exI [of _ "''gofed-7''"] exI [of _ "batch_transaction 5 [] []"])
  note R = recorded_as_sent [OF this, of "''b:8448''" "[]" ?g "''us''", OF _ _ _ refl]
  have "\<forall>now. \<forall>q' \<in> set [q]. \<exists>c. serve_http ?g ''us'' (\<lambda>_. [200]) now (arriving ''b:8448'' [] q')
          = (Some (arriving ''b:8448'' [] q'), AnswerUpstream [200], Some c)
        \<and> cr_destination c = rq_destination q' \<and> cr_txn_id c = rq_transaction_id q' \<and> cr_body c = rq_body q' \<and> cr_auth c = rq_auth_header q'
        \<and> cr_origin c = sg_server_name sample_signer"
    by (rule R [THEN conjunct2, THEN conjunct1]) (use h o f in \<open>simp_all add: sample_signer_def\<close>)
  then show ?thesis using q f by auto
qed

end
