(* ===== verification/Difflog.thy ===== *)
theory Difflog
  imports CaptureLog SynapseCfg Routing "HOL-Library.Word"
begin

text \<open>
  \<open>internal/difflog\<close>: the persisted totals of what a shadow decided, the rotating file of sampled
  decisions, the Prometheus collector, and the observer of \<open>cmd/gofederation-worker/observer.go\<close>
  that feeds them. Counters are 64 bits wide. A nil map reads as an empty one, and the code never
  writes to a nil map. The JSON encoder and decoder of the totals are arguments, over any type of
  file contents.
\<close>

section \<open>Totals\<close>

type_synonym counter = "64 word"

record totals =
  tt_since :: instant
  tt_restarts :: counter
  tt_examined :: counter
  tt_routed :: counter
  tt_skipped :: "string \<rightharpoonup> counter"
  tt_resolved :: counter
  tt_ours :: counter
  tt_approximate :: counter
  tt_approximate_by :: "string \<rightharpoonup> counter"
  tt_rescinded :: counter
  tt_transactions :: counter
  tt_pdus :: counter
  tt_edus :: counter

abbreviation zero_time :: instant where "zero_time \<equiv> - 62135596800 * second"

definition fresh_totals :: "instant \<Rightarrow> totals" where
  "fresh_totals now =
     \<lparr>tt_since = now, tt_restarts = 0, tt_examined = 0, tt_routed = 0, tt_skipped = Map.empty, tt_resolved = 0, tt_ours = 0,
      tt_approximate = 0, tt_approximate_by = Map.empty, tt_rescinded = 0, tt_transactions = 0, tt_pdus = 0, tt_edus = 0\<rparr>"

definition bump :: "string \<Rightarrow> (string \<rightharpoonup> counter) \<Rightarrow> (string \<rightharpoonup> counter)" where
  "bump k m = m(k \<mapsto> (case m k of None \<Rightarrow> 0 | Some n \<Rightarrow> n) + 1)"

record difflog =
  dl_dir :: string
  dl_instance :: string
  dl_totals :: totals
  dl_dirty :: bool
  dl_sampling :: bool
  dl_sample_every :: int
  dl_sample_count :: int

definition change_totals :: "(totals \<Rightarrow> totals) \<Rightarrow> difflog \<Rightarrow> difflog" where
  "change_totals f w = w\<lparr>dl_totals := f (dl_totals w), dl_dirty := True\<rparr>"

definition record_skip :: "string \<Rightarrow> difflog \<Rightarrow> difflog" where
  "record_skip reason = change_totals (\<lambda>t. t\<lparr>tt_examined := tt_examined t + 1, tt_skipped := bump reason (tt_skipped t)\<rparr>)"

record route =
  dr_time :: instant
  dr_event :: string
  dr_all :: "string list"
  dr_ours :: "string list"
  dr_approximate :: bool
  dr_cause :: string

definition count_route :: "string list \<Rightarrow> string list \<Rightarrow> bool \<Rightarrow> string \<Rightarrow> totals \<Rightarrow> totals" where
  "count_route all ours approx cause t =
     (let t1 = t\<lparr>tt_examined := tt_examined t + 1, tt_resolved := tt_resolved t + of_nat (length all),
                tt_ours := tt_ours t + of_nat (length ours)\<rparr>;
          t2 = (if ours \<noteq> [] then t1\<lparr>tt_routed := tt_routed t1 + 1\<rparr> else t1)
      in if approx then t2\<lparr>tt_approximate := tt_approximate t2 + 1, tt_approximate_by := bump cause (tt_approximate_by t2)\<rparr>
         else t2)"

text \<open>The decision that goes to the sample file, when it is the turn of one.\<close>

definition record_route ::
  "instant \<Rightarrow> string \<Rightarrow> string list \<Rightarrow> string list \<Rightarrow> bool \<Rightarrow> string \<Rightarrow> difflog \<Rightarrow> difflog \<times> route option" where
  "record_route now event all ours approx cause w =
     (let n = dl_sample_count w
      in ((change_totals (count_route all ours approx cause) w)\<lparr>dl_sample_count := wrap64 (n + 1)\<rparr>,
          if dl_sampling w \<and> 0 < dl_sample_every w \<and> n mod dl_sample_every w = 0
          then Some \<lparr>dr_time = now, dr_event = event, dr_all = all, dr_ours = ours, dr_approximate = approx, dr_cause = cause\<rparr>
          else None))"

definition record_rescinded_invite :: "difflog \<Rightarrow> difflog" where
  "record_rescinded_invite = change_totals (\<lambda>t. t\<lparr>tt_rescinded := tt_rescinded t + 1\<rparr>)"

definition record_transaction :: "int \<Rightarrow> int \<Rightarrow> difflog \<Rightarrow> difflog" where
  "record_transaction pdus edus =
     change_totals (\<lambda>t. t\<lparr>tt_transactions := tt_transactions t + 1, tt_pdus := tt_pdus t + of_int pdus, tt_edus := tt_edus t + of_int edus\<rparr>)"

section \<open>On disk\<close>

definition stats_path :: "string \<Rightarrow> string \<Rightarrow> string" where
  "stats_path dir inst = path_join dir (if inst \<noteq> [] then inst @ ''.stats.json'' else ''stats.json'')"

text \<open>
  What becomes of a flush: \<open>WriteFails c\<close> leaves \<open>c\<close> in the temporary file. The two last are the
  process being killed, while it writes and before it renames.
\<close>

datatype 'c flush_answer = Flushes | WriteFails 'c | RenameFails | KilledWriting 'c | KilledBeforeRename

type_synonym 'c stats_files = "string \<rightharpoonup> 'c"

text \<open>\<open>flushLocked\<close>: the writer (none when the process is gone), the files, and success.\<close>

definition flush_locked ::
  "(totals \<Rightarrow> 'c) \<Rightarrow> 'c flush_answer \<Rightarrow> difflog \<Rightarrow> 'c stats_files \<Rightarrow> (difflog option \<times> 'c stats_files) \<times> bool" where
  "flush_locked enc a w fs =
     (let path = stats_path (dl_dir w) (dl_instance w); tmp = path @ ''.tmp''; doc = enc (dl_totals w)
      in case a of
           Flushes \<Rightarrow> ((Some (w\<lparr>dl_dirty := False\<rparr>), (fs(tmp := None))(path \<mapsto> doc)), True)
         | WriteFails c \<Rightarrow> ((Some w, fs(tmp \<mapsto> c)), False)
         | RenameFails \<Rightarrow> ((Some w, fs(tmp \<mapsto> doc)), False)
         | KilledWriting c \<Rightarrow> ((None, fs(tmp \<mapsto> c)), False)
         | KilledBeforeRename \<Rightarrow> ((None, fs(tmp \<mapsto> doc)), False))"

definition flush_difflog ::
  "(totals \<Rightarrow> 'c) \<Rightarrow> 'c flush_answer \<Rightarrow> difflog \<Rightarrow> 'c stats_files \<Rightarrow> (difflog option \<times> 'c stats_files) \<times> bool" where
  "flush_difflog enc a w fs = (if \<not> dl_dirty w then ((Some w, fs), True) else flush_locked enc a w fs)"

definition load_totals :: "('c \<Rightarrow> totals option) \<Rightarrow> bool \<Rightarrow> instant \<Rightarrow> string \<Rightarrow> 'c stats_files \<Rightarrow> totals option" where
  "load_totals dec readable now path fs =
     (if \<not> readable then None
      else case fs path of
        None \<Rightarrow> None
      | Some c \<Rightarrow> (case dec c of None \<Rightarrow> None
          | Some t \<Rightarrow> Some (if tt_since t = zero_time then t\<lparr>tt_since := now\<rparr> else t)))"

text \<open>\<open>Open\<close>; \<open>dirs_ok\<close> is that the directory and the sample file can be made.\<close>

definition open_difflog ::
  "(totals \<Rightarrow> 'c) \<Rightarrow> ('c \<Rightarrow> totals option) \<Rightarrow> bool \<Rightarrow> bool \<Rightarrow> instant \<Rightarrow> 'c flush_answer \<Rightarrow> string \<Rightarrow> string \<Rightarrow> int \<Rightarrow> 'c stats_files
     \<Rightarrow> difflog option \<times> 'c stats_files" where
  "open_difflog enc dec dirs_ok readable now a dir inst every fs =
     (if dir = [] \<or> \<not> dirs_ok then (None, fs)
      else (let t = (case load_totals dec readable now (stats_path dir inst) fs of None \<Rightarrow> fresh_totals now | Some t \<Rightarrow> t);
                w = \<lparr>dl_dir = dir, dl_instance = inst, dl_totals = t\<lparr>tt_restarts := tt_restarts t + 1\<rparr>, dl_dirty = False,
                     dl_sampling = (0 < every), dl_sample_every = every, dl_sample_count = 0\<rparr>
            in case flush_locked enc a w fs of ((w', fs'), ok) \<Rightarrow> (if ok then w' else None, fs')))"

text \<open>\<open>Close\<close> flushes; the process ends whether that succeeds or not.\<close>

definition close_difflog :: "(totals \<Rightarrow> 'c) \<Rightarrow> 'c flush_answer \<Rightarrow> difflog \<Rightarrow> 'c stats_files \<Rightarrow> 'c stats_files" where
  "close_difflog enc a w fs = snd (fst (flush_difflog enc a w fs))"

section \<open>Samples\<close>

text \<open>The rotating sample file; generation 1 is the one file kept. The rename overwrites it.\<close>

record sample_file =
  sf_max_bytes :: int
  sf_handle :: log_handle
  sf_written :: int

definition open_sample_file :: "bool \<Rightarrow> int \<Rightarrow> capture_files \<Rightarrow> (sample_file \<times> capture_files) option" where
  "open_sample_file ok max_bytes fs =
     (if \<not> ok then None
      else (let content = content_at fs 0
            in Some (\<lparr>sf_max_bytes = (if max_bytes \<le> 0 then 2 ^ 26 else max_bytes), sf_handle = OpenFile, sf_written = int (length content)\<rparr>,
                     fs(0 \<mapsto> content))))"

definition rotate_samples :: "write_world \<Rightarrow> sample_file \<Rightarrow> capture_files \<Rightarrow> (sample_file \<times> capture_files) \<times> bool" where
  "rotate_samples w s fs =
     (let closed = s\<lparr>sf_handle := ClosedFile\<rparr>
      in if sf_handle s = ClosedFile \<or> \<not> ww_close w \<or> \<not> ww_rename w then ((closed, fs), False)
         else (let fs1 = rename_file True 0 1 fs
               in if \<not> ww_open w then ((closed, fs1), False)
                  else ((s\<lparr>sf_handle := OpenFile, sf_written := int (length (content_at fs1 0))\<rparr>, fs1(0 \<mapsto> content_at fs1 0)), True)))"

definition write_sample ::
  "(route \<Rightarrow> string option) \<Rightarrow> write_world \<Rightarrow> route \<Rightarrow> sample_file \<times> capture_files \<Rightarrow> sample_file \<times> capture_files" where
  "write_sample enc w r sf =
     (let (s, fs) = sf in
      case enc r of
        None \<Rightarrow> (s, fs)
      | Some line \<Rightarrow>
          (let b = line @ [newline]
           in if sf_handle s = NoFile then (s, fs)
              else (let ((s1, fs1), ready) = (if sf_written s + int (length b) > sf_max_bytes s then rotate_samples w s fs else ((s, fs), True))
                    in if \<not> ready \<or> sf_handle s1 = ClosedFile then (s1, fs1)
                       else (let n = (case ww_write w of None \<Rightarrow> length b | Some m \<Rightarrow> min m (length b))
                             in (s1\<lparr>sf_written := sf_written s1 + int n\<rparr>, fs1(0 \<mapsto> content_at fs1 0 @ take n b))))))"

section \<open>The life of a record across processes\<close>

datatype count_op =
    CountSkip string
  | CountRoute string "string list" "string list" bool string
  | CountRescinded
  | CountTransaction int int

fun count_totals :: "count_op \<Rightarrow> totals \<Rightarrow> totals" where
  "count_totals (CountSkip reason) t = t\<lparr>tt_examined := tt_examined t + 1, tt_skipped := bump reason (tt_skipped t)\<rparr>"
| "count_totals (CountRoute event all ours approx cause) t = count_route all ours approx cause t"
| "count_totals CountRescinded t = t\<lparr>tt_rescinded := tt_rescinded t + 1\<rparr>"
| "count_totals (CountTransaction pdus edus) t =
     t\<lparr>tt_transactions := tt_transactions t + 1, tt_pdus := tt_pdus t + of_int pdus, tt_edus := tt_edus t + of_int edus\<rparr>"

fun record_op :: "instant \<Rightarrow> count_op \<Rightarrow> difflog \<Rightarrow> difflog" where
  "record_op now (CountSkip reason) w = record_skip reason w"
| "record_op now (CountRoute event all ours approx cause) w = fst (record_route now event all ours approx cause w)"
| "record_op now CountRescinded w = record_rescinded_invite w"
| "record_op now (CountTransaction pdus edus) w = record_transaction pdus edus w"

text \<open>
  A worker's life on one volume: it starts (the file readable or not), counts, flushes on its
  timer, ends with a flush, or is killed. A process that does not start does not exist.
\<close>

datatype 'c life_event =
    Started bool bool instant "'c flush_answer"
  | Counted instant count_op
  | FlushTick "'c flush_answer"
  | Ended "'c flush_answer"
  | Killed

fun life_step ::
  "(totals \<Rightarrow> 'c) \<Rightarrow> ('c \<Rightarrow> totals option) \<Rightarrow> string \<Rightarrow> string \<Rightarrow> int \<Rightarrow> 'c life_event
     \<Rightarrow> difflog option \<times> 'c stats_files \<Rightarrow> difflog option \<times> 'c stats_files" where
  "life_step enc dec dir inst every (Started dirs_ok readable now a) (p, fs) =
     (if p \<noteq> None then (p, fs) else open_difflog enc dec dirs_ok readable now a dir inst every fs)"
| "life_step enc dec dir inst every (Counted now op) (p, fs) = (map_option (record_op now op) p, fs)"
| "life_step enc dec dir inst every (FlushTick a) (p, fs) =
     (case p of None \<Rightarrow> (None, fs) | Some w \<Rightarrow> fst (flush_difflog enc a w fs))"
| "life_step enc dec dir inst every (Ended a) (p, fs) =
     (case p of None \<Rightarrow> (None, fs) | Some w \<Rightarrow> (None, close_difflog enc a w fs))"
| "life_step enc dec dir inst every Killed (p, fs) = (None, fs)"

definition run_life ::
  "(totals \<Rightarrow> 'c) \<Rightarrow> ('c \<Rightarrow> totals option) \<Rightarrow> string \<Rightarrow> string \<Rightarrow> int \<Rightarrow> 'c life_event list \<Rightarrow> difflog option \<times> 'c stats_files" where
  "run_life enc dec dir inst every es = fold (life_step enc dec dir inst every) es (None, Map.empty)"

text \<open>
  The specification: when counting began, how often a process has started, and what was counted,
  as of the last flush that succeeded; and the same for the process that runs, if one does. A
  process goes on from what was saved; what one counted after its last flush goes with it, and
  one that cannot read the file begins anew.
\<close>

fun kills :: "'c flush_answer \<Rightarrow> bool" where
  "kills (KilledWriting c) = True"
| "kills KilledBeforeRename = True"
| "kills a = False"

fun flushes :: "'c flush_answer \<Rightarrow> bool" where
  "flushes Flushes = True"
| "flushes a = False"

type_synonym chronicle = "instant \<times> nat \<times> count_op list"

fun chronicle_step :: "'c life_event \<Rightarrow> chronicle option \<times> chronicle option \<Rightarrow> chronicle option \<times> chronicle option" where
  "chronicle_step (Started dirs_ok readable now a) (saved, live) =
     (if live \<noteq> None \<or> \<not> dirs_ok then (saved, live)
      else let (since, n, ops) = (case (if readable then saved else None) of None \<Rightarrow> (now, 0, []) | Some c \<Rightarrow> c); c = Some (since, Suc n, ops)
           in if flushes a then (c, c) else (saved, None))"
| "chronicle_step (Counted now op) (saved, live) = (saved, map_option (\<lambda>(since, n, ops). (since, n, ops @ [op])) live)"
| "chronicle_step (FlushTick a) (saved, live) =
     (if live = None \<or> live = saved then (saved, live) else if flushes a then (live, live)
      else (saved, if kills a then None else live))"
| "chronicle_step (Ended a) (saved, live) = (if live \<noteq> None \<and> flushes a then (live, None) else (saved, None))"
| "chronicle_step Killed (saved, live) = (saved, None)"

definition chronicle_of :: "'c life_event list \<Rightarrow> chronicle option \<times> chronicle option" where
  "chronicle_of es = fold chronicle_step es (None, None)"

text \<open>Everything that was counted while a process ran, whatever became of it.\<close>

definition ever_counted :: "'c life_event list \<Rightarrow> count_op list" where
  "ever_counted es = snd (fold (\<lambda>e (ch, ops).
     (chronicle_step e ch, ops @ (case e of Counted now op \<Rightarrow> if snd ch = None then [] else [op] | _ \<Rightarrow> []))) es ((None, None), []))"

text \<open>Nothing is lost in a life whose file is readable and that ends with a flush.\<close>

fun nothing_lost :: "'c life_event \<Rightarrow> bool" where
  "nothing_lost (Started dirs_ok readable now a) \<longleftrightarrow> readable"
| "nothing_lost (Counted now op) \<longleftrightarrow> True"
| "nothing_lost (FlushTick a) \<longleftrightarrow> \<not> kills a"
| "nothing_lost (Ended a) \<longleftrightarrow> flushes a"
| "nothing_lost Killed \<longleftrightarrow> False"

fun summary :: "chronicle \<Rightarrow> totals" where
  "summary (since, n, ops) = fold count_totals ops ((fresh_totals since)\<lparr>tt_restarts := of_nat n\<rparr>)"

section \<open>What survives\<close>

lemma count_totals_restarts: "count_totals op (t\<lparr>tt_restarts := n\<rparr>) = (count_totals op t)\<lparr>tt_restarts := n\<rparr>"
  by (cases op) (simp_all add: count_route_def Let_def)

lemma fold_count_restarts: "fold count_totals ops (t\<lparr>tt_restarts := n\<rparr>) = (fold count_totals ops t)\<lparr>tt_restarts := n\<rparr>"
  by (induction ops arbitrary: t) (simp_all add: count_totals_restarts)

lemma count_totals_since: "tt_since (count_totals op t) = tt_since t" "tt_restarts (count_totals op t) = tt_restarts t"
  by (cases op; simp add: count_route_def Let_def)+

lemma fresh_restarts [simp]: "(fresh_totals now)\<lparr>tt_restarts := 0\<rparr> = fresh_totals now"
  by (simp add: fresh_totals_def)

lemma summary_since: "tt_since (summary (since, n, ops)) = since"
  by (induction ops rule: rev_induct) (simp_all add: count_totals_since fresh_totals_def)

lemma summary_restart: "(summary (since, n, ops))\<lparr>tt_restarts := tt_restarts (summary (since, n, ops)) + 1\<rparr> = summary (since, Suc n, ops)"
proof -
  have "tt_restarts (summary (since, n, ops)) = of_nat n"
    by (induction ops rule: rev_induct) (simp_all add: count_totals_since)
  then show ?thesis by (simp add: fold_count_restarts add.commute)
qed

lemma summary_snoc: "summary (since, n, ops @ [op]) = count_totals op (summary (since, n, ops))"
  by simp

text \<open>Every total in closed form.\<close>

fun decision :: "count_op \<Rightarrow> bool" where
  "decision (CountSkip _) = True"
| "decision (CountRoute _ _ _ _ _) = True"
| "decision _ = False"

fun op_skip :: "count_op \<Rightarrow> string option" where
  "op_skip (CountSkip reason) = Some reason"
| "op_skip _ = None"

fun op_cause :: "count_op \<Rightarrow> string option" where
  "op_cause (CountRoute _ _ _ approx cause) = (if approx then Some cause else None)"
| "op_cause _ = None"

fun op_sizes :: "count_op \<Rightarrow> nat \<times> nat" where
  "op_sizes (CountRoute _ all ours _ _) = (length all, length ours)"
| "op_sizes _ = (0, 0)"

fun op_units :: "count_op \<Rightarrow> int \<times> int" where
  "op_units (CountTransaction pdus edus) = (pdus, edus)"
| "op_units _ = (0, 0)"

definition tally :: "'a \<Rightarrow> 'a option list \<Rightarrow> counter option" where
  "tally k xs = (if Some k \<in> set xs then Some (of_nat (count_list xs (Some k))) else None)"

lemma tally_snoc: "tally k (xs @ [x]) = (if x = Some k then Some ((case tally k xs of None \<Rightarrow> 0 | Some n \<Rightarrow> n) + 1) else tally k xs)"
proof -
  have "count_list xs (Some k) = 0" if "Some k \<notin> set xs" using that by (simp add: count_list_0_iff)
  then show ?thesis by (auto simp: tally_def)
qed

definition totals_tell :: "totals \<Rightarrow> count_op list \<Rightarrow> bool" where
  "totals_tell t ops \<longleftrightarrow>
     tt_examined t = of_nat (length (filter decision ops))
     \<and> tt_routed t = of_nat (length (filter (\<lambda>op. 0 < snd (op_sizes op)) ops))
     \<and> tt_skipped t = (\<lambda>k. tally k (map op_skip ops))
     \<and> tt_resolved t = of_nat (sum_list (map (fst \<circ> op_sizes) ops)) \<and> tt_ours t = of_nat (sum_list (map (snd \<circ> op_sizes) ops))
     \<and> tt_approximate t = of_nat (length (filter (\<lambda>op. op_cause op \<noteq> None) ops))
     \<and> tt_approximate_by t = (\<lambda>k. tally k (map op_cause ops))
     \<and> tt_rescinded t = of_nat (length (filter (\<lambda>op. op = CountRescinded) ops))
     \<and> tt_transactions t = of_nat (length (filter (\<lambda>op. \<exists>p e. op = CountTransaction p e) ops))
     \<and> tt_pdus t = of_int (sum_list (map (fst \<circ> op_units) ops)) \<and> tt_edus t = of_int (sum_list (map (snd \<circ> op_units) ops))"

lemma bump_tally: "bump x (\<lambda>k. tally k xs) = (\<lambda>k. tally k (xs @ [Some x]))" "(\<lambda>k. tally k (xs @ [None])) = (\<lambda>k. tally k xs)"
  by (auto simp: bump_def tally_snoc fun_eq_iff)

lemma summary_tells: "totals_tell (summary (since, n, ops)) ops"
proof (induction ops rule: rev_induct)
  case Nil
  show ?case by (simp add: totals_tell_def fresh_totals_def tally_def)
next
  case (snoc op ops)
  then show ?case unfolding summary_snoc
    by (cases op) (auto simp: totals_tell_def count_route_def Let_def bump_tally)
qed

definition life_rel ::
  "(totals \<Rightarrow> 'c) \<Rightarrow> string \<Rightarrow> string \<Rightarrow> difflog option \<times> 'c stats_files \<Rightarrow> chronicle option \<times> chronicle option \<Rightarrow> bool" where
  "life_rel enc dir inst ps ch \<longleftrightarrow>
     snd ps (stats_path dir inst) = map_option (\<lambda>c. enc (summary c)) (fst ch)
     \<and> (\<forall>c. fst ch = Some c \<or> snd ch = Some c \<longrightarrow> fst c \<noteq> zero_time)
     \<and> (case (fst ps, snd ch) of
          (None, None) \<Rightarrow> True
        | (Some w, Some c) \<Rightarrow> dl_totals w = summary c \<and> dl_dir w = dir \<and> dl_instance w = inst \<and> (\<not> dl_dirty w \<longrightarrow> fst ch = snd ch)
            \<and> (dl_dirty w \<longrightarrow> fst ch \<noteq> snd ch)
        | _ \<Rightarrow> False)"

lemma flush_locked_rel:
  assumes "dl_totals w = summary c" "dl_dir w = dir" "dl_instance w = inst" "fst c \<noteq> zero_time"
    and "fs (stats_path dir inst) = map_option (\<lambda>c. enc (summary c)) saved" "\<forall>c. saved = Some c \<longrightarrow> fst c \<noteq> zero_time"
    and "flush_locked enc a w fs = ((p, fs'), ok)"
  shows "fs' (stats_path dir inst) = map_option (\<lambda>c. enc (summary c)) (if flushes a then Some c else saved)"
    "ok = flushes a" "p = (if kills a then None else Some (if flushes a then w\<lparr>dl_dirty := False\<rparr> else w))"
  using assms by (cases a; auto simp: flush_locked_def Let_def)+

lemma record_op_fields: "dl_totals (record_op now op w) = count_totals op (dl_totals w)" "dl_dirty (record_op now op w)"
  "dl_dir (record_op now op w) = dl_dir w" "dl_instance (record_op now op w) = dl_instance w"
  by (cases op; simp add: record_skip_def change_totals_def record_route_def Let_def record_rescinded_invite_def record_transaction_def)+

lemma saved_never_ahead:
  "case fold chronicle_step es (None, None) of
     (Some (s, n, ops), Some (s', n', ops')) \<Rightarrow> s = s' \<and> n = n' \<and> length ops \<le> length ops' | _ \<Rightarrow> True"
proof (induction es rule: rev_induct)
  case (snoc e es)
  obtain sa li where f: "fold chronicle_step es (None, None) = (sa, li)" by (metis prod.exhaust)
  show ?case using snoc.IH f
    by (cases e) (auto simp: Let_def split: option.splits if_splits)
qed simp

lemma life_rel_live:
  assumes "life_rel enc dir inst (Some w, fs) (saved, live)"
  obtains c where "live = Some c" "dl_totals w = summary c" "dl_dir w = dir" "dl_instance w = inst" "fst c \<noteq> zero_time"
    "fs (stats_path dir inst) = map_option (\<lambda>c. enc (summary c)) saved" "\<forall>c. saved = Some c \<longrightarrow> fst c \<noteq> zero_time"
    "dl_dirty w \<longleftrightarrow> saved \<noteq> live"
proof (cases live)
  case (Some c)
  with assms show thesis by (intro that [of c]; cases c) (auto simp: life_rel_def simp del: summary.simps)
qed (use assms in \<open>simp add: life_rel_def\<close>)

lemma life_step_rel:
  assumes "life_rel enc dir inst (p, fs) (saved, live)" "\<And>t. dec (enc t) = Some t" "dir \<noteq> []"
    and "\<forall>s n ops s' n' ops'. saved = Some (s, n, ops) \<longrightarrow> live = Some (s', n', ops') \<longrightarrow> length ops \<le> length ops'"
    and "\<And>d r now a. e = Started d r now a \<Longrightarrow> now \<noteq> zero_time"
  shows "life_rel enc dir inst (life_step enc dec dir inst every e (p, fs)) (chronicle_step e (saved, live))"
proof (cases e)
  case (Started d r now a)
  show ?thesis
  proof (cases "p \<noteq> None \<or> \<not> d")
    case True
    then show ?thesis using assms(1) Started by (auto simp: life_rel_def open_difflog_def split: option.splits)
  next
    case False
    then have p: "p = None" "live = None" "d" "now \<noteq> zero_time" using assms(1,5) Started by (auto simp: life_rel_def split: option.splits)
    define c0 where "c0 = (case (if r then saved else None) of None \<Rightarrow> (now, 0, []) | Some c \<Rightarrow> c)"
    obtain since n ops where c0: "c0 = (since, n, ops)" by (cases c0)
    define w where "w = \<lparr>dl_dir = dir, dl_instance = inst, dl_totals = summary (since, Suc n, ops), dl_dirty = False,
        dl_sampling = (0 < every), dl_sample_every = every, dl_sample_count = 0\<rparr>"
    have z: "since \<noteq> zero_time" using assms(1) c0 p(4) by (auto simp: c0_def life_rel_def split: option.splits if_splits)
    have t: "(case load_totals dec r now (stats_path dir inst) fs of None \<Rightarrow> fresh_totals now | Some t \<Rightarrow> t) = summary (since, n, ops)"
      using assms(1,2) c0 z p(4) summary_since [of since n ops]
      by (auto simp: load_totals_def life_rel_def c0_def split: option.splits if_splits)
    obtain w' fs' ok where fl: "flush_locked enc a w fs = ((w', fs'), ok)" by (metis prod.exhaust)
    have "open_difflog enc dec d r now a dir inst every fs = (if ok then w' else None, fs')"
      using p assms(3) fl t summary_restart [of since n ops] by (simp add: open_difflog_def Let_def w_def)
    moreover have "chronicle_step e (saved, live)
        = (if flushes a then (Some (since, Suc n, ops), Some (since, Suc n, ops)) else (saved, None))"
      using Started p c0 by (simp add: c0_def Let_def)
    moreover have "\<not> (kills a \<and> flushes a)" by (cases a) auto
    ultimately show ?thesis
      using flush_locked_rel [OF _ _ _ _ _ _ fl, of "(since, Suc n, ops)" dir inst saved] assms(1) p z Started
      by (auto simp: life_rel_def w_def)
  qed
next
  case (Counted now op)
  then show ?thesis using assms(1,4)
    by (auto simp: life_rel_def record_op_fields split: option.splits)
next
  case (FlushTick a)
  show ?thesis
  proof (cases p)
    case None
    then show ?thesis using assms(1) FlushTick by (auto simp: life_rel_def split: option.splits)
  next
    case (Some w)
    obtain c where c: "live = Some c" "dl_totals w = summary c" "dl_dir w = dir" "dl_instance w = inst" "fst c \<noteq> zero_time"
      "fs (stats_path dir inst) = map_option (\<lambda>c. enc (summary c)) saved" "\<forall>c. saved = Some c \<longrightarrow> fst c \<noteq> zero_time"
      "dl_dirty w \<longleftrightarrow> saved \<noteq> live"
      using assms(1) [unfolded Some] by (rule life_rel_live)
    obtain w' fs' ok where fl: "flush_locked enc a w fs = ((w', fs'), ok)" by (metis prod.exhaust)
    note F = flush_locked_rel [OF c(2-7) fl]
    have "\<not> (kills a \<and> flushes a)" by (cases a) auto
    then show ?thesis using assms(1) FlushTick Some c F fl
      by (auto simp: life_rel_def flush_difflog_def split: if_splits)
  qed
next
  case (Ended a)
  show ?thesis
  proof (cases p)
    case None
    then show ?thesis using assms(1) Ended by (auto simp: life_rel_def split: option.splits)
  next
    case (Some w)
    obtain c where c: "live = Some c" "dl_totals w = summary c" "dl_dir w = dir" "dl_instance w = inst" "fst c \<noteq> zero_time"
      "fs (stats_path dir inst) = map_option (\<lambda>c. enc (summary c)) saved" "\<forall>c. saved = Some c \<longrightarrow> fst c \<noteq> zero_time"
      "dl_dirty w \<longleftrightarrow> saved \<noteq> live"
      using assms(1) [unfolded Some] by (rule life_rel_live)
    obtain w' fs' ok where fl: "flush_locked enc a w fs = ((w', fs'), ok)" by (metis prod.exhaust)
    note F = flush_locked_rel [OF c(2-7) fl]
    show ?thesis using assms(1) Ended Some c F fl
      by (auto simp: life_rel_def close_difflog_def flush_difflog_def split: if_splits)
  qed
next
  case Killed
  then show ?thesis using assms(1) by (auto simp: life_rel_def split: option.splits)
qed

lemma ever_counted_snoc:
  "ever_counted (es @ [e]) = ever_counted es @ (case e of Counted now op \<Rightarrow> if snd (chronicle_of es) = None then [] else [op] | _ \<Rightarrow> [])"
proof -
  have "fst (fold (\<lambda>e (ch, ops). (chronicle_step e ch, ops @ (case e of Counted now op \<Rightarrow> if snd ch = None then [] else [op] | _ \<Rightarrow> []))) es (c, ops))
      = fold chronicle_step es c" for c ops
    by (induction es arbitrary: c ops) simp_all
  note this [of "(None, None)" "[]"]
  then show ?thesis unfolding ever_counted_def chronicle_of_def fold_append comp_apply by (cases e) (simp_all add: split_beta)
qed

text \<open>What is kept was counted, in its order; and all of it is kept when nothing is lost.\<close>

lemma kept_was_counted:
  assumes "chronicle_of es = (saved, live)"
  shows "(\<forall>s n ops. saved = Some (s, n, ops) \<or> live = Some (s, n, ops) \<longrightarrow> subseq ops (ever_counted es))
    \<and> ((\<forall>e \<in> set es. nothing_lost e) \<longrightarrow>
         (case (saved, live) of (_, Some (s, n, ops)) \<Rightarrow> ops = ever_counted es | (Some (s, n, ops), None) \<Rightarrow> ops = ever_counted es
          | (None, None) \<Rightarrow> ever_counted es = []))"
  using assms
proof (induction es arbitrary: saved live rule: rev_induct)
  case (snoc e es)
  obtain sa li where f: "chronicle_of es = (sa, li)" by (metis prod.exhaust)
  have step: "(saved, live) = chronicle_step e (sa, li)" using snoc.prems f by (simp add: chronicle_of_def)
  note IH = snoc.IH [OF f]
  show ?case
    using IH step unfolding ever_counted_snoc f
    by (cases e) (auto simp: Let_def intro: list_emb_append_mono split: option.splits if_splits prod.splits)
qed (simp add: chronicle_of_def ever_counted_def)



section \<open>The observer\<close>

text \<open>
  Metrics are increments of named, labelled counters, observations of histograms, values of gauges
  (a duration in nanoseconds) and shifts of gauges.
\<close>

datatype metric =
    Metric string "string list" int
  | Observed string "string list" duration
  | Gauged string "string list" int
  | Shifted string int

fun skip_reason_name :: "skip_reason \<Rightarrow> string" where
  "skip_reason_name SkipNotOurs = ''remote origin''"
| "skip_reason_name SkipOutOfBand = ''out-of-band membership''"
| "skip_reason_name SkipNotProactive = ''proactively_send is false''"
| "skip_reason_name SkipRejected = ''rejected''"
| "skip_reason_name SkipNoPrevEvents = ''no prev events''"
| "skip_reason_name SkipNoDestinations = ''no remote destinations''"
| "skip_reason_name SkipUnserialisable = ''unserialisable''"

fun fallback_name :: "fallback_reason \<Rightarrow> string" where
  "fallback_name NoFallback = []"
| "fallback_name FallbackForkedDAG = ''forked dag''"
| "fallback_name FallbackNoStateGroup = ''prev event has no state group''"
| "fallback_name FallbackPartialState = ''partial state room''"

definition on_event_skipped :: "skip_reason \<Rightarrow> difflog option \<Rightarrow> metric list \<times> difflog option" where
  "on_event_skipped reason diff =
     ([Metric ''EventsProcessed'' [] 1, Metric ''EventsSkipped'' [skip_reason_name reason] 1],
      map_option (record_skip (skip_reason_name reason)) diff)"

definition on_event_routed ::
  "instant \<Rightarrow> string \<Rightarrow> string list \<Rightarrow> string list \<Rightarrow> fallback_reason \<Rightarrow> difflog option \<Rightarrow> metric list \<times> difflog option" where
  "on_event_routed now event all ours fb diff =
     (Metric ''EventsProcessed'' [] 1
        # (if ours \<noteq> [] then [Metric ''EventsRouted'' [] 1, Observed ''DestinationsPerEvent'' [] (int (length ours))] else [])
        @ (if fallback_name fb \<noteq> [] then [Metric ''ApproximateRoutes'' [fallback_name fb] 1] else []),
      map_option (\<lambda>w. fst (record_route now event all ours (fallback_name fb \<noteq> []) (fallback_name fb) w)) diff)"

definition count_transaction :: "int \<Rightarrow> int \<Rightarrow> int \<Rightarrow> difflog option \<Rightarrow> metric list \<times> difflog option" where
  "count_transaction pdus edus bytes diff =
     ([Metric ''Transactions'' [] 1, Metric ''TransactionPDUs'' [] pdus, Metric ''TransactionEDUs'' [] edus, Metric ''TransactionBytes'' [] bytes],
      map_option (record_transaction pdus edus) diff)"

definition on_stage :: "string \<Rightarrow> duration \<Rightarrow> metric list" where
  "on_stage stage took = Observed ''StageDuration'' [stage] took # (if stage = ''fanout'' then [Observed ''FanOutDuration'' [] took] else [])"

definition on_event_lag :: "int \<Rightarrow> instant \<Rightarrow> metric list" where
  "on_event_lag received_ts now =
     (if received_ts \<le> 0 then []
      else (let lag = now - received_ts * millisecond in if lag < 0 then [] else [Observed ''EventProcessingLag'' [] lag]))"

definition observe_edu_types :: "(string \<times> int) list \<Rightarrow> int \<Rightarrow> metric list" where
  "observe_edu_types by_type states =
     map (\<lambda>(ty, n). Metric ''TransactionEDUsByType'' [ty] n) by_type @ (if 0 < states then [Metric ''PresenceStatesSent'' [] states] else [])"

definition db_observer :: "string \<Rightarrow> string \<Rightarrow> duration \<Rightarrow> bool \<Rightarrow> metric list" where
  "db_observer pool query took ok =
     [Observed ''DBQueryDuration'' [pool, query] took, Metric ''DBQueries'' [pool, query, if ok then ''ok'' else ''error''] 1]"

definition observe_effect :: "instant \<Rightarrow> sender_effect \<Rightarrow> difflog option \<Rightarrow> metric list \<times> difflog option" where
  "observe_effect now e diff =
     (case e of
        EventSkipped _ reason \<Rightarrow> on_event_skipped reason diff
      | EventRouted event all ours fb \<Rightarrow> on_event_routed now event all ours fb diff
      | _ \<Rightarrow> ([], diff))"

fun effect_op :: "sender_effect \<Rightarrow> count_op option" where
  "effect_op (EventSkipped _ reason) = Some (CountSkip (skip_reason_name reason))"
| "effect_op (EventRouted event all ours fb) = Some (CountRoute event all ours (fallback_name fb \<noteq> []) (fallback_name fb))"
| "effect_op _ = None"

lemma observe_effect_counts:
  "map_option dl_totals (snd (observe_effect now e diff))
    = map_option (\<lambda>w. (case effect_op e of None \<Rightarrow> id | Some op \<Rightarrow> count_totals op) (dl_totals w)) diff"
  by (cases e; cases diff) (simp_all add: observe_effect_def on_event_skipped_def on_event_routed_def record_skip_def change_totals_def
      record_route_def Let_def)

text \<open>The rescinded-invite rule is never counted: no effect of the pipeline reaches \<open>RecordRescindedInvite\<close>.\<close>

theorem rescinded_never_counted:
  assumes "handle_event cfg env e = (effs, r)"
  shows "map_option (tt_rescinded \<circ> dl_totals) (fold (\<lambda>eff d. snd (observe_effect now eff d)) effs diff) = map_option (tt_rescinded \<circ> dl_totals) diff"
proof -
  have one: "map_option (tt_rescinded \<circ> dl_totals) (snd (observe_effect now eff d)) = map_option (tt_rescinded \<circ> dl_totals) d" for eff d
    by (cases eff; cases d) (auto simp: observe_effect_def on_event_skipped_def on_event_routed_def record_skip_def change_totals_def
      record_route_def count_route_def Let_def)
  show ?thesis by (induction effs arbitrary: diff) (simp_all add: one)
qed

section \<open>The collector\<close>

text \<open>What a scrape shows for a name (after the prefix) and its labels.\<close>

definition collected :: "totals \<Rightarrow> string \<Rightarrow> string list \<Rightarrow> counter option" where
  "collected t name labels =
     (if labels = [] then
        map_of [(''restarts_total'', tt_restarts t), (''events_examined_total'', tt_examined t), (''events_routed_total'', tt_routed t),
          (''destinations_resolved_total'', tt_resolved t), (''destinations_ours_total'', tt_ours t),
          (''rescinded_invites_total'', tt_rescinded t), (''transactions_total'', tt_transactions t), (''pdus_total'', tt_pdus t),
          (''edus_total'', tt_edus t)] name
      else if name = ''events_skipped_total'' then tt_skipped t (hd labels)
      else if name = ''approximate_routes_total'' then tt_approximate_by t (hd labels)
      else None)"

definition collected_since :: "totals \<Rightarrow> int" where
  "collected_since t = tt_since t div second"

end
