(* ===== verification/Startup.thy ===== *)
theory Startup
  imports Config Txn Difflog Manager
begin

text \<open>
  How the worker starts: \<open>internal/state/schema.go\<close> and \<open>state.Open\<close>, the pools of
  \<open>internal/store\<close>, and \<open>newWorker\<close>, \<open>checkReadOnly\<close> and \<open>close\<close> of
  \<open>cmd/gofederation-worker/main.go\<close>. A database is its catalogue of tables, schemas and indexes;
  whether a call succeeds is an answer of the world. Opening a pool is connecting and, for the two
  Synapse pools, a ping.
\<close>

section \<open>The state tables\<close>

record catalog =
  ct_schemas :: "string list"
  ct_tables :: "string list"
  ct_indexes :: "(string \<times> string) list"

datatype ddl_call =
    LookFor string
  | LookForSynapse
  | BeginTx
  | TakeLock
  | LookForSchema string
  | CreateSchema string
  | CreateTable string
  | CreateIndex string
  | CommitTx

datatype startup_error =
    CallFailed ddl_call
  | NoSynapseTables string
  | NoCursorTable
  | NoInstanceName
  | BadDSN
  | CannotConnect
  | CursorUnreadable
  | RoleUnknown
  | SettingUnknown
  | RoleCanWrite
  | WriteRoleReadOnly
  | NoShadowRecord
  | NoSigningKey
  | BadSigningKey
  | NoCapture

record state_tables =
  cfg_positions :: string
  cfg_routes :: string
  cfg_retry :: string

text \<open>The configured tables in order; an empty name is not wanted. Only the routes have an index.\<close>

definition wanted_tables :: "state_tables \<Rightarrow> (string \<times> bool) list" where
  "wanted_tables cfg = filter (\<lambda>(name, _). name \<noteq> []) [(cfg_positions cfg, False), (cfg_routes cfg, True), (cfg_retry cfg, False)]"

fun missing_tables :: "(ddl_call \<Rightarrow> bool) \<Rightarrow> catalog \<Rightarrow> (string \<times> bool) list \<Rightarrow> startup_error + (string \<times> bool) list" where
  "missing_tables ans cat [] = Inr []"
| "missing_tables ans cat ((name, ix) # ts) =
     (if \<not> ans (LookFor name) then Inl (CallFailed (LookFor name))
      else case missing_tables ans cat ts of
        Inl e \<Rightarrow> Inl e
      | Inr ms \<Rightarrow> Inr (if name \<in> set (ct_tables cat) then ms else (name, ix) # ms))"

definition index_name :: "string \<Rightarrow> string" where
  "index_name name = map (\<lambda>c. if c = CHR ''.'' then CHR ''_'' else c) name @ ''_ordering''"

text \<open>One missing table inside the transaction: its schema, the table, its index.\<close>

definition create_schema :: "(ddl_call \<Rightarrow> bool) \<Rightarrow> string \<Rightarrow> catalog \<Rightarrow> startup_error + catalog" where
  "create_schema ans name cat =
     (case strings_cut (CHR ''.'') name of (schema, _, ok) \<Rightarrow>
        if \<not> ok then Inr cat
        else if \<not> ans (LookForSchema schema) then Inl (CallFailed (LookForSchema schema))
        else if schema \<in> set (ct_schemas cat) then Inr cat
        else if \<not> ans (CreateSchema schema) then Inl (CallFailed (CreateSchema schema))
        else Inr (cat\<lparr>ct_schemas := schema # ct_schemas cat\<rparr>))"

definition create_table :: "(ddl_call \<Rightarrow> bool) \<Rightarrow> string \<times> bool \<Rightarrow> catalog \<Rightarrow> startup_error + catalog" where
  "create_table ans t cat =
     (case t of (name, ix) \<Rightarrow>
        if \<not> ans (CreateTable name) then Inl (CallFailed (CreateTable name))
        else (let cat1 = (if name \<in> set (ct_tables cat) then cat else cat\<lparr>ct_tables := name # ct_tables cat\<rparr>)
              in if \<not> ix then Inr cat1
                 else if \<not> ans (CreateIndex name) then Inl (CallFailed (CreateIndex name))
                 else Inr (if index_name name \<in> fst ` set (ct_indexes cat1) then cat1
                           else cat1\<lparr>ct_indexes := (index_name name, name) # ct_indexes cat1\<rparr>)))"

fun create_tables :: "(ddl_call \<Rightarrow> bool) \<Rightarrow> (string \<times> bool) list \<Rightarrow> catalog \<Rightarrow> startup_error + catalog" where
  "create_tables ans [] cat = Inr cat"
| "create_tables ans (t # ts) cat =
     (case create_schema ans (fst t) cat of
        Inl e \<Rightarrow> Inl e
      | Inr cat1 \<Rightarrow> (case create_table ans t cat1 of Inl e \<Rightarrow> Inl e | Inr cat2 \<Rightarrow> create_tables ans ts cat2))"

abbreviation synapse_tables :: "string list" where
  "synapse_tables \<equiv> [''destination_rooms'', ''federation_stream_position'']"

text \<open>
  \<open>ensureTables\<close>. \<open>others\<close> is what other sessions commit between the look and the lock. A
  transaction that does not commit changes nothing.
\<close>

definition ensure_tables ::
  "(ddl_call \<Rightarrow> bool) \<Rightarrow> (catalog \<Rightarrow> catalog) \<Rightarrow> state_tables \<Rightarrow> catalog \<Rightarrow> catalog \<times> (startup_error + string list)" where
  "ensure_tables ans others cfg cat =
     (case missing_tables ans cat (wanted_tables cfg) of
        Inl e \<Rightarrow> (cat, Inl e)
      | Inr [] \<Rightarrow> (cat, Inr [])
      | Inr (m # ms) \<Rightarrow>
          if \<not> ans LookForSynapse then (cat, Inl (CallFailed LookForSynapse))
          else if \<not> set synapse_tables \<subseteq> set (ct_tables cat) then (cat, Inl (NoSynapseTables (fst m)))
          else if \<not> ans BeginTx then (cat, Inl (CallFailed BeginTx))
          else if \<not> ans TakeLock then (cat, Inl (CallFailed TakeLock))
          else (case create_tables ans (m # ms) (others cat) of
                  Inl e \<Rightarrow> (others cat, Inl e)
                | Inr cat' \<Rightarrow> if ans CommitTx then (cat', Inr (map fst (m # ms))) else (others cat, Inl (CallFailed CommitTx))))"

text \<open>\<open>state.Open\<close>.\<close>

record pool_world =
  pw_dsn_parses :: bool
  pw_connects :: bool
  pw_pings :: bool

definition open_pool :: "pool_world \<Rightarrow> startup_error option" where
  "open_pool w = (if \<not> pw_dsn_parses w then Some BadDSN else if \<not> pw_connects w \<or> \<not> pw_pings w then Some CannotConnect else None)"

definition open_state ::
  "pool_world \<Rightarrow> (ddl_call \<Rightarrow> bool) \<Rightarrow> (catalog \<Rightarrow> catalog) \<Rightarrow> bool \<Rightarrow> state_tables \<Rightarrow> string \<Rightarrow> catalog \<Rightarrow> catalog \<times> (startup_error + string list)" where
  "open_state pool ans others cursor_readable cfg inst cat =
     (if cfg_positions cfg = [] then (cat, Inl NoCursorTable)
      else if inst = [] then (cat, Inl NoInstanceName)
      else if \<not> pw_dsn_parses pool then (cat, Inl BadDSN)
      else if \<not> pw_connects pool then (cat, Inl CannotConnect)
      else case ensure_tables ans others cfg cat of
        (cat', Inl e) \<Rightarrow> (cat', Inl e)
      | (cat', Inr created) \<Rightarrow> if cursor_readable then (cat', Inr created) else (cat', Inl CursorUnreadable))"

text \<open>\<open>IsReadOnly\<close> and \<open>CanWrite\<close> read the setting; \<open>None\<close> is a query that failed.\<close>

definition is_read_only :: "string option \<Rightarrow> bool option" where
  "is_read_only setting = map_option (\<lambda>s. s = ''on'') setting"

definition can_write :: "string option \<Rightarrow> startup_error option" where
  "can_write setting = (case setting of None \<Rightarrow> Some SettingUnknown | Some s \<Rightarrow> if s = ''on'' then Some WriteRoleReadOnly else None)"

definition check_read_only :: "bool \<Rightarrow> string option \<Rightarrow> string option \<Rightarrow> startup_error option" where
  "check_read_only require role setting =
     (if role = None then Some RoleUnknown
      else case is_read_only setting of
        None \<Rightarrow> Some SettingUnknown
      | Some True \<Rightarrow> None
      | Some False \<Rightarrow> if require then Some RoleCanWrite else None)"

section \<open>Building the worker\<close>

datatype held = SynapsePool | WritePool | StatePool | ShadowRecord | CaptureFile

record startup_world =
  sw_synapse :: pool_world
  sw_role :: "string option"
  sw_setting :: "string option"
  sw_writer :: pool_world
  sw_write_setting :: "string option"
  sw_state :: pool_world
  sw_ddl :: "ddl_call \<Rightarrow> bool"
  sw_others :: "catalog \<Rightarrow> catalog"
  sw_cursor_readable :: bool
  sw_record_opens :: bool
  sw_record_flushes :: bool
  sw_key_parses :: "string \<Rightarrow> bool"
  sw_capture_opens :: bool

text \<open>
  \<open>newWorker\<close> as its stages in order: what has been opened so far, and the error of the stage, if
  any. A pool whose check fails is open already, and so is a shadow record whose first flush fails.
\<close>

definition state_tables_of :: "resolved \<Rightarrow> state_tables" where
  "state_tables_of r = (let s = wc_state (re_config r) in
     \<lparr>cfg_positions = stc_table s, cfg_routes = stc_routes_table s, cfg_retry = stc_retry_table s\<rparr>)"

definition signing_key_line :: "server_signing_key \<Rightarrow> string" where
  "signing_key_line k = sk_algorithm k @ '' '' @ sk_version k @ '' '' @ encode_seed (sk_seed k)"

type_synonym stage = "held option \<times> startup_error option"

definition startup_stages :: "startup_world \<Rightarrow> resolved \<Rightarrow> startup_error + string list \<Rightarrow> stage list" where
  "startup_stages w r state =
     (let c = re_config r; step = (\<lambda>h e. if e = None then (Some h, None) else (None, e))
      in [step SynapsePool (open_pool (sw_synapse w)),
          (None, check_read_only (dc_require_read_only (wc_database c)) (sw_role w) (sw_setting w))]
         @ (if wc_mode c = mode_primary then [step WritePool (open_pool (sw_writer w)), (None, can_write (sw_write_setting w))] else [])
         @ [step StatePool (case state of Inl e \<Rightarrow> Some e | Inr _ \<Rightarrow> None)]
         @ (if shadow_enabled c then [if \<not> sw_record_opens w then (None, Some NoShadowRecord)
              else (Some ShadowRecord, if sw_record_flushes w then None else Some NoShadowRecord)] else [])
         @ [(None, case config_signing_key (re_synapse r) of None \<Rightarrow> Some NoSigningKey
                   | Some k \<Rightarrow> if sw_key_parses w (signing_key_line k) then None else Some BadSigningKey)]
         @ (if sh_capture_destinations (wc_shadow c) \<noteq> [] then [step CaptureFile (if sw_capture_opens w then None else Some NoCapture)] else []))"

fun run_stages :: "stage list \<Rightarrow> held list \<Rightarrow> held list \<times> startup_error option" where
  "run_stages [] opened = (opened, None)"
| "run_stages ((h, None) # ss) opened = run_stages ss (case h of None \<Rightarrow> opened | Some x \<Rightarrow> x # opened)"
| "run_stages ((h, Some e) # ss) opened = (case h of None \<Rightarrow> opened | Some x \<Rightarrow> x # opened, Some e)"

text \<open>\<open>close\<close>, in its order.\<close>

definition close_worker :: "held list \<Rightarrow> held list" where
  "close_worker opened = filter (\<lambda>h. h \<in> set opened) [ShadowRecord, CaptureFile, StatePool, WritePool, SynapsePool]"

text \<open>
  The tables after the state store was opened, what was opened, what was closed again, and the
  error. The state store is not reached when an earlier stage fails.
\<close>

record startup_result =
  su_catalog :: catalog
  su_opened :: "held list"
  su_closed :: "held list"
  su_error :: "startup_error option"

definition early_stages :: "startup_world \<Rightarrow> resolved \<Rightarrow> stage list" where
  "early_stages w r = takeWhile (\<lambda>(h, e). h \<noteq> Some StatePool) (startup_stages w r (Inr []))"

definition new_worker :: "startup_world \<Rightarrow> resolved \<Rightarrow> catalog \<Rightarrow> startup_result" where
  "new_worker w r cat =
     (case run_stages (early_stages w r) [] of
        (opened, Some e) \<Rightarrow> \<lparr>su_catalog = cat, su_opened = opened, su_closed = close_worker opened, su_error = Some e\<rparr>
      | (_, None) \<Rightarrow>
          (case open_state (sw_state w) (sw_ddl w) (sw_others w) (sw_cursor_readable w) (state_tables_of r) (re_worker_name r) cat of
             (cat', state) \<Rightarrow>
               (case run_stages (startup_stages w r state) [] of
                  (opened, e) \<Rightarrow> \<lparr>su_catalog = cat', su_opened = opened, su_closed = (if e = None then [] else close_worker opened), su_error = e\<rparr>)))"

section \<open>Starting\<close>

lemma missing_tables_eq: "missing_tables ans cat ts = Inr ms \<Longrightarrow> ms = filter (\<lambda>t. fst t \<notin> set (ct_tables cat)) ts"
  by (induction ans cat ts arbitrary: ms rule: missing_tables.induct) (auto split: if_splits sum.splits)

lemma create_schema_tables: "create_schema ans name cat = Inr cat' \<Longrightarrow> ct_tables cat' = ct_tables cat \<and> ct_indexes cat' = ct_indexes cat"
  by (auto simp: create_schema_def split: prod.splits if_splits)

lemma create_table_tables:
  "create_table ans (name, ix) cat = Inr cat' \<Longrightarrow> set (ct_tables cat') = insert name (set (ct_tables cat))
     \<and> fst ` set (ct_indexes cat) \<subseteq> fst ` set (ct_indexes cat') \<and> (ix \<longrightarrow> index_name name \<in> fst ` set (ct_indexes cat'))"
  by (auto simp: create_table_def Let_def split: if_splits)

lemma create_tables_tables:
  "create_tables ans ts cat = Inr cat' \<Longrightarrow> set (ct_tables cat') = set (ct_tables cat) \<union> fst ` set ts
     \<and> fst ` set (ct_indexes cat) \<subseteq> fst ` set (ct_indexes cat') \<and> (\<forall>(name, ix) \<in> set ts. ix \<longrightarrow> index_name name \<in> fst ` set (ct_indexes cat'))"
proof (induction ts arbitrary: cat)
  case (Cons t ts)
  obtain name ix where t: "t = (name, ix)" by (cases t)
  obtain cat1 where 1: "create_schema ans name cat = Inr cat1" using Cons.prems t by (auto split: sum.splits)
  obtain cat2 where 2: "create_table ans t cat1 = Inr cat2" "create_tables ans ts cat2 = Inr cat'"
    using Cons.prems t 1 by (auto split: sum.splits)
  show ?case using Cons.IH [OF 2(2)] create_table_tables [OF 2(1) [unfolded t]] create_schema_tables [OF 1] t by (auto 0 3)
qed simp

text \<open>Either every wanted table is there and nothing else was made, or nothing was made at all.\<close>

lemma ensure_tables_cases:
  assumes "ensure_tables ans others cfg cat = (cat', res)"
    and "\<And>c. set (ct_tables c) \<subseteq> set (ct_tables (others c))"
  shows "case res of
      Inl e \<Rightarrow> cat' = cat \<or> cat' = others cat
    | Inr created \<Rightarrow> fst ` set (wanted_tables cfg) \<subseteq> set (ct_tables cat')
        \<and> (created = [] \<and> cat' = cat
           \<or> created \<noteq> [] \<and> set synapse_tables \<subseteq> set (ct_tables cat) \<and> set (ct_tables cat') = set (ct_tables (others cat)) \<union> set created
             \<and> set created \<subseteq> fst ` set (wanted_tables cfg) - set (ct_tables cat)
             \<and> (cfg_routes cfg \<in> set created \<longrightarrow> cfg_routes cfg \<notin> {cfg_positions cfg, cfg_retry cfg} \<longrightarrow>
                  index_name (cfg_routes cfg) \<in> fst ` set (ct_indexes cat')))"
proof (cases "missing_tables ans cat (wanted_tables cfg)")
  case (Inl e)
  then show ?thesis using assms(1) by (auto simp: ensure_tables_def)
next
  case (Inr ms)
  note ms = missing_tables_eq [OF Inr]
  show ?thesis
  proof (cases ms)
    case Nil
    then have "fst ` set (wanted_tables cfg) \<subseteq> set (ct_tables cat)" using ms by (auto simp: filter_empty_conv)
    then show ?thesis using assms(1) Inr Nil by (auto simp: ensure_tables_def)
  next
    case (Cons m rest)
    show ?thesis
    proof (cases res)
      case (Inl e)
      then show ?thesis using assms(1) Inr Cons by (auto simp: ensure_tables_def split: if_splits sum.splits)
    next
      case (Inr created)
      have c: "created = map fst ms" "set synapse_tables \<subseteq> set (ct_tables cat)" "create_tables ans ms (others cat) = Inr cat'"
        using assms(1) \<open>missing_tables ans cat _ = Inr ms\<close> Cons Inr by (auto simp: ensure_tables_def split: if_splits sum.splits)
      note made = create_tables_tables [OF c(3)]
      have sub: "fst ` set ms \<subseteq> fst ` set (wanted_tables cfg) - set (ct_tables cat)" unfolding ms by auto
      have all: "fst ` set (wanted_tables cfg) \<subseteq> set (ct_tables cat')"
        using made assms(2) [of cat] unfolding ms by auto
      have ix: "index_name (cfg_routes cfg) \<in> fst ` set (ct_indexes cat')"
        if "cfg_routes cfg \<in> set created" "cfg_routes cfg \<notin> {cfg_positions cfg, cfg_retry cfg}"
      proof -
        have "(cfg_routes cfg, True) \<in> set ms" using that unfolding c(1) ms wanted_tables_def by auto
        then show ?thesis using made by auto
      qed
      show ?thesis using Inr c made sub all ix Cons by auto
    qed
  qed
qed

lemma run_stages_None:
  "run_stages ss opened = (opened', None) \<longleftrightarrow> (\<forall>(h, e) \<in> set ss. e = None) \<and> opened' = rev (List.map_filter fst ss) @ opened"
  by (induction ss opened rule: run_stages.induct) (auto simp: List.map_filter_simps split: option.splits)

lemma run_stages_opened: "set (fst (run_stages ss opened)) \<subseteq> set opened \<union> {h. \<exists>e. (Some h, e) \<in> set ss}"
proof (induction ss opened rule: run_stages.induct)
  case (2 h ss opened)
  then show ?case by (cases h) auto
next
  case (3 h e ss opened)
  then show ?case by (cases h) auto
qed simp

lemma close_worker_all: "set (close_worker opened) = set opened" "distinct (close_worker opened)"
proof -
  have "h \<in> set (close_worker opened) \<longleftrightarrow> h \<in> set opened" for h
    by (cases h) (simp_all add: close_worker_def)
  then show "set (close_worker opened) = set opened" by blast
qed (simp add: close_worker_def)

lemma startup_stages_held: "(Some WritePool, e) \<in> set (startup_stages w r state) \<Longrightarrow> wc_mode (re_config r) = mode_primary"
  by (auto simp: startup_stages_def Let_def split: if_splits)

lemma map_filter_append: "List.map_filter f (xs @ ys) = List.map_filter f xs @ List.map_filter f ys"
  by (simp add: List.map_filter_def)

lemma startup_stages_ok:
  assumes "\<forall>(h, e) \<in> set (startup_stages w r state). e = None"
  shows "set (List.map_filter fst (startup_stages w r state))
      = {SynapsePool, StatePool} \<union> (if wc_mode (re_config r) = mode_primary then {WritePool} else {})
        \<union> (if shadow_enabled (re_config r) then {ShadowRecord} else {})
        \<union> (if sh_capture_destinations (wc_shadow (re_config r)) \<noteq> [] then {CaptureFile} else {})"
    "\<exists>created. state = Inr created"
    "check_read_only (dc_require_read_only (wc_database (re_config r))) (sw_role w) (sw_setting w) = None"
    "wc_mode (re_config r) = mode_primary \<Longrightarrow> can_write (sw_write_setting w) = None"
    "config_signing_key (re_synapse r) \<noteq> None"
proof -
  have all: "e = None" if "(h, e) \<in> set (startup_stages w r state)" for h e using assms that by auto
  show st: "\<exists>created. state = Inr created"
  proof (cases state)
    case (Inl e)
    then have "(None, Some e) \<in> set (startup_stages w r state)" by (simp add: startup_stages_def Let_def)
    then show ?thesis using all by blast
  qed simp
  show "check_read_only (dc_require_read_only (wc_database (re_config r))) (sw_role w) (sw_setting w) = None"
    by (rule all [of None]) (simp add: startup_stages_def Let_def)
  show "can_write (sw_write_setting w) = None" if "wc_mode (re_config r) = mode_primary"
    using that by (intro all [of None]) (simp add: startup_stages_def Let_def)
  show "config_signing_key (re_synapse r) \<noteq> None"
    using all [of None "case config_signing_key (re_synapse r) of None \<Rightarrow> Some NoSigningKey
        | Some k \<Rightarrow> if sw_key_parses w (signing_key_line k) then None else Some BadSigningKey"]
    by (auto simp: startup_stages_def Let_def split: option.splits)
  have e: "open_pool (sw_synapse w) = None" "wc_mode (re_config r) = mode_primary \<Longrightarrow> open_pool (sw_writer w) = None"
    "shadow_enabled (re_config r) \<Longrightarrow> sw_record_opens w" "sh_capture_destinations (wc_shadow (re_config r)) \<noteq> [] \<Longrightarrow> sw_capture_opens w"
    using assms by (auto simp: startup_stages_def Let_def split: if_splits)
  show "set (List.map_filter fst (startup_stages w r state))
      = {SynapsePool, StatePool} \<union> (if wc_mode (re_config r) = mode_primary then {WritePool} else {})
        \<union> (if shadow_enabled (re_config r) then {ShadowRecord} else {})
        \<union> (if sh_capture_destinations (wc_shadow (re_config r)) \<noteq> [] then {CaptureFile} else {})"
    using e st by (auto simp: startup_stages_def Let_def List.map_filter_simps map_filter_append)
qed

text \<open>
  C34. The worker starts completely or leaves nothing behind. When a stage fails, everything opened
  before it is closed again, once; the state tables are either all there, or exactly as other
  sessions left them; they are only ever made beside Synapse's own. When it starts, what is open
  is what the mode calls for: the pool that can write to Synapse's tables in primary mode only
  and never with a read-only role, the shadow record while shadowing; a required read-only role is
  one; and there is a key to sign with.
\<close>

theorem startup_all_or_nothing:
  assumes "new_worker w r cat = res" "\<And>c. set (ct_tables c) \<subseteq> set (ct_tables (sw_others w c))"
  shows "set (su_closed res) = (if su_error res = None then {} else set (su_opened res)) \<and> distinct (su_closed res)
    \<and> (WritePool \<in> set (su_opened res) \<longrightarrow> wc_mode (re_config r) = mode_primary)
    \<and> (su_catalog res = cat \<or> su_catalog res = sw_others w cat
       \<or> set synapse_tables \<subseteq> set (ct_tables cat) \<and> fst ` set (wanted_tables (state_tables_of r)) \<subseteq> set (ct_tables (su_catalog res))
         \<and> set (ct_tables (su_catalog res)) \<subseteq> set (ct_tables (sw_others w cat)) \<union> fst ` set (wanted_tables (state_tables_of r)))
    \<and> (su_error res = None \<longrightarrow>
         set (su_opened res) = {SynapsePool, StatePool} \<union> (if wc_mode (re_config r) = mode_primary then {WritePool} else {})
           \<union> (if shadow_enabled (re_config r) then {ShadowRecord} else {})
           \<union> (if sh_capture_destinations (wc_shadow (re_config r)) \<noteq> [] then {CaptureFile} else {})
         \<and> fst ` set (wanted_tables (state_tables_of r)) \<subseteq> set (ct_tables (su_catalog res))
         \<and> (dc_require_read_only (wc_database (re_config r)) \<longrightarrow> sw_setting w = Some ''on'')
         \<and> (wc_mode (re_config r) = mode_primary \<longrightarrow> (\<exists>s. sw_write_setting w = Some s \<and> s \<noteq> ''on''))
         \<and> config_signing_key (re_synapse r) \<noteq> None)"
proof -
  obtain opened0 e0 where early: "run_stages (early_stages w r) [] = (opened0, e0)" by (metis prod.exhaust)
  have sub: "set (early_stages w r) \<subseteq> set (startup_stages w r (Inr []))" by (auto simp: early_stages_def dest: set_takeWhileD)
  show ?thesis
  proof (cases e0)
    case (Some e)
    have "WritePool \<in> set opened0 \<Longrightarrow> wc_mode (re_config r) = mode_primary"
      using run_stages_opened [of "early_stages w r" "[]"] early sub startup_stages_held by fastforce
    moreover have "res = \<lparr>su_catalog = cat, su_opened = opened0, su_closed = close_worker opened0, su_error = Some e\<rparr>"
      using assms(1) early Some by (simp add: new_worker_def)
    ultimately show ?thesis using close_worker_all [of opened0] by simp
  next
    case None
    obtain cat' state where st: "open_state (sw_state w) (sw_ddl w) (sw_others w) (sw_cursor_readable w) (state_tables_of r) (re_worker_name r) cat = (cat', state)"
      by (metis prod.exhaust)
    obtain opened e where run: "run_stages (startup_stages w r state) [] = (opened, e)" by (metis prod.exhaust)
    have res: "res = \<lparr>su_catalog = cat', su_opened = opened, su_closed = (if e = None then [] else close_worker opened), su_error = e\<rparr>"
      using assms(1) early None st run by (simp add: new_worker_def)
    have wp: "WritePool \<in> set opened \<Longrightarrow> wc_mode (re_config r) = mode_primary"
      using run_stages_opened [of "startup_stages w r state" "[]"] run startup_stages_held by fastforce
    have wp': "WritePool \<in> set (su_opened res) \<longrightarrow> wc_mode (re_config r) = mode_primary" using wp res by simp
    obtain cat1 t where en: "ensure_tables (sw_ddl w) (sw_others w) (state_tables_of r) cat = (cat1, t)" by (metis prod.exhaust)
    have cat': "cat' = cat \<and> (\<exists>e. state = Inl e) \<or> cat' = cat1 \<and> (\<forall>c. state = Inr c \<longrightarrow> t = Inr c)"
      using st en by (auto simp: open_state_def split: if_splits sum.splits)
    note T = ensure_tables_cases [OF en assms(2)]
    have catalog: "su_catalog res = cat \<or> su_catalog res = sw_others w cat
       \<or> set synapse_tables \<subseteq> set (ct_tables cat) \<and> fst ` set (wanted_tables (state_tables_of r)) \<subseteq> set (ct_tables (su_catalog res))
         \<and> set (ct_tables (su_catalog res)) \<subseteq> set (ct_tables (sw_others w cat)) \<union> fst ` set (wanted_tables (state_tables_of r))"
      using T cat' res by (cases t) auto
    have ok: ?thesis if "e = None"
    proof -
      have all: "\<forall>(h, e) \<in> set (startup_stages w r state). e = None" "opened = rev (List.map_filter fst (startup_stages w r state))"
        using run that run_stages_None [of "startup_stages w r state" "[]" opened] by auto
      note S = startup_stages_ok [OF all(1)]
      obtain created where "state = Inr created" using S(2) by blast
      then have "t = Inr created" "cat' = cat1" using cat' by auto
      then have "fst ` set (wanted_tables (state_tables_of r)) \<subseteq> set (ct_tables (su_catalog res))" using T res by simp
      moreover have "dc_require_read_only (wc_database (re_config r)) \<longrightarrow> sw_setting w = Some ''on''"
        using S(3) by (auto simp: check_read_only_def is_read_only_def split: option.splits if_splits bool.splits)
      moreover have "wc_mode (re_config r) = mode_primary \<longrightarrow> (\<exists>s. sw_write_setting w = Some s \<and> s \<noteq> ''on'')"
        using S(4) by (auto simp: can_write_def split: option.splits if_splits)
      moreover have "su_error res = None" "su_closed res = []" "su_opened res = opened" using res that by simp_all
      moreover have "set (su_opened res) = {SynapsePool, StatePool} \<union> (if wc_mode (re_config r) = mode_primary then {WritePool} else {})
           \<union> (if shadow_enabled (re_config r) then {ShadowRecord} else {})
           \<union> (if sh_capture_destinations (wc_shadow (re_config r)) \<noteq> [] then {CaptureFile} else {})"
        using S(1) all(2) res by simp
      ultimately have started: "su_error res = None \<longrightarrow> set (su_opened res) = {SynapsePool, StatePool} \<union> (if wc_mode (re_config r) = mode_primary then {WritePool} else {})
           \<union> (if shadow_enabled (re_config r) then {ShadowRecord} else {})
           \<union> (if sh_capture_destinations (wc_shadow (re_config r)) \<noteq> [] then {CaptureFile} else {})
         \<and> fst ` set (wanted_tables (state_tables_of r)) \<subseteq> set (ct_tables (su_catalog res))
         \<and> (dc_require_read_only (wc_database (re_config r)) \<longrightarrow> sw_setting w = Some ''on'')
         \<and> (wc_mode (re_config r) = mode_primary \<longrightarrow> (\<exists>s. sw_write_setting w = Some s \<and> s \<noteq> ''on''))
         \<and> config_signing_key (re_synapse r) \<noteq> None"
        using S(5) by simp
      have closed: "set (su_closed res) = (if su_error res = None then {} else set (su_opened res))" "distinct (su_closed res)"
        using res that by simp_all
      show ?thesis by (intro conjI closed catalog wp' started)
    qed
    show ?thesis
    proof (cases "e = None")
      case False
      have failed: "su_error res \<noteq> None" "su_closed res = close_worker opened" "su_opened res = opened" using res False by simp_all
      have closed: "set (su_closed res) = (if su_error res = None then {} else set (su_opened res))" "distinct (su_closed res)"
        using failed close_worker_all [of opened] by auto
      show ?thesis by (intro conjI closed catalog wp') (use failed(1) in blast)
    qed (rule ok)
  qed
qed

text \<open>The sample shadow on a fresh Synapse database, and on one where the capture cannot be made.\<close>

definition fine_pool :: pool_world where
  "fine_pool = \<lparr>pw_dsn_parses = True, pw_connects = True, pw_pings = True\<rparr>"

definition fine_start :: startup_world where
  "fine_start = \<lparr>sw_synapse = fine_pool, sw_role = Some ''reader'', sw_setting = Some ''on'', sw_writer = fine_pool,
     sw_write_setting = Some ''off'', sw_state = fine_pool, sw_ddl = (\<lambda>_. True), sw_others = (\<lambda>c. c), sw_cursor_readable = True,
     sw_record_opens = True, sw_record_flushes = True, sw_key_parses = (\<lambda>_. True), sw_capture_opens = True\<rparr>"

definition fresh_synapse :: catalog where
  "fresh_synapse = \<lparr>ct_schemas = [''public''], ct_tables = synapse_tables, ct_indexes = []\<rparr>"

theorem startup_all_or_nothing_witness:
  "\<exists>r. resolve_config sample_config sample_synapse_config = Inr r
     \<and> su_error (new_worker fine_start r fresh_synapse) = None
     \<and> set (su_opened (new_worker fine_start r fresh_synapse)) = {SynapsePool, StatePool, ShadowRecord}
     \<and> ''gofederation.stream_positions'' \<in> set (ct_tables (su_catalog (new_worker fine_start r fresh_synapse)))
     \<and> su_closed (new_worker (fine_start\<lparr>sw_record_flushes := False\<rparr>) r fresh_synapse) = [ShadowRecord, StatePool, SynapsePool]"
proof -
  obtain r where r: "resolve_config sample_config sample_synapse_config = Inr r" by (simp add: sample_config_eval)
  have c: "re_config r = sample_config" "re_synapse r = sample_synapse_config" "re_worker_name r = ''w''"
    using r by (auto simp: sample_config_eval split: if_splits)
  have e: "wc_mode sample_config = mode_shadow" "shadow_enabled sample_config" "sh_capture_destinations (wc_shadow sample_config) = []"
    "\<not> dc_require_read_only (wc_database sample_config)" "config_signing_key sample_synapse_config \<noteq> None"
    by (simp_all add: sample_config_eval config_signing_key_def)
  have t: "state_tables_of r = \<lparr>cfg_positions = ''gofederation.stream_positions'', cfg_routes = ''gofederation.destination_rooms'', cfg_retry = ''gofederation.destination_retry''\<rparr>"
    by (simp add: state_tables_of_def c sample_config_def default_config_def Let_def)
  obtain cat' created where o: "\<And>w :: startup_world. sw_state w = fine_pool \<Longrightarrow> sw_ddl w = (\<lambda>_. True) \<Longrightarrow> sw_others w = (\<lambda>c. c) \<Longrightarrow> sw_cursor_readable w \<Longrightarrow>
      open_state (sw_state w) (sw_ddl w) (sw_others w) (sw_cursor_readable w) (state_tables_of r) (re_worker_name r) fresh_synapse = (cat', Inr created)"
    by (auto simp: open_state_def t c fine_pool_def ensure_tables_def wanted_tables_def fresh_synapse_def create_schema_def create_table_def strings_cut_def Let_def)
  obtain key where key: "config_signing_key sample_synapse_config = Some key" using e(5) by blast
  have early: "run_stages (early_stages w r) [] = ([SynapsePool], None)" if "w = fine_start \<or> w = fine_start\<lparr>sw_record_flushes := False\<rparr>" for w
    using that by (auto simp: early_stages_def startup_stages_def Let_def c e key fine_start_def fine_pool_def open_pool_def
        check_read_only_def is_read_only_def)
  have ok: "su_error (new_worker fine_start r fresh_synapse) = None"
    using o [of fine_start] early [of fine_start]
    by (simp add: new_worker_def startup_stages_def Let_def c e key) (simp add: fine_start_def fine_pool_def open_pool_def check_read_only_def is_read_only_def)
  have closed: "su_closed (new_worker (fine_start\<lparr>sw_record_flushes := False\<rparr>) r fresh_synapse) = [ShadowRecord, StatePool, SynapsePool]"
    using o [of "fine_start\<lparr>sw_record_flushes := False\<rparr>"] early [of "fine_start\<lparr>sw_record_flushes := False\<rparr>"]
    by (simp add: new_worker_def startup_stages_def Let_def c e key)
      (simp add: fine_start_def fine_pool_def open_pool_def check_read_only_def is_read_only_def close_worker_def)
  have "set (ct_tables c) \<subseteq> set (ct_tables (sw_others fine_start c))" for c by (simp add: fine_start_def)
  note S = startup_all_or_nothing [OF refl this, of r fresh_synapse]
  have "set (su_opened (new_worker fine_start r fresh_synapse)) = {SynapsePool, StatePool, ShadowRecord}"
    using S ok by (simp add: c e insert_commute)
  moreover have "''gofederation.stream_positions'' \<in> set (ct_tables (su_catalog (new_worker fine_start r fresh_synapse)))"
    using S ok by (simp add: t wanted_tables_def)
  ultimately show ?thesis using r ok closed by blast
qed

section \<open>What the configuration sets, and the command\<close>

definition worker_manager :: "resolved \<Rightarrow> manager" where
  "worker_manager r =
     (let q = wc_queue (re_config r)
      in new_manager \<lparr>max_pdus = qc_max_pdus q, max_edus = qc_max_edus q\<rparr>
           \<lparr>max_states = qc_presence_states q, max_wait = presence_batch_max_wait (re_config r)\<rparr> (qc_max_concurrent q))"

definition worker_limiter :: "resolved \<Rightarrow> loader \<Rightarrow> limiter" where
  "worker_limiter r load = new_limiter (sc_retry (re_synapse r)) (Some load) True"

definition worker_ids :: "instant \<Rightarrow> resolved \<Rightarrow> id_generator" where
  "worker_ids now r = new_id_generator now (transaction_id_prefix (re_config r))"

definition worker_long_backoff :: "limiter \<Rightarrow> string \<Rightarrow> bool" where
  "worker_long_backoff l d \<longleftrightarrow> hour < wrap64 (retry_interval (state_of l d) * millisecond)"

datatype command_result =
    ConfigRefused config_error
  | Probed bool
  | SettingsRefused settings_error
  | NotResolved config_error
  | NotStarted startup_result
  | Checked startup_result "held list"
  | Running startup_result

text \<open>
  The address the health check asks; an empty one is nothing to probe. The answer is \<open>None\<close> when
  nobody answers.
\<close>

definition probe_address :: "string \<Rightarrow> string" where
  "probe_address addr = ''http://'' @ (if has_prefix addr '':'' then ''127.0.0.1'' @ addr else addr) @ ''/healthz''"

definition probe :: "(string \<Rightarrow> int option) \<Rightarrow> worker_config \<Rightarrow> bool" where
  "probe ask c = (if wc_metrics_addr c = [] then True else ask (probe_address (wc_metrics_addr c)) = Some 200)"

text \<open>\<open>run\<close>: \<open>settings\<close> reads homeserver.yaml given its path and the override of the key's path.\<close>

definition run_command ::
  "(string \<Rightarrow> worker_config \<Rightarrow> worker_config option) \<Rightarrow> string option \<Rightarrow> (string \<Rightarrow> string \<Rightarrow> settings_error + synapse_config) \<Rightarrow> (string \<Rightarrow> int option)
     \<Rightarrow> startup_world \<Rightarrow> catalog \<Rightarrow> bool \<Rightarrow> bool \<Rightarrow> command_result" where
  "run_command decode doc settings ask w cat check healthcheck =
     (case (case doc of None \<Rightarrow> Inl BadDocument | Some bytes \<Rightarrow> parse_config decode bytes) of
        Inl e \<Rightarrow> ConfigRefused e
      | Inr c \<Rightarrow>
          if healthcheck then Probed (probe ask c)
          else (case settings (wc_synapse_config c) (wc_signing_key_path c) of
            Inl e \<Rightarrow> SettingsRefused e
          | Inr s \<Rightarrow>
              (case resolve_config c s of
                 Inl e \<Rightarrow> NotResolved e
               | Inr r \<Rightarrow>
                   (let res = new_worker w r cat
                    in if su_error res \<noteq> None then NotStarted res
                       else if check then Checked res (close_worker (su_opened res)) else Running res))))"

lemma run_command_running:
  assumes "run_command decode doc settings ask w cat check healthcheck = Running res"
  obtains bytes c s r where "doc = Some bytes" "parse_config decode bytes = Inr c" "settings (wc_synapse_config c) (wc_signing_key_path c) = Inr s"
    "resolve_config c s = Inr r" "res = new_worker w r cat" "su_error res = None" "\<not> check" "\<not> healthcheck"
  using assms by (auto simp: run_command_def Let_def split: option.splits sum.splits if_splits)

end
