(* ===== verification/DeviceQueries.thy ===== *)
theory DeviceQueries
  imports Devices "HOL-Library.Product_Lexorder"
begin

text \<open>
  The two queries of \<open>internal/store/devices.go\<close> that the device list updates are filled from: the
  rows behind a set of pokes, and the cross-signing keys of a set of users, with the id under which
  a change of a key is recorded. Reading the first key of a JSON object is an argument.
\<close>

record cross_row =
  xr_user :: string
  xr_type :: string
  xr_data :: json
  xr_stream :: int

text \<open>A NULL display name is \<open>None\<close>.\<close>

record device_tables =
  dt_devices :: "((string \<times> string) \<times> string option) list"
  dt_keys :: "((string \<times> string) \<times> json) list"
  dt_cross :: "cross_row list"

definition joined_detail :: "device_tables \<Rightarrow> string \<Rightarrow> string \<Rightarrow> device_detail" where
  "joined_detail t u d =
     \<lparr>dd_exists = (map_of (dt_devices t) (u, d) \<noteq> None),
      dd_name = (case map_of (dt_devices t) (u, d) of Some (Some n) \<Rightarrow> n | _ \<Rightarrow> []),
      dd_keys = (case map_of (dt_keys t) (u, d) of Some k \<Rightarrow> k | None \<Rightarrow> [])\<rparr>"

text \<open>Arrays of different lengths are filled up with NULL, which does not scan into a string.\<close>

definition get_device_details ::
  "bool \<Rightarrow> device_tables \<Rightarrow> string list \<Rightarrow> string list \<Rightarrow> (string \<rightharpoonup> device_detail) option" where
  "get_device_details ok t users devs =
     (if users = [] then Some Map.empty
      else if \<not> ok \<or> length users \<noteq> length devs then None
      else Some (map_of (rev (map (\<lambda>p. (device_detail_key (fst p) (snd p), joined_detail t (fst p) (snd p))) (zip users devs)))))"

text \<open>\<open>DISTINCT ON (f)\<close>: the first row of each group, in order.\<close>

function first_per :: "('a \<Rightarrow> 'b) \<Rightarrow> 'a list \<Rightarrow> 'a list" where
  "first_per f [] = []"
| "first_per f (x # xs) = x # first_per f (filter (\<lambda>y. f y \<noteq> f x) xs)"
  by pat_completeness auto

termination
  by (relation "measure (length \<circ> snd)") (auto simp: less_Suc_eq_le)

definition cross_rows :: "cross_row list \<Rightarrow> string list \<Rightarrow> cross_row list" where
  "cross_rows rows users =
     first_per (\<lambda>r. (xr_user r, xr_type r))
       (sort_key (\<lambda>r. (xr_user r, xr_type r, - xr_stream r))
         (filter (\<lambda>r. xr_user r \<in> set users \<and> xr_type r \<in> {''master'', ''self_signing''}) rows))"

definition pseudo_device_id :: "(json \<Rightarrow> string option) \<Rightarrow> json \<Rightarrow> string" where
  "pseudo_device_id first_key data =
     (case first_key data of
        None \<Rightarrow> []
      | Some k \<Rightarrow> (case strings_cut (CHR '':'') k of (_, version, ok) \<Rightarrow> if ok then version else []))"

definition get_cross_signing_keys ::
  "(json \<Rightarrow> string option) \<Rightarrow> bool \<Rightarrow> device_tables \<Rightarrow> string list \<Rightarrow> signing_key list option" where
  "get_cross_signing_keys first_key ok t users =
     (if users = [] then Some []
      else if \<not> ok then None
      else Some (filter (\<lambda>k. sk_pseudo k \<noteq> [])
             (map (\<lambda>r. \<lparr>sk_user = xr_user r, sk_type = xr_type r, sk_data = xr_data r, sk_pseudo = pseudo_device_id first_key (xr_data r)\<rparr>)
               (cross_rows (dt_cross t) users))))"

section \<open>The newest key of each kind\<close>

lemma first_per_set:
  "sorted (map g xs) \<Longrightarrow> x \<in> set (first_per f xs) \<longleftrightarrow> x \<in> set xs \<and> (\<forall>y \<in> set xs. f y = f x \<longrightarrow> g x \<le> g y)"
  if "\<And>y. y \<in> set xs \<Longrightarrow> f y = f x \<Longrightarrow> g y = g x \<Longrightarrow> y = x" for g :: "'a \<Rightarrow> 'c :: linorder"
  using that
proof (induction f xs rule: first_per.induct)
  case (2 f a xs)
  have IH: "x \<in> set (first_per f (filter (\<lambda>y. f y \<noteq> f a) xs))
      \<longleftrightarrow> x \<in> set xs \<and> f x \<noteq> f a \<and> (\<forall>y \<in> set xs. f y \<noteq> f a \<longrightarrow> f y = f x \<longrightarrow> g x \<le> g y)"
    using 2 by (subst 2(1)) (auto simp: sorted_filter)
  show ?case
  proof (cases "f x = f a")
    case True
    have "g a \<le> g y" if "y \<in> set (a # xs)" for y using 2(2) that by auto
    then have "x \<in> set (a # xs) \<Longrightarrow> (\<forall>y \<in> set (a # xs). f y = f x \<longrightarrow> g x \<le> g y) \<Longrightarrow> x = a"
      using 2(3) [of a] True by (metis list.set_intros(1) order_antisym)
    then show ?thesis using IH True \<open>\<And>y. y \<in> set (a # xs) \<Longrightarrow> g a \<le> g y\<close> by auto
  next
    case False
    then show ?thesis using IH by auto
  qed
qed simp

lemma cross_rows_newest:
  assumes "distinct (map (\<lambda>r. (xr_user r, xr_type r, xr_stream r)) rows)"
  shows "r \<in> set (cross_rows rows users) \<longleftrightarrow>
     r \<in> set rows \<and> xr_user r \<in> set users \<and> xr_type r \<in> {''master'', ''self_signing''}
     \<and> (\<forall>r' \<in> set rows. xr_user r' = xr_user r \<longrightarrow> xr_type r' = xr_type r \<longrightarrow> xr_stream r' \<le> xr_stream r)"
proof -
  let ?P = "\<lambda>r. xr_user r \<in> set users \<and> xr_type r \<in> {''master'', ''self_signing''}"
  let ?g = "\<lambda>r. (xr_user r, xr_type r, - xr_stream r)"
  have inj: "y = r" if "y \<in> set rows" "r \<in> set rows" "xr_user y = xr_user r" "xr_type y = xr_type r" "xr_stream y = xr_stream r" for y
    using assms that by (auto simp: distinct_map dest: inj_onD)
  show ?thesis
  proof (cases "r \<in> set rows")
    case True
    show ?thesis unfolding cross_rows_def
      using inj True by (subst first_per_set [where g = ?g]) (auto simp: less_eq_prod_def)
  next
    case False
    have sub: "set (first_per f xs) \<subseteq> set xs" for f :: "cross_row \<Rightarrow> string \<times> string" and xs
      by (induction f xs rule: first_per.induct) auto
    show ?thesis using False by (auto simp: cross_rows_def dest!: subsetD [OF sub])
  qed
qed

lemma device_detail_key_inj:
  "CHR 0x00 \<notin> set u \<Longrightarrow> CHR 0x00 \<notin> set u' \<Longrightarrow> device_detail_key u d = device_detail_key u' d' \<longleftrightarrow> u = u' \<and> d = d'"
  unfolding device_detail_key_def by (metis strings_cut_found Pair_inject append_Cons append_Nil append_assoc)

lemma details_lookup:
  assumes "CHR 0x00 \<notin> set u" "\<forall>p \<in> set ps. CHR 0x00 \<notin> set (fst p)"
  shows "map_of (map (\<lambda>p. (device_detail_key (fst p) (snd p), joined_detail t (fst p) (snd p))) ps) (device_detail_key u d)
     = (if (u, d) \<in> set ps then Some (joined_detail t u d) else None)"
  using assms(2)
proof (induction ps)
  case (Cons p ps)
  obtain u' d' where p: "p = (u', d')" by fastforce
  have "device_detail_key u' d' = device_detail_key u d \<longleftrightarrow> u' = u \<and> d' = d"
    by (rule device_detail_key_inj) (use Cons.prems p assms(1) in auto)
  then show ?case using Cons p by auto
qed simp

lemma get_device_details_lookup:
  assumes "users \<noteq> []" "length users = length devs" "\<forall>u' \<in> set users. CHR 0x00 \<notin> set u'"
  shows "\<exists>details. get_device_details True t users devs = Some details
    \<and> (\<forall>u d. CHR 0x00 \<notin> set u \<longrightarrow> details (device_detail_key u d)
          = (if (u, d) \<in> set (zip users devs) then Some (joined_detail t u d) else None))"
proof -
  have "\<forall>p \<in> set (rev (zip users devs)). CHR 0x00 \<notin> set (fst p)"
    using assms(3) by (auto dest: set_zip_leftD)
  note l = details_lookup [OF _ this, of _ t]
  have d: "get_device_details True t users devs
    = Some (map_of (map (\<lambda>p. (device_detail_key (fst p) (snd p), joined_detail t (fst p) (snd p))) (rev (zip users devs))))"
    using assms(1,2) by (simp add: get_device_details_def rev_map)
  show ?thesis
  proof (rule exI, rule conjI, rule d, intro allI impI)
    fix u d :: string
    assume "CHR 0x00 \<notin> set u"
    from l [OF this] show "map_of (map (\<lambda>p. (device_detail_key (fst p) (snd p), joined_detail t (fst p) (snd p))) (rev (zip users devs)))
        (device_detail_key u d) = (if (u, d) \<in> set (zip users devs) then Some (joined_detail t u d) else None)"
      unfolding set_rev .
  qed
qed

lemma get_cross_signing_keys_newest:
  assumes "distinct (map (\<lambda>r. (xr_user r, xr_type r, xr_stream r)) (dt_cross t))" "users \<noteq> []"
  shows "\<exists>ks. get_cross_signing_keys first_key True t users = Some ks
    \<and> (\<forall>k. k \<in> set ks \<longleftrightarrow> sk_pseudo k \<noteq> [] \<and> sk_pseudo k = pseudo_device_id first_key (sk_data k)
         \<and> sk_user k \<in> set users \<and> sk_type k \<in> {''master'', ''self_signing''}
         \<and> (\<exists>r \<in> set (dt_cross t). xr_user r = sk_user k \<and> xr_type r = sk_type k \<and> xr_data r = sk_data k
              \<and> (\<forall>r' \<in> set (dt_cross t). xr_user r' = sk_user k \<longrightarrow> xr_type r' = sk_type k \<longrightarrow> xr_stream r' \<le> xr_stream r)))"
proof -
  let ?key = "\<lambda>r. \<lparr>sk_user = xr_user r, sk_type = xr_type r, sk_data = xr_data r, sk_pseudo = pseudo_device_id first_key (xr_data r)\<rparr>"
  have ks: "get_cross_signing_keys first_key True t users = Some (filter (\<lambda>k. sk_pseudo k \<noteq> []) (map ?key (cross_rows (dt_cross t) users)))"
    using assms(2) by (simp add: get_cross_signing_keys_def)
  have keys: "k \<in> set (filter (\<lambda>k. sk_pseudo k \<noteq> []) (map ?key (cross_rows (dt_cross t) users))) \<longleftrightarrow>
        sk_pseudo k \<noteq> [] \<and> sk_pseudo k = pseudo_device_id first_key (sk_data k)
         \<and> sk_user k \<in> set users \<and> sk_type k \<in> {''master'', ''self_signing''}
         \<and> (\<exists>r \<in> set (dt_cross t). xr_user r = sk_user k \<and> xr_type r = sk_type k \<and> xr_data r = sk_data k
              \<and> (\<forall>r' \<in> set (dt_cross t). xr_user r' = sk_user k \<longrightarrow> xr_type r' = sk_type k \<longrightarrow> xr_stream r' \<le> xr_stream r))"
    (is "_ \<longleftrightarrow> ?R k") for k :: signing_key
  proof
    assume "k \<in> set (filter (\<lambda>k. sk_pseudo k \<noteq> []) (map ?key (cross_rows (dt_cross t) users)))"
    then obtain r where r: "r \<in> set (cross_rows (dt_cross t) users)" "k = ?key r" "sk_pseudo k \<noteq> []" by auto
    note n = r(1) [unfolded cross_rows_newest [OF assms(1)]]
    show "?R k" using n r(3) unfolding r(2) signing_key.simps by blast
  next
    assume R: "?R k"
    then obtain r where r: "r \<in> set (dt_cross t)" "xr_user r = sk_user k" "xr_type r = sk_type k" "xr_data r = sk_data k"
      "\<forall>r' \<in> set (dt_cross t). xr_user r' = sk_user k \<longrightarrow> xr_type r' = sk_type k \<longrightarrow> xr_stream r' \<le> xr_stream r" by blast
    have "r \<in> set (cross_rows (dt_cross t) users)" unfolding cross_rows_newest [OF assms(1)] r(2,3)
      using r(1,5) R by blast
    moreover have "k = ?key r"
      unfolding r(2-4) R [THEN conjunct2, THEN conjunct1, symmetric] by simp
    ultimately show "k \<in> set (filter (\<lambda>k. sk_pseudo k \<noteq> []) (map ?key (cross_rows (dt_cross t) users)))"
      unfolding set_filter set_map using R by blast
  qed
  show ?thesis by (rule exI, rule conjI, rule ks) (rule allI, rule keys)
qed

text \<open>
  The keys announced are the current ones. The query for cross-signing keys answers, for
  each asked user and each of the two kinds, exactly the row of the greatest stream id, when its
  key has an id; and the query for devices answers each asked pair, a device that is gone included,
  which is then marked as not existing.
\<close>

theorem cross_signing_is_newest:
  assumes "distinct (map (\<lambda>r. (xr_user r, xr_type r, xr_stream r)) (dt_cross t))" "users \<noteq> []"
    "length users = length devs" "\<forall>u \<in> set users. CHR 0x00 \<notin> set u"
  shows "\<exists>ks details. get_cross_signing_keys first_key True t users = Some ks \<and> get_device_details True t users devs = Some details
    \<and> (\<forall>k. k \<in> set ks \<longleftrightarrow> sk_pseudo k \<noteq> [] \<and> sk_pseudo k = pseudo_device_id first_key (sk_data k)
         \<and> sk_user k \<in> set users \<and> sk_type k \<in> {''master'', ''self_signing''}
         \<and> (\<exists>r \<in> set (dt_cross t). xr_user r = sk_user k \<and> xr_type r = sk_type k \<and> xr_data r = sk_data k
              \<and> (\<forall>r' \<in> set (dt_cross t). xr_user r' = sk_user k \<longrightarrow> xr_type r' = sk_type k \<longrightarrow> xr_stream r' \<le> xr_stream r)))
    \<and> (\<forall>u d. CHR 0x00 \<notin> set u \<longrightarrow>
         (case details (device_detail_key u d) of
            None \<Rightarrow> (u, d) \<notin> set (zip users devs)
          | Some det \<Rightarrow> (u, d) \<in> set (zip users devs) \<and> dd_exists det = ((u, d) \<in> fst ` set (dt_devices t))
              \<and> (\<forall>k. map_of (dt_keys t) (u, d) = Some k \<longrightarrow> dd_keys det = k)))"
proof -
  obtain ks where ks: "get_cross_signing_keys first_key True t users = Some ks"
    and mem: "\<forall>k. k \<in> set ks \<longleftrightarrow> sk_pseudo k \<noteq> [] \<and> sk_pseudo k = pseudo_device_id first_key (sk_data k)
         \<and> sk_user k \<in> set users \<and> sk_type k \<in> {''master'', ''self_signing''}
         \<and> (\<exists>r \<in> set (dt_cross t). xr_user r = sk_user k \<and> xr_type r = sk_type k \<and> xr_data r = sk_data k
              \<and> (\<forall>r' \<in> set (dt_cross t). xr_user r' = sk_user k \<longrightarrow> xr_type r' = sk_type k \<longrightarrow> xr_stream r' \<le> xr_stream r))"
    using get_cross_signing_keys_newest [OF assms(1,2), of first_key] by blast
  obtain details where dt: "get_device_details True t users devs = Some details"
    and look: "\<And>u d. CHR 0x00 \<notin> set u \<Longrightarrow> details (device_detail_key u d)
          = (if (u, d) \<in> set (zip users devs) then Some (joined_detail t u d) else None)"
    using get_device_details_lookup [OF assms(2-4), of t] by blast
  have "case details (device_detail_key u d) of
            None \<Rightarrow> (u, d) \<notin> set (zip users devs)
          | Some det \<Rightarrow> (u, d) \<in> set (zip users devs) \<and> dd_exists det = ((u, d) \<in> fst ` set (dt_devices t))
              \<and> (\<forall>k. map_of (dt_keys t) (u, d) = Some k \<longrightarrow> dd_keys det = k)" if "CHR 0x00 \<notin> set u" for u d
    unfolding look [OF that] by (simp add: joined_detail_def map_of_eq_None_iff)
  then have det: "\<forall>u d. CHR 0x00 \<notin> set u \<longrightarrow> (case details (device_detail_key u d) of
            None \<Rightarrow> (u, d) \<notin> set (zip users devs)
          | Some det \<Rightarrow> (u, d) \<in> set (zip users devs) \<and> dd_exists det = ((u, d) \<in> fst ` set (dt_devices t))
              \<and> (\<forall>k. map_of (dt_keys t) (u, d) = Some k \<longrightarrow> dd_keys det = k))" by blast
  show ?thesis by (rule exI [of _ ks], rule exI [of _ details]) (intro conjI ks dt mem det)
qed

text \<open>A rotated master key, and a device that is gone.\<close>

definition sample_device_tables :: device_tables where
  "sample_device_tables = \<lparr>dt_devices = [((''u'', ''D''), None)], dt_keys = [((''u'', ''D''), ''{}'')],
     dt_cross = [\<lparr>xr_user = ''u'', xr_type = ''master'', xr_data = ''old'', xr_stream = 3\<rparr>, \<lparr>xr_user = ''u'', xr_type = ''master'', xr_data = ''new'', xr_stream = 8\<rparr>]\<rparr>"

definition sample_first_key :: "json \<Rightarrow> string option" where
  "sample_first_key d = Some (''ed25519:'' @ d)"

theorem cross_signing_is_newest_witness:
  "\<exists>ks details. get_cross_signing_keys sample_first_key True sample_device_tables [''u'', ''u''] = Some ks
     \<and> get_device_details True sample_device_tables [''u'', ''u''] [''D'', ''E''] = Some details
     \<and> \<lparr>sk_user = ''u'', sk_type = ''master'', sk_data = ''new'', sk_pseudo = ''new''\<rparr> \<in> set ks
     \<and> (\<forall>k \<in> set ks. sk_data k \<noteq> ''old'')
     \<and> (\<forall>det. details (device_detail_key ''u'' ''E'') = Some det \<longrightarrow> \<not> dd_exists det)"
proof -
  have p: "pseudo_device_id sample_first_key d = d" for d
    using strings_cut_found [of "CHR '':''" "''ed25519''" d] by (simp add: pseudo_device_id_def sample_first_key_def)
  have pre: "distinct (map (\<lambda>r. (xr_user r, xr_type r, xr_stream r)) (dt_cross sample_device_tables))" "[''u'', ''u''] \<noteq> []"
    "length [''u'', ''u''] = length [''D'', ''E'']" "\<forall>u \<in> set [''u'', ''u'']. CHR 0x00 \<notin> set u"
    by (simp_all add: sample_device_tables_def)
  obtain ks details where
    ks: "get_cross_signing_keys sample_first_key True sample_device_tables [''u'', ''u''] = Some ks"
    and dt: "get_device_details True sample_device_tables [''u'', ''u''] [''D'', ''E''] = Some details"
    and mem: "\<forall>k. k \<in> set ks \<longleftrightarrow> sk_pseudo k \<noteq> [] \<and> sk_pseudo k = pseudo_device_id sample_first_key (sk_data k)
         \<and> sk_user k \<in> set [''u'', ''u''] \<and> sk_type k \<in> {''master'', ''self_signing''}
         \<and> (\<exists>r \<in> set (dt_cross sample_device_tables). xr_user r = sk_user k \<and> xr_type r = sk_type k \<and> xr_data r = sk_data k
              \<and> (\<forall>r' \<in> set (dt_cross sample_device_tables). xr_user r' = sk_user k \<longrightarrow> xr_type r' = sk_type k \<longrightarrow> xr_stream r' \<le> xr_stream r))"
    and look: "\<forall>u d. CHR 0x00 \<notin> set u \<longrightarrow>
         (case details (device_detail_key u d) of
            None \<Rightarrow> (u, d) \<notin> set (zip [''u'', ''u''] [''D'', ''E''])
          | Some det \<Rightarrow> (u, d) \<in> set (zip [''u'', ''u''] [''D'', ''E'']) \<and> dd_exists det = ((u, d) \<in> fst ` set (dt_devices sample_device_tables))
              \<and> (\<forall>k. map_of (dt_keys sample_device_tables) (u, d) = Some k \<longrightarrow> dd_keys det = k))"
    using cross_signing_is_newest [OF pre, of sample_first_key] by blast
  have new: "\<lparr>sk_user = ''u'', sk_type = ''master'', sk_data = ''new'', sk_pseudo = ''new''\<rparr> \<in> set ks"
    unfolding mem [rule_format] by (simp add: p sample_device_tables_def)
  have old: "\<forall>k \<in> set ks. sk_data k \<noteq> ''old''"
  proof
    fix k
    assume "k \<in> set ks"
    from this [unfolded mem [rule_format]] show "sk_data k \<noteq> ''old''" by (auto simp: sample_device_tables_def)
  qed
  have gone: "\<forall>det. details (device_detail_key ''u'' ''E'') = Some det \<longrightarrow> \<not> dd_exists det"
    using look [rule_format, of "''u''" "''E''"] by (auto simp: sample_device_tables_def)
  show ?thesis by (rule exI [of _ ks], rule exI [of _ details]) (intro conjI ks dt new old gone)
qed

end
