(* ===== verification/Console.thy ===== *)
theory Console
  imports CaptureCompare Txn
begin

text \<open>
  \<open>internal/logfmt/console.go\<close>: a log event, one JSON object, as one line for a human. The fields of
  the object, in order, are what the argument \<open>members\<close> answers (gjson's \<open>ForEach\<close>), and strings are
  bytes. \<open>strconv.Quote\<close> and the decoding of UTF-8 it rests on are written out; which characters
  beyond ASCII count as printable is an argument. Level names are ASCII.
\<close>

section \<open>UTF-8\<close>

definition continuation :: "nat \<Rightarrow> bool" where
  "continuation b \<longleftrightarrow> 128 \<le> b \<and> b < 192"

text \<open>\<open>utf8.DecodeRuneInString\<close> at a byte beyond ASCII: the rune and its width, \<open>None\<close> when invalid.\<close>

definition decode_rune :: "nat list \<Rightarrow> (nat \<times> nat) option" where
  "decode_rune bs = (case bs of
       b0 # b1 # rest \<Rightarrow>
         if 194 \<le> b0 \<and> b0 \<le> 223 then (if continuation b1 then Some ((b0 - 192) * 64 + (b1 - 128), 2) else None)
         else if 224 \<le> b0 \<and> b0 \<le> 239 then
           (case rest of
              b2 # _ \<Rightarrow> if continuation b1 \<and> continuation b2 \<and> (b0 = 224 \<longrightarrow> 160 \<le> b1) \<and> (b0 = 237 \<longrightarrow> b1 \<le> 159)
                 then Some ((b0 - 224) * 4096 + (b1 - 128) * 64 + (b2 - 128), 3) else None
            | [] \<Rightarrow> None)
         else if 240 \<le> b0 \<and> b0 \<le> 244 then
           (case rest of
              b2 # b3 # _ \<Rightarrow> if continuation b1 \<and> continuation b2 \<and> continuation b3 \<and> (b0 = 240 \<longrightarrow> 144 \<le> b1) \<and> (b0 = 244 \<longrightarrow> b1 \<le> 143)
                 then Some ((b0 - 240) * 262144 + (b1 - 128) * 4096 + (b2 - 128) * 64 + (b3 - 128), 4) else None
            | _ \<Rightarrow> None)
         else None
     | _ \<Rightarrow> None)"

definition encode_rune :: "nat \<Rightarrow> nat list" where
  "encode_rune r =
     (if r < 128 then [r]
      else if r < 2048 then [192 + r div 64, 128 + r mod 64]
      else if r < 65536 then [224 + r div 4096, 128 + r div 64 mod 64, 128 + r mod 64]
      else [240 + r div 262144, 128 + r div 4096 mod 64, 128 + r div 64 mod 64, 128 + r mod 64])"

definition bytes_of :: "string \<Rightarrow> nat list" where
  "bytes_of s = map of_char s"

definition string_of :: "nat list \<Rightarrow> string" where
  "string_of bs = map char_of bs"

section \<open>Quoting a value\<close>

fun hex_digits :: "nat \<Rightarrow> nat \<Rightarrow> string" where
  "hex_digits 0 v = []"
| "hex_digits (Suc n) v = hex_digits n (v div 16) @ [hex_nibble (v mod 16)]"

abbreviation backslash :: char where "backslash \<equiv> CHR 0x5C"
abbreviation quotation :: char where "quotation \<equiv> CHR 0x22"

text \<open>What \<open>strconv.Quote\<close> writes for an ASCII byte, and for a rune beyond.\<close>

definition quote_ascii :: "nat \<Rightarrow> string" where
  "quote_ascii b =
     (if b = 34 \<or> b = 92 then [backslash, char_of b]
      else if 32 \<le> b \<and> b < 127 then [char_of b]
      else (case map_of [(7, CHR ''a''), (8, CHR ''b''), (12, CHR ''f''), (10, CHR ''n''), (13, CHR ''r''), (9, CHR ''t''), (11, CHR ''v'')] b of
              Some c \<Rightarrow> [backslash, c]
            | None \<Rightarrow> backslash # CHR ''x'' # hex_digits 2 b))"

definition quote_rune :: "(nat \<Rightarrow> bool) \<Rightarrow> nat \<Rightarrow> string" where
  "quote_rune printable r =
     (if printable r then string_of (encode_rune r)
      else if r < 65536 then backslash # CHR ''u'' # hex_digits 4 r
      else backslash # CHR ''U'' # hex_digits 8 r)"

function quote_body :: "(nat \<Rightarrow> bool) \<Rightarrow> string \<Rightarrow> string" where
  "quote_body printable [] = []"
| "quote_body printable (c # s) =
     (if of_char c < (128 :: nat) then quote_ascii (of_char c) @ quote_body printable s
      else (case decode_rune (bytes_of (c # s)) of
              None \<Rightarrow> backslash # CHR ''x'' # hex_digits 2 (of_char c) @ quote_body printable s
            | Some (r, w) \<Rightarrow> quote_rune printable r @ quote_body printable (drop (w - 1) s)))"
  by pat_completeness auto

termination
  by (relation "measure (\<lambda>(_, s). length s)") auto

definition strconv_quote :: "(nat \<Rightarrow> bool) \<Rightarrow> string \<Rightarrow> string" where
  "strconv_quote printable s = quotation # quote_body printable s @ [quotation]"

definition plain_byte :: "char \<Rightarrow> bool" where
  "plain_byte c \<longleftrightarrow> (let b = of_char c :: nat in 32 \<le> b \<and> b \<le> 126 \<and> c \<noteq> CHR '' '' \<and> c \<noteq> quotation \<and> c \<noteq> backslash)"

definition quote_value :: "(nat \<Rightarrow> bool) \<Rightarrow> string \<Rightarrow> string" where
  "quote_value printable s =
     (if s = [] then [quotation, quotation] else if list_all plain_byte s then s else strconv_quote printable s)"

section \<open>A line\<close>

definition level_text :: "string \<Rightarrow> string" where
  "level_text l =
     (case map_of [(''trace'', ''TRC''), (''debug'', ''DBG''), (''info'', ''INF''), (''warn'', ''WRN''), (''error'', ''ERR''),
         (''fatal'', ''FTL''), (''panic'', ''PNC''), ([], ''???'')] l of
        Some t \<Rightarrow> t
      | None \<Rightarrow> map (\<lambda>c. let b = of_char c :: nat in if 97 \<le> b \<and> b \<le> 122 then char_of (b - 32) else c) l)"

definition level_color :: "string \<Rightarrow> nat" where
  "level_color l =
     (if l = ''trace'' then 34 else if l = ''info'' then 32 else if l = ''warn'' then 33
      else if l = ''error'' \<or> l = ''fatal'' \<or> l = ''panic'' then 31 else 0)"

definition colorize :: "bool \<Rightarrow> string \<Rightarrow> nat \<Rightarrow> string" where
  "colorize no_color s code =
     (if no_color \<or> code = 0 then s else CHR 0x1B # CHR ''['' # format_nat code @ ''m'' @ s @ CHR 0x1B # ''[0m'')"

text \<open>What is appended to the buffer, one piece after the other.\<close>

definition add_part :: "string \<Rightarrow> string \<Rightarrow> string" where
  "add_part buf s = (if buf = [] then s else buf @ CHR '' '' # s)"

abbreviation trailing :: "string list" where "trailing \<equiv> [''error'']"

definition add_field :: "(nat \<Rightarrow> bool) \<Rightarrow> bool \<Rightarrow> string \<times> string \<Rightarrow> string \<Rightarrow> string" where
  "add_field printable nc kv buf =
     (case kv of (key, v) \<Rightarrow>
        add_part buf (colorize nc (key @ ''='') 36)
          @ (let q = quote_value printable v in if key = ''error'' then colorize nc (colorize nc q 1) 31 else q))"

definition escape_key :: "string \<Rightarrow> string" where
  "escape_key key = concat (map (\<lambda>c. if c = CHR ''.'' \<or> c = CHR ''*'' \<or> c = CHR ''?'' then [backslash, c] else [c]) key)"

text \<open>Time, level and message; then the fields as they come, then the trailing ones, looked up by name.\<close>

definition line_head :: "gjson \<Rightarrow> bool \<Rightarrow> json \<Rightarrow> string" where
  "line_head g nc p =
     (let lvl = get_str g p ''level''; ts = get_str g p ''time''; msg = get_str g p ''message'';
          b1 = (if ts \<noteq> [] then add_part [] (colorize nc ts 90) else []);
          b2 = add_part b1 (colorize nc (level_text lvl) (level_color lvl))
      in if msg \<noteq> [] then add_part b2 (if level_color lvl \<noteq> 0 \<and> lvl \<noteq> ''debug'' then colorize nc msg 1 else msg) else b2)"

definition console_line :: "gjson \<Rightarrow> (json \<Rightarrow> (string \<times> json) list) \<Rightarrow> (nat \<Rightarrow> bool) \<Rightarrow> bool \<Rightarrow> json \<Rightarrow> string" where
  "console_line g members printable nc p =
     (let others = filter (\<lambda>(k, _). k \<notin> {''time'', ''level'', ''message''}) (members p);
          deferred = map fst (filter (\<lambda>(k, _). k \<in> set trailing) others);
          b1 = fold (\<lambda>(k, v). add_field printable nc (k, gj_str g v)) (filter (\<lambda>(k, _). k \<notin> set trailing) others) (line_head g nc p);
          b2 = fold (\<lambda>key. fold (\<lambda>got buf. if got = key then add_field printable nc (key, get_str g p (escape_key key)) buf else buf) deferred) trailing b1
      in b2 @ [CHR 0x0A])"

text \<open>
  \<open>Write\<close>: what is written to the output, which accepts it or not, and the count it answers,
  \<open>None\<close> for an error. What is not JSON passes through, with the answer of the output.
\<close>

definition console_write ::
  "gjson \<Rightarrow> (json \<Rightarrow> (string \<times> json) list) \<Rightarrow> (nat \<Rightarrow> bool) \<Rightarrow> bool \<Rightarrow> (string \<Rightarrow> nat option) \<Rightarrow> string \<Rightarrow> string \<times> nat option" where
  "console_write g members printable nc out p =
     (if \<not> gj_valid g p then (p, out p)
      else (let line = console_line g members printable nc p
            in (line, case out line of None \<Rightarrow> None | Some _ \<Rightarrow> Some (length p))))"

section \<open>A quoted value reads back\<close>

fun parse_hex :: "nat \<Rightarrow> string \<Rightarrow> nat option" where
  "parse_hex acc [] = Some acc"
| "parse_hex acc (c # cs) = (case hex_value c of None \<Rightarrow> None | Some v \<Rightarrow> parse_hex (acc * 16 + v) cs)"

definition hex_escape :: "char \<Rightarrow> nat option" where
  "hex_escape e = map_of [(CHR ''x'', 2), (CHR ''u'', 4), (CHR ''U'', 8)] e"

definition simple_escape :: "char \<Rightarrow> nat option" where
  "simple_escape e = map_of [(CHR ''a'', 7), (CHR ''b'', 8), (CHR ''f'', 12), (CHR ''n'', 10), (CHR ''r'', 13), (CHR ''t'', 9), (CHR ''v'', 11),
     (quotation, 34), (backslash, 92)] e"

text \<open>Reads up to the closing quotation mark and answers what follows it.\<close>

function read_quoted :: "string \<Rightarrow> (string \<times> string) option" where
  "read_quoted [] = None"
| "read_quoted (c # s) =
     (if c = quotation then Some ([], s)
      else if c \<noteq> backslash then map_option (apfst ((#) c)) (read_quoted s)
      else (case s of
          [] \<Rightarrow> None
        | e # s' \<Rightarrow>
            (case hex_escape e of
               Some n \<Rightarrow> (case parse_hex 0 (take n s') of
                   None \<Rightarrow> None
                 | Some v \<Rightarrow> map_option (apfst ((@) (string_of (if e = CHR ''x'' then [v] else encode_rune v)))) (read_quoted (drop n s')))
             | None \<Rightarrow> (case simple_escape e of
                   None \<Rightarrow> None
                 | Some b \<Rightarrow> map_option (apfst ((#) (char_of b))) (read_quoted s')))))"
  by pat_completeness auto

termination
  by (relation "measure length") auto

declare read_quoted.simps(2) [simp del] quote_body.simps(2) [simp del]

lemma char_code: "n < 256 \<Longrightarrow> of_char (char_of n) = (n :: nat)"
  by (simp add: of_char_of)

lemma hex_value_nibble: "n < 16 \<Longrightarrow> hex_value (hex_nibble n) = Some n"
  by (auto simp: hex_value_def hex_nibble_def of_char_of Let_def)

lemma parse_hex_append: "parse_hex acc (a @ b) = (case parse_hex acc a of None \<Rightarrow> None | Some v \<Rightarrow> parse_hex v b)"
  by (induction acc a rule: parse_hex.induct) (auto split: option.splits)

lemma parse_hex_digits: "v < 16 ^ n \<Longrightarrow> parse_hex 0 (hex_digits n v) = Some v"
proof (induction n arbitrary: v)
  case (Suc n)
  have "v div 16 < 16 ^ n" using Suc.prems by (simp add: less_mult_imp_div_less mult.commute)
  then show ?case using Suc.IH by (simp add: parse_hex_append hex_value_nibble)
qed simp

lemma length_hex_digits [simp]: "length (hex_digits n v) = n"
  by (induction n arbitrary: v) simp_all

lemma read_hex:
  assumes "hex_escape e = Some n" "v < 16 ^ n"
  shows "read_quoted (backslash # e # hex_digits n v @ t)
    = map_option (apfst ((@) (string_of (if e = CHR ''x'' then [v] else encode_rune v)))) (read_quoted t)"
  using assms by (simp add: read_quoted.simps(2) parse_hex_digits)

lemma append_one: "(@) [c] = (#) c"
  by (simp add: fun_eq_iff)

lemma read_ascii:
  assumes "b < 128"
  shows "read_quoted (quote_ascii b @ t) = map_option (apfst ((#) (char_of b))) (read_quoted t)"
proof -
  have "(of_char quotation :: nat) = 34" "(of_char backslash :: nat) = 92" by simp_all
  then have lit: "quotation = char_of (34 :: nat)" "backslash = char_of (92 :: nat)" by (metis char_of_char)+
  have eq: "char_of b = quotation \<longleftrightarrow> b = 34" "char_of b = backslash \<longleftrightarrow> b = 92"
    using assms char_code [of b] by (auto simp: lit)
  consider "b = 34 \<or> b = 92" | "b \<noteq> 34" "b \<noteq> 92" "32 \<le> b \<and> b < 127"
    | "b \<in> {7, 8, 9, 10, 11, 12, 13}" | "b \<noteq> 34" "b \<noteq> 92" "\<not> (32 \<le> b \<and> b < 127)" "b \<notin> {7, 8, 9, 10, 11, 12, 13}" by blast
  then show ?thesis
  proof cases
    case 1
    then have "quote_ascii b = [backslash, char_of b]" "char_of b = quotation \<or> char_of b = backslash"
      by (simp_all add: quote_ascii_def eq)
    then show ?thesis using assms by (elim disjE) (simp_all add: read_quoted.simps(2) hex_escape_def simple_escape_def lit [symmetric])
  next
    case 2
    then show ?thesis using eq by (simp add: quote_ascii_def read_quoted.simps(2))
  next
    case 3
    then have "\<exists>e. quote_ascii b = [backslash, e] \<and> hex_escape e = None \<and> simple_escape e = Some b"
      by (elim insertE emptyE) (simp_all add: quote_ascii_def hex_escape_def simple_escape_def)
    then obtain e where "quote_ascii b = [backslash, e]" "hex_escape e = None" "simple_escape e = Some b" by blast
    then show ?thesis by (simp add: read_quoted.simps(2))
  next
    case 4
    then have q: "quote_ascii b = backslash # CHR ''x'' # hex_digits 2 b" by (simp add: quote_ascii_def)
    show ?thesis unfolding q using assms by (simp only: append_Cons) (subst read_hex, simp_all add: hex_escape_def string_of_def append_one)
  qed
qed

lemma digits64:
  assumes "y < 64" "z < 64" "v < (64 :: nat)"
  shows "(x * 64 + y) div 64 = x" "(x * 64 + y) mod 64 = y"
    "(x * 4096 + y * 64 + z) div 4096 = x" "(x * 4096 + y * 64 + z) div 64 mod 64 = y" "(x * 4096 + y * 64 + z) mod 64 = z"
    "(x * 262144 + y * 4096 + z * 64 + v) div 262144 = x" "(x * 262144 + y * 4096 + z * 64 + v) div 4096 mod 64 = y"
    "(x * 262144 + y * 4096 + z * 64 + v) div 64 mod 64 = z" "(x * 262144 + y * 4096 + z * 64 + v) mod 64 = v"
proof -
  have s: "(a * 64 + b) div 64 = a" "(a * 64 + b) mod 64 = b" if "b < 64" for a b :: nat using that by simp_all
  have d: "n div 4096 = n div 64 div 64" "n div 262144 = n div 64 div 64 div 64" for n :: nat by (simp_all add: div_mult2_eq [symmetric])
  have three: "x * 4096 + y * 64 + z = (x * 64 + y) * 64 + z" and
    four: "x * 262144 + y * 4096 + z * 64 + v = ((x * 64 + y) * 64 + z) * 64 + v" by simp_all
  show "(x * 64 + y) div 64 = x" "(x * 64 + y) mod 64 = y"
    "(x * 4096 + y * 64 + z) div 4096 = x" "(x * 4096 + y * 64 + z) div 64 mod 64 = y" "(x * 4096 + y * 64 + z) mod 64 = z"
    unfolding three d using assms by (simp_all only: s)
  show "(x * 262144 + y * 4096 + z * 64 + v) div 262144 = x" "(x * 262144 + y * 4096 + z * 64 + v) div 4096 mod 64 = y"
    "(x * 262144 + y * 4096 + z * 64 + v) div 64 mod 64 = z" "(x * 262144 + y * 4096 + z * 64 + v) mod 64 = v"
    unfolding four d using assms by (simp_all only: s)
qed

lemma decode_rune_encode:
  assumes "decode_rune bs = Some (r, w)" "\<forall>b \<in> set bs. b < 256"
  shows "take w bs = encode_rune r \<and> 128 \<le> r \<and> r < 2097152 \<and> 2 \<le> w \<and> w \<le> length bs \<and> (\<forall>b \<in> set (encode_rune r). 128 \<le> b \<and> b < 256)"
proof -
  obtain b0 b1 rest where bs: "bs = b0 # b1 # rest" using assms(1) by (auto simp: decode_rune_def split: list.splits)
  consider (two) "194 \<le> b0" "b0 \<le> 223" "continuation b1" "r = (b0 - 192) * 64 + (b1 - 128)" "w = 2"
    | (three) b2 u where "224 \<le> b0" "b0 \<le> 239" "rest = b2 # u" "continuation b1" "continuation b2" "b0 = 224 \<longrightarrow> 160 \<le> b1"
        "r = (b0 - 224) * 4096 + (b1 - 128) * 64 + (b2 - 128)" "w = 3"
    | (four) b2 b3 u where "240 \<le> b0" "b0 \<le> 244" "rest = b2 # b3 # u" "continuation b1" "continuation b2" "continuation b3" "b0 = 240 \<longrightarrow> 144 \<le> b1"
        "r = (b0 - 240) * 262144 + (b1 - 128) * 4096 + (b2 - 128) * 64 + (b3 - 128)" "w = 4"
    using assms(1) unfolding bs decode_rune_def by (auto split: if_splits list.splits)
  then show ?thesis
  proof cases
    case two
    then obtain x y where "b0 = 192 + x" "b1 = 128 + y" "2 \<le> x" "x < 32" "y < 64"
      by (auto simp: continuation_def intro: that [of "b0 - 192" "b1 - 128"])
    then show ?thesis using two by (simp add: bs encode_rune_def)
  next
    case three
    then obtain x y z where "b0 = 224 + x" "b1 = 128 + y" "b2 = 128 + z" "x < 16" "y < 64" "z < 64" "x = 0 \<longrightarrow> 32 \<le> y"
      by (auto simp: continuation_def intro: that [of "b0 - 224" "b1 - 128" "b2 - 128"])
    then have v: "b0 = 224 + x" "b1 = 128 + y" "b2 = 128 + z" and l: "x < 16" "y < 64" "z < 64" "x = 0 \<longrightarrow> 32 \<le> y" by simp_all
    have rv: "r = x * 4096 + y * 64 + z" using three v by simp
    have "x = 0 \<and> 32 \<le> y \<or> 1 \<le> x" using l(4) by auto
    then have "2048 \<le> r" unfolding rv by (elim disjE) linarith+
    moreover have "r < 65536" unfolding rv using l by linarith
    ultimately have "encode_rune r = [224 + x, 128 + y, 128 + z]"
      unfolding encode_rune_def using digits64(3-5) [OF l(2,3), of 0] rv by simp
    then show ?thesis using three v l \<open>2048 \<le> r\<close> \<open>r < 65536\<close> by (simp add: bs)
  next
    case four
    then obtain x y z v where b: "b0 = 240 + x" "b1 = 128 + y" "b2 = 128 + z" "b3 = 128 + v" and l: "x < 5" "y < 64" "z < 64" "v < 64" "x = 0 \<longrightarrow> 16 \<le> y"
      by (auto simp: continuation_def intro: that [of "b0 - 240" "b1 - 128" "b2 - 128" "b3 - 128"])
    have rv: "r = x * 262144 + y * 4096 + z * 64 + v" using four b by simp
    have "x = 0 \<and> 16 \<le> y \<or> 1 \<le> x" using l(5) by auto
    then have "65536 \<le> r" unfolding rv by (elim disjE) linarith+
    moreover have "r < 2097152" unfolding rv using l by linarith
    ultimately have "encode_rune r = [240 + x, 128 + y, 128 + z, 128 + v]"
      unfolding encode_rune_def using digits64(6-9) [OF l(2,3,4)] rv by simp
    then show ?thesis using four b l \<open>65536 \<le> r\<close> \<open>r < 2097152\<close> by (simp add: bs)
  qed
qed

lemma read_rune:
  assumes "decode_rune bs = Some (r, w)" "\<forall>b \<in> set bs. b < 256"
  shows "read_quoted (quote_rune printable r @ t) = map_option (apfst ((@) (string_of (encode_rune r)))) (read_quoted t)"
proof -
  note d = decode_rune_encode [OF assms]
  have raw: "read_quoted (string_of xs @ t) = map_option (apfst ((@) (string_of xs))) (read_quoted t)"
    if "\<forall>b \<in> set xs. 128 \<le> b \<and> b < 256" for xs
    using that
  proof (induction xs)
    case (Cons b xs)
    have "(of_char (char_of b :: char) :: nat) = b" using Cons.prems char_code [of b] by simp
    moreover have "(of_char quotation :: nat) = 34" "(of_char backslash :: nat) = 92" by simp_all
    ultimately have "char_of b \<noteq> quotation" "char_of b \<noteq> backslash" using Cons.prems by force+
    then show ?case using Cons by (simp add: string_of_def read_quoted.simps(2) option.map_comp comp_def apfst_def map_prod_def split_def)
  qed (cases "read_quoted t"; simp add: string_of_def apfst_def map_prod_def split_def)
  have big: "r < 16 ^ 8" using d by simp
  show ?thesis
    using raw d read_hex [of "CHR ''u''" 4 r t] read_hex [OF _ big, of "CHR ''U''" t]
    by (auto simp: quote_rune_def hex_escape_def)
qed

lemma read_quote_body: "read_quoted (quote_body printable s @ quotation # t) = Some (s, t)"
proof (induction printable s rule: quote_body.induct)
  case (1 printable)
  then show ?case by (simp add: read_quoted.simps(2))
next
  case (2 printable c s)
  show ?case
  proof (cases "of_char c < (128 :: nat)")
    case True
    then show ?thesis using 2(1) read_ascii [OF True] by (simp add: quote_body.simps(2))
  next
    case False
    have b: "\<forall>b \<in> set (bytes_of (c # s)). b < 256" by (auto simp: bytes_of_def)
    show ?thesis
    proof (cases "decode_rune (bytes_of (c # s))")
      case None
      have "(of_char c :: nat) < 16 ^ 2" by simp
      note h = read_hex [OF _ this, of "CHR ''x''"]
      show ?thesis using 2(2) [OF False None] None False h by (simp add: quote_body.simps(2) hex_escape_def string_of_def)
    next
      case (Some rw)
      obtain r w where rw: "rw = (r, w)" by fastforce
      note d = decode_rune_encode [OF Some [unfolded rw] b]
      have "string_of (encode_rune r) = take w (c # s)"
        unfolding d [THEN conjunct1, symmetric] string_of_def bytes_of_def take_map [symmetric] by (simp add: comp_def)
      moreover have "take w (c # s) @ drop (w - 1) s = c # s" using d by (cases w) simp_all
      ultimately show ?thesis
        using 2(3) [OF False Some rw [symmetric]] Some rw False read_rune [OF Some [unfolded rw] b]
        by (simp add: quote_body.simps(2) apfst_def)
    qed
  qed
qed

section \<open>A line reads back\<close>

lemma read_quoted_shorter: "read_quoted s = Some (v, t) \<Longrightarrow> length t < length s"
proof (induction s arbitrary: v rule: read_quoted.induct)
  case (2 c s)
  show ?case
  proof (cases "c = quotation")
    case True
    then show ?thesis using 2(4) by (simp add: read_quoted.simps(2))
  next
    case q: False
    show ?thesis
    proof (cases "c = backslash")
      case False
      then obtain v' where "read_quoted s = Some (v', t)" using 2(4) q by (auto simp: read_quoted.simps(2))
      then show ?thesis using 2(1) [OF q] False by fastforce
    next
      case True
      then obtain e s' where s: "s = e # s'" using 2(4) by (cases s) (auto simp: read_quoted.simps(2))
      show ?thesis
      proof (cases "hex_escape e")
        case None
        then obtain b v' where "simple_escape e = Some b" "read_quoted s' = Some (v', t)"
          using 2(4) True s by (auto simp: read_quoted.simps(2) split: option.splits)
        then show ?thesis using 2(2) [OF q _ s None] True s by fastforce
      next
        case (Some n)
        then obtain x v' where "parse_hex 0 (take n s') = Some x" "read_quoted (drop n s') = Some (v', t)"
          using 2(4) True s by (auto simp: read_quoted.simps(2) split: option.splits)
        then show ?thesis using 2(3) [OF q _ s Some] True s by fastforce
      qed
    qed
  qed
qed simp

definition read_value :: "string \<Rightarrow> (string \<times> string) option" where
  "read_value r = (case r of
       [] \<Rightarrow> Some ([], [])
     | c # r' \<Rightarrow> if c = quotation then read_quoted r' else Some (takeWhile (\<lambda>c. c \<noteq> CHR '' '') r, dropWhile (\<lambda>c. c \<noteq> CHR '' '') r))"

lemma read_value_length: "read_value r = Some (v, r') \<Longrightarrow> length r' \<le> length r"
  by (auto simp: read_value_def length_dropWhile_le le_SucI split: list.splits if_splits dest!: read_quoted_shorter)

lemma strings_cut_length: "strings_cut c s = (a, b, True) \<Longrightarrow> length b < Suc (length s)"
  by (auto simp: strings_cut_def Let_def split: if_splits)

text \<open>What follows the head of a line, as keys and values.\<close>

function read_fields :: "string \<Rightarrow> (string \<times> string) list option" where
  "read_fields [] = Some []"
| "read_fields (c # s) =
     (if c \<noteq> CHR '' '' then None
      else (case strings_cut (CHR ''='') s of
          (k, r, found) \<Rightarrow>
            if \<not> found then None
            else (case read_value r of None \<Rightarrow> None | Some (v, r') \<Rightarrow> map_option ((#) (k, v)) (read_fields r'))))"
  by pat_completeness auto

termination
  by (relation "measure length") (auto dest!: read_value_length dest: strings_cut_length [OF sym])

declare read_fields.simps(2) [simp del]

lemma read_value_quote: "t = [] \<or> hd t = CHR '' '' \<Longrightarrow> read_value (quote_value printable v @ t) = Some (v, t)"
proof -
  assume t: "t = [] \<or> hd t = CHR '' ''"
  consider "v = []" | "v \<noteq> []" "list_all plain_byte v" | "v \<noteq> []" "\<not> list_all plain_byte v" by blast
  then show ?thesis
  proof cases
    case 1
    then show ?thesis by (simp add: quote_value_def read_value_def read_quoted.simps(2))
  next
    case 2
    then have p: "\<forall>c \<in> set v. c \<noteq> CHR '' '' \<and> c \<noteq> quotation" by (auto simp: list_all_iff plain_byte_def Let_def)
    have "takeWhile (\<lambda>c. c \<noteq> CHR '' '') t = []" "dropWhile (\<lambda>c. c \<noteq> CHR '' '') t = t" using t by (cases t; simp)+
    then have tw: "takeWhile (\<lambda>c. c \<noteq> CHR '' '') (v @ t) = v" "dropWhile (\<lambda>c. c \<noteq> CHR '' '') (v @ t) = t"
      using p by (simp_all add: takeWhile_append2 dropWhile_append2)
    obtain c v' where v: "v = c # v'" using 2 by (cases v) auto
    have q: "quote_value printable v = v" using 2 by (simp add: quote_value_def)
    show ?thesis unfolding q using tw p by (simp add: read_value_def v)
  next
    case 3
    then show ?thesis by (simp add: quote_value_def strconv_quote_def read_value_def read_quote_body)
  qed
qed

definition field_text :: "(nat \<Rightarrow> bool) \<Rightarrow> string \<times> string \<Rightarrow> string" where
  "field_text printable kv = CHR '' '' # fst kv @ CHR ''='' # quote_value printable (snd kv)"

lemma read_fields_text:
  "\<forall>kv \<in> set kvs. CHR ''='' \<notin> set (fst kv) \<Longrightarrow> read_fields (concat (map (field_text printable) kvs)) = Some kvs"
proof (induction kvs)
  case (Cons kv kvs)
  obtain k v where kv: "kv = (k, v)" by fastforce
  let ?t = "concat (map (field_text printable) kvs)"
  have t: "?t = [] \<or> hd ?t = CHR '' ''" by (cases kvs) (simp_all add: field_text_def)
  have "strings_cut (CHR ''='') (k @ CHR ''='' # quote_value printable v @ ?t) = (k, quote_value printable v @ ?t, True)"
    using Cons.prems kv by (intro strings_cut_found) simp
  moreover have "concat (map (field_text printable) (kv # kvs)) = CHR '' '' # k @ CHR ''='' # quote_value printable v @ ?t"
    by (simp add: kv field_text_def)
  moreover have "read_fields ?t = Some kvs" using Cons by simp
  ultimately show ?case using kv by (simp only: read_fields.simps(2) prod.case read_value_quote [OF t] option.case) simp
qed simp

lemma add_field_text: "buf \<noteq> [] \<Longrightarrow> add_field printable True kv buf = buf @ field_text printable kv"
  by (cases kv) (simp add: add_field_def add_part_def colorize_def field_text_def Let_def)

lemma fold_field_text:
  "buf \<noteq> [] \<Longrightarrow> fold (\<lambda>x. add_field printable True (f x)) xs buf = buf @ concat (map (field_text printable) (map f xs))"
  by (induction xs arbitrary: buf) (simp_all add: add_field_text)

lemma level_text_ne: "level_text l \<noteq> []"
  by (auto simp: level_text_def split: option.splits)

lemma line_head_ne: "line_head g True p \<noteq> []"
  using level_text_ne [of "get_str g p ''level''"] by (auto simp: line_head_def add_part_def colorize_def Let_def)

text \<open>What quoting writes has no control characters, whatever the value holds.\<close>

definition visible :: "char \<Rightarrow> bool" where
  "visible c \<longleftrightarrow> 32 \<le> (of_char c :: nat) \<and> (of_char c :: nat) \<noteq> 127"

lemma visible_hex: "list_all visible (hex_digits n v)"
proof (induction n arbitrary: v)
  case (Suc n)
  have "visible (hex_nibble m)" if "m < 16" for m
    using that by (auto simp: visible_def hex_nibble_def of_char_of)
  then show ?case using Suc by simp
qed simp

lemma visible_rune: "decode_rune bs = Some (r, w) \<Longrightarrow> \<forall>b \<in> set bs. b < 256 \<Longrightarrow> list_all visible (quote_rune printable r)"
  using decode_rune_encode [of bs r w]
  by (auto simp: quote_rune_def visible_hex) (auto simp: visible_def string_of_def list_all_iff of_char_of)

lemma visible_ascii: "b < 128 \<Longrightarrow> list_all visible (quote_ascii b)"
proof -
  assume b: "b < 128"
  have c: "32 \<le> b \<and> b < 127 \<Longrightarrow> visible (char_of b)" using char_code [of b] by (simp add: visible_def)
  have e: "map_of [(7, CHR ''a''), (8, CHR ''b''), (12, CHR ''f''), (10, CHR ''n''), (13, CHR ''r''), (9, CHR ''t''), (11, CHR ''v'')] b = Some x
      \<Longrightarrow> visible x" for x by (auto simp: visible_def split: if_splits)
  have s: "visible backslash" "visible CHR ''x''" by (simp_all add: visible_def)
  show ?thesis unfolding quote_ascii_def using b c e s visible_hex
    by (auto split: option.splits)
qed

lemma visible_body: "list_all visible (quote_body printable s)"
proof (induction printable s rule: quote_body.induct)
  case (2 printable c s)
  have b: "\<forall>b \<in> set (bytes_of (c # s)). b < 256" by (auto simp: bytes_of_def)
  have x: "visible backslash" "visible CHR ''x''" by (simp_all add: visible_def)
  show ?case
  proof (cases "of_char c < (128 :: nat)")
    case True
    then show ?thesis using 2(1) visible_ascii by (simp add: quote_body.simps(2))
  next
    case False
    show ?thesis
    proof (cases "decode_rune (bytes_of (c # s))")
      case None
      then show ?thesis using 2(2) [OF False None] False x visible_hex by (simp add: quote_body.simps(2))
    next
      case (Some rw)
      obtain r w where rw: "rw = (r, w)" by fastforce
      show ?thesis using 2(3) [OF False Some rw [symmetric]] Some rw False visible_rune [OF Some [unfolded rw] b]
        by (simp add: quote_body.simps(2))
    qed
  qed
qed simp

lemma visible_value: "list_all visible (quote_value printable s)"
proof -
  have "visible quotation" by (simp add: visible_def)
  moreover have "list_all visible s" if "list_all plain_byte s"
    using that by (induction s) (simp_all add: plain_byte_def visible_def Let_def)
  ultimately show ?thesis using visible_body [of printable s] by (simp add: quote_value_def strconv_quote_def)
qed

definition log_fields :: "gjson \<Rightarrow> (json \<Rightarrow> (string \<times> json) list) \<Rightarrow> json \<Rightarrow> (string \<times> string) list" where
  "log_fields g members p =
     map (\<lambda>(k, v). (k, gj_str g v)) (filter (\<lambda>(k, _). k \<notin> {''time'', ''level'', ''message'', ''error''}) (members p))
     @ map (\<lambda>_. (''error'', gj_str g (the (map_of (members p) ''error'')))) (filter (\<lambda>(k, _). k = ''error'') (members p))"

lemma fold_errors:
  assumes "buf \<noteq> []"
  shows "fold (\<lambda>got buf. if got = ''error'' then add_field printable True (''error'', e) buf else buf) (map fst (filter (\<lambda>(k, _). k = ''error'') kvs)) buf
    = buf @ concat (map (field_text printable) (map (\<lambda>_. (''error'', e)) (filter (\<lambda>(k, _). k = ''error'') kvs)))"
  using assms by (induction kvs arbitrary: buf) (auto simp: add_field_text)

lemma console_line_text:
  assumes "gj_get g p ''error'' = map_of (members p) ''error''"
  shows "console_line g members printable True p = line_head g True p @ concat (map (field_text printable) (log_fields g members p)) @ [CHR 0x0A]"
proof -
  let ?others = "filter (\<lambda>(k, _). k \<notin> {''time'', ''level'', ''message''}) (members p)"
  have e: "escape_key ''error'' = ''error''" by (simp add: escape_key_def)
  have plain: "filter (\<lambda>(k, _). k \<notin> set trailing) ?others = filter (\<lambda>(k, _). k \<notin> {''time'', ''level'', ''message'', ''error''}) (members p)"
    unfolding filter_filter by (intro filter_cong) auto
  have def: "filter (\<lambda>(k, _). k \<in> set trailing) ?others = filter (\<lambda>(k, _). k = ''error'') (members p)"
    unfolding filter_filter by (intro filter_cong) auto
  have b1: "fold (\<lambda>(k, v). add_field printable True (k, gj_str g v)) xs (line_head g True p)
      = line_head g True p @ concat (map (field_text printable) (map (\<lambda>(k, v). (k, gj_str g v)) xs))" for xs
    using fold_field_text [OF line_head_ne, of printable "\<lambda>(k, v). (k, gj_str g v)" xs g p] by (simp add: split_def)
  have err: "map (\<lambda>_. (''error'', get_str g p ''error'')) (filter (\<lambda>(k, _). k = ''error'') (members p))
      = map (\<lambda>_. (''error'', gj_str g (the (map_of (members p) ''error'')))) (filter (\<lambda>(k, _). k = ''error'') (members p))"
  proof (cases "map_of (members p) ''error''")
    case None
    then have "filter (\<lambda>(k, _). k = ''error'') (members p) = []" by (force simp: map_of_eq_None_iff filter_empty_conv)
    then show ?thesis by simp
  next
    case (Some v)
    then show ?thesis using assms by (simp add: get_str_def)
  qed
  have ne: "line_head g True p @ t \<noteq> []" for t using line_head_ne by simp
  show ?thesis
    unfolding console_line_def Let_def plain def b1 list.map fold.simps comp_def id_def e fold_errors [OF ne] err log_fields_def by simp
qed

text \<open>
  A log line tells the fields of its event. For an event with tame keys, a line without colours
  is its head - time, level, message - followed by text that no value can break out of: it holds no
  control character, so no line break, whatever the values hold, and it reads back as the fields in
  the order they were logged, the error last, each with exactly its value. The caller is told that
  the whole event was written.
\<close>

theorem fields_read_back:
  assumes "gj_valid g p" "out (console_line g members printable True p) \<noteq> None"
    and keys: "\<forall>(k, _) \<in> set (members p). list_all plain_byte k \<and> CHR ''='' \<notin> set k"
    and first: "gj_get g p ''error'' = map_of (members p) ''error''"
  shows "\<exists>text. console_write g members printable True out p = (line_head g True p @ text @ [CHR 0x0A], Some (length p))
    \<and> list_all visible text \<and> read_fields text = Some (log_fields g members p)"
proof (intro exI conjI)
  let ?text = "concat (map (field_text printable) (log_fields g members p))"
  show "console_write g members printable True out p = (line_head g True p @ ?text @ [CHR 0x0A], Some (length p))"
    using assms(2) unfolding console_write_def Let_def console_line_text [of g p members, OF first]
    by (simp add: assms(1) split: option.splits)
  have k: "list_all plain_byte (fst kv) \<and> CHR ''='' \<notin> set (fst kv)" if "kv \<in> set (log_fields g members p)" for kv
    using keys that by (auto simp: log_fields_def plain_byte_def)
  then show "read_fields ?text = Some (log_fields g members p)" by (intro read_fields_text) blast
  have "list_all visible (field_text printable kv)" if "kv \<in> set (log_fields g members p)" for kv
  proof -
    have "visible c" if "plain_byte c" for c using that by (simp add: plain_byte_def visible_def Let_def)
    then have "list_all visible (fst kv)" using k [OF that] by (simp add: list_all_iff)
    moreover have "visible CHR '' ''" "visible CHR ''=''" by (simp_all add: visible_def)
    ultimately show ?thesis using visible_value [of printable "snd kv"] by (simp add: field_text_def)
  qed
  then show "list_all visible ?text" unfolding list_all_iff by auto
qed

text \<open>An error with a line break, logged before a name with a space in it.\<close>

definition sample_log_gjson :: gjson where
  "sample_log_gjson = table_gjson [((''e'', ''level''), ''warn''), ((''e'', ''message''), ''refused''), ((''e'', ''error''), ''a'' @ [CHR 0x0A] @ ''b'')] [] []"

definition sample_members :: "json \<Rightarrow> (string \<times> json) list" where
  "sample_members p = [(''level'', ''warn''), (''error'', ''a'' @ [CHR 0x0A] @ ''b''), (''to'', ''big host''), (''message'', ''refused'')]"

theorem fields_read_back_witness:
  "\<exists>text. console_write sample_log_gjson sample_members (\<lambda>_. True) True (\<lambda>_. Some 0) ''e'' = (''WRN refused'' @ text @ [CHR 0x0A], Some 1)
     \<and> CHR 0x0A \<notin> set text \<and> read_fields text = Some [(''to'', ''big host''), (''error'', ''a'' @ [CHR 0x0A] @ ''b'')]"
proof -
  have head: "line_head sample_log_gjson True ''e'' = ''WRN refused''"
    by (simp add: line_head_def sample_log_gjson_def gjson_eval add_part_def colorize_def level_text_def Let_def)
  have log: "log_fields sample_log_gjson sample_members ''e'' = [(''to'', ''big host''), (''error'', ''a'' @ [CHR 0x0A] @ ''b'')]"
    by (simp add: log_fields_def sample_members_def sample_log_gjson_def table_gjson_def)
  have "gj_valid sample_log_gjson ''e''" "(\<lambda>_. Some (0 :: nat)) (console_line sample_log_gjson sample_members (\<lambda>_. True) True ''e'') \<noteq> None"
    "\<forall>(k, _) \<in> set (sample_members ''e''). list_all plain_byte k \<and> CHR ''='' \<notin> set k"
    "gj_get sample_log_gjson ''e'' ''error'' = map_of (sample_members ''e'') ''error''"
    by (simp_all add: sample_log_gjson_def table_gjson_def sample_members_def plain_byte_def)
  from fields_read_back [where out = "\<lambda>_. Some 0" and members = sample_members and g = sample_log_gjson and p = "''e''", OF this] obtain t where
    "console_write sample_log_gjson sample_members (\<lambda>_. True) True (\<lambda>_. Some 0) ''e'' = (''WRN refused'' @ t @ [CHR 0x0A], Some 1)"
    "list_all visible t" "read_fields t = Some [(''to'', ''big host''), (''error'', ''a'' @ [CHR 0x0A] @ ''b'')]"
    unfolding head log by auto
  then show ?thesis by (intro exI [of _ t] conjI) (auto simp: list_all_iff visible_def)
qed

end
