(* ===== verification/Metrics.thy ===== *)
theory Metrics
  imports Difflog HostCache Manager Worker
begin

text \<open>
  \<open>internal/metrics/metrics.go\<close>: the Prometheus collectors, and every place of
  \<open>cmd/gofederation-worker\<close> that reports to one. The client library panics when a collector is
  registered twice, when an observation has the wrong number of label values, and when a counter
  would fall; what the worker hands it is modelled, the library is not. A collector is known by the
  Go variable that holds it.
\<close>

section \<open>The collectors\<close>

text \<open>The buckets of a histogram are \<open>None\<close> for the library's default ones.\<close>

datatype collector_kind = CounterKind | GaugeKind | HistogramKind "rat list option"

record collector =
  co_name :: string
  co_kind :: collector_kind
  co_labels :: "string list"

definition state_collectors :: "(string \<times> collector) list" where
  "state_collectors =
     [(''BuildInfo'', \<lparr>co_name = ''gofed_build_info'', co_kind = GaugeKind, co_labels = [''tag'', ''commit'', ''build_time'']\<rparr>),
      (''ShadowMode'', \<lparr>co_name = ''gofed_shadow_mode'', co_kind = GaugeKind, co_labels = []\<rparr>),
      (''DatabaseReadOnly'', \<lparr>co_name = ''gofed_database_read_only'', co_kind = GaugeKind, co_labels = []\<rparr>),
      (''ReplicationLive'', \<lparr>co_name = ''gofed_replication_live'', co_kind = GaugeKind, co_labels = []\<rparr>),
      (''StateGroupCacheEntries'', \<lparr>co_name = ''gofed_state_group_cache_entries'', co_kind = GaugeKind, co_labels = []\<rparr>),
      (''StateGroupCache'', \<lparr>co_name = ''gofed_state_group_cache_total'', co_kind = CounterKind, co_labels = [''result'']\<rparr>),
      (''RateLimited'', \<lparr>co_name = ''gofed_rate_limited_total'', co_kind = CounterKind, co_labels = [''destination'']\<rparr>),
      (''EDUsDropped'', \<lparr>co_name = ''gofed_edus_dropped_total'', co_kind = CounterKind, co_labels = [''destination'']\<rparr>),
      (''ReplicationRows'', \<lparr>co_name = ''gofed_replication_rows_total'', co_kind = CounterKind, co_labels = [''stream'']\<rparr>),
      (''StreamPosition'', \<lparr>co_name = ''gofed_stream_position'', co_kind = GaugeKind, co_labels = [''stream'']\<rparr>)]"

definition pipeline_collectors :: "(string \<times> collector) list" where
  "pipeline_collectors =
     [(''EventsProcessed'', \<lparr>co_name = ''gofed_events_processed_total'', co_kind = CounterKind, co_labels = []\<rparr>),
      (''EventsSkipped'', \<lparr>co_name = ''gofed_events_skipped_total'', co_kind = CounterKind, co_labels = [''reason'']\<rparr>),
      (''EventsRouted'', \<lparr>co_name = ''gofed_events_routed_total'', co_kind = CounterKind, co_labels = []\<rparr>),
      (''DestinationsPerEvent'', \<lparr>co_name = ''gofed_destinations_per_event'', co_kind = HistogramKind (Some [1, 2, 5, 10, 25, 50, 100, 250, 500, 1000, 2500]), co_labels = []\<rparr>),
      (''ApproximateRoutes'', \<lparr>co_name = ''gofed_approximate_routes_total'', co_kind = CounterKind, co_labels = [''cause'']\<rparr>)]"

definition database_collectors :: "(string \<times> collector) list" where
  "database_collectors =
     [(''DBQueryDuration'', \<lparr>co_name = ''gofed_db_query_duration_seconds'', co_kind = HistogramKind (Some [1 / 2000, 1 / 1000, 1 / 400, 1 / 200, 1 / 100, 1 / 40, 1 / 20, 1 / 10, 1 / 4, 1 / 2, 1, 5 / 2, 5, 10, 30]), co_labels = [''pool'', ''query'']\<rparr>),
      (''DBQueries'', \<lparr>co_name = ''gofed_db_queries_total'', co_kind = CounterKind, co_labels = [''pool'', ''query'', ''outcome'']\<rparr>),
      (''DBPoolConns'', \<lparr>co_name = ''gofed_db_pool_conns'', co_kind = GaugeKind, co_labels = [''pool'', ''state'']\<rparr>),
      (''DBPoolAcquireWaitSeconds'', \<lparr>co_name = ''gofed_db_pool_acquire_wait_seconds'', co_kind = GaugeKind, co_labels = [''pool'']\<rparr>),
      (''DBPoolEmptyAcquires'', \<lparr>co_name = ''gofed_db_pool_empty_acquires_total'', co_kind = GaugeKind, co_labels = [''pool'']\<rparr>)]"

definition queue_collectors :: "(string \<times> collector) list" where
  "queue_collectors =
     [(''BatchDuration'', \<lparr>co_name = ''gofed_batch_duration_seconds'', co_kind = HistogramKind None, co_labels = []\<rparr>),
      (''QueuedDestinations'', \<lparr>co_name = ''gofed_queued_destinations'', co_kind = GaugeKind, co_labels = []\<rparr>),
      (''QueuedPDUs'', \<lparr>co_name = ''gofed_queued_pdus'', co_kind = GaugeKind, co_labels = []\<rparr>),
      (''QueuedEDUs'', \<lparr>co_name = ''gofed_queued_edus'', co_kind = GaugeKind, co_labels = []\<rparr>),
      (''KnownDestinations'', \<lparr>co_name = ''gofed_known_destinations'', co_kind = GaugeKind, co_labels = []\<rparr>),
      (''Transactions'', \<lparr>co_name = ''gofed_transactions_total'', co_kind = CounterKind, co_labels = []\<rparr>),
      (''TransactionPDUs'', \<lparr>co_name = ''gofed_transaction_pdus_total'', co_kind = CounterKind, co_labels = []\<rparr>),
      (''PresenceStatesSent'', \<lparr>co_name = ''gofed_presence_states_sent_total'', co_kind = CounterKind, co_labels = []\<rparr>),
      (''TransactionEDUsByType'', \<lparr>co_name = ''gofed_transaction_edus_by_type_total'', co_kind = CounterKind, co_labels = [''type'']\<rparr>),
      (''TransactionEDUs'', \<lparr>co_name = ''gofed_transaction_edus_total'', co_kind = CounterKind, co_labels = []\<rparr>),
      (''TransactionBytes'', \<lparr>co_name = ''gofed_transaction_bytes_total'', co_kind = CounterKind, co_labels = []\<rparr>)]"

definition performance_collectors :: "(string \<times> collector) list" where
  "performance_collectors =
     [(''EventProcessingLag'', \<lparr>co_name = ''gofed_event_processing_lag_seconds'', co_kind = HistogramKind (Some [1 / 200, 1 / 100, 1 / 40, 1 / 20, 1 / 10, 1 / 4, 1 / 2, 1, 5 / 2, 5, 10, 30, 60]), co_labels = []\<rparr>),
      (''StageDuration'', \<lparr>co_name = ''gofed_stage_duration_seconds'', co_kind = HistogramKind (Some [1 / 2000, 1 / 1000, 1 / 400, 1 / 200, 1 / 100, 1 / 40, 1 / 20, 1 / 10, 1 / 4, 1 / 2, 1, 5 / 2, 5, 10, 30]), co_labels = [''stage'']\<rparr>),
      (''FanOutDuration'', \<lparr>co_name = ''gofed_fanout_duration_seconds'', co_kind = HistogramKind (Some [1 / 10000, 1 / 2000, 1 / 1000, 1 / 200, 1 / 100, 1 / 20, 1 / 10, 1 / 2, 1, 5]), co_labels = []\<rparr>),
      (''SendDuration'', \<lparr>co_name = ''gofed_send_duration_seconds'', co_kind = HistogramKind (Some [1 / 100, 1 / 20, 1 / 10, 1 / 4, 1 / 2, 1, 5 / 2, 5, 10, 30, 60]), co_labels = [''outcome'']\<rparr>),
      (''InFlightSends'', \<lparr>co_name = ''gofed_in_flight_sends'', co_kind = GaugeKind, co_labels = []\<rparr>),
      (''DestinationGoroutines'', \<lparr>co_name = ''gofed_destination_goroutines'', co_kind = GaugeKind, co_labels = []\<rparr>),
      (''DestinationsBackingOff'', \<lparr>co_name = ''gofed_destinations_backing_off'', co_kind = GaugeKind, co_labels = []\<rparr>),
      (''WriteOps'', \<lparr>co_name = ''gofed_write_operations_total'', co_kind = CounterKind, co_labels = [''operation'', ''outcome'']\<rparr>)]"

definition declared :: "(string \<times> collector) list" where
  "declared = state_collectors @ pipeline_collectors @ database_collectors @ queue_collectors @ performance_collectors"

text \<open>\<open>All\<close>, and the descriptions of the shadow's collector, after their prefix.\<close>

definition all_collectors :: "string list" where
  "all_collectors =
     [''BuildInfo'', ''ShadowMode'', ''DatabaseReadOnly'', ''ReplicationLive'', ''ReplicationRows'', ''StreamPosition'',
      ''EDUsDropped'', ''RateLimited'', ''StateGroupCache'', ''StateGroupCacheEntries'', ''EventsProcessed'', ''EventsSkipped'',
      ''EventsRouted'', ''DestinationsPerEvent'', ''ApproximateRoutes'', ''BatchDuration'', ''DBQueryDuration'', ''DBQueries'',
      ''DBPoolConns'', ''DBPoolAcquireWaitSeconds'', ''DBPoolEmptyAcquires'', ''QueuedDestinations'', ''QueuedPDUs'', ''QueuedEDUs'',
      ''KnownDestinations'', ''Transactions'', ''TransactionPDUs'', ''TransactionEDUs'', ''TransactionEDUsByType'', ''PresenceStatesSent'',
      ''TransactionBytes'', ''EventProcessingLag'', ''StageDuration'', ''FanOutDuration'', ''SendDuration'', ''InFlightSends'',
      ''DestinationGoroutines'', ''WriteOps'', ''DestinationsBackingOff'']"

definition shadow_descs :: "(string \<times> string list) list" where
  "shadow_descs =
     [(''since_seconds'', []), (''restarts_total'', []), (''events_examined_total'', []), (''events_routed_total'', []),
      (''events_skipped_total'', [''reason'']), (''destinations_resolved_total'', []), (''destinations_ours_total'', []),
      (''approximate_routes_total'', [''cause'']), (''rescinded_invites_total'', []), (''transactions_total'', []),
      (''pdus_total'', []), (''edus_total'', [])]"

text \<open>The names registered when the worker starts, in order.\<close>

definition registered_names :: "bool \<Rightarrow> string list" where
  "registered_names shadow =
     map (\<lambda>v. co_name (the (map_of declared v))) all_collectors
     @ (if shadow then map (\<lambda>d. ''gofed_shadow_'' @ fst d) shadow_descs else [])"

section \<open>The reports\<close>

definition register_metrics :: "string \<Rightarrow> string \<Rightarrow> string \<Rightarrow> bool \<Rightarrow> metric list" where
  "register_metrics tag commit build shadow =
     [Gauged ''BuildInfo'' [tag, commit, build] 1, Gauged ''ShadowMode'' [] (if shadow then 1 else 0)]"

record pool_stat =
  ps_acquired :: int
  ps_idle :: int
  ps_total :: int
  ps_max :: int
  ps_wait :: duration
  ps_empty :: int

definition sample_pool :: "string \<Rightarrow> pool_stat option \<Rightarrow> metric list" where
  "sample_pool name st =
     (case st of None \<Rightarrow> []
      | Some s \<Rightarrow> [Gauged ''DBPoolConns'' [name, ''acquired''] (ps_acquired s), Gauged ''DBPoolConns'' [name, ''idle''] (ps_idle s),
          Gauged ''DBPoolConns'' [name, ''total''] (ps_total s), Gauged ''DBPoolConns'' [name, ''max''] (ps_max s),
          Gauged ''DBPoolAcquireWaitSeconds'' [name] (ps_wait s), Gauged ''DBPoolEmptyAcquires'' [name] (ps_empty s)])"

text \<open>
  One tick of \<open>sampleGauges\<close>. The two optional pools are \<open>None\<close> where the worker has none, as is a
  pool that has no statistics; \<open>streams\<close> are the streams with a position, in the order walked.
\<close>

definition sample_gauges ::
  "int \<Rightarrow> manager \<Rightarrow> host_cache option \<Rightarrow> pool_stat option \<Rightarrow> pool_stat option \<Rightarrow> pool_stat option \<Rightarrow> limiter \<Rightarrow> subscriber \<Rightarrow> string list \<Rightarrow> metric list" where
  "sample_gauges now_ms m hosts db writer cursors limr sub streams =
     (case pending_totals m of (dests, pdus, edus) \<Rightarrow>
        [Gauged ''QueuedDestinations'' [] (int dests), Gauged ''QueuedPDUs'' [] (int pdus), Gauged ''QueuedEDUs'' [] (int edus),
         Gauged ''KnownDestinations'' [] (int (queue_count m))]
        @ (case hosts of None \<Rightarrow> [] | Some c \<Rightarrow> [Gauged ''StateGroupCacheEntries'' [] (int (length (hc_lru c)))])
        @ sample_pool ''synapse'' db @ sample_pool ''synapse_write'' writer @ sample_pool ''state'' cursors
        @ [Gauged ''DestinationsBackingOff'' [] (int (backoff_count now_ms limr)),
           Gauged ''ReplicationLive'' [] (if sb_live sub then 1 else 0)]
        @ map (\<lambda>s. Gauged ''StreamPosition'' [s] (stream_position sub s)) streams)"

text \<open>The tick flushes the shadow record too, as does the end of the task.\<close>

definition flush_record ::
  "(totals \<Rightarrow> 'c) \<Rightarrow> 'c flush_answer \<Rightarrow> difflog option \<Rightarrow> 'c stats_files \<Rightarrow> difflog option \<times> 'c stats_files" where
  "flush_record enc a diff fs = (case diff of None \<Rightarrow> (None, fs) | Some w \<Rightarrow> fst (flush_difflog enc a w fs))"

definition on_batch :: "duration \<Rightarrow> metric list" where
  "on_batch took = [Observed ''BatchDuration'' [] took]"

definition read_only_metric :: "bool \<Rightarrow> metric list" where
  "read_only_metric ro = [Gauged ''DatabaseReadOnly'' [] (if ro then 1 else 0)]"

definition rows_metric :: "string \<Rightarrow> replication_row list \<Rightarrow> metric list" where
  "rows_metric stream rows = [Metric ''ReplicationRows'' [stream] (int (length rows))]"

definition lookup_metric :: "bool \<Rightarrow> metric list" where
  "lookup_metric hit = [Metric ''StateGroupCache'' [if hit then ''hit'' else ''miss''] 1]"

definition dropped_metric :: "string \<Rightarrow> nat \<Rightarrow> metric list" where
  "dropped_metric destination n = [Metric ''EDUsDropped'' [destination] (int n)]"

definition throttled_metric :: "string \<Rightarrow> metric list" where
  "throttled_metric destination = [Metric ''RateLimited'' [destination] 1]"

definition send_metric :: "string \<Rightarrow> duration \<Rightarrow> metric list" where
  "send_metric result took = [Observed ''SendDuration'' [result] took]"

definition in_flight_metric :: "int \<Rightarrow> metric list" where
  "in_flight_metric delta = [Shifted ''InFlightSends'' delta]"

text \<open>The writes of the worker's bookkeeping; each answers what it counts.\<close>

definition write_op :: "string \<Rightarrow> bool \<Rightarrow> metric" where
  "write_op op ok = Metric ''WriteOps'' [op, if ok then ''ok'' else ''error''] 1"

definition edus_delivered_ops :: "bool \<Rightarrow> bool \<Rightarrow> int \<Rightarrow> int \<Rightarrow> worker \<Rightarrow> metric list" where
  "edus_delivered_ops delete_ok mark_ok to_device_mark device_list_mark wk =
     (if \<not> wk_writer wk then []
      else (if to_device_mark > 0 then [write_op ''delete_to_device'' delete_ok] else [])
        @ (if device_list_mark > 0 then [write_op ''mark_devices_sent'' mark_ok] else []))"

definition delivered_ops :: "bool \<Rightarrow> worker \<Rightarrow> metric list" where
  "delivered_ops ok wk = (if \<not> wk_writer wk then [] else [write_op ''last_successful_ordering'' ok])"

definition record_routes_ops :: "bool \<Rightarrow> worker \<Rightarrow> metric list" where
  "record_routes_ops ok wk = (if \<not> wk_writer wk then [] else [write_op ''destination_rooms'' ok])"

definition record_position_ops :: "bool \<Rightarrow> worker \<Rightarrow> metric list" where
  "record_position_ops ok wk = (if \<not> wk_writer wk then [] else [write_op ''federation_stream_position'' ok])"

definition persist_timings_ops :: "bool \<Rightarrow> worker \<Rightarrow> metric list" where
  "persist_timings_ops own_ok wk = (if \<not> wk_writer wk \<or> wk_own wk = None then [] else [write_op ''retry_timings'' own_ok])"

section \<open>Every report fits its collector\<close>

definition counter_arity :: "string \<Rightarrow> nat option" where
  "counter_arity v = (case map_of declared v of Some c \<Rightarrow> (if co_kind c = CounterKind then Some (length (co_labels c)) else None) | None \<Rightarrow> None)"

definition gauge_arity :: "string \<Rightarrow> nat option" where
  "gauge_arity v = (case map_of declared v of Some c \<Rightarrow> (if co_kind c = GaugeKind then Some (length (co_labels c)) else None) | None \<Rightarrow> None)"

definition histogram_arity :: "string \<Rightarrow> nat option" where
  "histogram_arity v = (case map_of declared v of
       Some c \<Rightarrow> (case co_kind c of HistogramKind _ \<Rightarrow> Some (length (co_labels c)) | _ \<Rightarrow> None) | None \<Rightarrow> None)"

fun metric_name :: "metric \<Rightarrow> string" where
  "metric_name (Metric v _ _) = v"
| "metric_name (Observed v _ _) = v"
| "metric_name (Gauged v _ _) = v"
| "metric_name (Shifted v _) = v"

text \<open>The collector is declared, of the right kind, with as many labels; a counter does not fall.\<close>

fun metric_fits :: "metric \<Rightarrow> bool" where
  "metric_fits (Metric v ls n) \<longleftrightarrow> counter_arity v = Some (length ls) \<and> 0 \<le> n"
| "metric_fits (Observed v ls _) \<longleftrightarrow> histogram_arity v = Some (length ls)"
| "metric_fits (Gauged v ls _) \<longleftrightarrow> gauge_arity v = Some (length ls)"
| "metric_fits (Shifted v _) \<longleftrightarrow> gauge_arity v = Some 0"

lemma declared_arity [simp]:
  "gauge_arity ''BuildInfo'' = Some 3"
  "gauge_arity ''ShadowMode'' = Some 0"
  "gauge_arity ''DatabaseReadOnly'' = Some 0"
  "gauge_arity ''ReplicationLive'' = Some 0"
  "gauge_arity ''StateGroupCacheEntries'' = Some 0"
  "counter_arity ''StateGroupCache'' = Some 1"
  "counter_arity ''RateLimited'' = Some 1"
  "counter_arity ''EDUsDropped'' = Some 1"
  "counter_arity ''ReplicationRows'' = Some 1"
  "gauge_arity ''StreamPosition'' = Some 1"
  "counter_arity ''EventsProcessed'' = Some 0"
  "counter_arity ''EventsSkipped'' = Some 1"
  "counter_arity ''EventsRouted'' = Some 0"
  "histogram_arity ''DestinationsPerEvent'' = Some 0"
  "counter_arity ''ApproximateRoutes'' = Some 1"
  "histogram_arity ''DBQueryDuration'' = Some 2"
  "counter_arity ''DBQueries'' = Some 3"
  "gauge_arity ''DBPoolConns'' = Some 2"
  "gauge_arity ''DBPoolAcquireWaitSeconds'' = Some 1"
  "gauge_arity ''DBPoolEmptyAcquires'' = Some 1"
  "histogram_arity ''BatchDuration'' = Some 0"
  "gauge_arity ''QueuedDestinations'' = Some 0"
  "gauge_arity ''QueuedPDUs'' = Some 0"
  "gauge_arity ''QueuedEDUs'' = Some 0"
  "gauge_arity ''KnownDestinations'' = Some 0"
  "counter_arity ''Transactions'' = Some 0"
  "counter_arity ''TransactionPDUs'' = Some 0"
  "counter_arity ''PresenceStatesSent'' = Some 0"
  "counter_arity ''TransactionEDUsByType'' = Some 1"
  "counter_arity ''TransactionEDUs'' = Some 0"
  "counter_arity ''TransactionBytes'' = Some 0"
  "histogram_arity ''EventProcessingLag'' = Some 0"
  "histogram_arity ''StageDuration'' = Some 1"
  "histogram_arity ''FanOutDuration'' = Some 0"
  "histogram_arity ''SendDuration'' = Some 1"
  "gauge_arity ''InFlightSends'' = Some 0"
  "gauge_arity ''DestinationGoroutines'' = Some 0"
  "gauge_arity ''DestinationsBackingOff'' = Some 0"
  "counter_arity ''WriteOps'' = Some 2"
  by code_simp+

text \<open>All the places that report.\<close>

datatype worker_report =
    Registers string string string bool
  | Connects bool
  | Samples int manager "host_cache option" "pool_stat option" "pool_stat option" "pool_stat option" limiter subscriber "string list"
  | Receives string "replication_row list"
  | Skips skip_reason
  | Routes instant string "string list" "string list" fallback_reason
  | Batches duration
  | Stages string duration
  | Lags int instant
  | Counts int int int
  | CountsTypes "(string \<times> int) list" int
  | Queries string string duration bool
  | LooksUp bool
  | Drops string nat
  | Throttles string
  | Sends string duration
  | Flies int
  | EdusDelivered bool bool int int worker
  | Delivers bool worker
  | RecordsRoutes bool worker
  | RecordsPosition bool worker
  | PersistsTimings bool worker

fun report_metrics :: "worker_report \<Rightarrow> metric list" where
  "report_metrics (Registers tag commit build shadow) = register_metrics tag commit build shadow"
| "report_metrics (Connects ro) = read_only_metric ro"
| "report_metrics (Samples now m hosts db writer cursors l sub streams) = sample_gauges now m hosts db writer cursors l sub streams"
| "report_metrics (Receives stream rows) = rows_metric stream rows"
| "report_metrics (Skips reason) = fst (on_event_skipped reason None)"
| "report_metrics (Routes now event all ours fb) = fst (on_event_routed now event all ours fb None)"
| "report_metrics (Batches took) = on_batch took"
| "report_metrics (Stages stage took) = on_stage stage took"
| "report_metrics (Lags received now) = on_event_lag received now"
| "report_metrics (Counts pdus edus bytes) = fst (count_transaction pdus edus bytes None)"
| "report_metrics (CountsTypes by_type states) = observe_edu_types by_type states"
| "report_metrics (Queries pool query took ok) = db_observer pool query took ok"
| "report_metrics (LooksUp hit) = lookup_metric hit"
| "report_metrics (Drops destination n) = dropped_metric destination n"
| "report_metrics (Throttles destination) = throttled_metric destination"
| "report_metrics (Sends result took) = send_metric result took"
| "report_metrics (Flies delta) = in_flight_metric delta"
| "report_metrics (EdusDelivered a b td dl wk) = edus_delivered_ops a b td dl wk"
| "report_metrics (Delivers ok wk) = delivered_ops ok wk"
| "report_metrics (RecordsRoutes ok wk) = record_routes_ops ok wk"
| "report_metrics (RecordsPosition ok wk) = record_position_ops ok wk"
| "report_metrics (PersistsTimings ok wk) = persist_timings_ops ok wk"

text \<open>What is counted in a transaction is a number of things.\<close>

fun counts_things :: "worker_report \<Rightarrow> bool" where
  "counts_things (Counts pdus edus bytes) \<longleftrightarrow> 0 \<le> pdus \<and> 0 \<le> edus \<and> 0 \<le> bytes"
| "counts_things (CountsTypes by_type states) \<longleftrightarrow> list_all (\<lambda>(_, n). 0 \<le> n) by_type"
| "counts_things _ \<longleftrightarrow> True"

lemmas report_defs = register_metrics_def read_only_metric_def sample_gauges_def sample_pool_def rows_metric_def on_event_skipped_def
  on_event_routed_def on_batch_def on_stage_def on_event_lag_def count_transaction_def observe_edu_types_def db_observer_def
  lookup_metric_def dropped_metric_def throttled_metric_def send_metric_def in_flight_metric_def edus_delivered_ops_def write_op_def
  delivered_ops_def record_routes_ops_def record_position_ops_def persist_timings_ops_def

lemma report_fits: "counts_things r \<Longrightarrow> list_all metric_fits (report_metrics r)"
  by (cases r) (auto simp: report_defs list_all_iff Let_def split: option.splits prod.splits)

lemma in_all_collectors [simp]:
  "''BuildInfo'' \<in> set all_collectors"
  "''ShadowMode'' \<in> set all_collectors"
  "''DatabaseReadOnly'' \<in> set all_collectors"
  "''ReplicationLive'' \<in> set all_collectors"
  "''ReplicationRows'' \<in> set all_collectors"
  "''StreamPosition'' \<in> set all_collectors"
  "''EDUsDropped'' \<in> set all_collectors"
  "''RateLimited'' \<in> set all_collectors"
  "''StateGroupCache'' \<in> set all_collectors"
  "''StateGroupCacheEntries'' \<in> set all_collectors"
  "''EventsProcessed'' \<in> set all_collectors"
  "''EventsSkipped'' \<in> set all_collectors"
  "''EventsRouted'' \<in> set all_collectors"
  "''DestinationsPerEvent'' \<in> set all_collectors"
  "''ApproximateRoutes'' \<in> set all_collectors"
  "''BatchDuration'' \<in> set all_collectors"
  "''DBQueryDuration'' \<in> set all_collectors"
  "''DBQueries'' \<in> set all_collectors"
  "''DBPoolConns'' \<in> set all_collectors"
  "''DBPoolAcquireWaitSeconds'' \<in> set all_collectors"
  "''DBPoolEmptyAcquires'' \<in> set all_collectors"
  "''QueuedDestinations'' \<in> set all_collectors"
  "''QueuedPDUs'' \<in> set all_collectors"
  "''QueuedEDUs'' \<in> set all_collectors"
  "''KnownDestinations'' \<in> set all_collectors"
  "''Transactions'' \<in> set all_collectors"
  "''TransactionPDUs'' \<in> set all_collectors"
  "''TransactionEDUs'' \<in> set all_collectors"
  "''TransactionEDUsByType'' \<in> set all_collectors"
  "''PresenceStatesSent'' \<in> set all_collectors"
  "''TransactionBytes'' \<in> set all_collectors"
  "''EventProcessingLag'' \<in> set all_collectors"
  "''StageDuration'' \<in> set all_collectors"
  "''FanOutDuration'' \<in> set all_collectors"
  "''SendDuration'' \<in> set all_collectors"
  "''InFlightSends'' \<in> set all_collectors"
  "''WriteOps'' \<in> set all_collectors"
  "''DestinationsBackingOff'' \<in> set all_collectors"
  by code_simp+

lemma report_names: "m \<in> set (report_metrics r) \<Longrightarrow> metric_name m \<in> set all_collectors \<and> metric_name m \<noteq> ''DestinationGoroutines''"
  by (cases r) (auto simp: report_defs Let_def split: option.splits prod.splits if_splits)

text \<open>One report of each kind.\<close>

definition counting_worker :: worker where
  "counting_worker = \<lparr>wk_writer = True, wk_primary = True, wk_name = ''w'',
     wk_db = \<lparr>db_events = [], db_destinations = Map.empty, db_destination_rooms = [], db_outbox = [], db_pokes = [],
        db_last_success = Map.empty, db_out_pos = Map.empty\<rparr>, wk_own = None\<rparr>"

definition sample_reports :: "worker_report list" where
  "sample_reports =
     [Registers ''v1'' ''c'' ''t'' True, Connects True,
      Samples 0 (new_manager \<lparr>max_pdus = 0, max_edus = 0\<rparr> \<lparr>max_states = 0, max_wait = 0\<rparr> 0) (Some (new_host_cache 0))
        (Some \<lparr>ps_acquired = 0, ps_idle = 0, ps_total = 0, ps_max = 4, ps_wait = 0, ps_empty = 0\<rparr>) None None
        (new_limiter \<lparr>min_interval = 1, multiplier = 2, max_interval = 3\<rparr> None False) (new_subscriber ''w'' True) [''events''],
      Receives ''events'' [], Skips SkipRejected, Routes 0 ''e'' [''a''] [''a''] FallbackForkedDAG, Batches 1, Stages ''fanout'' 1, Lags 1 (2 * second),
      Counts 1 1 1, CountsTypes [(''m.typing'', 1)] 1, Queries ''state'' ''other'' 1 True, LooksUp True, Drops ''a'' 1, Throttles ''a'',
      Sends ''ok'' 1, Flies 1, Delivers True counting_worker]"

lemma sample_report_names:
  "map (\<lambda>r. map metric_name (report_metrics r)) sample_reports =
     [[''BuildInfo'', ''ShadowMode''], [''DatabaseReadOnly''],
      [''QueuedDestinations'', ''QueuedPDUs'', ''QueuedEDUs'', ''KnownDestinations'', ''StateGroupCacheEntries'', ''DBPoolConns'', ''DBPoolConns'',
       ''DBPoolConns'', ''DBPoolConns'', ''DBPoolAcquireWaitSeconds'', ''DBPoolEmptyAcquires'', ''DestinationsBackingOff'', ''ReplicationLive'',
       ''StreamPosition''],
      [''ReplicationRows''], [''EventsProcessed'', ''EventsSkipped''],
      [''EventsProcessed'', ''EventsRouted'', ''DestinationsPerEvent'', ''ApproximateRoutes''], [''BatchDuration''],
      [''StageDuration'', ''FanOutDuration''], [''EventProcessingLag''],
      [''Transactions'', ''TransactionPDUs'', ''TransactionEDUs'', ''TransactionBytes''], [''TransactionEDUsByType'', ''PresenceStatesSent''],
      [''DBQueryDuration'', ''DBQueries''], [''StateGroupCache''], [''EDUsDropped''], [''RateLimited''], [''SendDuration''], [''InFlightSends''],
      [''WriteOps'']]"
  by (simp add: sample_reports_def report_defs counting_worker_def pending_totals_def new_manager_def Let_def)

lemma sample_names: "v \<in> set all_collectors \<Longrightarrow> v \<noteq> ''DestinationGoroutines'' \<Longrightarrow> \<exists>r. v \<in> metric_name ` set (report_metrics r)"
proof -
  assume v: "v \<in> set all_collectors" "v \<noteq> ''DestinationGoroutines''"
  have "list_all (\<lambda>v. v = ''DestinationGoroutines'' \<or> v \<in> set (concat
     [[''BuildInfo'', ''ShadowMode''], [''DatabaseReadOnly''],
      [''QueuedDestinations'', ''QueuedPDUs'', ''QueuedEDUs'', ''KnownDestinations'', ''StateGroupCacheEntries'', ''DBPoolConns'', ''DBPoolConns'',
       ''DBPoolConns'', ''DBPoolConns'', ''DBPoolAcquireWaitSeconds'', ''DBPoolEmptyAcquires'', ''DestinationsBackingOff'', ''ReplicationLive'',
       ''StreamPosition''],
      [''ReplicationRows''], [''EventsProcessed'', ''EventsSkipped''],
      [''EventsProcessed'', ''EventsRouted'', ''DestinationsPerEvent'', ''ApproximateRoutes''], [''BatchDuration''],
      [''StageDuration'', ''FanOutDuration''], [''EventProcessingLag''],
      [''Transactions'', ''TransactionPDUs'', ''TransactionEDUs'', ''TransactionBytes''], [''TransactionEDUsByType'', ''PresenceStatesSent''],
      [''DBQueryDuration'', ''DBQueries''], [''StateGroupCache''], [''EDUsDropped''], [''RateLimited''], [''SendDuration''], [''InFlightSends''],
      [''WriteOps'']])) all_collectors"
    by code_simp
  then have "v \<in> set (concat (map (\<lambda>r. map metric_name (report_metrics r)) sample_reports))"
    using v unfolding sample_report_names list_all_iff by blast
  then show ?thesis by auto
qed

lemma registered_distinct: "distinct (registered_names shadow)"
proof -
  have "distinct (map (\<lambda>v. co_name (the (map_of declared v))) all_collectors @ map (\<lambda>d. ''gofed_shadow_'' @ fst d) shadow_descs)"
    by code_simp
  then show ?thesis by (auto simp: registered_names_def)
qed

definition buckets_rise :: "collector \<Rightarrow> bool" where
  "buckets_rise c = (case co_kind c of HistogramKind (Some bs) \<Rightarrow> sorted_wrt (<) bs | _ \<Rightarrow> True)"

lemma declared_buckets: "list_all (\<lambda>(_, c). buckets_rise c) declared"
  by (simp add: declared_def state_collectors_def pipeline_collectors_def database_collectors_def queue_collectors_def
      performance_collectors_def buckets_rise_def)

lemma all_declared: "set all_collectors = fst ` set declared \<and> distinct all_collectors"
proof -
  have "set all_collectors = set (map fst declared)" by code_simp
  moreover have "distinct all_collectors" by code_simp
  ultimately show ?thesis by simp
qed

text \<open>
  Reporting never stops the worker. Every name is registered once, the shadow's collector
  included, and the buckets of every histogram rise; and every report any part of the worker makes
  goes to a registered collector of the right kind, with as many label values as it declares, and
  never takes a counter back. Every collector is reported to by some part, but for the count of
  transmission loops, which nothing ever sets.
\<close>

theorem metrics_fit:
  assumes "counts_things r"
  shows "list_all metric_fits (report_metrics r)
    \<and> distinct (registered_names shadow) \<and> list_all (\<lambda>(_, c). buckets_rise c) declared
    \<and> set all_collectors = fst ` set declared \<and> distinct all_collectors
    \<and> {v. \<exists>r. v \<in> metric_name ` set (report_metrics r)} = set all_collectors - {''DestinationGoroutines''}"
proof (intro conjI)
  show "list_all metric_fits (report_metrics r)" by (rule report_fits) (rule assms)
  show "distinct (registered_names shadow)" by (rule registered_distinct)
  show "list_all (\<lambda>(_, c). buckets_rise c) declared" by (rule declared_buckets)
  show "set all_collectors = fst ` set declared" "distinct all_collectors" using all_declared by blast+
  show "{v. \<exists>r. v \<in> metric_name ` set (report_metrics r)} = set all_collectors - {''DestinationGoroutines''}"
  proof (intro equalityI subsetI)
    fix v
    assume "v \<in> {v. \<exists>r. v \<in> metric_name ` set (report_metrics r)}"
    then obtain r m where m: "m \<in> set (report_metrics r)" "v = metric_name m" by blast
    show "v \<in> set all_collectors - {''DestinationGoroutines''}" using report_names [OF m(1)] m(2) by simp
  next
    fix v
    assume "v \<in> set all_collectors - {''DestinationGoroutines''}"
    then have "v \<in> set all_collectors" "v \<noteq> ''DestinationGoroutines''" by simp_all
    from sample_names [OF this] show "v \<in> {v. \<exists>r. v \<in> metric_name ` set (report_metrics r)}" by simp
  qed
qed

theorem metrics_fit_witness:
  "list_all metric_fits [Metric ''Transactions'' [] 1, Metric ''TransactionPDUs'' [] 50, Metric ''TransactionEDUs'' [] 100, Metric ''TransactionBytes'' [] 9000]"
  using metrics_fit [of "Counts 50 100 9000" True] by (simp add: count_transaction_def)

end
