(* ===== verification/FedCompare.thy ===== *)
theory FedCompare
  imports CaptureLog Console
begin

text \<open>
  \<open>cmd/fedcompare/main.go\<close>: two capture files compared for one destination, the report and the exit
  status. \<open>time.Parse\<close> and \<open>Format\<close> for RFC 3339 and the JSON encoder of the result are arguments;
  the zero time is \<open>None\<close>. A file is its bytes, \<open>None\<close> when it cannot be opened. Padding counts bytes:
  EDU types are ASCII. A line of the report is a string without its line break.
\<close>

record compare_options =
  op_destination :: string
  op_since :: string
  op_until :: string
  op_prefix :: string
  op_by_event :: bool
  op_json :: bool

datatype compare_error = UnreadableSynapse | UnreadableWorker | BadSince | BadUntil | BadBody | NotPrinted

definition tool_window :: "gjson \<Rightarrow> bool \<Rightarrow> cap_record list \<Rightarrow> cap_record list \<Rightarrow> capture_window" where
  "tool_window g by_event synapse worker = (if by_event then overlap_by_event_time g synapse worker else overlap_window synapse worker)"

text \<open>The window with the bounds given, then our own transactions excluded, then the window again.\<close>

definition compare_records ::
  "tools \<Rightarrow> (string \<Rightarrow> instant option option) \<Rightarrow> compare_options \<Rightarrow> cap_record list \<Rightarrow> cap_record list \<Rightarrow> compare_error + diff \<times> nat" where
  "compare_records t parse opts synapse worker =
     (let w0 = tool_window (tl_gjson t) (op_by_event opts) synapse worker
      in case (if op_since opts = [] then Some w0 else map_option (\<lambda>b. w0\<lparr>win_since := b\<rparr>) (parse (op_since opts))) of
           None \<Rightarrow> Inl BadSince
         | Some w1 \<Rightarrow>
      (case (if op_until opts = [] then Some w1 else map_option (\<lambda>b. w1\<lparr>win_until := b\<rparr>) (parse (op_until opts))) of
           None \<Rightarrow> Inl BadUntil
         | Some w2 \<Rightarrow>
      (case exclude_our_own (op_prefix opts) synapse of
         (rest, own) \<Rightarrow>
           (let w = (if op_since opts = [] \<and> op_until opts = [] then tool_window (tl_gjson t) (op_by_event opts) rest worker else w2)
            in case compare_captures t (op_destination opts) w rest worker of
                 None \<Rightarrow> Inl BadBody
               | Some d \<Rightarrow> Inr (d, own)))))"

section \<open>The report\<close>

definition edu_note :: "string \<Rightarrow> string" where
  "edu_note ty =
     (case map_of
        [(''m.direct_to_device'', ''content comes from device_federation_outbox and must match''),
         (''m.device_list_update'', ''content is built from the device tables; ours is deliberately incomplete in phase 1''),
         (''m.signing_key_update'', ''content is the user'' @ [CHR 0x27] @ ''s cross-signing keys''),
         (''org.matrix.signing_key_update'', ''the pre-stabilisation name, sent alongside the stable one for servers that predate it''),
         (''m.receipt'', ''batched by arrival, so the grouping differs between senders even when the receipts do not''),
         (''m.typing'', ''a snapshot of who was typing when the transaction was built''),
         (''m.presence'', ''a snapshot of presence when the transaction was built'')] ty of
      None \<Rightarrow> [] | Some n \<Rightarrow> n)"

definition pad_right :: "nat \<Rightarrow> string \<Rightarrow> string" where
  "pad_right n s = s @ replicate (n - length s) CHR '' ''"

abbreviation dec :: "nat \<Rightarrow> string" where "dec n \<equiv> format_int (int n)"

definition truncate :: "string \<Rightarrow> string" where
  "truncate s = (if length s \<le> 200 then s else take 200 s @ ''...'')"

text \<open>The first lines of a list, and how many are left out.\<close>

definition first_lines :: "nat \<Rightarrow> ('a \<Rightarrow> string list) \<Rightarrow> 'a list \<Rightarrow> string list" where
  "first_lines n show xs =
     concat (map show (take n xs)) @ (if n < length xs then [''    ... and '' @ dec (length xs - n) @ '' more''] else [])"

definition window_line :: "(instant option \<Rightarrow> string) \<Rightarrow> capture_window \<Rightarrow> string" where
  "window_line rfc3339 w =
     (if win_since w = None \<and> win_until w = None then ''window: unbounded -- one of the captures has no timestamps''
      else ''window: '' @ rfc3339 (win_since w) @ '' .. '' @ rfc3339 (win_until w) @ ''  (by ''
        @ (if win_by_event_time w then ''event timestamps'' else ''processed'') @ ''; the period BOTH captures cover)'')"

definition edu_lines :: "edu_diff \<Rightarrow> string list" where
  "edu_lines e =
     (let head = ''  '' @ pad_right 24 (ed_type e) @ '' synapse='' @ pad_right 4 (dec (ed_synapse e)) @ '' worker='' @ pad_right 4 (dec (ed_worker e));
          note = edu_note (ed_type e)
      in if \<not> ed_implemented e then [head @ ''  NOT IMPLEMENTED by this worker'']
         else if \<not> ed_comparable e then [head @ ''  (content not comparable: '' @ note @ '')'']
         else (head @ ''  content: both='' @ dec (ed_both e) @ '' only-synapse='' @ dec (length (ed_only_synapse e))
                 @ '' only-worker='' @ dec (length (ed_only_worker e)))
              # (if note \<noteq> [] then [''      note: '' @ note] else []))"

definition verdict_lines :: "diff \<Rightarrow> string list" where
  "verdict_lines d =
     (if diff_inconclusive d then
        (''INCONCLUSIVE: '' @ dec (df_compared d) @ '' PDUs were compared.'')
        # (if capture_window_empty (df_window d) then
             [''The two captures cover disjoint periods, so there is nothing'',
              ''they both observed. If one of them is a replay of history rather than'',
              ''a live follow, window on the events instead: -by-event-time''] else [])
      else if diff_agreed d then [''PDUs agree ('' @ dec (df_compared d) @ '' compared).'']
      else [''PDUs DISAGREE ('' @ dec (df_compared d) @ '' compared).''])"

definition report_lines :: "(instant option \<Rightarrow> string) \<Rightarrow> string \<Rightarrow> diff \<Rightarrow> nat \<Rightarrow> nat \<Rightarrow> string list" where
  "report_lines rfc3339 destination d syn_skipped work_skipped =
     (if destination \<noteq> [] then [''destination: '' @ destination] else [])
     @ [window_line rfc3339 (df_window d),
        ''transactions: synapse='' @ dec (df_synapse_transactions d) @ '' worker='' @ dec (df_worker_transactions d)
          @ ''  (framing is not comparable; see the docs)'']
     @ (if syn_skipped > 0 \<or> work_skipped > 0
        then [''unparseable lines skipped: synapse='' @ dec syn_skipped @ '' worker='' @ dec work_skipped] else [])
     @ [[], ''PDUs'', ''  delivered by both : '' @ dec (df_both d), ''  only synapse sent : '' @ dec (length (df_only_synapse d)),
        ''  only we sent      : '' @ dec (length (df_only_worker d)), ''  bytes differ      : '' @ dec (length (df_differing d))]
     @ (if df_by_content d > 0
        then [''  ('' @ dec (df_by_content d) @ '' PDUs carried no event_id and were matched on a content hash,'',
              ''   so a MISSING and an EXTRA may be one event whose content differs)''] else [])
     @ first_lines 10 (\<lambda>r. [''    MISSING '' @ snd r]) (df_only_synapse d)
     @ first_lines 10 (\<lambda>r. [''    EXTRA   '' @ snd r]) (df_only_worker d)
     @ first_lines 3 (\<lambda>p. [''    DIFFERS '' @ pd_event p, ''      synapse: '' @ truncate (pd_synapse p), ''      ours:    '' @ truncate (pd_worker p)])
         (df_differing d)
     @ [[], ''EDUs''] @ (if df_edus d = [] then [''  none on either side''] else []) @ concat (map edu_lines (df_edus d))
     @ [[]] @ verdict_lines d"

text \<open>\<open>run\<close>: the exit status and what is printed. \<open>encode\<close> is the JSON document, \<open>None\<close> when it cannot be written.\<close>

definition compare_tool ::
  "tools \<Rightarrow> (string \<Rightarrow> cap_record option) \<Rightarrow> (string \<Rightarrow> instant option option) \<Rightarrow> (nat \<Rightarrow> bool)
     \<Rightarrow> (instant option \<Rightarrow> string) \<Rightarrow> (diff \<Rightarrow> string option)
     \<Rightarrow> compare_options \<Rightarrow> string option \<Rightarrow> string option \<Rightarrow> compare_error + nat \<times> string list" where
  "compare_tool t dec_line parse printable rfc3339 encode opts synapse worker =
     (case map_option (read_capture dec_line) synapse of
        Some (syn, syn_skipped, False) \<Rightarrow>
          (case map_option (read_capture dec_line) worker of
             Some (ours, work_skipped, False) \<Rightarrow>
               (case compare_records t parse opts syn ours of
                  Inl e \<Rightarrow> Inl e
                | Inr (d, own) \<Rightarrow>
                    (if op_json opts then
                       (case encode d of None \<Rightarrow> Inl NotPrinted | Some doc \<Rightarrow> Inr (exit_code d, [doc]))
                     else Inr (exit_code d,
                       (if own > 0 then [''excluded '' @ dec own @ '' of our own transactions from the synapse capture (prefix '' @ strconv_quote printable (op_prefix opts) @ '')''] else [])
                       @ report_lines rfc3339 (op_destination opts) d syn_skipped work_skipped)))
           | _ \<Rightarrow> Inl UnreadableWorker)
      | _ \<Rightarrow> Inl UnreadableSynapse)"

section \<open>What decides the outcome\<close>

lemma exclude_idem [simp]: "exclude_our_own p (fst (exclude_our_own p rs)) = (fst (exclude_our_own p rs), 0)"
  by (simp add: exclude_our_own_def)

lemma tool_window_by_event [simp]: "win_by_event_time (tool_window g b syn ours) = b"
  by (simp add: tool_window_def overlap_by_event_time_def overlap_window_def overlap_of_def split: option.split prod.split)

lemma window_eqI: "win_since v = win_since w \<Longrightarrow> win_until v = win_until w \<Longrightarrow> win_by_event_time v = win_by_event_time w \<Longrightarrow> v = (w :: capture_window)"
  by (cases v; cases w) simp

text \<open>With both bounds given, nothing of the derived window is left.\<close>

lemma bounds_replace: "(tool_window g b s w)\<lparr>win_since := x, win_until := y\<rparr> = (tool_window g b s' w)\<lparr>win_since := x, win_until := y\<rparr>"
  by (rule window_eqI) simp_all

lemma compare_records_own:
  assumes "op_since opts = [] \<longleftrightarrow> op_until opts = []"
  shows "map_sum id fst (compare_records t parse opts synapse worker)
    = map_sum id fst (compare_records t parse opts (fst (exclude_our_own (op_prefix opts) synapse)) worker)"
proof -
  obtain rest own where e: "exclude_our_own (op_prefix opts) synapse = (rest, own)" by fastforce
  then have k: "exclude_our_own (op_prefix opts) rest = (rest, 0)" using exclude_idem [of "op_prefix opts" synapse] by simp
  show ?thesis
  proof (cases "op_since opts = []")
    case True
    then show ?thesis using assms by (simp add: compare_records_def e k Let_def split: option.splits)
  next
    case False
    show ?thesis
    proof (cases "parse (op_since opts) = None \<or> parse (op_until opts) = None")
      case True
      then show ?thesis using False assms by (auto simp: compare_records_def Let_def split: option.splits)
    next
      case parsed: False
      then obtain x y where xy: "parse (op_since opts) = Some x" "parse (op_until opts) = Some y" by auto
      define w where "w = (tool_window (tl_gjson t) (op_by_event opts) synapse worker)\<lparr>win_since := x, win_until := y\<rparr>"
      have w: "(tool_window (tl_gjson t) (op_by_event opts) s worker)\<lparr>win_since := x, win_until := y\<rparr> = w" for s
        unfolding w_def by (rule bounds_replace)
      show ?thesis using False assms xy by (simp add: compare_records_def e k Let_def w split: option.splits)
    qed
  qed
qed

lemma exit_code_verdict:
  "exit_code d = 0 \<longleftrightarrow> verdict_lines d = [''PDUs agree ('' @ dec (df_compared d) @ '' compared).'']"
  "exit_code d = 1 \<longleftrightarrow> verdict_lines d = [''PDUs DISAGREE ('' @ dec (df_compared d) @ '' compared).'']"
  by (auto simp: exit_code_def verdict_lines_def)

text \<open>
  Our own transactions do not decide the comparison. With both bounds of the window given, or
  neither, fedcompare ends on a capture as it would if our own transactions had never reached the
  recorder - with the same status and, as JSON, the same document. And whenever it reports, the last
  lines are the verdict its exit status stands for: 0 agreement, 1 disagreement, 2 nothing compared.
\<close>

theorem own_sends_do_not_count:
  assumes "read_capture dec_line syn = (rs, n, False)" "read_capture dec_line syn' = (fst (exclude_our_own (op_prefix opts) rs), n', False)"
    "op_since opts = [] \<longleftrightarrow> op_until opts = []"
  shows "map_sum id fst (compare_tool t dec_line parse printable rfc3339 encode opts (Some syn) worker)
      = map_sum id fst (compare_tool t dec_line parse printable rfc3339 encode opts (Some syn') worker)
    \<and> (op_json opts \<longrightarrow> compare_tool t dec_line parse printable rfc3339 encode opts (Some syn) worker
      = compare_tool t dec_line parse printable rfc3339 encode opts (Some syn') worker)
    \<and> (case compare_tool t dec_line parse printable rfc3339 encode opts (Some syn) worker of
         Inl e \<Rightarrow> True
       | Inr (code, lines) \<Rightarrow> op_json opts \<or> (\<exists>front d. lines = front @ verdict_lines d \<and> code = exit_code d
           \<and> verdict_lines d =
               (if code = 2 then verdict_lines d else if code = 1 then [''PDUs DISAGREE ('' @ dec (df_compared d) @ '' compared).'']
                else [''PDUs agree ('' @ dec (df_compared d) @ '' compared).''])))"
proof -
  have verdict: "verdict_lines d =
      (if exit_code d = 2 then verdict_lines d else if exit_code d = 1 then [''PDUs DISAGREE ('' @ dec (df_compared d) @ '' compared).'']
       else [''PDUs agree ('' @ dec (df_compared d) @ '' compared).''])" for d
    by (simp add: exit_code_def verdict_lines_def)
  have ends: "\<exists>front. report_lines rfc3339 dest d a b = front @ verdict_lines d" for dest d a b
    unfolding report_lines_def by (intro exI) (simp only: append_assoc [symmetric])
  obtain w where w: "map_option (read_capture dec_line) worker = w" by simp
  show ?thesis
  proof (cases "\<exists>ours m. w = Some (ours, m, False)")
    case False
    then have "compare_tool t dec_line parse printable rfc3339 encode opts (Some s) worker = Inl UnreadableWorker"
      if "read_capture dec_line s = (xs, k, False)" for s xs k
      using that by (auto simp: compare_tool_def w split: option.splits prod.splits bool.splits)
    then show ?thesis using assms(1,2) by simp
  next
    case True
    then obtain ours m where o: "w = Some (ours, m, False)" by blast
    note own = compare_records_own [OF assms(3), of t parse rs ours]
    show ?thesis
    proof (cases "compare_records t parse opts rs ours")
      case (Inl e)
      then have "compare_records t parse opts (fst (exclude_our_own (op_prefix opts) rs)) ours = Inl e"
        using own by (cases "compare_records t parse opts (fst (exclude_our_own (op_prefix opts) rs)) ours") auto
      then show ?thesis using Inl assms(1,2) o by (simp add: compare_tool_def w)
    next
      case (Inr p)
      obtain d k where p: "p = (d, k)" by fastforce
      then obtain k' where r: "compare_records t parse opts (fst (exclude_our_own (op_prefix opts) rs)) ours = Inr (d, k')"
        using own Inr by (cases "compare_records t parse opts (fst (exclude_our_own (op_prefix opts) rs)) ours") auto
      obtain front where f: "report_lines rfc3339 (op_destination opts) d n m = front @ verdict_lines d" using ends by blast
      show ?thesis
      proof (cases "op_json opts")
        case True
        then show ?thesis using Inr p r assms(1,2) o by (simp add: compare_tool_def w split: option.split)
      next
        case False
        let ?own = "\<lambda>k. if k > 0 then [''excluded '' @ dec k @ '' of our own transactions from the synapse capture (prefix ''
          @ strconv_quote printable (op_prefix opts) @ '')''] else []"
        have out: "compare_tool t dec_line parse printable rfc3339 encode opts (Some syn) worker = Inr (exit_code d, ?own k @ report_lines rfc3339 (op_destination opts) d n m)"
          using Inr p assms(1) o False by (simp add: compare_tool_def w)
        have out': "map_sum id fst (compare_tool t dec_line parse printable rfc3339 encode opts (Some syn') worker) = Inr (exit_code d)"
          using r assms(2) o False by (simp add: compare_tool_def w)
        have "\<exists>front d'. ?own k @ report_lines rfc3339 (op_destination opts) d n m = front @ verdict_lines d' \<and> exit_code d = exit_code d'
           \<and> verdict_lines d' =
               (if exit_code d = 2 then verdict_lines d' else if exit_code d = 1 then [''PDUs DISAGREE ('' @ dec (df_compared d') @ '' compared).'']
                else [''PDUs agree ('' @ dec (df_compared d') @ '' compared).''])"
          by (rule exI [of _ "?own k @ front"], rule exI [of _ d]) (intro conjI verdict refl, simp only: f append_assoc)
        then show ?thesis unfolding out sum.case prod.case using out' False by simp
      qed
    qed
  qed
qed

text \<open>A recorder that also saw one transaction of ours, long before Synapse's one.\<close>

definition own_record :: cap_record where
  "own_record = (sample_record ''t1'' 1)\<lparr>cr_txn_id := ''gofed-1''\<rparr>"

definition sample_lines :: "string \<Rightarrow> cap_record option" where
  "sample_lines l = map_of [(''a'', own_record), (''b'', sample_record ''t3'' 5)] l"

definition options_until :: "string \<Rightarrow> compare_options" where
  "options_until u = \<lparr>op_destination = [], op_since = [], op_until = u, op_prefix = ''gofed-'', op_by_event = False, op_json = False\<rparr>"

theorem own_sends_do_not_count_witness:
  "map_sum id fst (compare_tool sample_tools sample_lines (\<lambda>_. None) (\<lambda>_. True) (\<lambda>_. []) (\<lambda>_. None) (options_until [])
      (Some (''a'' @ newline # ''b'' @ [newline])) (Some (''b'' @ [newline])))
    = map_sum id fst (compare_tool sample_tools sample_lines (\<lambda>_. None) (\<lambda>_. True) (\<lambda>_. []) (\<lambda>_. None) (options_until [])
        (Some (''b'' @ [newline])) (Some (''b'' @ [newline])))"
proof -
  have a: "read_capture sample_lines (''a'' @ newline # ''b'' @ [newline]) = ([own_record, sample_record ''t3'' 5], 0, False)"
    by (simp add: read_capture_def scan_lines_def sample_lines_def drop_cr_def Let_def)
  have b: "read_capture sample_lines (''b'' @ [newline]) = (fst (exclude_our_own (op_prefix (options_until [])) [own_record, sample_record ''t3'' 5]), 0, False)"
    by (simp add: read_capture_def scan_lines_def sample_lines_def drop_cr_def Let_def exclude_our_own_def options_until_def has_prefix_def
        own_record_def sample_record_def)
  have "op_since (options_until []) = [] \<longleftrightarrow> op_until (options_until []) = []" by (simp add: options_until_def)
  from own_sends_do_not_count [OF a b this] show ?thesis by blast
qed

text \<open>
  With only one bound given, the other one is still derived from our own transactions. Here Synapse
  and the worker agree on everything the two captures have in common, and the transaction of ours
  moves the window back to an event only the worker's capture covers. And a recorder that saw
  nothing at all is a disagreement, not an inconclusive comparison.
\<close>

theorem one_bound_counts_own:
  "map_sum id (exit_code \<circ> fst) (compare_records sample_tools (\<lambda>_. Some (Some 9)) (options_until ''9'')
      [own_record, sample_record ''t3'' 5] [sample_record ''t2'' 3, sample_record ''t3'' 5]) = Inr 1
   \<and> map_sum id (exit_code \<circ> fst) (compare_records sample_tools (\<lambda>_. Some (Some 9)) (options_until ''9'')
      [sample_record ''t3'' 5] [sample_record ''t2'' 3, sample_record ''t3'' 5]) = Inr 0
   \<and> map_sum id (exit_code \<circ> fst) (compare_records sample_tools (\<lambda>_. None) (options_until []) [] [sample_record ''t3'' 5]) = Inr 1"
proof -
  obtain x1 where i1: "identify sample_tools ''p1'' = (''$1'', x1)"
    by (simp add: identify_def identify_canonical_def sample_tools_def canonical_def gjson_eval Let_def)
  obtain x2 where i2: "identify sample_tools ''p2'' = (''$2'', x2)"
    by (simp add: identify_def identify_canonical_def sample_tools_def canonical_def gjson_eval Let_def)
  have c: "canonical sample_tools p = p" for p by (simp add: canonical_def sample_tools_def)
  have d: "tl_decode sample_tools ''t2'' = Some ([''p2''], [])" "tl_decode sample_tools ''t3'' = Some ([''p1''], [(''m.direct_to_device'', ''c'')])"
    by (simp_all add: sample_tools_def)
  have p: "exclude_our_own ''gofed-'' [own_record, sample_record b 5] = ([sample_record b 5], 1)"
    "exclude_our_own ''gofed-'' [sample_record b 5] = ([sample_record b 5], 0)" "exclude_our_own ''gofed-'' [] = ([], 0)" for b
    by (simp_all add: exclude_our_own_def has_prefix_def own_record_def sample_record_def)
  have r: "cr_time (sample_record b s) = Some s" "cr_body (sample_record b s) = b" "cr_time own_record = Some 1" for b s
    by (simp_all add: sample_record_def own_record_def)
  have w: "tool_window g False [own_record, sample_record b 5] [sample_record b' 3, sample_record b 5] = \<lparr>win_since = Some 3, win_until = Some 5, win_by_event_time = False\<rparr>"
    "tool_window g False [sample_record b 5] [sample_record b' 3, sample_record b 5] = \<lparr>win_since = Some 5, win_until = Some 5, win_by_event_time = False\<rparr>"
    "tool_window g False [] rs = \<lparr>win_since = None, win_until = None, win_by_event_time = False\<rparr>" for g b b' rs
    by (simp_all add: tool_window_def overlap_window_def overlap_of_def time_range_def List.map_filter_simps range_step_def r)
  show ?thesis
    by (simp add: compare_records_def options_until_def p w Let_def compare_captures_def r d capture_window_contains_def pdu_in_window_def add_pdu_def i1 i2 c
        compare_maps_def exit_code_def diff_inconclusive_def diff_agreed_def capture_window_empty_def split: option.split)
qed

end
