(* ===== verification/Lifecycle.thy ===== *)
theory Lifecycle
  imports Startup Metrics
begin

text \<open>
  \<open>cmd/gofederation-worker/run.go\<close>: what the worker announces, and its life from the start of the
  tasks to the end of the last one. The tasks are an \<open>errgroup\<close>: the first that returns an error
  cancels the context of all, and \<open>Wait\<close> answers that error when every task has returned. The
  transmission loops are not tasks of the group: they count on after it has ended.
\<close>

section \<open>What the worker announces\<close>

definition comma_list :: "string list \<Rightarrow> string" where
  "comma_list xs = (case xs of [] \<Rightarrow> [] | x # ys \<Rightarrow> x @ concat (map (\<lambda>y. '', '' @ y) ys))"

definition router_mode :: "router \<Rightarrow> string" where
  "router_mode r =
     (if rt_all r then ''http (REALLY SENDING to ALL destinations)''
      else if rt_allowed r = [] then ''dry-run (no destination is on the send allowlist)''
      else ''REALLY SENDING to '' @ comma_list (router_allowed r) @ ''; every other destination is dry-run'')"

definition sink_mode :: "resolved \<Rightarrow> string" where
  "sink_mode r = (case worker_router r of Some rt \<Rightarrow> router_mode rt | None \<Rightarrow> ''dry-run (shadow; nothing is sent)'')"

text \<open>The line after the first: a shadow, everything, or the list of destinations.\<close>

datatype announcement = SaysShadow | SaysEverything | SaysOnly "string list"

definition startup_line :: "resolved \<Rightarrow> announcement" where
  "startup_line r =
     (let c = re_config r in
      if shadow_enabled c then SaysShadow
      else if sh_send_to_all (wc_shadow c) then SaysEverything
      else SaysOnly (case worker_router r of None \<Rightarrow> [] | Some rt \<Rightarrow> router_allowed rt))"

lemma startup_line_sinks:
  "case startup_line r of
     SaysShadow \<Rightarrow> worker_sink r d = DrySink
   | SaysEverything \<Rightarrow> worker_sink r d = LiveSink
   | SaysOnly ds \<Rightarrow> worker_sink r d = (if d \<in> set ds then LiveSink else DrySink)"
  by (simp add: startup_line_def worker_sink_def worker_router_def router_send_def router_sends_def new_router_def router_allowed_def Let_def)

section \<open>The tasks\<close>

datatype worker_task = Subscription | Pickup | Sweeper | Sampler | KeepAlive | TypingPushes | MetricsServer

definition run_tasks :: "worker_config \<Rightarrow> worker_task list" where
  "run_tasks c =
     [Subscription, Pickup, Sweeper, Sampler, KeepAlive, TypingPushes] @ (if wc_metrics_addr c \<noteq> [] then [MetricsServer] else [])"

text \<open>How a task returned: with the error of its cancelled context, or with one of its own.\<close>

datatype stop = StopCanceled | StopFailed string

text \<open>
  The tasks that have not returned, the first error, whether a signal came, whether the pickup has
  its starting position, the shadow record with its files, and what was counted, in order.
\<close>

record 'c life =
  lf_running :: "worker_task list"
  lf_error :: "stop option"
  lf_signalled :: bool
  lf_seeded :: bool
  lf_diff :: "difflog option"
  lf_files :: "'c stats_files"
  lf_counted :: "count_op list"

definition start_life :: "worker_config \<Rightarrow> difflog option \<Rightarrow> 'c stats_files \<Rightarrow> 'c life" where
  "start_life c diff fs = \<lparr>lf_running = run_tasks c, lf_error = None, lf_signalled = False, lf_seeded = False, lf_diff = diff,
     lf_files = fs, lf_counted = []\<rparr>"

definition group_cancelled :: "'c life \<Rightarrow> bool" where
  "group_cancelled l \<longleftrightarrow> lf_signalled l \<or> lf_error l \<noteq> None"

text \<open>
  When a task returns, and with what: \<open>Subscriber.Run\<close> at once when replication is off, the pickup
  when it cannot read where to start, the server when it cannot listen, and every task when the
  group is cancelled.
\<close>

fun task_returns :: "bool \<Rightarrow> worker_task \<Rightarrow> 'c life \<Rightarrow> stop option \<Rightarrow> bool" where
  "task_returns enabled Subscription l r \<longleftrightarrow> (enabled \<longrightarrow> group_cancelled l) \<and> r = (if group_cancelled l then Some StopCanceled else None)"
| "task_returns enabled Pickup l r \<longleftrightarrow>
     (case r of None \<Rightarrow> False | Some StopCanceled \<Rightarrow> group_cancelled l | Some (StopFailed e) \<Rightarrow> \<not> lf_seeded l)"
| "task_returns enabled MetricsServer l r \<longleftrightarrow>
     (case r of None \<Rightarrow> False | Some StopCanceled \<Rightarrow> group_cancelled l | Some (StopFailed e) \<Rightarrow> True)"
| "task_returns enabled t l r \<longleftrightarrow> group_cancelled l \<and> r = Some StopCanceled"

definition leave :: "worker_task \<Rightarrow> stop option \<Rightarrow> 'c life \<Rightarrow> 'c life" where
  "leave t r l = l\<lparr>lf_running := remove1 t (lf_running l), lf_error := (if lf_error l = None then r else lf_error l)\<rparr>"

text \<open>A flush by \<open>sampleGauges\<close>, on its tick or on the way out.\<close>

definition sampler_flush :: "(totals \<Rightarrow> 'c) \<Rightarrow> 'c flush_answer \<Rightarrow> 'c life \<Rightarrow> 'c life" where
  "sampler_flush enc a l = (case flush_record enc a (lf_diff l) (lf_files l) of (diff, fs) \<Rightarrow> l\<lparr>lf_diff := diff, lf_files := fs\<rparr>)"

inductive worker_step :: "bool \<Rightarrow> (totals \<Rightarrow> 'c) \<Rightarrow> 'c life \<Rightarrow> 'c life \<Rightarrow> bool" for enabled enc where
  signalled: "worker_step enabled enc l (l\<lparr>lf_signalled := True\<rparr>)"
| seeded: "Pickup \<in> set (lf_running l) \<Longrightarrow> worker_step enabled enc l (l\<lparr>lf_seeded := True\<rparr>)"
| counted: "lf_diff l = Some w \<Longrightarrow> worker_step enabled enc l (l\<lparr>lf_diff := Some (record_op now op w), lf_counted := lf_counted l @ [op]\<rparr>)"
| ticked: "Sampler \<in> set (lf_running l) \<Longrightarrow> \<not> kills a \<Longrightarrow> worker_step enabled enc l (sampler_flush enc a l)"
| sampler_returned: "Sampler \<in> set (lf_running l) \<Longrightarrow> \<not> kills a \<Longrightarrow> task_returns enabled Sampler l r
    \<Longrightarrow> worker_step enabled enc l (leave Sampler r (sampler_flush enc a l))"
| returned: "t \<in> set (lf_running l) \<Longrightarrow> t \<noteq> Sampler \<Longrightarrow> task_returns enabled t l r \<Longrightarrow> worker_step enabled enc l (leave t r l)"

inductive_cases worker_stepE: "worker_step enabled enc l l'"

text \<open>The answer of \<open>run\<close> when \<open>Wait\<close> returns: a cancelled context is no error.\<close>

definition run_result :: "'c life \<Rightarrow> string option" where
  "run_result l = (case lf_error l of Some (StopFailed e) \<Rightarrow> Some e | _ \<Rightarrow> None)"

section \<open>The group\<close>

lemma sampler_flush_frame [simp]:
  "lf_running (sampler_flush enc a l) = lf_running l" "lf_error (sampler_flush enc a l) = lf_error l"
  "lf_signalled (sampler_flush enc a l) = lf_signalled l" "lf_seeded (sampler_flush enc a l) = lf_seeded l"
  "lf_counted (sampler_flush enc a l) = lf_counted l" "group_cancelled (sampler_flush enc a l) = group_cancelled l"
  by (simp_all add: sampler_flush_def group_cancelled_def split: prod.split)

lemma leave_simps [simp]:
  "lf_running (leave t r l) = remove1 t (lf_running l)" "lf_error (leave t r l) = (if lf_error l = None then r else lf_error l)"
  "lf_signalled (leave t r l) = lf_signalled l" "lf_seeded (leave t r l) = lf_seeded l" "lf_diff (leave t r l) = lf_diff l"
  "lf_files (leave t r l) = lf_files l" "lf_counted (leave t r l) = lf_counted l"
  by (simp_all add: leave_def)

definition group_inv :: "bool \<Rightarrow> worker_config \<Rightarrow> 'c life \<Rightarrow> bool" where
  "group_inv enabled c l \<longleftrightarrow>
     distinct (lf_running l) \<and> set (lf_running l) \<subseteq> set (run_tasks c)
     \<and> (\<not> group_cancelled l \<longrightarrow> set (run_tasks c) - (if enabled then {} else {Subscription}) \<subseteq> set (lf_running l))
     \<and> (lf_error l = Some StopCanceled \<longrightarrow> lf_signalled l)"

lemma group_inv_leave:
  assumes "group_inv enabled c l" "t \<in> set (lf_running l)" "task_returns enabled t l r"
  shows "group_inv enabled c (leave t r l)"
proof -
  have cancel: "group_cancelled (leave t r l) \<longleftrightarrow> group_cancelled l \<or> r \<noteq> None" by (auto simp: group_cancelled_def)
  have none: "r = None \<Longrightarrow> t = Subscription \<and> \<not> enabled"
    using assms(3) by (cases t) (auto split: if_splits)
  have canceled: "r = Some StopCanceled \<Longrightarrow> group_cancelled l"
    using assms(3) by (cases t) (auto split: if_splits)
  show ?thesis
    unfolding group_inv_def cancel
    using assms(1,2) none canceled set_remove1_subset [of t "lf_running l"]
    by (auto simp: group_inv_def group_cancelled_def set_remove1_eq)
qed

lemma group_inv_step: "worker_step enabled enc l l' \<Longrightarrow> group_inv enabled c l \<Longrightarrow> group_inv enabled c l'"
proof (induction rule: worker_step.induct)
  case (sampler_returned l a r)
  have "group_inv enabled c (sampler_flush enc a l)" using sampler_returned.prems by (simp add: group_inv_def)
  then show ?case using sampler_returned.hyps by (intro group_inv_leave) auto
next
  case (returned t l r)
  then show ?case by (intro group_inv_leave) auto
qed (auto simp: group_inv_def group_cancelled_def)

lemma group_inv_start: "group_inv enabled c (start_life c diff fs)"
  by (simp add: group_inv_def start_life_def run_tasks_def group_cancelled_def)

lemma group_inv_reached: "(worker_step enabled enc)\<^sup>*\<^sup>* (start_life c diff fs) l \<Longrightarrow> group_inv enabled c l"
  by (induction rule: rtranclp_induct) (auto intro: group_inv_start group_inv_step)

text \<open>A cancelled group can always end: every task returns at its context.\<close>

lemma group_can_end: "group_cancelled l \<Longrightarrow> \<exists>l'. (worker_step enabled enc)\<^sup>*\<^sup>* l l' \<and> lf_running l' = []"
proof (induction "lf_running l" arbitrary: l)
  case Nil
  then show ?case by (intro exI [of _ l]) simp
next
  case (Cons t ts)
  define m where "m = leave t (Some StopCanceled) (if t = Sampler then sampler_flush enc Flushes l else l)"
  have lr: "lf_running l = t # ts" using Cons.hyps(2) by simp
  have ret: "task_returns enabled t l (Some StopCanceled)" using Cons.prems by (cases t) simp_all
  have "worker_step enabled enc l m"
  proof (cases "t = Sampler")
    case True
    then show ?thesis unfolding m_def using sampler_returned [of l Flushes enabled "Some StopCanceled" enc] ret lr by simp
  next
    case False
    then show ?thesis unfolding m_def using returned [of t l enabled "Some StopCanceled" enc] ret lr by simp
  qed
  moreover have "ts = lf_running m" unfolding m_def using lr by simp
  moreover have "group_cancelled m" unfolding m_def by (simp add: group_cancelled_def)
  ultimately show ?case using Cons.hyps(1) [of m] by (meson converse_rtranclp_into_rtranclp)
qed

section \<open>What was counted\<close>

definition record_inv :: "(totals \<Rightarrow> 'c) \<Rightarrow> difflog \<Rightarrow> 'c life \<Rightarrow> bool" where
  "record_inv enc w0 l \<longleftrightarrow>
     (\<exists>w. lf_diff l = Some w \<and> dl_dir w = dl_dir w0 \<and> dl_instance w = dl_instance w0
        \<and> dl_totals w = fold count_totals (lf_counted l) (dl_totals w0)
        \<and> (\<not> dl_dirty w \<longrightarrow> lf_files l (stats_path (dl_dir w0) (dl_instance w0)) = Some (enc (dl_totals w))))"

lemma tmp_is_other [simp]: "p @ ''.tmp'' \<noteq> p" by simp

lemma record_inv_flush: "record_inv enc w0 l \<Longrightarrow> \<not> kills a \<Longrightarrow> record_inv enc w0 (sampler_flush enc a l)"
  by (cases a) (auto simp: record_inv_def sampler_flush_def flush_record_def flush_difflog_def flush_locked_def Let_def)

lemma record_inv_leave [simp]: "record_inv enc w0 (leave t r l) = record_inv enc w0 l"
  by (simp add: record_inv_def)

lemma record_inv_step: "worker_step enabled enc l l' \<Longrightarrow> record_inv enc w0 l \<Longrightarrow> record_inv enc w0 l'"
proof (induction rule: worker_step.induct)
  case (counted l w now op)
  then show ?case by (auto simp: record_inv_def record_op_fields)
qed (auto simp: record_inv_flush, auto simp: record_inv_def)

lemma open_difflog_record:
  assumes "open_difflog enc dec ok readable now a dir inst every fs0 = (Some w0, fs)"
  shows "record_inv enc w0 (start_life c (Some w0) fs) \<and> dl_dir w0 = dir \<and> dl_instance w0 = inst"
  using assms
  by (cases a) (auto simp: open_difflog_def flush_locked_def record_inv_def start_life_def Let_def split: if_splits)

lemma close_writes: "record_inv enc w0 l \<Longrightarrow> lf_diff l = Some w
    \<Longrightarrow> close_difflog enc Flushes w (lf_files l) (stats_path (dl_dir w0) (dl_instance w0)) = Some (enc (dl_totals w))"
  by (auto simp: record_inv_def close_difflog_def flush_difflog_def flush_locked_def Let_def)

text \<open>
  C37. The worker stops when it is told to, and only then or with an error. From the start, through
  any interleaving of counts, flushes, a signal and returning tasks: until the group is cancelled
  every task runs, but for the subscription when replication is off; once it is cancelled the tasks
  can all return, and a run that ends without an error had been signalled. Whenever the shadow
  record is then closed, its file holds everything counted since it was opened, whichever of the
  flushes before had failed.
\<close>

theorem worker_stops_cleanly:
  assumes "open_difflog enc dec ok readable now a dir inst every fs0 = (Some w0, fs)"
    and run: "(worker_step enabled enc)\<^sup>*\<^sup>* (start_life c (Some w0) fs) l"
  shows "(\<not> group_cancelled l \<longrightarrow> set (run_tasks c) - (if enabled then {} else {Subscription}) \<subseteq> set (lf_running l))
    \<and> (group_cancelled l \<longrightarrow> (\<exists>l'. (worker_step enabled enc)\<^sup>*\<^sup>* l l' \<and> lf_running l' = []))
    \<and> (lf_running l = [] \<longrightarrow> run_result l = None \<longrightarrow> lf_signalled l)
    \<and> (\<exists>w. lf_diff l = Some w \<and> dl_totals w = fold count_totals (lf_counted l) (dl_totals w0)
         \<and> close_difflog enc Flushes w (lf_files l) (stats_path dir inst) = Some (enc (dl_totals w)))"
proof (intro conjI)
  have g: "group_inv enabled c l" using run by (rule group_inv_reached)
  note start = open_difflog_record [OF assms(1), of c]
  have r: "record_inv enc w0 l"
    using run by (induction rule: rtranclp_induct) (use start in \<open>auto intro: record_inv_step\<close>)
  show "\<not> group_cancelled l \<longrightarrow> set (run_tasks c) - (if enabled then {} else {Subscription}) \<subseteq> set (lf_running l)"
    using g by (simp add: group_inv_def)
  show "group_cancelled l \<longrightarrow> (\<exists>l'. (worker_step enabled enc)\<^sup>*\<^sup>* l l' \<and> lf_running l' = [])"
    using group_can_end by blast
  show "lf_running l = [] \<longrightarrow> run_result l = None \<longrightarrow> lf_signalled l"
  proof (intro impI)
    assume e: "lf_running l = []" "run_result l = None"
    have "Pickup \<in> set (run_tasks c) - (if enabled then {} else {Subscription})" by (simp add: run_tasks_def)
    then have "group_cancelled l" using g e(1) by (auto simp: group_inv_def)
    then show "lf_signalled l" using g e(2) by (auto simp: group_inv_def group_cancelled_def run_result_def split: option.splits stop.splits)
  qed
  show "\<exists>w. lf_diff l = Some w \<and> dl_totals w = fold count_totals (lf_counted l) (dl_totals w0)
      \<and> close_difflog enc Flushes w (lf_files l) (stats_path dir inst) = Some (enc (dl_totals w))"
    using r close_writes [OF r] start by (auto simp: record_inv_def)
qed

text \<open>A skip is counted and a signal comes.\<close>

theorem worker_stops_cleanly_witness:
  "\<exists>w0 fs l l' w. open_difflog (\<lambda>t. t) Some True True 5 Flushes ''d'' [] 0 Map.empty = (Some w0, fs)
     \<and> (worker_step True (\<lambda>t. t))\<^sup>*\<^sup>* (start_life default_config (Some w0) fs) l
     \<and> (worker_step True (\<lambda>t. t))\<^sup>*\<^sup>* l l' \<and> lf_running l' = []
     \<and> lf_diff l = Some w \<and> tt_examined (dl_totals w) = tt_examined (dl_totals w0) + 1
     \<and> close_difflog (\<lambda>t. t) Flushes w (lf_files l) (stats_path ''d'' []) = Some (dl_totals w)"
proof -
  obtain w0 fs where o: "open_difflog (\<lambda>t. t) Some True True 5 Flushes ''d'' [] 0 Map.empty = (Some w0, fs)"
    by (simp add: open_difflog_def load_totals_def flush_locked_def Let_def)
  let ?s = "start_life default_config (Some w0) fs"
  define l1 where "l1 = ?s\<lparr>lf_diff := Some (record_op 6 (CountSkip ''rejected'') w0), lf_counted := [CountSkip ''rejected'']\<rparr>"
  have "worker_step True (\<lambda>t. t) ?s l1"
    unfolding l1_def using counted [where l = ?s and w = w0 and now = 6 and op = "CountSkip ''rejected''" and enabled = True and enc = "\<lambda>t. t"] by (simp add: start_life_def)
  moreover have "worker_step True (\<lambda>t. t) l1 (l1\<lparr>lf_signalled := True\<rparr>)" by (rule signalled)
  ultimately have run: "(worker_step True (\<lambda>t. t))\<^sup>*\<^sup>* ?s (l1\<lparr>lf_signalled := True\<rparr>)" by (meson converse_rtranclp_into_rtranclp rtranclp.rtrancl_refl)
  have c: "group_cancelled (l1\<lparr>lf_signalled := True\<rparr>)" "lf_counted (l1\<lparr>lf_signalled := True\<rparr>) = [CountSkip ''rejected'']"
    by (simp_all add: group_cancelled_def l1_def)
  from worker_stops_cleanly [OF o run] c obtain l' w where
    "(worker_step True (\<lambda>t. t))\<^sup>*\<^sup>* (l1\<lparr>lf_signalled := True\<rparr>) l'" "lf_running l' = []" "lf_diff (l1\<lparr>lf_signalled := True\<rparr>) = Some w"
    "dl_totals w = fold count_totals [CountSkip ''rejected''] (dl_totals w0)"
    "close_difflog (\<lambda>t. t) Flushes w (lf_files (l1\<lparr>lf_signalled := True\<rparr>)) (stats_path ''d'' []) = Some (dl_totals w)"
    by metis
  moreover from this(4) have "tt_examined (dl_totals w) = tt_examined (dl_totals w0) + 1" by simp
  ultimately show ?thesis using o run by blast
qed

end
