(* ===== verification/Delivery.thy ===== *)
theory Delivery
  imports QueueLoop Startup
begin

text \<open>
  \<open>Destination.send\<close> of \<open>internal/queue/queue.go\<close> and what it composes: the queue of one destination
  (\<open>QueueLoop\<close>), the transaction it builds (\<open>Txn\<close>), the sink that sends it (\<open>Sink\<close>) and the limiter
  its outcome goes to (\<open>Retry\<close>, \<open>Worker\<close>). The answers that \<open>QueueLoop\<close> leaves open - the gate, the
  clock, the outcome of a send - are here computed by these parts, against a clock that only moves
  forward.
\<close>

section \<open>Sending one batch\<close>

text \<open>
  The parts of a worker a send goes through. \<open>tp_canon\<close> and the signer stand for \<open>mautrix-go\<close>,
  \<open>tp_marshal\<close> is \<open>json.Marshal\<close> of an EDU's content, done when the batch was taken.
\<close>

record transport =
  tp_canon :: "json_tree \<Rightarrow> json option"
  tp_marshal :: "content \<Rightarrow> json"
  tp_signer :: signer
  tp_gjson :: gjson
  tp_entries :: "json \<Rightarrow> (string \<times> json) list"
  tp_http :: http_sink
  tp_sink :: "string \<Rightarrow> sink_used"

definition no_stats :: sink_stats where
  "no_stats = \<lparr>ss_transactions = 0, ss_pdus = 0, ss_edus = 0, ss_bytes = 0\<rparr>"

definition sink_send :: "transport \<Rightarrow> request \<Rightarrow> (nat \<Rightarrow> attempt_world) \<Rightarrow> send_event list \<times> (send_error + send_result)" where
  "sink_send tp req w =
     (case tp_sink tp (rq_destination req) of
        LiveSink \<Rightarrow> http_send (tp_gjson tp) (tp_entries tp) (tp_http tp) w
      | DrySink \<Rightarrow> ([], Inr (snd (dry_run_send (tp_gjson tp) (rq_body req) no_stats))))"

definition taken_transaction :: "transport \<Rightarrow> instant \<Rightarrow> taken \<Rightarrow> transaction" where
  "taken_transaction tp now t =
     batch_transaction (unix_milli now) (map pdu_json (t_pdus t)) (map (\<lambda>u. (edu_type u, tp_marshal tp (edu_content u))) (t_edus t))"

text \<open>
  Answers the request if one was built, what the network answered each attempt, the error, and what
  is logged of the events the remote rejected: the event, its room, the remote's words.
\<close>

definition destination_send ::
  "transport \<Rightarrow> string \<Rightarrow> instant \<Rightarrow> (nat \<Rightarrow> attempt_world) \<Rightarrow> id_generator \<Rightarrow> taken
     \<Rightarrow> id_generator \<times> request option \<times> network list \<times> transaction_error option \<times> (string \<times> string \<times> string) list" where
  "destination_send tp name now w ids t =
     (case next_id ids of (ids', txn_id) \<Rightarrow>
        case build_request (tp_canon tp) (tp_signer tp) txn_id name (taken_transaction tp now t) of
          None \<Rightarrow> (ids', None, [], Some BuildFailed, [])
        | Some req \<Rightarrow>
            (case sink_send tp req w of (evs, res) \<Rightarrow>
               (let nets = map (\<lambda>i. aw_network (w i)) [0..<tries evs]
                in case res of
                     Inl e \<Rightarrow> (ids', Some req, nets, Some (SinkFailed e), [])
                   | Inr r \<Rightarrow>
                       if \<not> sr_delivered r then (ids', Some req, nets, Some NotDelivered, [])
                       else (ids', Some req, nets, None,
                         map (\<lambda>(eid, msg). (eid, room_of (\<lambda>j. get_str (tp_gjson tp) j ''room_id'') (t_pdus t) eid, msg)) (sr_pdu_errors r)))))"

text \<open>What the loop sees of an error, and what it means for the next dial.\<close>

definition queue_answer :: "transaction_error option \<Rightarrow> answer" where
  "queue_answer err = (case err of None \<Rightarrow> SendOk | Some e \<Rightarrow> if snd (error_rate_limited e) then SendRateLimited else SendFailed)"

datatype pause = Clear | BackOff timings | CoolDown duration

definition pause_after :: "string \<Rightarrow> limiter \<Rightarrow> transaction_error option \<Rightarrow> duration option \<Rightarrow> pause" where
  "pause_after n l err wait = (case (err, wait) of (None, _) \<Rightarrow> Clear | (Some _, Some x) \<Rightarrow> CoolDown x | (Some _, None) \<Rightarrow> BackOff (state_of l n))"

text \<open>The batch of \<open>SendCatchUp\<close>.\<close>

definition one_event :: "pdu \<Rightarrow> taken" where
  "one_event p = \<lparr>t_pdus = [p], t_edus = [], t_to_device_upto = 0, t_device_list_upto = 0\<rparr>"

section \<open>A destination with its limiter and its clock\<close>

text \<open>A dial is a call of \<open>send\<close> by the loop or by catch-up; a remote server may announce itself.\<close>

record dial =
  di_loop :: bool
  di_batch :: taken
  di_began :: instant
  di_ended :: instant
  di_request :: "request option"
  di_answers :: "network list"
  di_error :: "transaction_error option"
  di_pause :: pause

datatype history = Dialled dial | Announced

text \<open>
  \<open>dv_taken\<close> is when the last batch was taken, \<open>dv_drawn\<close> how many transaction ids were drawn, for
  this destination or another; the history has the newest first.
\<close>

record delivery =
  dv_system :: system
  dv_limiter :: limiter
  dv_ids :: id_generator
  dv_drawn :: nat
  dv_clock :: instant
  dv_taken :: instant
  dv_history :: "history list"
  dv_rejected :: "(string \<times> string \<times> string) list"

definition start_delivery :: "string \<Rightarrow> limits \<Rightarrow> batch_config \<Rightarrow> limiter \<Rightarrow> id_generator \<Rightarrow> instant \<Rightarrow> delivery" where
  "start_delivery n lims batch l ids now =
     \<lparr>dv_system = initial_system (new_destination n lims batch), dv_limiter = l, dv_ids = ids, dv_drawn = 0,
      dv_clock = now, dv_taken = now, dv_history = [], dv_rejected = []\<rparr>"

text \<open>What another destination does to the shared limiter leaves this one's entries alone.\<close>

definition same_for :: "string \<Rightarrow> limiter \<Rightarrow> limiter \<Rightarrow> bool" where
  "same_for n l l' \<longleftrightarrow> lim_cfg l' = lim_cfg l \<and> lim_state l' n = lim_state l n \<and> (n \<in> lim_loaded l' \<longleftrightarrow> n \<in> lim_loaded l)
     \<and> lim_cooldown l' n = lim_cooldown l n \<and> lim_cooldown_for l' n = lim_cooldown_for l n \<and> (n \<in> lim_refused l' \<longleftrightarrow> n \<in> lim_refused l)"

text \<open>The actions whose answer no part of the worker decides.\<close>

fun unaided :: "action \<Rightarrow> bool" where
  "unaided (Thread i a) \<longleftrightarrow> a = Proceed \<or> a = Cancelled"
| "unaided _ \<longleftrightarrow> True"

definition after_dial ::
  "bool \<Rightarrow> taken \<Rightarrow> instant \<Rightarrow> string \<Rightarrow> system \<Rightarrow> limiter \<Rightarrow> duration option
     \<Rightarrow> id_generator \<times> request option \<times> network list \<times> transaction_error option \<times> (string \<times> string \<times> string) list \<Rightarrow> delivery \<Rightarrow> delivery" where
  "after_dial by_loop t began n w l wait out d =
     (case out of (ids, req, nets, err, warned) \<Rightarrow>
        d\<lparr>dv_system := w, dv_limiter := l, dv_ids := ids, dv_drawn := Suc (dv_drawn d),
          dv_history := Dialled \<lparr>di_loop = by_loop, di_batch = t, di_began = began, di_ended = dv_clock d, di_request = req,
            di_answers = nets, di_error = err, di_pause = pause_after n l err wait\<rparr> # dv_history d,
          dv_rejected := dv_rejected d @ warned\<rparr>)"

inductive delivery_step :: "(raw_message \<Rightarrow> bool) \<Rightarrow> transport \<Rightarrow> string \<Rightarrow> delivery \<Rightarrow> delivery \<Rightarrow> bool" for valid tp n where
  time_passes: "dv_clock d \<le> now \<Longrightarrow> delivery_step valid tp n d (d\<lparr>dv_clock := now\<rparr>)"
| moves: "unaided a \<Longrightarrow> system_step valid a (dv_system d) = Some w \<Longrightarrow> delivery_step valid tp n d (d\<lparr>dv_system := w\<rparr>)"
| asks_gate: "dv_system d = (s, ts) \<Longrightarrow> i < length ts \<Longrightarrow> ts ! i = AtTop \<Longrightarrow> dv_clock d \<le> now
    \<Longrightarrow> due (dv_clock d) now ((dv_limiter d)\<lparr>lim_load := load\<rparr>) n = (l, is_open)
    \<Longrightarrow> system_step valid (Thread i (if is_open then GateOpen else GateClosed (worker_long_backoff l n))) (s, ts) = Some w
    \<Longrightarrow> delivery_step valid tp n d (d\<lparr>dv_system := w, dv_limiter := l, dv_clock := now\<rparr>)"
| takes: "dv_system d = (s, ts) \<Longrightarrow> i < length ts \<Longrightarrow> ts ! i = AtTake
    \<Longrightarrow> system_step valid (Thread i (Clock (dv_clock d))) (s, ts) = Some w
    \<Longrightarrow> delivery_step valid tp n d (d\<lparr>dv_system := w, dv_taken := dv_clock d\<rparr>)"
| loop_sends: "dv_system d = (s, ts) \<Longrightarrow> i < length ts \<Longrightarrow> ts ! i = Sending t \<Longrightarrow> dv_taken d \<le> began \<Longrightarrow> began \<le> dv_clock d
    \<Longrightarrow> destination_send tp n began world (dv_ids d) t = (ids, req, nets, err, warned)
    \<Longrightarrow> report_outcome (dv_clock d) u n err (dv_limiter d) = (l, effs, wait)
    \<Longrightarrow> system_step valid (Thread i (queue_answer err)) (s, ts) = Some w
    \<Longrightarrow> delivery_step valid tp n d (after_dial True t began n w l wait (ids, req, nets, err, warned) d)"
| catch_up_sends: "dv_system d = (s, ts) \<Longrightarrow> i < length ts \<Longrightarrow> ts ! i = CatchSending p \<Longrightarrow> began \<le> dv_clock d
    \<Longrightarrow> destination_send tp n began world (dv_ids d) (one_event p) = (ids, req, nets, err, warned)
    \<Longrightarrow> report_outcome (dv_clock d) u n err (dv_limiter d) = (l, effs, wait)
    \<Longrightarrow> system_step valid (Thread i (queue_answer err)) (s, ts) = Some w
    \<Longrightarrow> delivery_step valid tp n d (after_dial False (one_event p) began n w l wait (ids, req, nets, err, warned) d)"
| announces: "recovered (dv_limiter d) n = (l, effs)
    \<Longrightarrow> delivery_step valid tp n d (d\<lparr>dv_limiter := l, dv_history := Announced # dv_history d\<rparr>)"
| others: "same_for n (dv_limiter d) l \<Longrightarrow> delivery_step valid tp n d (d\<lparr>dv_limiter := l\<rparr>)"
| others_draw: "delivery_step valid tp n d (d\<lparr>dv_ids := fst (next_id (dv_ids d)), dv_drawn := Suc (dv_drawn d)\<rparr>)"

inductive_cases delivery_stepE: "delivery_step valid tp n d d'"

abbreviation delivery_run :: "(raw_message \<Rightarrow> bool) \<Rightarrow> transport \<Rightarrow> string \<Rightarrow> delivery \<Rightarrow> delivery \<Rightarrow> bool" where
  "delivery_run valid tp n \<equiv> (delivery_step valid tp n)\<^sup>*\<^sup>*"

section \<open>It is the queue\<close>

lemma delivery_simulates:
  "delivery_step valid tp n d d' \<Longrightarrow> dv_system d' = dv_system d \<or> (\<exists>a. system_step valid a (dv_system d) = Some (dv_system d'))"
  by (induction rule: delivery_step.induct) (auto simp: after_dial_def simp del: system_step.simps)

lemma delivery_reachable:
  "delivery_run valid tp n (start_delivery n lims batch l ids now) d \<Longrightarrow> reachable valid (new_destination n lims batch) (dv_system d)"
proof (induction rule: rtranclp_induct)
  case base
  show ?case by (simp add: start_delivery_def reachable.start)
next
  case (step d d')
  then show ?case using delivery_simulates [OF step.hyps(2)] by (auto intro: reachable.step)
qed

lemma delivery_core:
  assumes "delivery_run valid tp n (start_delivery n lims batch l ids now) d" "dv_system d = (s, ts)"
  shows "core s (filter holds ts)"
  using delivery_reachable [OF assms(1)] by (auto simp: assms(2) intro: reachable_core)

text \<open>The claim is held by one thread, so the thread that moves is the only one with work.\<close>

lemma only_holder:
  assumes "core s (filter holds ts)" "i < length ts" "holds (ts ! i)" "q \<in> set (ts[i := p])" "holds q"
  shows "q = p"
proof -
  have "length (filter holds ts) \<le> 1" using assms(1) by (simp add: core_def)
  then have f: "filter holds (ts[i := p]) = filter holds [p]" by (rule filter_update_holder(2) [OF assms(2,3)])
  have "q \<in> set (filter holds (ts[i := p]))" using assms(4,5) by simp
  then show ?thesis unfolding f by (simp split: if_splits)
qed

lemma thread_moves: "system_step valid (Thread i a) (s, ts) = Some w \<Longrightarrow>
    i < length ts \<and> (\<exists>p. thread_step valid a (ts ! i) s = Some (p, fst w) \<and> snd w = ts[i := p])"
  by (auto split: if_splits option.splits)

lemma unaided_thread: "thread_step valid a p s = Some (p', s') \<Longrightarrow> a = Proceed \<or> a = Cancelled \<Longrightarrow>
    p' \<noteq> AtTake \<and> p' \<noteq> Sending t \<and> live_wire s' = live_wire s"
  by (cases p) (auto split: answer.splits option.splits prod.splits if_splits)

lemma unaided_frame:
  assumes "unaided a" "system_step valid a (s, ts) = Some w"
  shows "(AtTake \<in> set (snd w) \<longrightarrow> AtTake \<in> set ts) \<and> (Sending t \<in> set (snd w) \<longrightarrow> Sending t \<in> set ts)
    \<and> live_wire (fst w) = live_wire s"
proof (cases a)
  case (Thread i ans)
  then obtain p where p: "thread_step valid ans (ts ! i) s = Some (p, fst w)" "snd w = ts[i := p]"
    using thread_moves assms(2) by blast
  have "p \<noteq> AtTake \<and> p \<noteq> Sending t \<and> live_wire (fst w) = live_wire s"
    using unaided_thread [OF p(1), of t] assms(1) Thread by simp
  then show ?thesis using set_update_subset_insert [of ts i p] by (auto simp: p(2))
qed (use assms in \<open>auto split: prod.splits if_splits\<close>)

section \<open>When the loop may dial\<close>

text \<open>Whether the last failure's interval is over, and whether the last rate limit's wait is.\<close>

fun backoff_over :: "history list \<Rightarrow> instant \<Rightarrow> bool" where
  "backoff_over [] now = True"
| "backoff_over (Announced # h) now = True"
| "backoff_over (Dialled x # h) now =
     (case di_pause x of Clear \<Rightarrow> True | BackOff t \<Rightarrow> unix_milli (di_ended x) + retry_interval t \<le> unix_milli now
      | CoolDown w \<Rightarrow> backoff_over h now)"

fun cooldown_over :: "history list \<Rightarrow> instant \<Rightarrow> bool" where
  "cooldown_over [] now = True"
| "cooldown_over (Announced # h) now = cooldown_over h now"
| "cooldown_over (Dialled x # h) now =
     (case di_pause x of Clear \<Rightarrow> True | BackOff t \<Rightarrow> cooldown_over h now | CoolDown w \<Rightarrow> di_ended x + w \<le> now)"

definition may_dial :: "history list \<Rightarrow> instant \<Rightarrow> bool" where
  "may_dial h now \<longleftrightarrow> backoff_over h now \<and> cooldown_over h now"

fun dials_ok :: "history list \<Rightarrow> bool" where
  "dials_ok [] = True"
| "dials_ok (Announced # h) = dials_ok h"
| "dials_ok (Dialled x # h) = ((di_loop x \<longrightarrow> may_dial h (di_began x)) \<and> dials_ok h)"

lemma unix_milli_le: "s \<le> t \<Longrightarrow> unix_milli s \<le> unix_milli t"
  by (simp add: unix_milli_def zdiv_mono1)

lemma may_dial_later: "may_dial h s \<Longrightarrow> s \<le> t \<Longrightarrow> may_dial h t"
proof -
  assume le: "s \<le> t"
  have "backoff_over h s \<longrightarrow> backoff_over h t"
  proof (induction h)
    case (Cons a h)
    then show ?case using unix_milli_le [OF le] by (cases a) (auto split: pause.splits)
  qed simp
  moreover have "cooldown_over h s \<longrightarrow> cooldown_over h t"
  proof (induction h)
    case (Cons a h)
    then show ?case using le by (cases a) (auto split: pause.splits)
  qed simp
  ultimately show "may_dial h s \<Longrightarrow> may_dial h t" by (simp add: may_dial_def)
qed

text \<open>The limiter remembers at least that much.\<close>

definition remembers :: "string \<Rightarrow> limiter \<Rightarrow> history list \<Rightarrow> bool" where
  "remembers n l h \<longleftrightarrow> (\<forall>now. (timings_due (state_of l n) (unix_milli now) \<longrightarrow> backoff_over h now)
     \<and> (off_cooldown now l n \<longrightarrow> cooldown_over h now))"

lemma remembers_cong: "state_of l' n = state_of l n \<Longrightarrow> lim_cooldown l' n = lim_cooldown l n \<Longrightarrow> remembers n l' h = remembers n l h"
  by (simp add: remembers_def off_cooldown_def)

lemma due_remembers:
  assumes "due now now' (l\<lparr>lim_load := load\<rparr>) n = (l', b)" "remembers n l h"
  shows "remembers n l' h"
proof -
  have "lim_cooldown l' = lim_cooldown l \<and> (state_of l' n = state_of l n \<or> state_of l n = zero_timings)"
    using assms(1) by (auto simp: due_def due_within_def seed_def Let_def split: if_splits option.splits)
  with assms(2) show ?thesis by (auto simp: remembers_def off_cooldown_def)
qed

lemma due_open:
  assumes "due now now' (l\<lparr>lim_load := load\<rparr>) n = (l', True)" "remembers n l h" "now \<le> now'"
  shows "may_dial h now'"
proof -
  have r: "remembers n l' h" by (rule due_remembers [OF assms(1,2)])
  have "timings_due (state_of l' n) (unix_milli now) \<and> off_cooldown now' l' n"
    using assms(1) by (auto simp: due_def due_within_def seed_def Let_def milliseconds_def go_div_def split: if_splits option.splits)
  moreover have "timings_due t (unix_milli now) \<Longrightarrow> timings_due t (unix_milli now')" for t
    using unix_milli_le [OF assms(3)] by (auto simp: timings_due_def split: if_splits)
  ultimately show ?thesis using r by (auto simp: remembers_def may_dial_def)
qed

lemma recovered_remembers:
  assumes "recovered l n = (l', effs)" "remembers n l h"
  shows "remembers n l' (Announced # h)"
proof -
  have "lim_cooldown l' = lim_cooldown l" using assms(1) by (auto simp: recovered_def Let_def split: if_splits)
  with assms(2) show ?thesis by (simp add: remembers_def off_cooldown_def)
qed

lemma report_remembers:
  assumes "report_outcome now u n err l = (l', effs, wait)" "remembers n l h" "millisecond \<le> now"
    and x: "di_ended x = now" "di_pause x = pause_after n l' err wait"
  shows "remembers n l' (Dialled x # h)"
proof (cases err)
  case None
  then have "di_pause x = Clear" by (simp add: x pause_after_def)
  then show ?thesis by (simp add: remembers_def)
next
  case (Some e)
  obtain after limited where e: "error_rate_limited e = (after, limited)" by force
  show ?thesis
  proof (cases limited)
    case True
    then have l': "state_of l' n = state_of l n" "\<exists>w. wait = Some w \<and> lim_cooldown l' n = Some (now + w)"
      using assms(1) Some e by (auto simp: report_outcome_def rate_limited_def Let_def)
    then obtain w where w: "wait = Some w" "lim_cooldown l' n = Some (now + w)" by blast
    then have "di_pause x = CoolDown w" by (simp add: x pause_after_def Some)
    then show ?thesis using assms(2) l'(1) w(2) by (simp add: remembers_def off_cooldown_def x)
  next
    case False
    then have l': "wait = None" "lim_cooldown l' = lim_cooldown l" "retry_last_ts (state_of l' n) = unix_milli now"
      using assms(1) Some e by (auto simp: report_outcome_def on_send_outcome_def refused_def failure_def fail_with_def failed_timings_def Let_def
          split: if_splits)
    then have "di_pause x = BackOff (state_of l' n)" by (simp add: x pause_after_def Some)
    moreover have "0 < unix_milli now" using assms(3) by (rule unix_milli_pos)
    ultimately show ?thesis using assms(2) l'(2,3) by (auto simp: remembers_def off_cooldown_def timings_due_def x)
  qed
qed

text \<open>The invariant: what the limiter remembers, and that a thread past the gate may dial.\<close>

definition past_gate :: "delivery \<Rightarrow> pc \<Rightarrow> bool" where
  "past_gate d p \<longleftrightarrow> (case p of AtTake \<Rightarrow> may_dial (dv_history d) (dv_clock d) | Sending t \<Rightarrow> may_dial (dv_history d) (dv_taken d) | _ \<Rightarrow> True)"

definition dial_inv :: "string \<Rightarrow> delivery \<Rightarrow> bool" where
  "dial_inv n d \<longleftrightarrow> millisecond \<le> dv_clock d \<and> remembers n (dv_limiter d) (dv_history d)
     \<and> (\<forall>p \<in> set (snd (dv_system d)). past_gate d p) \<and> dials_ok (dv_history d)"

lemma past_gate_cong: "dv_history d' = dv_history d \<Longrightarrow> dv_taken d' = dv_taken d \<Longrightarrow> dv_clock d \<le> dv_clock d' \<Longrightarrow> past_gate d p \<Longrightarrow> past_gate d' p"
  by (auto simp: past_gate_def intro: may_dial_later split: pc.splits)

text \<open>When the holder of the claim moves, only the step it took has to be looked at.\<close>

lemma past_gate_idle: "\<not> holds p \<Longrightarrow> past_gate d p"
  by (cases p) (simp_all add: past_gate_def)

lemma past_gate_mover:
  assumes "core s (filter holds ts)" "i < length ts" "holds (ts ! i)" "past_gate d p"
  shows "\<forall>q \<in> set (ts[i := p]). past_gate d q"
  using only_holder [OF assms(1-3)] assms(4) past_gate_idle by blast

lemma sending_then: "thread_step valid (queue_answer err) (Sending t) s = Some (p, s') \<Longrightarrow>
    past_gate d p \<and> live_wire s' = live_wire s @ (if err = None then [t] else [])"
  by (auto simp: queue_answer_def past_gate_def split: option.splits if_splits)

lemma catch_sending_then: "thread_step valid (queue_answer err) (CatchSending q) s = Some (p, s') \<Longrightarrow>
    past_gate d p \<and> live_wire s' = live_wire s"
  by (auto simp: queue_answer_def past_gate_def split: option.splits if_splits)

lemma dial_inv_after:
  assumes c: "core s (filter holds ts)" "dv_system d = (s, ts)" "i < length ts" "holds (ts ! i)"
    and inv: "dial_inv n d"
    and rep: "report_outcome (dv_clock d) u n err (dv_limiter d) = (l, effs, wait)"
    and mv: "snd w = ts[i := p]" "\<And>d. past_gate d p"
    and loop: "by_loop \<longrightarrow> may_dial (dv_history d) began"
  shows "dial_inv n (after_dial by_loop t began n w l wait (ids, req, nets, err, warned) d)"
proof -
  let ?d = "after_dial by_loop t began n w l wait (ids, req, nets, err, warned) d"
  have "remembers n (dv_limiter ?d) (dv_history ?d)"
    using report_remembers [OF rep, of "dv_history d"] inv by (simp add: after_dial_def dial_inv_def)
  moreover have "\<forall>q \<in> set (snd (dv_system ?d)). past_gate ?d q"
    using past_gate_mover [OF c(1,3,4) mv(2)] mv(1) by (simp add: after_dial_def)
  ultimately show ?thesis using inv loop by (simp add: dial_inv_def after_dial_def)
qed

lemma dial_inv_step:
  assumes "delivery_step valid tp n d d'" "dial_inv n d" "core (fst (dv_system d)) (filter holds (snd (dv_system d)))"
  shows "dial_inv n d'"
  using assms
proof (induction rule: delivery_step.induct)
  case (time_passes d now)
  then show ?case by (auto simp: dial_inv_def intro: past_gate_cong [of "d\<lparr>dv_clock := now\<rparr>" d])
next
  case (moves a d w)
  obtain s ts where s: "dv_system d = (s, ts)" by force
  have st: "system_step valid a (s, ts) = Some w" using moves.hyps(2) s by simp
  have "past_gate (d\<lparr>dv_system := w\<rparr>) p" if "p \<in> set (snd w)" for p
  proof -
    have "past_gate d p"
    proof (cases "p = AtTake \<or> (\<exists>t. p = Sending t)")
      case True
      then have "p \<in> set ts" using unaided_frame [OF moves.hyps(1) st] that by auto
      then show ?thesis using moves.prems(1) s by (simp add: dial_inv_def)
    next
      case False
      then show ?thesis by (cases p) (auto simp: past_gate_def)
    qed
    then show ?thesis by (rule past_gate_cong [rotated -1]) simp_all
  qed
  with moves.prems(1) show ?case by (auto simp: dial_inv_def)
next
  case (asks_gate d s ts i now load l is_open w)
  let ?d = "d\<lparr>dv_system := w, dv_limiter := l, dv_clock := now\<rparr>"
  have h: "holds (ts ! i)" using asks_gate.hyps(3) by simp
  have inv: "remembers n (dv_limiter d) (dv_history d)" using asks_gate.prems(1) by (simp add: dial_inv_def)
  have c: "core s (filter holds ts)" using asks_gate.prems(2) asks_gate.hyps(1) by simp
  obtain p where p: "thread_step valid (if is_open then GateOpen else GateClosed (worker_long_backoff l n)) AtTop s = Some (p, fst w)" "snd w = ts[i := p]"
    using thread_moves [OF asks_gate.hyps(6)] asks_gate.hyps(3) by auto
  have "past_gate ?d p"
  proof (cases is_open)
    case True
    then have "p = AtTake" using p(1) by simp
    moreover have is_open: "is_open = True" using True by simp
    have "may_dial (dv_history d) now" by (rule due_open [OF asks_gate.hyps(5) [unfolded is_open] inv asks_gate.hyps(4)])
    ultimately show ?thesis by (simp add: past_gate_def)
  next
    case False
    then show ?thesis using p(1) by (auto simp: past_gate_def split: if_splits)
  qed
  from past_gate_mover [OF c asks_gate.hyps(2) h this] have "\<forall>q \<in> set (snd w). past_gate ?d q" by (simp add: p(2))
  moreover have "remembers n l (dv_history d)" by (rule due_remembers [OF asks_gate.hyps(5) inv])
  ultimately show ?case using asks_gate.prems(1) asks_gate.hyps(4) by (simp add: dial_inv_def)
next
  case (takes d s ts i w)
  let ?d = "d\<lparr>dv_system := w, dv_taken := dv_clock d\<rparr>"
  have h: "holds (ts ! i)" using takes.hyps(3) by simp
  have c: "core s (filter holds ts)" using takes.prems(2) takes.hyps(1) by simp
  have m: "may_dial (dv_history d) (dv_clock d)"
    using takes.prems(1) takes.hyps(1-3) nth_mem [OF takes.hyps(2)] by (auto simp: dial_inv_def past_gate_def)
  obtain p where p: "snd w = ts[i := p]" using thread_moves [OF takes.hyps(4)] by auto
  have "past_gate ?d p" using m by (simp add: past_gate_def split: pc.split)
  from past_gate_mover [OF c takes.hyps(2) h this] show ?case using takes.prems(1) by (simp add: dial_inv_def p)
next
  case (loop_sends d s ts i t began world ids req nets err warned u l effs wait w)
  have h: "holds (ts ! i)" using loop_sends.hyps(3) by simp
  have c: "core s (filter holds ts)" using loop_sends.prems(2) loop_sends.hyps(1) by simp
  obtain p where p: "thread_step valid (queue_answer err) (Sending t) s = Some (p, fst w)" "snd w = ts[i := p]"
    using thread_moves [OF loop_sends.hyps(8)] loop_sends.hyps(3) by auto
  have "may_dial (dv_history d) (dv_taken d)"
    using loop_sends.prems(1) loop_sends.hyps(1-3) nth_mem [OF loop_sends.hyps(2)] by (auto simp: dial_inv_def past_gate_def)
  then have "may_dial (dv_history d) began" using loop_sends.hyps(4) by (rule may_dial_later)
  then show ?case
    by (intro dial_inv_after [OF c loop_sends.hyps(1,2) h loop_sends.prems(1) loop_sends.hyps(7) p(2)])
      (use sending_then [OF p(1)] in simp_all)
next
  case (catch_up_sends d s ts i q began world ids req nets err warned u l effs wait w)
  have h: "holds (ts ! i)" using catch_up_sends.hyps(3) by simp
  have c: "core s (filter holds ts)" using catch_up_sends.prems(2) catch_up_sends.hyps(1) by simp
  obtain p where p: "thread_step valid (queue_answer err) (CatchSending q) s = Some (p, fst w)" "snd w = ts[i := p]"
    using thread_moves [OF catch_up_sends.hyps(7)] catch_up_sends.hyps(3) by auto
  show ?case
    by (rule dial_inv_after [OF c catch_up_sends.hyps(1,2) h catch_up_sends.prems(1) catch_up_sends.hyps(6) p(2)])
      (use catch_sending_then [OF p(1)] in simp_all)
next
  case (announces d l effs)
  let ?d = "d\<lparr>dv_limiter := l, dv_history := Announced # dv_history d\<rparr>"
  have "may_dial h now \<Longrightarrow> may_dial (Announced # h) now" for h now by (simp add: may_dial_def)
  then have "past_gate d p \<Longrightarrow> past_gate ?d p" for p by (auto simp: past_gate_def split: pc.splits)
  moreover have "remembers n l (Announced # dv_history d)"
    using recovered_remembers [OF announces.hyps] announces.prems(1) by (simp add: dial_inv_def)
  ultimately show ?case using announces.prems(1) by (simp add: dial_inv_def)
next
  case (others d l)
  have "remembers n l (dv_history d) = remembers n (dv_limiter d) (dv_history d)"
    using others.hyps by (intro remembers_cong) (simp_all add: same_for_def)
  with others.prems(1) show ?case by (auto simp: dial_inv_def intro: past_gate_cong [of "d\<lparr>dv_limiter := l\<rparr>" d])
next
  case (others_draw d)
  then show ?case
    by (auto simp: dial_inv_def intro: past_gate_cong [of "d\<lparr>dv_ids := fst (next_id (dv_ids d)), dv_drawn := Suc (dv_drawn d)\<rparr>" d])
qed

section \<open>What the requests carry\<close>

text \<open>
  A dial of this destination: its request is addressed to it and its body is the canonical encoding
  of the batch under our name; an error-free dial of a live destination ended with a 200, and a dry
  run asked nobody.
\<close>

definition dial_well :: "transport \<Rightarrow> string \<Rightarrow> dial \<Rightarrow> bool" where
  "dial_well tp n x \<longleftrightarrow>
     (case di_request x of
        None \<Rightarrow> di_error x = Some BuildFailed \<and> di_answers x = []
      | Some r \<Rightarrow> rq_destination r = n
          \<and> tp_canon tp (transaction_tree ((taken_transaction tp (di_began x) (di_batch x))
               \<lparr>tx_origin := sg_server_name (tp_signer tp), tx_pdus := Some (map pdu_json (t_pdus (di_batch x)))\<rparr>)) = Some (rq_body r)
          \<and> (case tp_sink tp n of
               LiveSink \<Rightarrow> di_answers x \<noteq> [] \<and> (di_error x = None \<longrightarrow> (\<exists>resp. last (di_answers x) = Answer resp \<and> hr_code resp = 200))
             | DrySink \<Rightarrow> di_answers x = [] \<and> di_error x = None))"

fun loop_deliveries :: "history list \<Rightarrow> taken list" where
  "loop_deliveries [] = []"
| "loop_deliveries (Announced # h) = loop_deliveries h"
| "loop_deliveries (Dialled x # h) = loop_deliveries h @ (if di_loop x \<and> di_error x = None then [di_batch x] else [])"

fun request_ids :: "history list \<Rightarrow> string list" where
  "request_ids [] = []"
| "request_ids (Announced # h) = request_ids h"
| "request_ids (Dialled x # h) = (case di_request x of None \<Rightarrow> [] | Some r \<Rightarrow> [rq_transaction_id r]) @ request_ids h"

lemma live_answer:
  assumes "http_send g entries h w = (evs, Inr res)"
  shows "sr_delivered res \<and> (\<exists>resp. aw_network (w (tries evs - 1)) = Answer resp \<and> hr_code resp = 200)"
  using send_last(1) [OF assms refl]
  by (cases "aw_network (w (tries evs - 1))") (auto simp: attempt_def Let_def split: if_splits)

lemma destination_send_facts:
  assumes "destination_send tp n now w ids t = (ids', req, nets, err, warned)"
  shows "ids' = fst (next_id ids)
    \<and> (case req of None \<Rightarrow> True | Some r \<Rightarrow> rq_transaction_id r = snd (next_id ids))
    \<and> dial_well tp n \<lparr>di_loop = b, di_batch = t, di_began = now, di_ended = later, di_request = req, di_answers = nets, di_error = err, di_pause = ps\<rparr>"
proof -
  obtain i' txn_id where i: "next_id ids = (i', txn_id)" by force
  show ?thesis
  proof (cases "build_request (tp_canon tp) (tp_signer tp) txn_id n (taken_transaction tp now t)")
    case None
    then show ?thesis using assms by (auto simp: destination_send_def i dial_well_def)
  next
    case (Some r)
    have r: "rq_transaction_id r = txn_id" "rq_destination r = n"
      "tp_canon tp (transaction_tree ((taken_transaction tp now t)
         \<lparr>tx_origin := sg_server_name (tp_signer tp), tx_pdus := Some (map pdu_json (t_pdus t))\<rparr>)) = Some (rq_body r)"
      using Some by (auto simp: build_request_def taken_transaction_def batch_transaction_def Let_def split: option.splits if_splits)
    show ?thesis
    proof (cases "tp_sink tp n")
      case DrySink
      then show ?thesis using assms r
        by (auto simp: destination_send_def i Some sink_send_def dry_run_send_def dial_well_def split: prod.splits)
    next
      case LiveSink
      obtain evs res where run: "http_send (tp_gjson tp) (tp_entries tp) (tp_http tp) w = (evs, res)" by force
      have k: "0 < tries evs" by (rule first_attempt [OF run])
      show ?thesis
      proof (cases res)
        case (Inl e)
        then show ?thesis using assms r LiveSink k by (auto simp: destination_send_def i Some sink_send_def run dial_well_def)
      next
        case (Inr x)
        note live_answer [OF run [unfolded Inr]]
        then show ?thesis using assms r LiveSink Inr k
          by (auto simp: destination_send_def i Some sink_send_def run dial_well_def last_map last_upt)
      qed
    qed
  qed
qed

definition carried :: "transport \<Rightarrow> string \<Rightarrow> delivery \<Rightarrow> bool" where
  "carried tp n d \<longleftrightarrow> live_wire (fst (dv_system d)) = loop_deliveries (dv_history d)
     \<and> (\<forall>x. Dialled x \<in> set (dv_history d) \<longrightarrow> dial_well tp n x)"

definition ids_fresh :: "string \<Rightarrow> int \<Rightarrow> delivery \<Rightarrow> bool" where
  "ids_fresh p start d \<longleftrightarrow>
     (start + int (dv_drawn d) < 2 ^ 63 \<longrightarrow>
        dv_ids d = \<lparr>ig_prefix = p, ig_next = start + int (dv_drawn d)\<rparr>
        \<and> (\<exists>ks. request_ids (dv_history d) = map (\<lambda>k. p @ format_int (start + int k)) ks
             \<and> sorted_wrt (>) ks \<and> (\<forall>k \<in> set ks. k < dv_drawn d)))"

lemma next_fresh: "0 \<le> start \<Longrightarrow> start + int (Suc k) < 2 ^ 63 \<Longrightarrow>
    next_id \<lparr>ig_prefix = p, ig_next = start + int k\<rparr> = (\<lparr>ig_prefix = p, ig_next = start + int (Suc k)\<rparr>, p @ format_int (start + int k))"
  by (subst next_id_eq) simp_all

lemma after_dial_carried:
  assumes "carried tp n d" "destination_send tp n began world (dv_ids d) t = (ids, req, nets, err, warned)"
    "live_wire (fst w) = live_wire (fst (dv_system d)) @ (if by_loop \<and> err = None then [t] else [])"
  shows "carried tp n (after_dial by_loop t began n w l wait (ids, req, nets, err, warned) d)"
  using assms(1,3) destination_send_facts [OF assms(2)] by (simp add: carried_def after_dial_def)

lemma after_dial_fresh:
  assumes "ids_fresh p start d" "0 \<le> start" "destination_send tp n began world (dv_ids d) t = (ids, req, nets, err, warned)"
  shows "ids_fresh p start (after_dial by_loop t began n w l wait (ids, req, nets, err, warned) d)"
  unfolding ids_fresh_def
proof (intro impI)
  let ?d = "after_dial by_loop t began n w l wait (ids, req, nets, err, warned) d"
  assume small: "start + int (dv_drawn ?d) < 2 ^ 63"
  then have s: "start + int (Suc (dv_drawn d)) < 2 ^ 63" "start + int (dv_drawn d) < 2 ^ 63" by (simp_all add: after_dial_def)
  with assms(1) obtain ks where d: "dv_ids d = \<lparr>ig_prefix = p, ig_next = start + int (dv_drawn d)\<rparr>"
    "request_ids (dv_history d) = map (\<lambda>k. p @ format_int (start + int k)) ks" "sorted_wrt (>) ks" "\<forall>k \<in> set ks. k < dv_drawn d"
    by (auto simp: ids_fresh_def)
  note nx = next_fresh [OF assms(2) s(1), of p]
  have f: "ids = fst (next_id (dv_ids d)) \<and> (case req of None \<Rightarrow> True | Some r \<Rightarrow> rq_transaction_id r = snd (next_id (dv_ids d)))"
    using destination_send_facts [OF assms(3)] by blast
  have "ids = \<lparr>ig_prefix = p, ig_next = start + int (Suc (dv_drawn d))\<rparr>" using f unfolding d(1) nx by simp
  moreover have "case req of None \<Rightarrow> True | Some r \<Rightarrow> rq_transaction_id r = p @ format_int (start + int (dv_drawn d))"
    using f unfolding d(1) nx by (simp split: option.splits)
  ultimately show "dv_ids ?d = \<lparr>ig_prefix = p, ig_next = start + int (dv_drawn ?d)\<rparr>
      \<and> (\<exists>ks. request_ids (dv_history ?d) = map (\<lambda>k. p @ format_int (start + int k)) ks
           \<and> sorted_wrt (>) ks \<and> (\<forall>k \<in> set ks. k < dv_drawn ?d))"
    using d(2-4)
    by (cases req)
      (auto simp: after_dial_def less_Suc_eq intro: exI [of _ ks], auto simp: less_Suc_eq intro!: exI [of _ "dv_drawn d # ks"])
qed

lemma gate_wire:
  assumes "thread_step valid a p s = Some (p', s')" "p = AtTop \<and> a = (if b then GateOpen else GateClosed c) \<or> p = AtTake \<and> a = Clock now"
  shows "live_wire s' = live_wire s"
  using assms by (auto split: if_splits prod.splits)

lemma carried_step:
  assumes "delivery_step valid tp n d d'" "carried tp n d" "ids_fresh p start d" "0 \<le> start"
  shows "carried tp n d' \<and> ids_fresh p start d'"
  using assms(1-3)
proof (induction rule: delivery_step.induct)
  case (time_passes d now)
  then show ?case by (simp add: carried_def ids_fresh_def)
next
  case (moves a d w)
  obtain s ts where s: "dv_system d = (s, ts)" by force
  have "live_wire (fst w) = live_wire s" using unaided_frame [OF moves.hyps(1), of valid s ts w] moves.hyps(2) s by simp
  with moves.prems s show ?case by (simp add: carried_def ids_fresh_def)
next
  case (asks_gate d s ts i now load l is_open w)
  obtain q where q: "thread_step valid (if is_open then GateOpen else GateClosed (worker_long_backoff l n)) AtTop s = Some (q, fst w)"
    using thread_moves [OF asks_gate.hyps(6)] asks_gate.hyps(3) by auto
  have "live_wire (fst w) = live_wire s" by (rule gate_wire [OF q]) blast
  with asks_gate.prems asks_gate.hyps(1) show ?case by (simp add: carried_def ids_fresh_def)
next
  case (takes d s ts i w)
  obtain q where q: "thread_step valid (Clock (dv_clock d)) AtTake s = Some (q, fst w)"
    using thread_moves [OF takes.hyps(4)] takes.hyps(3) by auto
  have "live_wire (fst w) = live_wire s" by (rule gate_wire [OF q]) blast
  with takes.prems takes.hyps(1) show ?case by (simp add: carried_def ids_fresh_def)
next
  case (loop_sends d s ts i t began world ids req nets err warned u l effs wait w)
  obtain q where q: "thread_step valid (queue_answer err) (Sending t) s = Some (q, fst w)"
    using thread_moves [OF loop_sends.hyps(8)] loop_sends.hyps(3) by auto
  show ?case
  proof
    show "carried tp n (after_dial True t began n w l wait (ids, req, nets, err, warned) d)"
      by (rule after_dial_carried [OF loop_sends.prems(1) loop_sends.hyps(6)])
        (use sending_then [OF q] loop_sends.hyps(1) in simp)
    show "ids_fresh p start (after_dial True t began n w l wait (ids, req, nets, err, warned) d)"
      by (rule after_dial_fresh [OF loop_sends.prems(2) assms(4) loop_sends.hyps(6)])
  qed
next
  case (catch_up_sends d s ts i c began world ids req nets err warned u l effs wait w)
  obtain q where q: "thread_step valid (queue_answer err) (CatchSending c) s = Some (q, fst w)"
    using thread_moves [OF catch_up_sends.hyps(7)] catch_up_sends.hyps(3) by auto
  show ?case
  proof
    show "carried tp n (after_dial False (one_event c) began n w l wait (ids, req, nets, err, warned) d)"
      by (rule after_dial_carried [OF catch_up_sends.prems(1) catch_up_sends.hyps(5)])
        (use catch_sending_then [OF q] catch_up_sends.hyps(1) in simp)
    show "ids_fresh p start (after_dial False (one_event c) began n w l wait (ids, req, nets, err, warned) d)"
      by (rule after_dial_fresh [OF catch_up_sends.prems(2) assms(4) catch_up_sends.hyps(5)])
  qed
next
  case (announces d l effs)
  then show ?case by (simp add: carried_def ids_fresh_def)
next
  case (others d l)
  then show ?case by (simp add: carried_def ids_fresh_def)
next
  case (others_draw d)
  have "ids_fresh p start (d\<lparr>dv_ids := fst (next_id (dv_ids d)), dv_drawn := Suc (dv_drawn d)\<rparr>)"
    unfolding ids_fresh_def
  proof (intro impI, goal_cases)
    case 1
    then have s: "start + int (Suc (dv_drawn d)) < 2 ^ 63" "start + int (dv_drawn d) < 2 ^ 63" by simp_all
    with others_draw.prems(2) obtain ks where d: "dv_ids d = \<lparr>ig_prefix = p, ig_next = start + int (dv_drawn d)\<rparr>"
      "request_ids (dv_history d) = map (\<lambda>k. p @ format_int (start + int k)) ks" "sorted_wrt (>) ks" "\<forall>k \<in> set ks. k < dv_drawn d"
      by (auto simp: ids_fresh_def)
    show ?case using d(2-4) next_fresh [OF assms(4) s(1), of p] by (auto simp: d(1) less_Suc_eq intro!: exI [of _ ks])
  qed
  with others_draw.prems(1) show ?case by (simp add: carried_def)
qed

lemma delivery_carried:
  assumes "delivery_run valid tp n (start_delivery n lims batch l ids now) d" "0 \<le> ig_next ids"
  shows "carried tp n d \<and> ids_fresh (ig_prefix ids) (ig_next ids) d"
  using assms(1)
proof (induction rule: rtranclp_induct)
  case base
  show ?case by (simp add: carried_def ids_fresh_def start_delivery_def initial_system_def)
next
  case (step d d')
  then show ?case using carried_step [OF step.hyps(2) _ _ assms(2)] by blast
qed

lemma delivery_dials:
  assumes "delivery_run valid tp n (start_delivery n lims batch l ids now) d" "millisecond \<le> now"
  shows "dial_inv n d"
  using assms(1)
proof (induction rule: rtranclp_induct)
  case base
  show ?case using assms(2) by (simp add: dial_inv_def remembers_def start_delivery_def initial_system_def)
next
  case (step d d')
  have "core (fst (dv_system d)) (filter holds (snd (dv_system d)))" by (rule delivery_core [OF step.hyps(1)]) simp
  then show ?case by (rule dial_inv_step [OF step.hyps(2) step.IH])
qed

lemma distinct_ids:
  assumes "0 \<le> start" "start + int m < 2 ^ 63" "sorted_wrt (>) ks" "\<forall>k \<in> set ks. k < m"
  shows "distinct (map (\<lambda>k. p @ format_int (start + int k)) ks)"
proof -
  have "distinct ks" using assms(3) by (induction ks) auto
  moreover have "j = k" if "j \<in> set ks" "k \<in> set ks" "format_int (start + int j) = format_int (start + int k)" for j k
  proof -
    have "int j < int m" "int k < int m" using that assms(4) by simp_all
    then have "start + int j = start + int k"
      using format_int_inj [of "start + int j" "start + int k"] that(3) assms(1,2) by linarith
    then show ?thesis by simp
  qed
  ultimately show ?thesis by (auto simp: distinct_map inj_on_def)
qed

text \<open>The events a core accounts for.\<close>

lemma core_deliveries:
  "core s (filter holds ts) \<Longrightarrow> \<exists>k. concat (map t_pdus (live_wire s)) = map fst (filter snd (fate s)) @ take k (pending_pdus (dest s))"
proof -
  assume c: "core s (filter holds ts)"
  from core_holders [OF c] show ?thesis
  proof (elim disjE exE)
    assume "filter holds ts = []"
    with c show ?thesis by (auto simp: core_none frame_core_def intro!: exI [of _ 0])
  next
    fix p assume p: "filter holds ts = [p]"
    show ?thesis
    proof (cases "\<exists>t. p = Delivered t")
      case True
      then obtain t where "p = Delivered t" by blast
      with c p show ?thesis by (auto simp: core_single frame_core_def in_flight_def intro!: exI [of _ "length (t_pdus t)"])
    next
      case False
      then have "undequeued p = []" by (cases p) auto
      with c p show ?thesis by (auto simp: core_single frame_core_def intro!: exI [of _ 0])
    qed
  qed
qed

text \<open>
  C39. What left the queue is what the remote server accepted. With the gate, the clock, the
  building and signing of a request and the sink in place of arbitrary answers, every run is a run
  of the queue, so all that holds of the queue holds here. The events of the requests a live
  destination answered 200 - every dial without an error has such a request, addressed to it,
  whose body is the canonical encoding of the batch under our name - are in order those that were
  delivered and removed, then those about to be; and no two requests share a transaction id, also
  when other destinations draw ids in between.
\<close>

theorem requests_carry_the_queue:
  assumes run: "delivery_run valid tp n (start_delivery n lims batch l ids now) d" "dv_system d = (s, ts)"
    and ids: "0 \<le> ig_next ids" "ig_next ids + int (dv_drawn d) < 2 ^ 63"
  shows "reachable valid (new_destination n lims batch) (s, ts)
    \<and> (\<forall>x. Dialled x \<in> set (dv_history d) \<longrightarrow> dial_well tp n x)
    \<and> (\<exists>k. concat (map t_pdus (loop_deliveries (dv_history d))) = map fst (filter snd (fate s)) @ take k (pending_pdus (dest s)))
    \<and> distinct (request_ids (dv_history d))"
proof (intro conjI)
  note C = delivery_carried [OF run(1) ids(1)]
  show "reachable valid (new_destination n lims batch) (s, ts)" using delivery_reachable [OF run(1)] by (simp add: run(2))
  show "\<forall>x. Dialled x \<in> set (dv_history d) \<longrightarrow> dial_well tp n x" using C by (simp add: carried_def)
  show "\<exists>k. concat (map t_pdus (loop_deliveries (dv_history d))) = map fst (filter snd (fate s)) @ take k (pending_pdus (dest s))"
    using core_deliveries [OF delivery_core [OF run]] C by (simp add: carried_def run(2))
  obtain ks where "request_ids (dv_history d) = map (\<lambda>k. ig_prefix ids @ format_int (ig_next ids + int k)) ks"
    "sorted_wrt (>) ks" "\<forall>k \<in> set ks. k < dv_drawn d"
    using C ids(2) by (auto simp: ids_fresh_def)
  then show "distinct (request_ids (dv_history d))" using distinct_ids [OF ids, of ks] by simp
qed

lemma backoff_over_later:
  "\<forall>e \<in> set mid. \<exists>z w. e = Dialled z \<and> di_pause z = CoolDown w \<Longrightarrow> di_pause x = BackOff t
     \<Longrightarrow> backoff_over (mid @ Dialled x # h) now \<Longrightarrow> unix_milli (di_ended x) + retry_interval t \<le> unix_milli now"
  by (induction mid) auto

lemma cooldown_over_later:
  "\<forall>e \<in> set mid. e = Announced \<or> (\<exists>z t. e = Dialled z \<and> di_pause z = BackOff t) \<Longrightarrow> di_pause x = CoolDown w
     \<Longrightarrow> cooldown_over (mid @ Dialled x # h) now \<Longrightarrow> di_ended x + w \<le> now"
  by (induction mid) auto

lemma dials_ok_at: "dials_ok (h @ Dialled y # g) \<Longrightarrow> di_loop y \<Longrightarrow> may_dial g (di_began y)"
proof (induction h)
  case (Cons a h)
  then show ?case by (cases a) simp_all
qed simp

text \<open>
  C40. A server that does not answer is dialled on the interval, not on the traffic. Whatever is
  queued, woken, timed or caught up meanwhile, the loop begins no transaction before the interval
  of the last failure is over, counted from when that failure ended, unless a transaction was
  delivered or the server announced itself in between; and none before the wait of the last rate
  limit is over, which only a delivery or a newer rate limit ends early.
\<close>

theorem dialled_on_the_interval:
  assumes run: "delivery_run valid tp n (start_delivery n lims batch l ids now) d" "millisecond \<le> now"
    and dials: "dv_history d = later @ Dialled y # mid @ Dialled x # before" "di_loop y"
  shows "(di_pause x = BackOff t \<longrightarrow> (\<forall>e \<in> set mid. \<exists>z w. e = Dialled z \<and> di_pause z = CoolDown w)
       \<longrightarrow> unix_milli (di_ended x) + retry_interval t \<le> unix_milli (di_began y))
    \<and> (di_pause x = CoolDown w \<longrightarrow> (\<forall>e \<in> set mid. e = Announced \<or> (\<exists>z t. e = Dialled z \<and> di_pause z = BackOff t))
       \<longrightarrow> di_ended x + w \<le> di_began y)"
proof -
  have "dials_ok (dv_history d)" using delivery_dials [OF run] by (simp add: dial_inv_def)
  then have "may_dial (mid @ Dialled x # before) (di_began y)"
    unfolding dials(1) using dials(2) by (rule dials_ok_at)
  then show ?thesis using backoff_over_later [of mid x t before "di_began y"] cooldown_over_later [of mid x w before "di_began y"]
    by (simp add: may_dial_def)
qed

section \<open>Runs computed\<close>

text \<open>The steps as a function of what the world supplies, for concrete runs.\<close>

datatype delivery_input =
    Passes instant
  | Moves action
  | AsksGate nat instant "loader option"
  | Takes nat
  | Sends nat instant "nat \<Rightarrow> attempt_world" rat
  | Announces

fun delivery_exec :: "(raw_message \<Rightarrow> bool) \<Rightarrow> transport \<Rightarrow> string \<Rightarrow> delivery_input \<Rightarrow> delivery \<Rightarrow> delivery option" where
  "delivery_exec valid tp n (Passes now) d = (if dv_clock d \<le> now then Some (d\<lparr>dv_clock := now\<rparr>) else None)"
| "delivery_exec valid tp n (Moves a) d =
     (if unaided a then map_option (\<lambda>w. d\<lparr>dv_system := w\<rparr>) (system_step valid a (dv_system d)) else None)"
| "delivery_exec valid tp n (AsksGate i now load) d =
     (case dv_system d of (s, ts) \<Rightarrow>
        if i < length ts \<and> ts ! i = AtTop \<and> dv_clock d \<le> now
        then (case due (dv_clock d) now ((dv_limiter d)\<lparr>lim_load := load\<rparr>) n of (l, is_open) \<Rightarrow>
                map_option (\<lambda>w. d\<lparr>dv_system := w, dv_limiter := l, dv_clock := now\<rparr>)
                  (system_step valid (Thread i (if is_open then GateOpen else GateClosed (worker_long_backoff l n))) (s, ts)))
        else None)"
| "delivery_exec valid tp n (Takes i) d =
     (case dv_system d of (s, ts) \<Rightarrow>
        if i < length ts \<and> ts ! i = AtTake
        then map_option (\<lambda>w. d\<lparr>dv_system := w, dv_taken := dv_clock d\<rparr>) (system_step valid (Thread i (Clock (dv_clock d))) (s, ts))
        else None)"
| "delivery_exec valid tp n (Sends i began world u) d =
     (case dv_system d of (s, ts) \<Rightarrow>
        if i < length ts \<and> began \<le> dv_clock d
        then (case ts ! i of
                Sending t \<Rightarrow>
                  if dv_taken d \<le> began
                  then (case destination_send tp n began world (dv_ids d) t of (ids, req, nets, err, warned) \<Rightarrow>
                        case report_outcome (dv_clock d) u n err (dv_limiter d) of (l, effs, wait) \<Rightarrow>
                          map_option (\<lambda>w. after_dial True t began n w l wait (ids, req, nets, err, warned) d)
                            (system_step valid (Thread i (queue_answer err)) (s, ts)))
                  else None
              | CatchSending p \<Rightarrow>
                  (case destination_send tp n began world (dv_ids d) (one_event p) of (ids, req, nets, err, warned) \<Rightarrow>
                   case report_outcome (dv_clock d) u n err (dv_limiter d) of (l, effs, wait) \<Rightarrow>
                     map_option (\<lambda>w. after_dial False (one_event p) began n w l wait (ids, req, nets, err, warned) d)
                       (system_step valid (Thread i (queue_answer err)) (s, ts)))
              | _ \<Rightarrow> None)
        else None)"
| "delivery_exec valid tp n Announces d =
     (case recovered (dv_limiter d) n of (l, effs) \<Rightarrow> Some (d\<lparr>dv_limiter := l, dv_history := Announced # dv_history d\<rparr>))"

lemma delivery_exec_sound: "delivery_exec valid tp n x d = Some d' \<Longrightarrow> delivery_step valid tp n d d'"
  by (cases x)
    (auto intro: delivery_step.intros simp del: system_step.simps split: prod.splits if_splits pc.splits)

fun delivery_execs :: "(raw_message \<Rightarrow> bool) \<Rightarrow> transport \<Rightarrow> string \<Rightarrow> delivery_input list \<Rightarrow> delivery \<Rightarrow> delivery option" where
  "delivery_execs valid tp n [] d = Some d"
| "delivery_execs valid tp n (x # xs) d = Option.bind (delivery_exec valid tp n x d) (delivery_execs valid tp n xs)"

lemma delivery_execs_run: "delivery_execs valid tp n xs d = Some d' \<Longrightarrow> delivery_run valid tp n d d'"
  by (induction xs arbitrary: d)
    (auto simp: bind_eq_Some_conv intro: converse_rtranclp_into_rtranclp delivery_exec_sound)

section \<open>Two dials\<close>

text \<open>A destination that does not answer the first transaction and accepts the second, eleven minutes later.\<close>

definition sample_transport :: transport where
  "sample_transport = \<lparr>tp_canon = (\<lambda>_. Some ''{}''), tp_marshal = (\<lambda>_. ''{}''), tp_signer = sample_signer,
     tp_gjson = table_gjson [] [] [], tp_entries = (\<lambda>_. []), tp_http = new_http 1 0, tp_sink = (\<lambda>_. LiveSink)\<rparr>"

definition every_attempt :: "network \<Rightarrow> nat \<Rightarrow> attempt_world" where
  "every_attempt net i = \<lparr>aw_draw = 1/2, aw_cancel_wait = False, aw_network = net, aw_cancelled = False\<rparr>"

definition sample_start :: delivery where
  "sample_start = start_delivery ''b.example'' \<lparr>max_pdus = 0, max_edus = 0\<rparr> \<lparr>max_states = 50, max_wait = 5 * second\<rparr>
     sample_limiter \<lparr>ig_prefix = ''gofed-'', ig_next = 7000\<rparr> (7 * second)"

definition first_dial :: "delivery_input list" where
  "first_dial = [Moves (EnqueuePDU (sample_pdu ''$1'' 7)), Moves Wake, Moves (Thread 0 Proceed), Moves (Thread 0 Proceed),
     AsksGate 0 (7 * second) None, Takes 0, Sends 0 (7 * second) (every_attempt NoAnswer) 0, Moves (Thread 0 Proceed)]"

definition second_dial :: "delivery_input list" where
  "second_dial = [Passes (667 * second), Moves Wake, Moves (Thread 1 Proceed), Moves (Thread 1 Proceed),
     AsksGate 1 (667 * second) None, Takes 1, Sends 1 (667 * second) (every_attempt (Answer \<lparr>hr_code = 200, hr_body = ''{}'', hr_retry_after = []\<rparr>)) 0]"

lemma sample_silent: "http_send g entries (new_http 1 0) (every_attempt NoAnswer) = ([Tried, Waited (4400 * millisecond), Tried], Inl (GaveUp NotReached))"
  by (simp add: http_send_def new_http_def eval_nat_numeral attempt_def every_attempt_def rate_limit_delay_def attempt_rate_limited_def Let_def
      send_backoff_def base_backoff_def wrap64_def)

lemma sample_answered: "http_send g entries (new_http 1 0) (every_attempt (Answer \<lparr>hr_code = 200, hr_body = b, hr_retry_after = []\<rparr>))
    = ([Tried], Inr \<lparr>sr_delivered = True, sr_status = 200, sr_pdu_errors = pdu_errors g entries b\<rparr>)"
  by (simp add: http_send_def new_http_def attempt_def every_attempt_def Let_def)

lemma no_errors_read: "pdu_errors (table_gjson [] [] []) entries b = []"
  by (simp add: pdu_errors_def table_gjson_def)

lemma sample_run: "\<exists>d x y. delivery_execs (\<lambda>_. True) sample_transport ''b.example'' (first_dial @ second_dial) sample_start = Some d
    \<and> dv_history d = [Dialled y, Dialled x] \<and> di_loop x \<and> di_loop y \<and> di_error y = None \<and> dv_drawn d = 2
    \<and> (\<exists>t. di_pause x = BackOff t \<and> retry_interval t = 600000) \<and> di_ended x = 7 * second \<and> di_began y = 667 * second
    \<and> di_request x \<noteq> None \<and> di_request y \<noteq> None"
  by (simp add: first_dial_def second_dial_def sample_start_def start_delivery_def queue_eval due_def due_within_def seed_def
      sample_limiter_def new_limiter_def sample_transport_def destination_send_def taken_transaction_def batch_transaction_def
      build_request_def sample_signer_def next_id_def wrap64_small sink_send_def sample_silent sample_answered no_errors_read
      report_outcome_def on_send_outcome_def error_rate_limited_def error_answered_def is_rate_limited_def answered_def wrapped_def
      attempt_rate_limited_def failure_def fail_with_def failed_timings_def success_def after_dial_def queue_answer_def pause_after_def
      off_cooldown_def timings_due_def milliseconds_def go_div_def unix_milli_def)

theorem requests_carry_the_queue_witness:
  "\<exists>d x y. delivery_run (\<lambda>_. True) sample_transport ''b.example'' sample_start d \<and> dv_history d = [Dialled y, Dialled x]
     \<and> rq_transaction_id (the (di_request x)) \<noteq> rq_transaction_id (the (di_request y))
     \<and> dial_well sample_transport ''b.example'' x \<and> dial_well sample_transport ''b.example'' y"
proof -
  obtain d x y where r: "delivery_execs (\<lambda>_. True) sample_transport ''b.example'' (first_dial @ second_dial) sample_start = Some d"
    and h: "dv_history d = [Dialled y, Dialled x]" "dv_drawn d = 2" "di_request x \<noteq> None" "di_request y \<noteq> None"
    using sample_run by blast
  note run = delivery_execs_run [OF r]
  obtain s ts where s: "dv_system d = (s, ts)" by force
  note C = requests_carry_the_queue [OF run [unfolded sample_start_def] s]
  have "(\<forall>z. Dialled z \<in> set (dv_history d) \<longrightarrow> dial_well sample_transport ''b.example'' z) \<and> distinct (request_ids (dv_history d))"
    using C h(2) by simp
  with run h show ?thesis by (intro exI [of _ d] exI [of _ x] exI [of _ y]) auto
qed

theorem dialled_on_the_interval_witness:
  "\<exists>d x y t. delivery_run (\<lambda>_. True) sample_transport ''b.example'' sample_start d \<and> dv_history d = [Dialled y, Dialled x]
     \<and> di_loop y \<and> di_pause x = BackOff t \<and> retry_interval t = 600000
     \<and> unix_milli (di_ended x) + retry_interval t \<le> unix_milli (di_began y)"
proof -
  obtain d x y t where r: "delivery_execs (\<lambda>_. True) sample_transport ''b.example'' (first_dial @ second_dial) sample_start = Some d"
    and h: "dv_history d = [] @ Dialled y # [] @ Dialled x # []" "di_loop y" and t: "di_pause x = BackOff t" "retry_interval t = 600000"
    using sample_run by (metis append_Nil)
  note run = delivery_execs_run [OF r]
  have "unix_milli (di_ended x) + retry_interval t \<le> unix_milli (di_began y)"
    using dialled_on_the_interval [OF run [unfolded sample_start_def] _ h] t(1) by simp
  with run h t show ?thesis by auto
qed

end
