(* ===== verification/Sweep.thy ===== *)
theory Sweep
  imports CatchUp
begin

text \<open>
  \<open>CatchUp.Run\<close> and \<open>sweep\<close> of \<open>internal/sender/catchup.go\<close> as they run: the goroutine that walks the
  destinations behind, page by page, and the catch-ups it has started, at most one per slot. Each
  step is one turn of the walk, one catch-up ending, a tick, or the end of the context; the two
  ends of a \<open>select\<close> that are both ready may both be taken. What a query answers is read from a
  database that changes between the queries.
\<close>

section \<open>A page of destinations\<close>

definition outstanding :: "synapse_db \<Rightarrow> int \<Rightarrow> string \<Rightarrow> bool" where
  "outstanding db now_ms d \<longleftrightarrow> due_in_table db now_ms d
     \<and> ((\<exists>room ord. ((d, room), ord) \<in> set (db_destination_rooms db)
            \<and> ord > (case get_last_successful db d of None \<Rightarrow> 0 | Some v \<Rightarrow> v))
        \<or> d \<in> td_destination ` set (db_outbox db))"

text \<open>What the walk relies on: a page is the next stretch of what is outstanding.\<close>

locale destination_pages =
  fixes page_after :: "'t \<Rightarrow> string \<Rightarrow> string list"
    and owes :: "'t \<Rightarrow> string \<Rightarrow> bool"
  assumes page_sorted: "sorted_wrt (<) (page_after t a)"
    and page_later: "d \<in> set (page_after t a) \<Longrightarrow> a < d"
    and page_owes: "d \<in> set (page_after t a) \<Longrightarrow> owes t d"
    and page_complete: "owes t d \<Longrightarrow> a < d \<Longrightarrow> page_after t a = [] \<or> d \<le> last (page_after t a) \<Longrightarrow> d \<in> set (page_after t a)"
begin

lemma page_last: "d \<in> set (page_after t a) \<Longrightarrow> d \<le> last (page_after t a)"
proof -
  have "x \<le> last xs" if "sorted_wrt (<) xs" "x \<in> set xs" for x :: string and xs
    using that by (induction xs) (auto intro: less_imp_le)
  then show "d \<in> set (page_after t a) \<Longrightarrow> d \<le> last (page_after t a)" using page_sorted by blast
qed

lemma page_grows: "page_after t a \<noteq> [] \<Longrightarrow> a < last (page_after t a)"
  using page_later last_in_set by blast

text \<open>Nothing outstanding is left behind a page, and nothing at all after an empty one.\<close>

lemma page_covers: "owes t d \<Longrightarrow> page_after t a \<noteq> [] \<Longrightarrow> d \<le> last (page_after t a) \<Longrightarrow> d \<le> a \<or> d \<in> set (page_after t a)"
  using page_complete by force

lemma page_end: "owes t d \<Longrightarrow> page_after t a = [] \<Longrightarrow> d \<le> a"
  using page_complete by (metis leI list.set(1) empty_iff)

end

lemma distinct_page_sorted: "sorted_wrt (<) (select_distinct_page k ds)"
proof -
  have "sorted_wrt (<) (sort (remdups ds))" by (simp add: strict_sorted_iff)
  then show ?thesis by (simp add: select_distinct_page_def sorted_wrt_take)
qed

lemma distinct_page_subset: "d \<in> set (select_distinct_page k ds) \<Longrightarrow> d \<in> set ds"
  by (auto simp: select_distinct_page_def dest: in_set_takeD)

text \<open>An element the page leaves out lies after all of a full page.\<close>

lemma distinct_page_rest:
  assumes "d \<in> set ds" "d \<notin> set (select_distinct_page k ds)"
  shows "length (select_distinct_page k ds) = k \<and> (\<forall>x \<in> set (select_distinct_page k ds). x < d)"
proof -
  let ?s = "sort (remdups ds)"
  have "d \<in> set (drop k ?s)" using assms append_take_drop_id [of k ?s] by (metis Un_iff select_distinct_page_def set_append set_remdups set_sort)
  moreover have "sorted_wrt (<) (take k ?s @ drop k ?s)" by (simp add: strict_sorted_iff)
  ultimately have "\<forall>x \<in> set (take k ?s). x < d" unfolding sorted_wrt_append by blast
  moreover have "k < length ?s" using \<open>d \<in> set (drop k ?s)\<close> by (cases "k < length ?s") auto
  ultimately show ?thesis by (simp add: select_distinct_page_def)
qed

interpretation destinations: destination_pages "\<lambda>(db, now_ms) a. get_catch_up_outstanding db a now_ms destination_page" "\<lambda>(db, now_ms). outstanding db now_ms"
proof (unfold_locales, goal_cases)
  case (1 t a)
  then show ?case by (cases t) (simp add: get_catch_up_outstanding_def distinct_page_sorted Let_def)
next
  case (2 d t a)
  then show ?case by (cases t) (auto simp: get_catch_up_outstanding_def Let_def dest!: distinct_page_subset)
next
  case (3 d t a)
  then show ?case by (cases t) (force simp: get_catch_up_outstanding_def outstanding_def Let_def dest!: distinct_page_subset)
next
  case (4 t d a)
  obtain db now_ms where t: "t = (db, now_ms)" by force
  define pdus where "pdus = map (fst \<circ> fst) (filter (\<lambda>((d, room), ord). d > a
      \<and> ord > (case get_last_successful db d of None \<Rightarrow> 0 | Some v \<Rightarrow> v) \<and> due_in_table db now_ms d) (db_destination_rooms db))"
  define units where "units = filter (\<lambda>d. d > a \<and> due_in_table db now_ms d) (map td_destination (db_outbox db))"
  define both where "both = select_distinct_page destination_page pdus @ select_distinct_page destination_page units"
  have page: "get_catch_up_outstanding db a now_ms destination_page = select_distinct_page destination_page both"
    by (simp add: get_catch_up_outstanding_def both_def pdus_def units_def Let_def)
  have "d \<in> set pdus \<or> d \<in> set units" using 4 by (force simp: t outstanding_def pdus_def units_def)
  have full: "False" if few: "length p = destination_page" "\<forall>x \<in> set p. x < d" and sub: "set p \<subseteq> set both" "distinct p"
    and out: "d \<notin> set (select_distinct_page destination_page both)" for p
  proof -
    let ?m = "select_distinct_page destination_page both"
    have m: "?m = [] \<or> d \<le> last ?m" using 4(3) by (simp add: t page)
    have "destination_page \<noteq> 0" by (simp add: destination_page_def)
    then have "p \<noteq> []" using few(1) by auto
    show False
    proof (cases "set p \<subseteq> set ?m")
      case True
      have "length ?m \<le> destination_page" by (simp add: select_distinct_page_def)
      moreover have "distinct ?m" using distinct_page_sorted strict_sorted_iff by blast
      ultimately have "set ?m = set p"
        using True sub(2) few(1) by (metis card_mono card_subset_eq distinct_card finite_set le_antisym)
      then show False using m few(2) \<open>p \<noteq> []\<close> by (metis empty_iff last_in_set leD list.set(1) set_empty)
    next
      case False
      then obtain x where "x \<in> set p" "x \<notin> set ?m" by blast
      then have r: "length ?m = destination_page" "\<forall>y \<in> set ?m. y < x" using distinct_page_rest [of x both destination_page] sub(1) by auto
      then have "?m \<noteq> []" using \<open>destination_page \<noteq> 0\<close> by auto
      then have "d \<le> last ?m" "last ?m < x" "x < d" using m r(2) few(2) \<open>x \<in> set p\<close> by simp_all
      then show False by simp
    qed
  qed
  have "d \<in> set (select_distinct_page destination_page both)"
  proof (rule ccontr)
    assume out: "d \<notin> set (select_distinct_page destination_page both)"
    show False
    proof (cases "d \<in> set both")
      case True
      then show False using full [of "select_distinct_page destination_page both"] distinct_page_rest [OF True out] out
          distinct_page_subset distinct_page_sorted strict_sorted_iff by (metis subsetI)
    next
      case False
      then consider "d \<in> set pdus" "d \<notin> set (select_distinct_page destination_page pdus)"
        | "d \<in> set units" "d \<notin> set (select_distinct_page destination_page units)"
        using \<open>d \<in> set pdus \<or> d \<in> set units\<close> by (auto simp: both_def)
      then show False
      proof cases
        case 1
        from distinct_page_rest [OF this] show False
          using full [of "select_distinct_page destination_page pdus"] out distinct_page_sorted strict_sorted_iff by (auto simp: both_def)
      next
        case 2
        from distinct_page_rest [OF this] show False
          using full [of "select_distinct_page destination_page units"] out distinct_page_sorted strict_sorted_iff by (auto simp: both_def)
      qed
    qed
  qed
  then show ?case by (simp add: t page)
qed

section \<open>The sweeper\<close>

text \<open>
  Where the goroutine of \<open>Run\<close> is: about to read a page, walking one, waiting for a slot, pacing
  after a dispatch, waiting for the catch-ups it started (the flag says that the walk reached the
  end), between two ticks, gone. The strings are \<open>after\<close> and what is left of the page.
\<close>

datatype sweep_pc =
    Reading string
  | Walking string "string list"
  | ForSlot string string "string list"
  | Pacing string "string list"
  | Draining bool
  | Idle bool
  | Gone

text \<open>\<open>sp_reads\<close>, \<open>sp_refused\<close> and \<open>sp_dispatched\<close> are of the sweep under way, or of the last one.\<close>

record sweeper =
  sp_pc :: sweep_pc
  sp_running :: "string list"
  sp_dispatched :: "string list"
  sp_refused :: "string list"
  sp_reads :: "(synapse_db \<times> int) list"
  sp_cancelled :: bool

definition catch_up_concurrency :: nat where [simp]: "catch_up_concurrency = 32"

definition begin_sweep :: "bool \<Rightarrow> sweeper" where
  "begin_sweep cancelled = \<lparr>sp_pc = Reading [], sp_running = [], sp_dispatched = [], sp_refused = [], sp_reads = [], sp_cancelled = cancelled\<rparr>"

inductive sweep_step :: "(string \<Rightarrow> bool) \<Rightarrow> sweeper \<Rightarrow> sweeper \<Rightarrow> bool" for should_handle where
  context_ends: "sweep_step should_handle s (s\<lparr>sp_cancelled := True\<rparr>)"
| catch_up_ends: "d \<in> set (sp_running s) \<Longrightarrow> sweep_step should_handle s (s\<lparr>sp_running := remove1 d (sp_running s)\<rparr>)"
| reads: "sp_pc s = Reading a \<Longrightarrow> \<not> sp_cancelled s \<Longrightarrow> ds = get_catch_up_outstanding db a now_ms destination_page
    \<Longrightarrow> sweep_step should_handle s (s\<lparr>sp_reads := (db, now_ms) # sp_reads s, sp_pc := if ds = [] then Draining True else Walking (last ds) ds\<rparr>)"
| read_fails: "sp_pc s = Reading a \<Longrightarrow> sweep_step should_handle s (s\<lparr>sp_pc := Draining False\<rparr>)"
| page_done: "sp_pc s = Walking a [] \<Longrightarrow> sweep_step should_handle s (s\<lparr>sp_pc := Reading a\<rparr>)"
| not_ours: "sp_pc s = Walking a (d # ds) \<Longrightarrow> \<not> should_handle d \<Longrightarrow> sweep_step should_handle s (s\<lparr>sp_pc := Walking a ds\<rparr>)"
| backing_off: "sp_pc s = Walking a (d # ds) \<Longrightarrow> should_handle d
    \<Longrightarrow> sweep_step should_handle s (s\<lparr>sp_refused := d # sp_refused s, sp_pc := Walking a ds\<rparr>)"
| is_due: "sp_pc s = Walking a (d # ds) \<Longrightarrow> should_handle d \<Longrightarrow> sweep_step should_handle s (s\<lparr>sp_pc := ForSlot a d ds\<rparr>)"
| dispatches: "sp_pc s = ForSlot a d ds \<Longrightarrow> length (sp_running s) < catch_up_concurrency
    \<Longrightarrow> sweep_step should_handle s (s\<lparr>sp_running := sp_running s @ [d], sp_dispatched := sp_dispatched s @ [d], sp_pc := Pacing a ds\<rparr>)"
| no_slot: "sp_pc s = ForSlot a d ds \<Longrightarrow> sp_cancelled s \<Longrightarrow> sweep_step should_handle s (s\<lparr>sp_pc := Draining False\<rparr>)"
| paced: "sp_pc s = Pacing a ds \<Longrightarrow> sweep_step should_handle s (s\<lparr>sp_pc := Walking a ds\<rparr>)"
| pace_cut: "sp_pc s = Pacing a ds \<Longrightarrow> sp_cancelled s \<Longrightarrow> sweep_step should_handle s (s\<lparr>sp_pc := Draining False\<rparr>)"
| drained: "sp_pc s = Draining b \<Longrightarrow> sp_running s = [] \<Longrightarrow> sweep_step should_handle s (s\<lparr>sp_pc := Idle b\<rparr>)"
| ticks: "sp_pc s = Idle b \<Longrightarrow> sweep_step should_handle s ((begin_sweep (sp_cancelled s))\<lparr>sp_running := sp_running s\<rparr>)"
| stops: "sp_pc s = Idle b \<Longrightarrow> sp_cancelled s \<Longrightarrow> sweep_step should_handle s (s\<lparr>sp_pc := Gone\<rparr>)"

inductive_cases sweep_stepE: "sweep_step should_handle s s'"

text \<open>What is left to walk, and how far the walk has come.\<close>

fun left_of :: "sweep_pc \<Rightarrow> string list" where
  "left_of (Walking a ds) = ds"
| "left_of (ForSlot a d ds) = d # ds"
| "left_of (Pacing a ds) = ds"
| "left_of p = []"

fun reached :: "sweep_pc \<Rightarrow> string option" where
  "reached (Reading a) = Some a"
| "reached (Walking a ds) = Some a"
| "reached (ForSlot a d ds) = Some a"
| "reached (Pacing a ds) = Some a"
| "reached p = None"

text \<open>Owed at every read of the sweep, ours, and due whenever asked.\<close>

definition owed_throughout :: "(string \<Rightarrow> bool) \<Rightarrow> sweeper \<Rightarrow> string \<Rightarrow> bool" where
  "owed_throughout should_handle s d \<longleftrightarrow> d \<noteq> [] \<and> should_handle d \<and> d \<notin> set (sp_refused s)
     \<and> (\<forall>(db, now_ms) \<in> set (sp_reads s). outstanding db now_ms d)"

definition sweep_inv :: "(string \<Rightarrow> bool) \<Rightarrow> sweeper \<Rightarrow> bool" where
  "sweep_inv should_handle s \<longleftrightarrow>
     length (sp_running s) \<le> catch_up_concurrency \<and> distinct (sp_running s) \<and> set (sp_running s) \<subseteq> set (sp_dispatched s)
     \<and> sorted_wrt (<) (sp_dispatched s @ left_of (sp_pc s))
     \<and> (\<forall>d \<in> set (sp_dispatched s). should_handle d)
     \<and> (case reached (sp_pc s) of
          Some a \<Rightarrow> (\<forall>d \<in> set (sp_dispatched s @ left_of (sp_pc s)). d \<le> a)
            \<and> (\<forall>d. owed_throughout should_handle s d \<longrightarrow> d \<le> a \<longrightarrow> d \<in> set (sp_dispatched s @ left_of (sp_pc s)))
        | None \<Rightarrow> True)
     \<and> (case sp_pc s of
          ForSlot a d ds \<Rightarrow> should_handle d
        | Draining True \<Rightarrow> (\<forall>d. owed_throughout should_handle s d \<longrightarrow> d \<in> set (sp_dispatched s))
        | Idle b \<Rightarrow> sp_running s = [] \<and> (b \<longrightarrow> (\<forall>d. owed_throughout should_handle s d \<longrightarrow> d \<in> set (sp_dispatched s)))
        | Gone \<Rightarrow> sp_running s = []
        | _ \<Rightarrow> True)"

lemma empty_least [simp]: "[] \<le> (d :: string)" "d \<le> [] \<longleftrightarrow> d = ([] :: string)"
  by (cases d; simp add: list_le_def list_less_def)+

lemma owed_throughout_fields:
  "owed_throughout h (s\<lparr>sp_pc := p\<rparr>) = owed_throughout h s" "owed_throughout h (s\<lparr>sp_cancelled := b\<rparr>) = owed_throughout h s"
  "owed_throughout h (s\<lparr>sp_running := r\<rparr>) = owed_throughout h s" "owed_throughout h (s\<lparr>sp_dispatched := ds\<rparr>) = owed_throughout h s"
  by (simp_all add: fun_eq_iff owed_throughout_def)

lemma owed_throughout_more:
  "owed_throughout h (s\<lparr>sp_reads := r # sp_reads s\<rparr>) d \<longleftrightarrow> owed_throughout h s d \<and> (case r of (db, now_ms) \<Rightarrow> outstanding db now_ms d)"
  "owed_throughout h (s\<lparr>sp_refused := x # sp_refused s\<rparr>) d \<longleftrightarrow> owed_throughout h s d \<and> d \<noteq> x"
  by (auto simp: owed_throughout_def)

lemma begin_sweep_inv: "sweep_inv h (begin_sweep b)"
  by (auto simp: sweep_inv_def begin_sweep_def owed_throughout_def)

lemma sweep_inv_reads:
  assumes inv: "sweep_inv h s" and pc: "sp_pc s = Reading a" and page: "ds = get_catch_up_outstanding db a now_ms destination_page"
  shows "sweep_inv h (s\<lparr>sp_reads := (db, now_ms) # sp_reads s, sp_pc := if ds = [] then Draining True else Walking (last ds) ds\<rparr>)"
    (is "sweep_inv h ?s")
proof -
  note P = destinations.page_sorted [of "(db, now_ms)" a] destinations.page_later [of _ "(db, now_ms)" a]
    destinations.page_last [of _ "(db, now_ms)" a] destinations.page_covers [of "(db, now_ms)" _ a] destinations.page_end [of "(db, now_ms)" _ a]
  have I: "sorted_wrt (<) (sp_dispatched s)" "\<forall>d \<in> set (sp_dispatched s). d \<le> a"
    "\<forall>d. owed_throughout h s d \<longrightarrow> d \<le> a \<longrightarrow> d \<in> set (sp_dispatched s)"
    "length (sp_running s) \<le> catch_up_concurrency" "distinct (sp_running s)" "set (sp_running s) \<subseteq> set (sp_dispatched s)"
    "\<forall>d \<in> set (sp_dispatched s). h d"
    using inv by (simp_all add: sweep_inv_def pc)
  have owed: "owed_throughout h (s\<lparr>sp_reads := (db, now_ms) # sp_reads s, sp_pc := p\<rparr>) d \<longleftrightarrow> owed_throughout h s d \<and> outstanding db now_ms d" for p d
    by (simp add: owed_throughout_def) blast
  show ?thesis
  proof (cases "ds = []")
    case True
    then have "\<forall>d. owed_throughout h s d \<and> outstanding db now_ms d \<longrightarrow> d \<in> set (sp_dispatched s)" using P(5) I(3) by (auto simp: page)
    then show ?thesis using I True by (simp add: sweep_inv_def owed)
  next
    case False
    have a: "a < last ds" using destinations.page_grows [of "(db, now_ms)" a] False by (simp add: page)
    have "sorted_wrt (<) (sp_dispatched s @ ds)"
      using I(1,2) P(1,2) by (fastforce simp: page sorted_wrt_append)
    moreover have "\<forall>d \<in> set (sp_dispatched s @ ds). d \<le> last ds" using I(2) a P(3) by (fastforce simp: page)
    moreover have "\<forall>d. owed_throughout h s d \<and> outstanding db now_ms d \<longrightarrow> d \<le> last ds \<longrightarrow> d \<in> set (sp_dispatched s @ ds)"
      using P(4) I(3) False by (fastforce simp: page)
    ultimately show ?thesis using I False by (simp add: sweep_inv_def owed)
  qed
qed

lemma sweep_inv_step: "sweep_step h s s' \<Longrightarrow> sweep_inv h s \<Longrightarrow> sweep_inv h s'"
proof (induction rule: sweep_step.induct)
  case (context_ends s)
  then show ?case by (simp add: sweep_inv_def owed_throughout_fields split: sweep_pc.splits bool.splits)
next
  case (catch_up_ends d s)
  then show ?case
    by (auto simp: sweep_inv_def owed_throughout_fields length_remove1 dest: notin_set_remove1 [rotated] in_set_remove1 set_mp [OF set_remove1_subset]
        split: sweep_pc.splits bool.splits)
next
  case (reads s a ds db now_ms)
  then show ?case by (intro sweep_inv_reads)
next
  case (backing_off s a d ds)
  then show ?case by (auto simp: sweep_inv_def owed_throughout_def sorted_wrt_append)
next
  case (not_ours s a d ds)
  then show ?case by (auto simp: sweep_inv_def owed_throughout_def sorted_wrt_append)
next
  case (dispatches s a d ds)
  then have "d \<notin> set (sp_dispatched s)" by (auto simp: sweep_inv_def sorted_wrt_append)
  with dispatches show ?case by (auto simp: sweep_inv_def owed_throughout_fields)
next
  case (ticks s b)
  then have "sp_running s = []" by (simp add: sweep_inv_def)
  then show ?case using begin_sweep_inv [of h "sp_cancelled s"] by (simp add: begin_sweep_def)
qed (auto simp: sweep_inv_def owed_throughout_fields sorted_wrt_append split: bool.splits)

lemma sweep_run_inv: "(sweep_step h)\<^sup>*\<^sup>* (begin_sweep b) s \<Longrightarrow> sweep_inv h s"
  by (induction rule: rtranclp_induct) (auto intro: begin_sweep_inv sweep_inv_step)

text \<open>A cancelled sweeper can always end: it walks its page out and its catch-ups return.\<close>

lemma running_can_end: "\<exists>s'. (sweep_step h)\<^sup>*\<^sup>* s s' \<and> sp_running s' = [] \<and> sp_pc s' = sp_pc s \<and> sp_cancelled s' = sp_cancelled s"
proof (induction "length (sp_running s)" arbitrary: s)
  case 0
  then show ?case by (intro exI [of _ s]) simp
next
  case (Suc k)
  then obtain d ds where d: "sp_running s = d # ds" by (cases "sp_running s") auto
  let ?s = "s\<lparr>sp_running := ds\<rparr>"
  have "sweep_step h s ?s" using catch_up_ends [of d s h] by (simp add: d)
  moreover have "k = length (sp_running ?s)" using Suc.hyps(2) by (simp add: d)
  from Suc.hyps(1) [OF this] obtain s' where "(sweep_step h)\<^sup>*\<^sup>* ?s s'" "sp_running s' = []" "sp_pc s' = sp_pc s" "sp_cancelled s' = sp_cancelled s" by auto
  ultimately show ?case by (meson converse_rtranclp_into_rtranclp)
qed

lemma walk_can_end: "sp_pc s = Walking a ds \<Longrightarrow> \<exists>s'. (sweep_step h)\<^sup>*\<^sup>* s s' \<and> sp_pc s' = Reading a \<and> sp_cancelled s' = sp_cancelled s"
proof (induction ds arbitrary: s)
  case Nil
  then show ?case using page_done [of s a h] by (intro exI [of _ "s\<lparr>sp_pc := Reading a\<rparr>"]) auto
next
  case (Cons d ds)
  obtain s1 where s1: "sweep_step h s s1" "sp_pc s1 = Walking a ds" "sp_cancelled s1 = sp_cancelled s"
  proof (cases "h d")
    case True
    from backing_off [of s a d ds h, OF Cons.prems True] show thesis by (rule that) simp_all
  next
    case False
    from not_ours [of s a d ds h, OF Cons.prems False] show thesis by (rule that) simp_all
  qed
  from Cons.IH [OF s1(2)] s1 show ?case by (metis converse_rtranclp_into_rtranclp)
qed

lemma draining_can_end: "sp_pc s = Draining b \<Longrightarrow> sp_cancelled s \<Longrightarrow> \<exists>s'. (sweep_step h)\<^sup>*\<^sup>* s s' \<and> sp_pc s' = Gone"
proof -
  assume s: "sp_pc s = Draining b" "sp_cancelled s"
  obtain s1 where s1: "(sweep_step h)\<^sup>*\<^sup>* s s1" "sp_running s1 = []" "sp_pc s1 = Draining b" "sp_cancelled s1"
    using running_can_end [of h s] s by auto
  have "sweep_step h s1 (s1\<lparr>sp_pc := Idle b\<rparr>)" by (rule drained) (use s1 in simp_all)
  moreover have "sweep_step h (s1\<lparr>sp_pc := Idle b\<rparr>) (s1\<lparr>sp_pc := Idle b\<rparr>\<lparr>sp_pc := Gone\<rparr>)" by (rule stops) (use s1 in simp_all)
  ultimately show ?thesis using s1(1)
    by (intro exI [of _ "s1\<lparr>sp_pc := Idle b\<rparr>\<lparr>sp_pc := Gone\<rparr>"]) (auto intro: rtranclp.rtrancl_into_rtrancl)
qed

lemma cancelled_can_end:
  assumes "sp_cancelled s" "sp_pc s \<noteq> Gone" "\<forall>b. sp_pc s = Idle b \<longrightarrow> sp_running s = []"
  shows "\<exists>s'. (sweep_step h)\<^sup>*\<^sup>* s s' \<and> sp_pc s' = Gone"
proof -
  have reading: "\<exists>s'. (sweep_step h)\<^sup>*\<^sup>* s s' \<and> sp_pc s' = Gone" if "sp_pc s = Reading a" "sp_cancelled s" for s a
    using draining_can_end [of "s\<lparr>sp_pc := Draining False\<rparr>" False h] read_fails [OF that(1), of h] that(2)
    by (auto intro: converse_rtranclp_into_rtranclp)
  show ?thesis
  proof (cases "sp_pc s")
    case (Reading a)
    then show ?thesis using reading assms(1) by blast
  next
    case (Walking a ds)
    then obtain s1 where "(sweep_step h)\<^sup>*\<^sup>* s s1" "sp_pc s1 = Reading a" "sp_cancelled s1" using walk_can_end [OF Walking, of h] assms(1) by auto
    then show ?thesis using reading [of s1 a] by (meson rtranclp_trans)
  next
    case (ForSlot a d ds)
    then show ?thesis using draining_can_end [of "s\<lparr>sp_pc := Draining False\<rparr>" False h] no_slot [OF ForSlot assms(1), of h] assms(1)
      by (auto intro: converse_rtranclp_into_rtranclp)
  next
    case (Pacing a ds)
    then show ?thesis using draining_can_end [of "s\<lparr>sp_pc := Draining False\<rparr>" False h] pace_cut [OF Pacing assms(1), of h] assms(1)
      by (auto intro: converse_rtranclp_into_rtranclp)
  next
    case (Draining b)
    then show ?thesis using draining_can_end assms(1) by blast
  next
    case (Idle b)
    then show ?thesis using stops [OF Idle assms(1), of h] by (intro exI [of _ "s\<lparr>sp_pc := Gone\<rparr>"]) auto
  qed (use assms(2) in simp)
qed

text \<open>
  C15. The sweeps reach everyone, once. However the context, the queries, the backoff and the
  catch-ups take their turns: at most thirty-two catch-ups run at once, never two to one
  destination, and each destination is started at most once a sweep, in order of name and only if
  it is of our shard. A sweep that is over has no catch-up left running, so that a slow destination
  holds back the next sweep; and if it was not cut short it has started every destination of ours
  that was owed something whenever a page was read, although the tables change between the pages,
  but for those in backoff when asked. Once the context ends the sweeper can end.
\<close>

theorem sweeps_reach_everyone:
  assumes "(sweep_step should_handle)\<^sup>*\<^sup>* (begin_sweep b) s"
  shows "length (sp_running s) \<le> 32 \<and> distinct (sp_running s)
    \<and> sorted_wrt (<) (sp_dispatched s) \<and> set (sp_running s) \<subseteq> set (sp_dispatched s) \<and> (\<forall>d \<in> set (sp_dispatched s). should_handle d)
    \<and> (\<forall>c. sp_pc s = Idle c \<longrightarrow> sp_running s = [])
    \<and> (sp_pc s = Idle True \<longrightarrow> (\<forall>d. owed_throughout should_handle s d \<longrightarrow> d \<in> set (sp_dispatched s)))
    \<and> (sp_cancelled s \<longrightarrow> (\<exists>s'. (sweep_step should_handle)\<^sup>*\<^sup>* s s' \<and> sp_pc s' = Gone))"
proof -
  have inv: "sweep_inv should_handle s" by (rule sweep_run_inv) (rule assms)
  then have idle: "\<forall>c. sp_pc s = Idle c \<longrightarrow> sp_running s = []" by (auto simp: sweep_inv_def)
  have "\<exists>s'. (sweep_step should_handle)\<^sup>*\<^sup>* s s' \<and> sp_pc s' = Gone" if "sp_cancelled s"
    using cancelled_can_end [OF that _ idle] by (cases "sp_pc s = Gone") blast+
  with inv idle show ?thesis by (auto simp: sweep_inv_def sorted_wrt_append)
qed

definition one_owed :: synapse_db where
  "one_owed = \<lparr>db_events = [], db_destinations = Map.empty, db_destination_rooms = [((''b'', ''!r''), 3)], db_outbox = [],
     db_pokes = [], db_last_success = Map.empty, db_out_pos = Map.empty\<rparr>"

lemma one_owed_pages:
  "get_catch_up_outstanding one_owed [] 5 destination_page = [''b'']" "get_catch_up_outstanding one_owed ''b'' 5 destination_page = []"
  "outstanding one_owed 5 ''b''"
  by (simp_all add: one_owed_def get_catch_up_outstanding_def outstanding_def select_distinct_page_def destination_page_def due_in_table_def
      get_last_successful_def)

definition one_swept :: sweeper where
  "one_swept = \<lparr>sp_pc = Idle True, sp_running = [], sp_dispatched = [''b''], sp_refused = [], sp_reads = [(one_owed, 5), (one_owed, 5)], sp_cancelled = True\<rparr>"

lemma sweeps_reach_everyone_witness:
  "length (sp_running one_swept) \<le> 32 \<and> owed_throughout (\<lambda>_. True) one_swept ''b'' \<and> ''b'' \<in> set (sp_dispatched one_swept)
     \<and> (\<exists>s'. (sweep_step (\<lambda>_. True))\<^sup>*\<^sup>* one_swept s' \<and> sp_pc s' = Gone)"
proof -
  let ?h = "\<lambda>_. True"
  let ?s = "\<lambda>pc run sent rd c. \<lparr>sp_pc = pc, sp_running = run, sp_dispatched = sent, sp_refused = [], sp_reads = rd, sp_cancelled = c\<rparr>"
  let ?r = "(one_owed, 5::int)"
  have "sweep_step ?h (begin_sweep False) (?s (Walking ''b'' [''b'']) [] [] [?r] False)"
    using reads [of "begin_sweep False" "[]" "[''b'']" one_owed 5 ?h] by (simp add: begin_sweep_def one_owed_pages)
  moreover have "sweep_step ?h (?s (Walking ''b'' [''b'']) [] [] [?r] False) (?s (ForSlot ''b'' ''b'' []) [] [] [?r] False)"
    using is_due [of "?s (Walking ''b'' [''b'']) [] [] [?r] False" "''b''" "''b''" "[]" ?h] by simp
  moreover have "sweep_step ?h (?s (ForSlot ''b'' ''b'' []) [] [] [?r] False) (?s (Pacing ''b'' []) [''b''] [''b''] [?r] False)"
    using dispatches [of "?s (ForSlot ''b'' ''b'' []) [] [] [?r] False" "''b''" "''b''" "[]" ?h] by simp
  moreover have "sweep_step ?h (?s (Pacing ''b'' []) [''b''] [''b''] [?r] False) (?s (Walking ''b'' []) [''b''] [''b''] [?r] False)"
    using paced [of "?s (Pacing ''b'' []) [''b''] [''b''] [?r] False" "''b''" "[]" ?h] by simp
  moreover have "sweep_step ?h (?s (Walking ''b'' []) [''b''] [''b''] [?r] False) (?s (Reading ''b'') [''b''] [''b''] [?r] False)"
    using page_done [of "?s (Walking ''b'' []) [''b''] [''b''] [?r] False" "''b''" ?h] by simp
  moreover have "sweep_step ?h (?s (Reading ''b'') [''b''] [''b''] [?r] False) (?s (Draining True) [''b''] [''b''] [?r, ?r] False)"
    using reads [of "?s (Reading ''b'') [''b''] [''b''] [?r] False" "''b''" "[]" one_owed 5 ?h] by (simp add: one_owed_pages)
  moreover have "sweep_step ?h (?s (Draining True) [''b''] [''b''] [?r, ?r] False) (?s (Draining True) [] [''b''] [?r, ?r] False)"
    using catch_up_ends [of "''b''" "?s (Draining True) [''b''] [''b''] [?r, ?r] False" ?h] by simp
  moreover have "sweep_step ?h (?s (Draining True) [] [''b''] [?r, ?r] False) (?s (Idle True) [] [''b''] [?r, ?r] False)"
    using drained [of "?s (Draining True) [] [''b''] [?r, ?r] False" True ?h] by simp
  moreover have "sweep_step ?h (?s (Idle True) [] [''b''] [?r, ?r] False) one_swept"
    using context_ends [of ?h "?s (Idle True) [] [''b''] [?r, ?r] False"] by (simp add: one_swept_def)
  ultimately have run: "(sweep_step ?h)\<^sup>*\<^sup>* (begin_sweep False) one_swept"
    by (meson converse_rtranclp_into_rtranclp rtranclp.rtrancl_refl)
  have "owed_throughout ?h one_swept ''b''" by (simp add: owed_throughout_def one_swept_def one_owed_pages)
  then show ?thesis using sweeps_reach_everyone [OF run] by (simp add: one_swept_def)
qed

end
