(* ===== verification/Tracing.thy ===== *)
theory Tracing
  imports Metrics
begin

text \<open>
  \<open>internal/dbtrace\<close> and the calls of \<open>internal/store\<close> and \<open>internal/state\<close> it measures. A context is
  what the two keys of the package hold in it. \<open>pgx\<close> is not modelled: when it tells the tracer of
  which call is part of the history, and the property names what is assumed of it, its documented
  behaviour - the end of a call is told with the context that the start answered, and a \<open>QueryTracer\<close>
  is not told of batches, which go to a \<open>BatchTracer\<close>.
\<close>

section \<open>Names and times in a context\<close>

record query_context =
  qc_name :: "string option"
  qc_start :: "instant option"

definition with_query_name :: "string \<Rightarrow> query_context \<Rightarrow> query_context" where
  "with_query_name name c = c\<lparr>qc_name := Some name\<rparr>"

definition query_name :: "query_context \<Rightarrow> string" where
  "query_name c = (case qc_name c of Some s \<Rightarrow> if s \<noteq> [] then s else ''other'' | None \<Rightarrow> ''other'')"

type_synonym query_observer = "string \<Rightarrow> duration \<Rightarrow> bool \<Rightarrow> metric list"

datatype tracer = Tracer (tr_observe: query_observer)

text \<open>No observer, no tracer; a pool is given one only where there is one.\<close>

definition new_tracer :: "query_observer option \<Rightarrow> tracer option" where
  "new_tracer observe = map_option Tracer observe"

definition trace_query_start :: "instant \<Rightarrow> query_context \<Rightarrow> query_context" where
  "trace_query_start now c = c\<lparr>qc_start := Some now\<rparr>"

definition trace_query_end :: "tracer \<Rightarrow> instant \<Rightarrow> bool \<Rightarrow> query_context \<Rightarrow> metric list" where
  "trace_query_end t now ok c = (case qc_start c of None \<Rightarrow> [] | Some s \<Rightarrow> tr_observe t (query_name c) (now - s) ok)"

section \<open>The calls on a pool\<close>

datatype call_kind = QueryCall | QueryRowCall | ExecCall | BeginCall | CommitCall | RollbackCall | BatchCall | PingCall

text \<open>
  The places that call, by pool: the name they give the query, if any, and the kinds of call they
  make. The two pings when a pool is opened have no name.
\<close>

definition call_sites :: "(string \<times> string option \<times> call_kind list) list" where
  "call_sites =
     [(''synapse'', None, [PingCall]), (''synapse_write'', None, [PingCall]),
      (''synapse'', Some ''check_read_only'', [QueryRowCall]), (''synapse'', Some ''current_role'', [QueryRowCall]),
      (''synapse'', Some ''device_msgs_for_remote'', [QueryCall]), (''synapse'', Some ''device_updates_by_remote'', [QueryCall]),
      (''synapse'', Some ''destinations_for_device'', [QueryCall]), (''synapse'', Some ''max_device_stream_id'', [QueryRowCall]),
      (''synapse'', Some ''device_details'', [QueryCall]), (''synapse'', Some ''last_device_update'', [QueryRowCall]),
      (''synapse'', Some ''cross_signing_keys'', [QueryCall]), (''synapse'', Some ''presence_states'', [QueryCall]),
      (''synapse'', Some ''destination_retry_timings'', [QueryCall]), (''synapse'', Some ''destination_last_successful'', [QueryRowCall]),
      (''synapse'', Some ''catchup_room_event_ids'', [QueryCall]), (''synapse'', Some ''catchup_outstanding_destinations'', [QueryCall]),
      (''synapse'', Some ''state_groups_for_events'', [QueryCall]), (''synapse'', Some ''joined_hosts_at_state_group'', [BatchCall]),
      (''synapse'', Some ''new_event_ids'', [QueryCall]), (''synapse'', Some ''max_stream_ordering'', [QueryRowCall]),
      (''synapse'', Some ''events_by_id'', [QueryCall]), (''synapse'', Some ''current_joined_hosts'', [QueryCall]),
      (''synapse'', Some ''federation_out_pos'', [QueryRowCall]), (''synapse'', Some ''partial_state_servers_at_join'', [QueryCall]),
      (''synapse_write'', Some ''check_can_write'', [QueryRowCall]), (''synapse_write'', Some ''delete_device_msgs'', [ExecCall]),
      (''synapse_write'', Some ''mark_devices_sent'', [BeginCall, QueryCall, ExecCall, CommitCall, RollbackCall]),
      (''synapse_write'', Some ''store_destination_rooms'', [BeginCall, ExecCall, CommitCall, RollbackCall]),
      (''synapse_write'', Some ''set_last_successful'', [ExecCall]), (''synapse_write'', Some ''update_federation_out_pos'', [ExecCall]),
      (''synapse_write'', Some ''set_destination_retry_timings'', [ExecCall]),
      (''state'', Some ''state_ensure_tables'', [QueryRowCall, BeginCall, ExecCall, CommitCall, RollbackCall]),
      (''state'', Some ''state_position_get'', [QueryRowCall]), (''state'', Some ''state_positions_all'', [QueryCall]),
      (''state'', Some ''set_stream_position'', [ExecCall]), (''state'', Some ''record_routes'', [ExecCall]),
      (''state'', Some ''state_retry_timings_get'', [QueryCall]), (''state'', Some ''state_retry_timings_set'', [ExecCall])]"

text \<open>
  What happens on a pool, where calls run concurrently: a call is made with its context, \<open>pgx\<close> tells
  the tracer of its start, at a time and with a context, and of its end, with a context and how it ended.
\<close>

datatype pool_event =
    Calls nat call_kind query_context
  | TellsStart nat query_context instant
  | TellsEnd nat query_context instant bool

text \<open>What a call of a site looks like: \<open>WithQueryName\<close> has put its name, if it has one, into the context.\<close>

fun of_site :: "string \<Rightarrow> pool_event \<Rightarrow> bool" where
  "of_site pool (Calls i k c) \<longleftrightarrow> (\<exists>(p, name, kinds) \<in> set call_sites. p = pool \<and> k \<in> set kinds \<and> qc_name c = name)"
| "of_site pool e \<longleftrightarrow> True"

text \<open>What the tracer reports. A pool without a tracer reports nothing.\<close>

definition pool_run :: "tracer option \<Rightarrow> pool_event list \<Rightarrow> metric list" where
  "pool_run t evs = concat (map (\<lambda>e. case (t, e) of (Some t, TellsEnd i c now ok) \<Rightarrow> trace_query_end t now ok c | _ \<Rightarrow> []) evs)"

text \<open>
  What is assumed of \<open>pgx\<close>: it tells of a call that was made and is no batch, of its start once and with its
  context, and then of its end once and with the context that \<open>TraceQueryStart\<close> answered.
\<close>

fun pgx_tells :: "(nat \<rightharpoonup> call_kind \<times> query_context) \<Rightarrow> (nat \<rightharpoonup> query_context) \<Rightarrow> pool_event list \<Rightarrow> bool" where
  "pgx_tells made begun [] \<longleftrightarrow> True"
| "pgx_tells made begun (Calls i k c # evs) \<longleftrightarrow> made i = None \<and> begun i = None \<and> pgx_tells (made(i \<mapsto> (k, c))) begun evs"
| "pgx_tells made begun (TellsStart i c now # evs) \<longleftrightarrow>
     (\<exists>k. made i = Some (k, c) \<and> k \<noteq> BatchCall) \<and> begun i = None \<and> pgx_tells made (begun(i \<mapsto> trace_query_start now c)) evs"
| "pgx_tells made begun (TellsEnd i c now ok # evs) \<longleftrightarrow> begun i = Some c \<and> pgx_tells (made(i := None)) (begun(i := None)) evs"

section \<open>What was called and what was counted\<close>

text \<open>
  The calls \<open>pgx\<close> told of, in the order of their ends: kind, name, the time between the two tellings, outcome.
\<close>

fun told :: "(nat \<rightharpoonup> call_kind \<times> string) \<Rightarrow> (nat \<rightharpoonup> instant) \<Rightarrow> pool_event list \<Rightarrow> (call_kind \<times> string \<times> duration \<times> bool) list" where
  "told made begun [] = []"
| "told made begun (Calls i k c # evs) = told (made(i \<mapsto> (k, case qc_name c of None \<Rightarrow> ''other'' | Some n \<Rightarrow> n))) begun evs"
| "told made begun (TellsStart i c now # evs) = told made (begun(i \<mapsto> now)) evs"
| "told made begun (TellsEnd i c now ok # evs) =
     (case (made i, begun i) of
        (Some (k, n), Some s) \<Rightarrow> (k, n, now - s, ok) # told (made(i := None)) (begun(i := None)) evs
      | _ \<Rightarrow> told (made(i := None)) (begun(i := None)) evs)"

lemma query_name_start [simp]: "query_name (trace_query_start now c) = query_name c"
  by (simp add: query_name_def trace_query_start_def)

lemma query_name_with: "name \<noteq> [] \<Longrightarrow> query_name (with_query_name name c) = name"
  by (simp add: query_name_def with_query_name_def)

text \<open>The names of the sites are their own, only one of them makes batches, and only a ping has none.\<close>

definition site_name_ok :: "call_kind \<Rightarrow> string \<Rightarrow> bool" where
  "site_name_ok k n \<longleftrightarrow> (k = BatchCall \<longleftrightarrow> n = ''joined_hosts_at_state_group'') \<and> (n = ''other'' \<longleftrightarrow> k = PingCall)"

lemma sites_named:
  "\<forall>(p, name, kinds) \<in> set call_sites. \<forall>k \<in> set kinds.
     name \<noteq> Some [] \<and> site_name_ok k (case name of None \<Rightarrow> ''other'' | Some n \<Rightarrow> n)"
  by (simp add: call_sites_def site_name_ok_def)

lemma site_call:
  assumes "of_site pool (Calls i k c)"
  shows "query_name c = (case qc_name c of None \<Rightarrow> ''other'' | Some n \<Rightarrow> n)" "site_name_ok k (query_name c)"
proof -
  obtain kinds where "(pool, qc_name c, kinds) \<in> set call_sites" "k \<in> set kinds" using assms by auto
  with sites_named have "qc_name c \<noteq> Some []" "site_name_ok k (case qc_name c of None \<Rightarrow> ''other'' | Some n \<Rightarrow> n)" by blast+
  then show "query_name c = (case qc_name c of None \<Rightarrow> ''other'' | Some n \<Rightarrow> n)" "site_name_ok k (query_name c)"
    by (auto simp: query_name_def split: option.split)
qed

text \<open>What \<open>pgx\<close> has in hand and what the specification knows of it.\<close>

definition in_hand :: "(nat \<rightharpoonup> call_kind \<times> query_context) \<Rightarrow> (nat \<rightharpoonup> query_context) \<Rightarrow> (nat \<rightharpoonup> call_kind \<times> string) \<Rightarrow> (nat \<rightharpoonup> instant) \<Rightarrow> bool" where
  "in_hand made begun made' begun' \<longleftrightarrow>
     made' = (\<lambda>i. map_option (\<lambda>(k, c). (k, query_name c)) (made i))
     \<and> (\<forall>i k c. made i = Some (k, c) \<longrightarrow> site_name_ok k (query_name c))
     \<and> (\<forall>i c. begun i = Some c \<longrightarrow> (\<exists>k c0 s. made i = Some (k, c0) \<and> k \<noteq> BatchCall \<and> c = trace_query_start s c0 \<and> begun' i = Some s))"

lemma told_is_observed:
  assumes "pgx_tells made begun evs" "\<forall>e \<in> set evs. of_site pool e" "in_hand made begun made' begun'"
  shows "pool_run (Some t) evs = concat (map (\<lambda>(k, n, took, ok). tr_observe t n took ok) (told made' begun' evs))
    \<and> (\<forall>(k, n, took, ok) \<in> set (told made' begun' evs). k \<noteq> BatchCall \<and> site_name_ok k n)
    \<and> length (told made' begun' evs) = length (filter (\<lambda>e. \<exists>i c now ok. e = TellsEnd i c now ok) evs)"
  using assms
proof (induction evs arbitrary: made begun made' begun')
  case (Cons e evs)
  have rest: "\<forall>e \<in> set evs. of_site pool e" using Cons.prems(2) by simp
  show ?case
  proof (cases e)
    case (Calls i k c)
    note S = site_call [of pool i k c]
    have "in_hand (made(i \<mapsto> (k, c))) begun (made'(i \<mapsto> (k, case qc_name c of None \<Rightarrow> ''other'' | Some n \<Rightarrow> n))) begun'"
      using Cons.prems S by (auto simp: in_hand_def Calls fun_eq_iff simp del: of_site.simps)
    from Cons.IH [OF _ rest this] Cons.prems(1) show ?thesis by (simp add: Calls pool_run_def del: fun_upd_apply)
  next
    case (TellsStart i c now)
    have "in_hand made (begun(i \<mapsto> trace_query_start now c)) made' (begun'(i \<mapsto> now))"
      using Cons.prems by (auto simp: in_hand_def TellsStart)
    from Cons.IH [OF _ rest this] Cons.prems(1) show ?thesis by (simp add: TellsStart pool_run_def del: fun_upd_apply)
  next
    case (TellsEnd i c now ok)
    have b: "begun i = Some c" using Cons.prems(1) by (simp add: TellsEnd)
    then obtain k c0 s where h: "made i = Some (k, c0)" "k \<noteq> BatchCall" "c = trace_query_start s c0" "begun' i = Some s"
      using Cons.prems(3) unfolding in_hand_def by blast
    have n: "made' i = Some (k, query_name c0)" "site_name_ok k (query_name c0)" using Cons.prems(3) h(1) by (auto simp: in_hand_def)
    have "in_hand (made(i := None)) (begun(i := None)) (made'(i := None)) (begun'(i := None))"
      using Cons.prems(3) by (auto simp: in_hand_def fun_eq_iff)
    from Cons.IH [OF _ rest this] Cons.prems(1)
    have IH: "pool_run (Some t) evs = concat (map (\<lambda>(k, n, took, ok). tr_observe t n took ok) (told (made'(i := None)) (begun'(i := None)) evs))
      \<and> (\<forall>(k, n, took, ok) \<in> set (told (made'(i := None)) (begun'(i := None)) evs). k \<noteq> BatchCall \<and> site_name_ok k n)
      \<and> length (told (made'(i := None)) (begun'(i := None)) evs) = length (filter (\<lambda>e. \<exists>i c now ok. e = TellsEnd i c now ok) evs)"
      by (simp add: TellsEnd del: fun_upd_apply)
    moreover have "trace_query_end t now ok c = tr_observe t (query_name c0) (now - s) ok"
      by (simp add: trace_query_end_def h(3)) (simp add: trace_query_start_def query_name_def)
    moreover have "told made' begun' (e # evs) = (k, query_name c0, now - s, ok) # told (made'(i := None)) (begun'(i := None)) evs"
      by (simp add: TellsEnd n h(4))
    ultimately show ?thesis using h(2) n(2) by (simp add: TellsEnd pool_run_def del: fun_upd_apply told.simps)
  qed
qed (simp add: pool_run_def)


text \<open>Two queries of a pool that overlap, and a batch around them of which nothing is told.\<close>

definition unnamed :: query_context where "unnamed = \<lparr>qc_name = None, qc_start = None\<rparr>"

definition overlapping_calls :: "pool_event list" where
  "overlapping_calls =
     (let events = with_query_name ''events_by_id'' unnamed; newest = with_query_name ''max_stream_ordering'' unnamed
      in [Calls 0 BatchCall (with_query_name ''joined_hosts_at_state_group'' unnamed), Calls 1 QueryCall events,
        TellsStart 1 events 2, Calls 2 QueryRowCall newest, TellsStart 2 newest 3,
        TellsEnd 1 (trace_query_start 2 events) 7 True, TellsEnd 2 (trace_query_start 3 newest) 8 False])"


end
