(* ===== verification/Reports.thy ===== *)
theory Reports
  imports Delivery Metrics
begin

text \<open>
  What a send is reported as: the callbacks of the two sinks (\<open>internal/sink/http.go\<close>, \<open>sink.go\<close>) with
  the metrics, the shadow record and the capture that \<open>newWorker\<close> connects them to. A callback is
  called where the code calls it; the order in which a Go map of counts is ranged over does not
  matter to counters, so the types of EDU come in the order of the transaction.
\<close>

section \<open>The callbacks of a sink\<close>

datatype send_report = Captured request | Reported metric

abbreviation counts :: "metric list \<Rightarrow> send_report list" where "counts ms \<equiv> map Reported ms"

text \<open>\<open>onEDUTypes\<close>, then \<open>onSent\<close>.\<close>

definition report_units :: "gjson \<Rightarrow> json \<Rightarrow> difflog option \<Rightarrow> metric list \<times> difflog option" where
  "report_units g body diff =
     (case count_units g body of (pdus, edus) \<Rightarrow>
        let types = remdups (map (edu_type_name g) (get_items g body ''edus''));
            (ms, diff') = count_transaction (int pdus) (int edus) (int (length body)) diff
        in (observe_edu_types (map (\<lambda>t. (t, int (count_edu_types g body t))) types) (int (count_presence_states g body)) @ ms, diff'))"

text \<open>
  The outcome an attempt is observed with: nothing is observed of one that could not be built, nor of
  one whose answer broke off while it was read.
\<close>

definition attempt_outcome :: "network \<Rightarrow> string option" where
  "attempt_outcome net =
     (case net of
        CannotBuild \<Rightarrow> None
      | NoAnswer \<Rightarrow> Some ''error''
      | BrokenBody \<Rightarrow> None
      | Answer resp \<Rightarrow> Some (if hr_code resp \<noteq> 200 then ''http_'' @ format_int (hr_code resp) else ''ok''))"

definition accepted_by :: "network \<Rightarrow> bool" where
  "accepted_by net = (case net of Answer resp \<Rightarrow> hr_code resp = 200 | _ \<Rightarrow> False)"

definition attempt_reports :: "gjson \<Rightarrow> json \<Rightarrow> network \<times> duration \<Rightarrow> difflog option \<Rightarrow> metric list \<times> difflog option" where
  "attempt_reports g body nt diff =
     (case nt of (net, took) \<Rightarrow>
        if net = CannotBuild then ([], diff)
        else (let observed = (case attempt_outcome net of Some outcome \<Rightarrow> send_metric outcome took | None \<Rightarrow> []);
                  (units, diff') = (if accepted_by net then report_units g body diff else ([], diff))
              in (in_flight_metric 1 @ observed @ units @ in_flight_metric (-1), diff')))"

fun http_reports :: "gjson \<Rightarrow> json \<Rightarrow> (network \<times> duration) list \<Rightarrow> difflog option \<Rightarrow> metric list \<times> difflog option" where
  "http_reports g body [] diff = ([], diff)"
| "http_reports g body (nt # nts) diff =
     (case attempt_reports g body nt diff of (ms, diff') \<Rightarrow> case http_reports g body nts diff' of (ms', diff'') \<Rightarrow> (ms @ ms', diff''))"

definition captured :: "(string \<Rightarrow> bool) option \<Rightarrow> request \<Rightarrow> send_report list" where
  "captured capture req = (case capture of Some captures \<Rightarrow> if captures (rq_destination req) then [Captured req] else [] | None \<Rightarrow> [])"

text \<open>The live sink captures before it attempts; the dry run counts first.\<close>

definition sink_reports ::
  "transport \<Rightarrow> (string \<Rightarrow> bool) option \<Rightarrow> request \<Rightarrow> (network \<times> duration) list \<Rightarrow> difflog option \<Rightarrow> send_report list \<times> difflog option" where
  "sink_reports tp capture req nts diff =
     (case tp_sink tp (rq_destination req) of
        LiveSink \<Rightarrow> (case http_reports (tp_gjson tp) (rq_body req) nts diff of (ms, diff') \<Rightarrow> (captured capture req @ counts ms, diff'))
      | DrySink \<Rightarrow> (case report_units (tp_gjson tp) (rq_body req) diff of (ms, diff') \<Rightarrow> (counts ms @ captured capture req, diff')))"

section \<open>What the reports add up to\<close>

text \<open>How far the gauge of the sends in flight is moved, and the highest it gets on the way.\<close>

fun shifted :: "send_report list \<Rightarrow> int" where
  "shifted [] = 0"
| "shifted (Reported (Shifted v d) # rs) = (if v = ''InFlightSends'' then d else 0) + shifted rs"
| "shifted (_ # rs) = shifted rs"

definition added_to :: "string \<Rightarrow> send_report list \<Rightarrow> int" where
  "added_to v rs = sum_list (List.map_filter (\<lambda>r. case r of Reported (Metric v' ls n) \<Rightarrow> if v' = v then Some n else None | _ \<Rightarrow> None) rs)"

definition outcomes :: "send_report list \<Rightarrow> string list" where
  "outcomes rs = concat (List.map_filter (\<lambda>r. case r of Reported (Observed v ls d) \<Rightarrow> if v = ''SendDuration'' then Some ls else None | _ \<Rightarrow> None) rs)"

lemma report_sums:
  "shifted (rs @ rs') = shifted rs + shifted rs'" "added_to v (rs @ rs') = added_to v rs + added_to v rs'" "outcomes (rs @ rs') = outcomes rs @ outcomes rs'"
proof -
  show "shifted (rs @ rs') = shifted rs + shifted rs'" by (induction rs rule: shifted.induct) auto
qed (simp_all add: added_to_def outcomes_def List.map_filter_def)

text \<open>A send that ends in an error has no accepted attempt, even if the context ended it.\<close>

lemma send_loop_failed:
  "send_loop att h w left n seen last_err = (evs, Inl e) \<Longrightarrow> k < tries evs \<Longrightarrow> \<exists>x. att (aw_network (w (n + k))) = Inl x"
proof (induction att h w left n seen last_err arbitrary: evs k rule: send_loop.induct)
  case (2 att h w left n seen last_err)
  define step where "step = (if n = 0 then (Some 0, seen) else rate_limit_delay (send_backoff h n (aw_draw (w n))) last_err seen)"
  obtain wait seen' where step': "step = (wait, seen')" by (cases step)
  show ?case
  proof (cases wait)
    case None
    with "2.prems" step' show ?thesis by (auto simp: step_def)
  next
    case (Some delay)
    define waited where "waited = (if n = 0 then [] else [Waited delay])"
    have tw: "tries (waited @ evs') = tries evs'" for evs' by (simp add: waited_def)
    note unf = "2.prems"(1) [unfolded send_loop.simps, folded step_def, unfolded step' Let_def prod.case Some option.case, folded waited_def]
    show ?thesis
    proof (cases "n \<noteq> 0 \<and> aw_cancel_wait (w n)")
      case True
      with unf tw [of "[]"] "2.prems"(2) show ?thesis by auto
    next
      case False
      obtain x retryable where er: "att (aw_network (w n)) = Inl (x, retryable)" using unf False by (auto split: sum.splits)
      show ?thesis
      proof (cases "\<not> retryable \<or> aw_cancelled (w n)")
        case True
        with unf False er tw [of "[Tried]"] "2.prems"(2) show ?thesis by auto
      next
        case retry: False
        obtain evs1 where rec: "send_loop att h w left (Suc n) seen' x = (evs1, Inl e)" and evs: "evs = waited @ Tried # evs1"
          using unf False er retry by (auto split: prod.splits)
        show ?thesis
        proof (cases k)
          case 0
          then show ?thesis using er by simp
        next
          case (Suc m)
          then have "m < tries evs1" using "2.prems"(2) by (simp add: evs tw)
          from "2.IH" [OF step_def step' [symmetric] Some waited_def False er refl retry rec this] show ?thesis by (simp add: Suc)
        qed
      qed
    qed
  qed
qed simp

lemma attempt_accepts: "(\<exists>res. attempt g entries net = Inr res) \<longleftrightarrow> accepted_by net"
  by (cases net) (auto simp: attempt_def accepted_by_def Let_def)

lemma failed_attempt: "attempt g entries net = Inl x \<Longrightarrow> \<not> accepted_by net"
  using attempt_accepts [of g entries net] by auto

text \<open>The attempts of a send: none is accepted but the last, and that one exactly when it succeeds.\<close>

lemma http_send_nets:
  assumes "http_send g entries h w = (evs, r)"
  defines "nets \<equiv> map (\<lambda>i. aw_network (w i)) [0..<tries evs]"
  shows "case r of Inl _ \<Rightarrow> \<forall>net \<in> set nets. \<not> accepted_by net
    | Inr _ \<Rightarrow> \<exists>ns net. nets = ns @ [net] \<and> accepted_by net \<and> (\<forall>x \<in> set ns. \<not> accepted_by x)"
proof (cases r)
  case (Inl e)
  have run: "send_loop (attempt g entries) h w (Suc (hs_retries h)) 0 0 BadRequest = (evs, Inl e)" using assms(1) Inl by (simp add: http_send_def)
  have "\<not> accepted_by net" if net: "net \<in> set nets" for net
  proof -
    obtain k where k: "k < tries evs" "net = aw_network (w k)" using net by (auto simp: nets_def)
    from send_loop_failed [OF run k(1)] show ?thesis using failed_attempt k(2) by auto
  qed
  then show ?thesis by (simp add: Inl)
next
  case (Inr res)
  have run: "send_loop (attempt g entries) h w (Suc (hs_retries h)) 0 0 BadRequest = (evs, Inr res)" using assms(1) Inr by (simp add: http_send_def)
  note S = send_loop_spec [OF run]
  then obtain m where m: "tries evs = Suc m" by (cases "tries evs") auto
  have "attempt g entries (aw_network (w m)) = Inr res" using S m by simp
  then have "accepted_by (aw_network (w m))" using attempt_accepts by blast
  moreover have "\<not> accepted_by (aw_network (w k))" if "k < m" for k
  proof -
    have "\<exists>e. attempt g entries (aw_network (w k)) = Inl (e, True)" using S that m by simp
    then show ?thesis using failed_attempt by auto
  qed
  moreover have "nets = map (\<lambda>i. aw_network (w i)) [0..<m] @ [aw_network (w m)]" by (simp add: nets_def m)
  ultimately show ?thesis unfolding Inr sum.case
    by (intro exI [of _ "map (\<lambda>i. aw_network (w i)) [0..<m]"] exI [of _ "aw_network (w m)"]) auto
qed

section \<open>The reports of a send\<close>

text \<open>The gauge ends where it began and is never more than one up in between.\<close>

definition balanced :: "send_report list \<Rightarrow> bool" where
  "balanced rs \<longleftrightarrow> shifted rs = 0 \<and> (\<forall>k. shifted (take k rs) \<in> {0, 1})"

lemma balanced_append: "balanced rs \<Longrightarrow> balanced rs' \<Longrightarrow> balanced (rs @ rs')"
  unfolding balanced_def report_sums take_append
  by (metis (no_types, lifting) add.right_neutral add_0 append_Nil2 diff_is_0_eq' linear report_sums(1) take_all_iff take_eq_Nil)

definition unshifted :: "send_report list \<Rightarrow> bool" where
  "unshifted rs \<longleftrightarrow> (\<forall>r \<in> set rs. shifted [r] = 0)"

lemma unshifted_0: "unshifted rs \<Longrightarrow> shifted rs = 0"
proof (induction rs)
  case (Cons r rs)
  then show ?case using report_sums(1) [of "[r]" rs] by (simp add: unshifted_def)
qed simp

lemma unshifted_take: "unshifted rs \<Longrightarrow> unshifted (take k rs)"
  by (meson in_set_takeD unshifted_def)

lemma unshifted_balanced: "unshifted rs \<Longrightarrow> balanced rs"
  using unshifted_take unshifted_0 by (simp add: balanced_def)

lemma balanced_between:
  assumes "unshifted rs"
  shows "balanced (counts (in_flight_metric 1) @ rs @ counts (in_flight_metric (-1)))"
proof -
  have flat: "shifted (take k rs) = 0" for k using unshifted_0 [OF unshifted_take [OF assms]] .
  have "shifted (take k (Reported (Shifted ''InFlightSends'' 1) # rs @ [Reported (Shifted ''InFlightSends'' (-1))])) \<in> {0, 1}" for k
  proof (cases k)
    case (Suc m)
    have "shifted (take (m - length rs) [Reported (Shifted ''InFlightSends'' (-1))]) \<in> {0, -1}" by (cases "m - length rs") simp_all
    then show ?thesis by (auto simp: Suc report_sums flat)
  qed simp
  then show ?thesis using unshifted_0 [OF assms] by (simp add: balanced_def in_flight_metric_def report_sums)
qed

lemma by_type_total: "sum_list (map (\<lambda>t. int (count_list xs t)) (remdups xs)) = int (length xs)"
proof -
  have "sum_list (map (count_list xs) (remdups xs)) = (\<Sum>x \<in> set xs. count_list xs x)"
    by (subst sum_list_distinct_conv_sum_set) simp_all
  also have "\<dots> = length xs" by (rule sum_count_set) simp_all
  finally have "sum_list (map (count_list xs) (remdups xs)) = length xs" .
  moreover have "sum_list (map (\<lambda>t. int (f t)) ts) = int (sum_list (map f ts))" for f :: "'a \<Rightarrow> nat" and ts by (induction ts) simp_all
  ultimately show ?thesis by simp
qed

lemma report_units_sums:
  assumes "report_units g body diff = (ms, diff')"
  shows "unshifted (counts ms)" "outcomes (counts ms) = []" "\<forall>r. Captured r \<notin> set (counts ms)"
    "diff' = map_option (record_transaction (int (fst (count_units g body))) (int (snd (count_units g body)))) diff"
    "added_to ''Transactions'' (counts ms) = 1" "added_to ''TransactionPDUs'' (counts ms) = int (fst (count_units g body))"
    "added_to ''TransactionEDUs'' (counts ms) = int (snd (count_units g body))"
    "added_to ''TransactionEDUsByType'' (counts ms) = int (snd (count_units g body))"
proof -
  define types where "types = remdups (map (edu_type_name g) (get_items g body ''edus''))"
  have ms: "ms = map (\<lambda>t. Metric ''TransactionEDUsByType'' [t] (int (count_edu_types g body t))) types
      @ (if 0 < count_presence_states g body then [Metric ''PresenceStatesSent'' [] (int (count_presence_states g body))] else [])
      @ fst (count_transaction (int (length (get_items g body ''pdus''))) (int (length (get_items g body ''edus''))) (int (length body)) diff)"
    and d: "diff' = map_option (record_transaction (int (fst (count_units g body))) (int (snd (count_units g body)))) diff"
    using assms by (auto simp: report_units_def types_def count_units_def observe_edu_types_def comp_def count_transaction_def Let_def)
  show "diff' = map_option (record_transaction (int (fst (count_units g body))) (int (snd (count_units g body)))) diff" by (rule d)
  show "unshifted (counts ms)" by (auto simp: ms unshifted_def count_transaction_def)
  show "outcomes (counts ms) = []" by (auto simp: ms outcomes_def count_transaction_def List.map_filter_def)
  show "\<forall>r. Captured r \<notin> set (counts ms)" by auto
  have none: "v \<noteq> ''TransactionEDUsByType'' \<Longrightarrow> added_to v (counts (map (\<lambda>t. Metric ''TransactionEDUsByType'' [t] (f t)) ts)) = 0" for v ts and f :: "string \<Rightarrow> int"
    by (simp add: added_to_def List.map_filter_def)
  show "added_to ''Transactions'' (counts ms) = 1" "added_to ''TransactionPDUs'' (counts ms) = int (fst (count_units g body))"
    "added_to ''TransactionEDUs'' (counts ms) = int (snd (count_units g body))"
    by (simp_all add: ms report_sums none) (simp_all add: added_to_def count_transaction_def count_units_def List.map_filter_def)
  have all: "added_to ''TransactionEDUsByType'' (counts (map (\<lambda>t. Metric ''TransactionEDUsByType'' [t] (f t)) ts)) = sum_list (map f ts)" for ts and f :: "string \<Rightarrow> int"
    by (induction ts) (simp_all add: added_to_def List.map_filter_def)
  have "sum_list (map (\<lambda>t. int (count_edu_types g body t)) types) = int (length (get_items g body ''edus''))"
    using by_type_total [of "map (edu_type_name g) (get_items g body ''edus'')"] by (simp add: types_def count_edu_types_def)
  then show "added_to ''TransactionEDUsByType'' (counts ms) = int (snd (count_units g body))"
    unfolding ms map_append report_sums all by (simp add: added_to_def count_transaction_def count_units_def List.map_filter_def)
qed

lemma observed_unshifted: "unshifted (counts (case attempt_outcome net of Some outcome \<Rightarrow> send_metric outcome took | None \<Rightarrow> []))"
  by (cases "attempt_outcome net") (simp_all add: unshifted_def send_metric_def)

lemma observed_outcomes:
  "outcomes (counts (case attempt_outcome net of Some outcome \<Rightarrow> send_metric outcome took | None \<Rightarrow> []))
    = (case attempt_outcome net of Some outcome \<Rightarrow> [outcome] | None \<Rightarrow> [])"
  "added_to v (counts (case attempt_outcome net of Some outcome \<Rightarrow> send_metric outcome took | None \<Rightarrow> [])) = 0"
  by (simp_all add: outcomes_def added_to_def send_metric_def List.map_filter_def split: option.split)

lemma in_flight_sums: "outcomes (counts (in_flight_metric d)) = []" "added_to v (counts (in_flight_metric d)) = 0"
  by (simp_all add: outcomes_def added_to_def in_flight_metric_def List.map_filter_def)

text \<open>What one attempt adds: the units only when it is accepted.\<close>

lemma attempt_reports_sums:
  assumes "attempt_reports g body (net, took) diff = (ms, diff')"
  shows "balanced (counts ms)" "outcomes (counts ms) = (case attempt_outcome net of Some outcome \<Rightarrow> [outcome] | None \<Rightarrow> [])"
    "\<not> accepted_by net \<Longrightarrow> diff' = diff \<and> added_to v (counts ms) = 0"
    "accepted_by net \<Longrightarrow> diff' = snd (report_units g body diff) \<and> added_to v (counts ms) = added_to v (counts (fst (report_units g body diff)))"
proof -
  obtain us d where u: "(if accepted_by net then report_units g body diff else ([], diff)) = (us, d)" by force
  have us: "unshifted (counts us)" "outcomes (counts us) = []"
    using u report_units_sums(1,2) by (auto simp: unshifted_def outcomes_def List.map_filter_def split: if_splits)
  define obs where "obs = (case attempt_outcome net of Some outcome \<Rightarrow> send_metric outcome took | None \<Rightarrow> [])"
  have shape: "(net = CannotBuild \<and> ms = [] \<and> diff' = diff)
      \<or> (net \<noteq> CannotBuild \<and> ms = in_flight_metric 1 @ obs @ us @ in_flight_metric (-1) \<and> diff' = d)"
    using assms by (auto simp: attempt_reports_def u Let_def obs_def split: if_splits)
  have mid: "unshifted (counts obs @ counts us)" 
  proof -
    have "unshifted (counts obs)" unfolding obs_def by (rule observed_unshifted)
    then show ?thesis using us(1) by (auto simp: unshifted_def)
  qed
  have "balanced []" by (simp add: balanced_def)
  with shape balanced_between [OF mid] show "balanced (counts ms)" by auto
  have none: "outcomes [] = []" "added_to v [] = 0" by (simp_all add: outcomes_def added_to_def List.map_filter_def)
  show "outcomes (counts ms) = (case attempt_outcome net of Some outcome \<Rightarrow> [outcome] | None \<Rightarrow> [])"
    using shape us(2) observed_outcomes(1) by (auto simp: report_sums in_flight_sums obs_def attempt_outcome_def none)
  show "diff' = diff \<and> added_to v (counts ms) = 0" if "\<not> accepted_by net"
    using shape u that observed_outcomes(2) [of v] by (auto simp: report_sums in_flight_sums obs_def none)
  show "diff' = snd (report_units g body diff) \<and> added_to v (counts ms) = added_to v (counts (fst (report_units g body diff)))" if "accepted_by net"
    using shape u that observed_outcomes(2) [of v] by (auto simp: report_sums in_flight_sums obs_def none accepted_by_def)
qed

text \<open>A run of attempts of which none but the last is accepted.\<close>

lemma http_reports_sums:
  assumes "http_reports g body nts diff = (ms, diff')"
  shows "balanced (counts ms) \<and> outcomes (counts ms) = List.map_filter (\<lambda>nt. attempt_outcome (fst nt)) nts
    \<and> ((\<forall>nt \<in> set nts. \<not> accepted_by (fst nt)) \<longrightarrow> diff' = diff \<and> added_to v (counts ms) = 0)
    \<and> (\<forall>ns nt. nts = ns @ [nt] \<longrightarrow> accepted_by (fst nt) \<longrightarrow> (\<forall>x \<in> set ns. \<not> accepted_by (fst x))
        \<longrightarrow> diff' = snd (report_units g body diff) \<and> added_to v (counts ms) = added_to v (counts (fst (report_units g body diff))))"
  using assms
proof (induction nts arbitrary: diff ms)
  case Nil
  then show ?case by (simp add: balanced_def outcomes_def added_to_def List.map_filter_def)
next
  case (Cons nt nts)
  obtain ms1 d1 ms2 where one: "attempt_reports g body nt diff = (ms1, d1)" and rest: "http_reports g body nts d1 = (ms2, diff')" and ms: "ms = ms1 @ ms2"
    using Cons.prems by (auto split: prod.splits)
  obtain net took where nt: "nt = (net, took)" by force
  note A = attempt_reports_sums [OF one [unfolded nt]] and IH = Cons.IH [OF rest]
  have "balanced (counts ms)" using A(1) IH balanced_append by (simp add: ms)
  moreover have "outcomes (counts ms) = List.map_filter (\<lambda>nt. attempt_outcome (fst nt)) (nt # nts)"
    using A(2) IH by (simp add: ms report_sums List.map_filter_simps nt split: option.split)
  moreover have "(\<forall>nt \<in> set (nt # nts). \<not> accepted_by (fst nt)) \<longrightarrow> diff' = diff \<and> added_to v (counts ms) = 0"
    using A(3) [of v] IH by (simp add: ms report_sums nt)
  moreover have "diff' = snd (report_units g body diff) \<and> added_to v (counts ms) = added_to v (counts (fst (report_units g body diff)))"
    if split: "nt # nts = ns @ [l]" "accepted_by (fst l)" "\<forall>x \<in> set ns. \<not> accepted_by (fst x)" for ns l
  proof (cases ns)
    case Nil
    then have "nts = []" "accepted_by net" using split by (auto simp: nt)
    then show ?thesis using A(4) [of v] rest by (simp add: ms report_sums)
  next
    case (Cons n ns')
    then have "nts = ns' @ [l]" "\<not> accepted_by net" "\<forall>x \<in> set ns'. \<not> accepted_by (fst x)" using split by (auto simp: nt)
    then show ?thesis using A(3) [of v] IH split(2) by (cases l) (simp add: ms report_sums)
  qed
  ultimately show ?case by blast
qed

lemma report_units_none: "added_to v (counts (fst (report_units g body diff))) = added_to v (counts (fst (report_units g body None)))"
  by (simp add: report_units_def count_transaction_def Let_def split: prod.split)

text \<open>
  The send of one batch: the units are counted once, by the attempt that is accepted, and only if
  there is no error.
\<close>

lemma sink_reports_sums:
  assumes send: "sink_send tp req w = (evs, r)" and len: "length tooks = tries evs"
    and rep: "sink_reports tp capture req (zip (map (\<lambda>i. aw_network (w i)) [0..<tries evs]) tooks) diff = (rs, diff')"
  shows "balanced rs" "added_to v rs = (if isl r then 0 else added_to v (counts (fst (report_units (tp_gjson tp) (rq_body req) diff))))"
    "diff' = (if isl r then diff else snd (report_units (tp_gjson tp) (rq_body req) diff))"
    "outcomes rs = List.map_filter attempt_outcome (map (\<lambda>i. aw_network (w i)) [0..<tries evs])"
    "filter (\<lambda>x. \<exists>q. x = Captured q) rs = captured capture req"
proof -
  let ?nets = "map (\<lambda>i. aw_network (w i)) [0..<tries evs]"
  let ?g = "tp_gjson tp"
  have cap: "unshifted (captured capture req)" "outcomes (captured capture req) = []" "added_to v (captured capture req) = 0"
    "filter (\<lambda>x. \<exists>q. x = Captured q) (captured capture req) = captured capture req"
    by (auto simp: captured_def unshifted_def outcomes_def added_to_def List.map_filter_def split: option.split)
  have cnt: "filter (\<lambda>x. \<exists>q. x = Captured q) (counts ms) = []" for ms by (auto simp: filter_empty_conv)
  have "balanced rs \<and> added_to v rs = (if isl r then 0 else added_to v (counts (fst (report_units ?g (rq_body req) diff))))
    \<and> diff' = (if isl r then diff else snd (report_units ?g (rq_body req) diff))
    \<and> outcomes rs = List.map_filter attempt_outcome ?nets \<and> filter (\<lambda>x. \<exists>q. x = Captured q) rs = captured capture req"
  proof (cases "tp_sink tp (rq_destination req)")
    case DrySink
    obtain ms d where u: "report_units ?g (rq_body req) diff = (ms, d)" by force
    have "rs = counts ms @ captured capture req" "diff' = d" using rep DrySink by (auto simp: sink_reports_def u)
    moreover have "evs = []" "\<not> isl r" using send DrySink by (auto simp: sink_send_def)
    ultimately show ?thesis using cap cnt report_units_sums(1,2) [OF u] balanced_append [OF unshifted_balanced unshifted_balanced]
      by (simp add: u report_sums List.map_filter_def)
  next
    case LiveSink
    obtain ms where h: "http_reports ?g (rq_body req) (zip ?nets tooks) diff = (ms, diff')" and rs: "rs = captured capture req @ counts ms"
      using rep LiveSink by (auto simp: sink_reports_def split: prod.splits)
    have run: "http_send ?g (tp_entries tp) (tp_http tp) w = (evs, r)" using send LiveSink by (simp add: sink_send_def)
    note H = http_reports_sums [OF h, of v] and N = http_send_nets [OF run]
    have nets: "map fst (zip ?nets tooks) = ?nets" using len by simp
    have acc: "(\<forall>nt \<in> set (zip ?nets tooks). P (fst nt)) \<longleftrightarrow> (\<forall>net \<in> set ?nets. P net)" for P
    proof -
      have "fst ` set (zip ?nets tooks) = set ?nets" using arg_cong [OF nets, of set] by (simp only: set_map)
      then have "(\<forall>net \<in> fst ` set (zip ?nets tooks). P net) \<longleftrightarrow> (\<forall>net \<in> set ?nets. P net)" by (simp only:)
      then show ?thesis by (simp only: ball_simps)
    qed
    have outs: "List.map_filter (\<lambda>nt. attempt_outcome (fst nt)) (zip ?nets tooks) = List.map_filter attempt_outcome ?nets"
      using arg_cong [OF nets, of "List.map_filter attempt_outcome"] by (simp add: List.map_filter_def filter_map comp_def)
    have "diff' = (if isl r then diff else snd (report_units ?g (rq_body req) diff))
        \<and> added_to v (counts ms) = (if isl r then 0 else added_to v (counts (fst (report_units ?g (rq_body req) diff))))"
    proof (cases r)
      case (Inl e)
      then have "\<forall>nt \<in> set (zip ?nets tooks). \<not> accepted_by (fst nt)" using N acc [of "\<lambda>x. \<not> accepted_by x"] by simp
      then show ?thesis using H Inl by simp
    next
      case (Inr res)
      then obtain ns net where n: "?nets = ns @ [net]" "accepted_by net" "\<forall>x \<in> set ns. \<not> accepted_by x" using N by auto
      have "length (zip ?nets tooks) = Suc (length ns)" using len n(1) by (metis length_append_singleton length_map length_upt length_zip min.idem minus_nat.diff_0)
      then obtain ps p where z: "zip ?nets tooks = ps @ [p]" by (metis length_Suc_conv_rev)
      then have "map fst ps = ns" "fst p = net" using nets n(1) by simp_all
      then have "fst ` set ps = set ns" "accepted_by (fst p)" using n(2) by (auto simp flip: set_map)
      then have "accepted_by (fst p)" "\<forall>x \<in> set ps. \<not> accepted_by (fst x)" using n(3) by blast+
      then show ?thesis using H z Inr by (simp only: sum.disc if_False)
    qed
    then show ?thesis using H cap cnt outs balanced_append [OF unshifted_balanced [OF cap(1)]] by (simp add: rs report_sums)
  qed
  then show "balanced rs" "added_to v rs = (if isl r then 0 else added_to v (counts (fst (report_units (tp_gjson tp) (rq_body req) diff))))"
    "diff' = (if isl r then diff else snd (report_units (tp_gjson tp) (rq_body req) diff))"
    "outcomes rs = List.map_filter attempt_outcome ?nets" "filter (\<lambda>x. \<exists>q. x = Captured q) rs = captured capture req" by simp_all
qed

text \<open>
  C35. What the worker says it sent is what it sent. Whatever the sink, the network and the remote do,
  the reports of sending one batch add up: a transaction with its events and EDUs is counted, in the
  metrics and in the shadow record, exactly when the queue is told that it was delivered, once
  however many attempts it took; the EDUs by type sum to the EDUs; the request is captured once if
  its destination is captured, delivered or not; the gauge of sends in flight is at most one up and
  ends where it was; and every attempt is timed under its outcome, except one whose answer breaks
  off while it is read, of which nothing is reported.
\<close>

theorem sends_are_counted:
  assumes "destination_send tp n now w ids t = (ids', Some req, nets, err, warned)" "length tooks = length nets"
    and "sink_reports tp capture req (zip nets tooks) diff = (rs, diff')"
    and "count_units (tp_gjson tp) (rq_body req) = (pdus, edus)"
  shows "balanced rs
    \<and> added_to ''Transactions'' rs = (if err = None then 1 else 0)
    \<and> added_to ''TransactionPDUs'' rs = (if err = None then int pdus else 0)
    \<and> added_to ''TransactionEDUs'' rs = (if err = None then int edus else 0)
    \<and> added_to ''TransactionEDUsByType'' rs = added_to ''TransactionEDUs'' rs
    \<and> diff' = (if err = None then map_option (record_transaction (int pdus) (int edus)) diff else diff)
    \<and> filter (\<lambda>x. \<exists>q. x = Captured q) rs = captured capture req
    \<and> outcomes rs = List.map_filter attempt_outcome nets"
proof -
  obtain evs r where send: "sink_send tp req w = (evs, r)" by force
  obtain ids1 txn_id where nx: "next_id ids = (ids1, txn_id)" by force
  have built: "build_request (tp_canon tp) (tp_signer tp) txn_id n (taken_transaction tp now t) = Some req"
    using assms(1) by (auto simp: destination_send_def nx Let_def split: prod.splits option.splits sum.splits if_splits)
  note D = assms(1) [unfolded destination_send_def nx prod.case built option.case send Let_def]
  have nets: "nets = map (\<lambda>i. aw_network (w i)) [0..<tries evs]" using D by (auto split: sum.splits if_splits)
  have ok: "sr_delivered res" if "r = Inr res" for res
    using send that live_answer by (auto simp: sink_send_def dry_run_send_def split: sink_used.splits prod.splits)
  have err: "err = None \<longleftrightarrow> \<not> isl r"
    using D ok by (cases r) auto
  obtain us d where u: "report_units (tp_gjson tp) (rq_body req) diff = (us, d)" by force
  note U = report_units_sums(4-8) [OF u, unfolded assms(4) fst_conv snd_conv]
  note S = sink_reports_sums [OF send _ assms(3) [unfolded nets]]
  have len: "length tooks = tries evs" using assms(2) by (simp add: nets)
  show ?thesis using S(1,3-5) [OF len] S(2) [OF len, of "''Transactions''"] S(2) [OF len, of "''TransactionPDUs''"]
      S(2) [OF len, of "''TransactionEDUs''"] S(2) [OF len, of "''TransactionEDUsByType''"] U
    by (simp add: u err nets)
qed

text \<open>A transaction that the second attempt delivers, after an answer that breaks off.\<close>

definition broken_then_ok :: "nat \<Rightarrow> attempt_world" where
  "broken_then_ok i = \<lparr>aw_draw = 1/2, aw_cancel_wait = False,
     aw_network = (if i = 0 then BrokenBody else Answer \<lparr>hr_code = 200, hr_body = ''{}'', hr_retry_after = []\<rparr>), aw_cancelled = False\<rparr>"

lemma broken_send: "http_send g entries (new_http 1 0) broken_then_ok
    = ([Tried, Waited (4400 * millisecond), Tried], Inr \<lparr>sr_delivered = True, sr_status = 200, sr_pdu_errors = pdu_errors g entries ''{}''\<rparr>)"
  by (simp add: http_send_def new_http_def eval_nat_numeral attempt_def broken_then_ok_def rate_limit_delay_def attempt_rate_limited_def Let_def
      send_backoff_def base_backoff_def wrap64_def)

theorem sends_are_counted_witness:
  "\<exists>req rs d. (\<exists>ids' nets. destination_send sample_transport ''b.example'' (7 * second) broken_then_ok \<lparr>ig_prefix = ''gofed-'', ig_next = 7000\<rparr>
         (one_event (sample_pdu ''$1'' 7)) = (ids', Some req, nets, None, []))
     \<and> sink_reports sample_transport (Some (\<lambda>_. True)) req [(BrokenBody, 30), (Answer \<lparr>hr_code = 200, hr_body = ''{}'', hr_retry_after = []\<rparr>, 40)] None = (rs, d)
     \<and> added_to ''Transactions'' rs = 1 \<and> outcomes rs = [''ok''] \<and> shifted rs = 0"
proof -
  let ?ok = "Answer \<lparr>hr_code = 200, hr_body = ''{}'', hr_retry_after = []\<rparr>"
  obtain ids' req where send: "destination_send sample_transport ''b.example'' (7 * second) broken_then_ok \<lparr>ig_prefix = ''gofed-'', ig_next = 7000\<rparr>
      (one_event (sample_pdu ''$1'' 7)) = (ids', Some req, [BrokenBody, ?ok], None, [])"
    by (simp add: sample_transport_def destination_send_def taken_transaction_def batch_transaction_def build_request_def sample_signer_def
        next_id_def wrap64_small sink_send_def broken_send no_errors_read one_event_def broken_then_ok_def)
  obtain rs d where rep: "sink_reports sample_transport (Some (\<lambda>_. True)) req (zip [BrokenBody, ?ok] [30, 40]) None = (rs, d)" by force
  obtain pdus edus where u: "count_units (tp_gjson sample_transport) (rq_body req) = (pdus, edus)" by force
  note sends_are_counted [OF send _ rep u]
  then have "added_to ''Transactions'' rs = 1 \<and> outcomes rs = [''ok''] \<and> shifted rs = 0"
    by (simp add: balanced_def attempt_outcome_def List.map_filter_def)
  with send rep show ?thesis by auto
qed

end
