(* ===== verification/Spec2Isabelle.thy ===== *)
theory Spec2Isabelle
  imports Retry Manager Destinations HostCache Sharding CatchUp Devices StateGroups Typing Replication Rows Sink ResolveCache Worker Txn SynapseCfg Config RouteCompare CaptureCompare CaptureLog Recorder Difflog Startup DeviceQueries Console Metrics FedCompare Lifecycle Delivery Sweep Tracing Reports
begin

text \<open>
  A verification library for synapse-gofederation-worker, a federation sender for a Synapse
  homeserver written in Go: it follows Synapse's replication stream and database and delivers
  events and ephemeral units to remote servers, either really (a primary, or an allowlisted set of
  destinations) or only for comparison (a shadow).

  \<^bold>\<open>The program.\<close> \<open>cmd/gofederation-worker\<close> reads its configuration (\<open>internal/config\<close>,
  \<open>internal/synapsecfg\<close>), opens the databases (\<open>internal/store\<close> for Synapse's tables,
  \<open>internal/state\<close> for its own) and starts one goroutine per stream. The subscriber
  (\<open>internal/replication\<close>) turns Redis messages into rows; the handler gives each row to a sender of
  \<open>internal/sender\<close>. The event pipeline reads new events in batches, groups them by room, asks
  \<open>internal/destinations\<close> who must receive each one, filters by the shard (\<open>internal/sharding\<close>) and
  by the backoff (\<open>internal/retry\<close>), and puts it into the queues of the destinations
  (\<open>internal/queue\<close>). A destination with work runs one transmission loop, which takes a batch,
  builds and signs a transaction (\<open>internal/txn\<close>) and hands it to a sink (\<open>internal/sink\<close>): the HTTP
  sender, the dry run, or the router between them. What was delivered is written back through the
  bookkeeping of the worker; what could not be delivered is left to catch-up. A shadow keeps totals
  (\<open>internal/difflog\<close>) and captures (\<open>internal/capture\<close>), which \<open>internal/compare\<close> and
  \<open>cmd/fedcompare\<close> compare with what Synapse sent; \<open>cmd/fedrecorder\<close> records the other side.

  \<^bold>\<open>Theories.\<close> Source paths are under \<open>src/\<close>; unless said, \<open>internal/\<close> is left out.
  \<^item> \<open>Prelude\<close>: time arithmetic, \<open>strings.Cut\<close>, slices, the conditional upsert, a page of a table;
    the collections \<open>slice_simps\<close>, \<open>upsert_simps\<close>, \<open>page_simps\<close> that carry the component proofs.
  \<^item> \<open>Retry\<close> (\<open>retry/retry.go\<close>): the limiter. A run of failures keeps the start of the outage and an
    interval within its bounds; a success ends it; a rate limit is not a failure; the locale
    \<open>persisted_op\<close> says that what is persisted is what a restart reads.
  \<^item> \<open>Queue\<close>, \<open>Merging\<close>, \<open>QueueLoop\<close>, \<open>Manager\<close> (\<open>queue/\<close>): the data of one destination and its
    critical sections; the three merging kinds of unit against a last-writer-wins map (locale
    \<open>last_writer\<close>); the goroutines as an interleaving of sections, with first-in first-out delivery,
    one transaction at a time, the size limits and what the marks promise; the map of queues.
  \<^item> \<open>GoJson\<close> (\<open>txn/pdu.go\<close>): the JSON interface, and the serialisation of a PDU.
  \<^item> \<open>Destinations\<close>, \<open>HostCache\<close> (\<open>destinations/\<close>): eligibility, the destinations of an event with every
    fallback, and the cache of joined hosts, which never changes an answer (locale \<open>read_through\<close>).
  \<^item> \<open>Sharding\<close> (\<open>sharding/sharding.go\<close>): SHA-256 and the choice of the instance.
  \<^item> \<open>Paging\<close>, \<open>Store\<close> (\<open>store/\<close>, \<open>state/state.go\<close>): the contract of a stream read (locale
    \<open>paged_stream\<close>), every query as a function of the tables, every write.
  \<^item> \<open>Routing\<close>, \<open>RoomPool\<close>, \<open>Sender\<close> (\<open>sender/event.go\<close>, \<open>auth.go\<close>, \<open>sender.go\<close>): one event, the
    concurrent rooms of a batch, the pickup loop. Events of a room keep their order, no event is
    skipped, and a poke is not lost.
  \<^item> \<open>CatchUp\<close> (\<open>sender/catchup.go\<close>), \<open>Devices\<close> (\<open>sender/devices.go\<close>, \<open>devicelist.go\<close>),
    \<open>DeviceQueries\<close> (\<open>store/devices.go\<close>), \<open>StateGroups\<close> (\<open>store/state.go\<close>), \<open>Ephemeral\<close>
    (\<open>sender/ephemeral.go\<close>), \<open>Typing\<close> (\<open>sender/typing.go\<close>): the other senders and their queries.
  \<^item> \<open>Sweep\<close> (\<open>CatchUp.Run\<close>, \<open>sweep\<close>): the goroutine that starts catch-ups, its slots and its waits, while
    the tables change. The locale \<open>destination_pages\<close> is what a walk over the pages of a query relies
    on, interpreted on the query of \<open>Store\<close>; it gives that nobody owed something is passed over.
  \<^item> \<open>Replication\<close>, \<open>Rows\<close> (\<open>replication/\<close>): the subscriber driven by channel events, and the parsers.
  \<^item> \<open>Sink\<close>, \<open>ResolveCache\<close> (\<open>sink/\<close>): the retry loop of a send, the allowlist, the dry run, the cache.
  \<^item> \<open>Worker\<close> (\<open>cmd/gofederation-worker/handler.go\<close>, \<open>writer.go\<close>): rows into work, outcomes into
    writes; the composition of queue, sink, limiter and tables.
  \<^item> \<open>Txn\<close> (\<open>txn/txn.go\<close>): transaction ids and signed requests.
  \<^item> \<open>Delivery\<close> (\<open>queue/queue.go\<close>, \<open>Destination.send\<close>): the loop of one destination with the transaction,
    the sink, the limiter and the clock in place of arbitrary answers, as a step relation that refines
    \<open>QueueLoop\<close>: what the remote accepted is what left the queue, and a server that does not answer
    is dialled on its interval. Below, at the end of this theory: what a shadow never touches.
  \<^item> \<open>SynapseCfg\<close>, \<open>Config\<close>, \<open>Startup\<close> (\<open>synapsecfg/\<close>, \<open>config/\<close>, \<open>state/schema.go\<close>,
    \<open>cmd/gofederation-worker/main.go\<close>): from the decoded YAML to a running worker, or to nothing.
  \<^item> \<open>Metrics\<close> (\<open>metrics/metrics.go\<close>), \<open>Lifecycle\<close> (\<open>cmd/gofederation-worker/run.go\<close>): the collectors
    and every report to one; the tasks of a running worker, from the start to the end of the last.
  \<^item> \<open>Tracing\<close> (\<open>dbtrace/dbtrace.go\<close>): the tracer of the pools under calls that overlap: everything is
    measured once under its own name, except the query at a state group, which is sent as a batch.
  \<^item> \<open>Reports\<close> (\<open>sink/http.go\<close>, \<open>sink.go\<close> with \<open>cmd/gofederation-worker/observer.go\<close>): the callbacks of a send,
    in order, and that they add up to what the queue was told.
  \<^item> \<open>Console\<close> (\<open>logfmt/console.go\<close>): a log line for a terminal, whose fields read back.
  \<^item> \<open>RouteCompare\<close> (\<open>compare/\<close>), \<open>CaptureCompare\<close>, \<open>CaptureLog\<close> (\<open>capture/\<close>), \<open>Recorder\<close>
    (\<open>cmd/fedrecorder/main.go\<close>), \<open>Difflog\<close> (\<open>difflog/\<close>, \<open>cmd/gofederation-worker/observer.go\<close>),
    \<open>FedCompare\<close> (\<open>cmd/fedcompare/main.go\<close>): the records of both sides, their comparison and its report.

  \<^bold>\<open>How the code is modelled.\<close> A struct is a record, an enumeration a datatype, a mutex section one
  function from state to state, a goroutine a program counter between sections with any interleaving
  of the sections. An error is a value (\<open>option\<close> or a sum), so every early return is a branch.
  A call on the outside - a query, a clock, a random draw, a system call, the answer of a remote
  server - is an input: a record called a world or an environment holds the answers of one operation,
  and nothing is assumed of them unless a theorem says so. What an operation does outwards is a list
  of effects in the order of the code. Libraries that are not part of the repository (gjson, sjson,
  the canonical encoder, signing keys, YAML, \<open>json.Marshal\<close> of the bodies, the resolver) are
  arguments; where a theorem relies on their documented behaviour it is a hypothesis by name, and the
  witness of the theorem gives a concrete instance. Integers are \<open>int\<close> where the code cannot reach
  the ends of 64 bits, with \<open>wrap64\<close> where it multiplies a duration and words in SHA-256 and the
  counters of \<open>Difflog\<close>. \<open>float64\<close> is idealised as \<open>rat\<close>. A Go map is a map, or an association
  list with distinct keys where the code ranges over it.

  \<^bold>\<open>Fuel and termination.\<close> The recursive query of \<open>StateGroups\<close> runs with fuel, and its property
  says how much ends; the loops over pages end by the contract of \<open>paged_stream\<close>; the pickup loop and
  the catch-up loop take the list of what each turn meets, so a run is as long as the list. Every
  other function is total.

  \<^bold>\<open>Not modelled.\<close> Which log lines are written, though not how one is rendered; the Prometheus
  client; the parsing of the command-line flags; tickers and the HTTP server of the worker, of which
  only the end as a task is; the transport below the HTTP sender; the SQL text itself, of which each
  query function states the meaning, and \<open>pgx\<close>, of which only the calls it tells a tracer about are
  an argument (\<open>hears_of\<close>); the bytes of canonical JSON.
\<close>

section \<open>What a shadow touches\<close>

text \<open>The writes of the worker's bookkeeping, each with whether the databases would take it.\<close>

datatype worker_write =
    EdusDone bool bool string int int
  | EventDone bool string int
  | RoutesFound bool "string list" string int
  | PositionMoved bool int
  | BackoffChanged bool bool string timings

fun do_write :: "worker_write \<Rightarrow> worker \<Rightarrow> worker" where
  "do_write (EdusDone a b d td dl) wk = on_edus_delivered a b d td dl wk"
| "do_write (EventDone ok d so) wk = on_delivered ok d so wk"
| "do_write (RoutesFound ok ds room so) wk = fst (worker_record_routes ok ds room so wk)"
| "do_write (PositionMoved ok sid) wk = fst (worker_record_position ok sid wk)"
| "do_write (BackoffChanged a b d t) wk = fst (persist_timings a b d t wk)"

lemma no_writer_no_write: "\<not> wk_writer wk \<Longrightarrow> fold do_write ws wk = wk"
proof (induction ws)
  case (Cons w ws)
  then show ?case
    by (cases w) (simp_all add: on_edus_delivered_def on_delivered_def worker_record_routes_def worker_record_position_def persist_timings_def)
qed simp

lemma resolved_config: "resolve_config c s = Inr r \<Longrightarrow> re_config r = c"
  by (elim resolved_shape) (metis resolved_databases(1))


text \<open>A shadow hands an event to its dry run.\<close>

lemma shadow_dial: "k ''b.example'' = DrySink \<Longrightarrow>
    \<exists>d x. delivery_execs (\<lambda>_. True) (sample_transport\<lparr>tp_sink := k\<rparr>) ''b.example'' first_dial sample_start = Some d
      \<and> dv_history d = [Dialled x] \<and> di_error x = None"
  by (simp add: first_dial_def sample_start_def start_delivery_def queue_eval due_def due_within_def seed_def
      sample_limiter_def new_limiter_def sample_transport_def destination_send_def taken_transaction_def batch_transaction_def
      build_request_def sample_signer_def next_id_def wrap64_small sink_send_def dry_run_send_def count_units_def
      report_outcome_def on_send_outcome_def success_def after_dial_def queue_answer_def pause_after_def
      off_cooldown_def timings_due_def milliseconds_def go_div_def)


end
